(* ===== verification/Prelude.thy ===== *)
theory Prelude
  imports Complex_Main "HOL-Library.Multiset" "HOL-Library.Product_Lexorder"
    "HOL-Library.List_Lexorder" "HOL-Library.Char_ord"
begin

text \<open>
  What the component theories share: the types that stand for Go's machine-level data,
  the tables of the database with the SQL statements the program sends, Go's stable sort
  with the contract of a comparison function, and Go's string helpers.

  Instants are nanoseconds since Go's zero time (1 January of year 1), so the zero
  \<open>time.Time\<close> is \<open>0\<close> and \<open>IsZero\<close> is a test for \<open>0\<close>; durations are nanoseconds.
  Float64 values that are only copied, compared, or combined by exact operations are
  rationals.  Strings are byte lists.
\<close>

section \<open>Base types\<close>

type_synonym time = int
type_synonym duration = int
type_synonym int64 = int
type_synonym float64 = rat

named_theorems go_defs \<open>definitions of Go's primitives\<close>
named_theorems frame_simps \<open>fields an operation leaves alone\<close>
named_theorems sql_simps \<open>facts on the statements the database runs\<close>

definition nanosecond :: duration where [go_defs]: "nanosecond = 1"
definition millisecond :: duration where [go_defs]: "millisecond = 1000000"
definition second :: duration where [go_defs]: "second = 1000000000"
definition minute :: duration where [go_defs]: "minute = 60000000000"
definition hour :: duration where [go_defs]: "hour = 3600000000000"

text \<open>Go's integer division truncates towards zero; division by zero panics and is not used.\<close>

definition go_div :: "int \<Rightarrow> int \<Rightarrow> int" where
  "go_div a b = sgn a * sgn b * (\<bar>a\<bar> div \<bar>b\<bar>)"

lemma go_div_nonneg: "0 \<le> a \<Longrightarrow> 0 < b \<Longrightarrow> go_div a b = a div b"
  by (cases "a = 0") (auto simp: go_div_def)

lemma go_div_pos_imp: "0 < go_div a b \<Longrightarrow> 0 < b \<Longrightarrow> 0 < a"
proof (rule ccontr)
  assume pos: "0 < go_div a b" and b: "0 < b" and "\<not> 0 < a"
  then have "0 \<le> \<bar>a\<bar> div \<bar>b\<bar>" and "sgn a * sgn b \<le> 0"
    by (auto simp: sgn_if pos_imp_zdiv_nonneg_iff)
  then have "go_div a b \<le> 0" by (simp add: go_div_def mult_nonpos_nonneg)
  with pos show False by simp
qed

lemma go_div_neg_le_0:
  assumes "a \<le> 0" and "0 < b"
  shows "go_div a b \<le> 0"
  using assms go_div_pos_imp [of a b] by force

section \<open>Strings\<close>

text \<open>
  \<open>strings.ToLower\<close>, \<open>strings.TrimSpace\<close> and \<open>strings.Contains\<close> on ASCII text; bytes of
  multi-byte characters are kept as they are.
\<close>

definition lower_char :: "char \<Rightarrow> char" where
  "lower_char c =
     (let n = (of_char c :: nat) in if 65 \<le> n \<and> n \<le> 90 then char_of (n + 32) else c)"

definition to_lower :: "string \<Rightarrow> string" where
  "to_lower s = map lower_char s"

definition is_space :: "char \<Rightarrow> bool" where
  "is_space c = (c \<in> {CHR '' '', CHR 0x09, CHR 0x0A, CHR 0x0B, CHR 0x0C, CHR 0x0D})"

definition trim_space :: "string \<Rightarrow> string" where
  "trim_space s = rev (dropWhile is_space (rev (dropWhile is_space s)))"

fun has_prefix :: "string \<Rightarrow> string \<Rightarrow> bool" where
  "has_prefix s [] = True"
| "has_prefix [] (p # ps) = False"
| "has_prefix (c # s) (p # ps) = (c = p \<and> has_prefix s ps)"

fun str_contains :: "string \<Rightarrow> string \<Rightarrow> bool" where
  "str_contains [] sub = (sub = [])"
| "str_contains (c # s) sub = (has_prefix (c # s) sub \<or> str_contains s sub)"

definition equal_fold :: "string \<Rightarrow> string \<Rightarrow> bool" where
  "equal_fold a b = (to_lower a = to_lower b)"

lemma has_prefix_append: "has_prefix (p @ s) p"
  by (induction p) auto

lemma has_prefix_iff: "has_prefix s p \<longleftrightarrow> (\<exists>r. s = p @ r)"
  by (induction s p rule: has_prefix.induct) auto

lemma equal_fold_refl [simp]: "equal_fold a a"
  by (simp add: equal_fold_def)

lemma equal_fold_sym: "equal_fold a b \<Longrightarrow> equal_fold b a"
  by (simp add: equal_fold_def)

text \<open>\<open>strconv.FormatInt(n, 10)\<close>.\<close>

fun nat_digits :: "nat \<Rightarrow> string" where
  "nat_digits n = (if n < 10 then [char_of (48 + n)] else nat_digits (n div 10) @ [char_of (48 + n mod 10)])"

declare nat_digits.simps [simp del]

definition format_int :: "int \<Rightarrow> string" where
  "format_int n = (if n < 0 then CHR ''-'' # nat_digits (nat (- n)) else nat_digits (nat n))"

definition digit :: "char \<Rightarrow> bool" where
  "digit c \<longleftrightarrow> 48 \<le> (of_char c :: nat) \<and> (of_char c :: nat) \<le> 57"

lemma digit_char_of: "(d::nat) < 10 \<Longrightarrow> digit (char_of (48 + d))"
  by (simp add: digit_def)

lemma nat_digits_digit: "c \<in> set (nat_digits n) \<Longrightarrow> digit c"
proof (induction n rule: nat_digits.induct)
  case (1 n)
  from 1(2) show ?case
    by (subst (asm) nat_digits.simps) (auto intro: digit_char_of 1(1) split: if_splits)
qed

lemma digit_char_inj: "(i::nat) < 10 \<Longrightarrow> (j::nat) < 10 \<Longrightarrow> char_of (48 + i) = (char_of (48 + j) :: char) \<Longrightarrow> i = j"
proof -
  assume "i < 10" "j < 10" and e: "char_of (48 + i) = (char_of (48 + j) :: char)"
  then have "of_char (char_of (48 + i) :: char) = (48 + i :: nat)" "of_char (char_of (48 + j) :: char) = (48 + j :: nat)"
    by simp_all
  with e show "i = j" by simp
qed

lemma nat_digits_nonempty [simp]: "nat_digits n \<noteq> []" "[] \<noteq> nat_digits n"
  by (subst nat_digits.simps, simp)+

lemma nat_digits_inj: "nat_digits a = nat_digits b \<Longrightarrow> a = b"
proof (induction a arbitrary: b rule: nat_digits.induct)
  case (1 a)
  note e = 1(2) [unfolded nat_digits.simps [of a] nat_digits.simps [of b]]
  show ?case
  proof (cases "a < 10")
    case True
    with e show ?thesis by (cases "b < 10") (auto dest: digit_char_inj)
  next
    case False
    with e have b: "\<not> b < 10" by auto
    with e False have "nat_digits (a div 10) = nat_digits (b div 10)" "a mod 10 = b mod 10"
      by (auto dest: digit_char_inj [rotated 2])
    with 1(1) [OF False] show ?thesis by (metis div_mod_decomp)
  qed
qed

lemma format_int_inj: "format_int a = format_int b \<Longrightarrow> a = b"
proof -
  have d: "nat_digits n \<noteq> CHR ''-'' # xs" for n xs
    using nat_digits_digit [of "CHR ''-''" n] by (auto simp: digit_def)
  then have d': "CHR ''-'' # xs \<noteq> nat_digits n" for n xs by metis
  assume "format_int a = format_int b"
  then show "a = b" by (auto simp: format_int_def d d' dest!: nat_digits_inj split: if_splits)
qed

text \<open>A number, a separator that is no digit, and any text: the pair can be read back.\<close>

lemma format_int_sep:
  assumes "format_int a @ c # s = format_int b @ c # t" and "\<not> digit c" and "c \<noteq> CHR ''-''"
  shows "a = b \<and> s = t"
proof -
  have n: "c \<notin> set (format_int x)" for x
    using assms(2,3) nat_digits_digit [of c] by (auto simp: format_int_def)
  then have "takeWhile (\<lambda>x. x \<noteq> c) (format_int x @ c # u) = format_int x" for x u
    by (subst takeWhile_append2) auto
  with assms(1) have "format_int a = format_int b" by metis
  with assms(1) format_int_inj show ?thesis by auto
qed

section \<open>Tables\<close>

text \<open>
  A table is its rows in insertion order with the last value of its AUTOINCREMENT key.
  \<open>upd_where\<close> is UPDATE ... WHERE, \<open>n_where\<close> the number of rows a statement affects,
  \<open>del_where\<close> is DELETE ... WHERE and \<open>tget\<close> a SELECT by primary key.
\<close>

record 'r table =
  rows :: "'r list"
  seq :: int

definition upd_where :: "('r \<Rightarrow> bool) \<Rightarrow> ('r \<Rightarrow> 'r) \<Rightarrow> 'r table \<Rightarrow> 'r table" where
  "upd_where P f t = t\<lparr>rows := map (\<lambda>r. if P r then f r else r) (rows t)\<rparr>"

definition n_where :: "('r \<Rightarrow> bool) \<Rightarrow> 'r table \<Rightarrow> nat" where
  "n_where P t = length (filter P (rows t))"

definition del_where :: "('r \<Rightarrow> bool) \<Rightarrow> 'r table \<Rightarrow> 'r table" where
  "del_where P t = t\<lparr>rows := filter (\<lambda>r. \<not> P r) (rows t)\<rparr>"

definition tget :: "('r \<Rightarrow> int) \<Rightarrow> int \<Rightarrow> 'r table \<Rightarrow> 'r option" where
  "tget rid i t = find (\<lambda>r. rid r = i) (rows t)"

definition tinsert :: "(int \<Rightarrow> 'r \<Rightarrow> 'r) \<Rightarrow> 'r \<Rightarrow> 'r table \<Rightarrow> 'r table" where
  "tinsert set_id r t = \<lparr>rows = rows t @ [set_id (seq t + 1) r], seq = seq t + 1\<rparr>"

definition twf :: "('r \<Rightarrow> int) \<Rightarrow> 'r table \<Rightarrow> bool" where
  "twf rid t \<longleftrightarrow> distinct (map rid (rows t)) \<and> (\<forall>r \<in> set (rows t). 0 < rid r \<and> rid r \<le> seq t) \<and> 0 \<le> seq t"

lemma set_upd_where: "set (rows (upd_where P f t)) = (\<lambda>r. if P r then f r else r) ` set (rows t)"
  by (simp add: upd_where_def)

lemma in_upd_whereE:
  assumes "r \<in> set (rows (upd_where P f t))"
  obtains r0 where "r0 \<in> set (rows t)" "r = (if P r0 then f r0 else r0)"
  using assms by (auto simp: upd_where_def)

lemma upd_where_member: "r \<in> set (rows t) \<Longrightarrow> (if P r then f r else r) \<in> set (rows (upd_where P f t))"
  unfolding set_upd_where by (rule imageI)

lemma set_del_where: "set (rows (del_where P t)) = {r \<in> set (rows t). \<not> P r}"
  by (auto simp: del_where_def)

lemma set_tinsert: "set (rows (tinsert g r t)) = insert (g (seq t + 1) r) (set (rows t))"
  by (simp add: tinsert_def)

lemma seq_upd_where [simp]: "seq (upd_where P f t) = seq t"
  by (simp add: upd_where_def)

lemma seq_del_where [simp]: "seq (del_where P t) = seq t"
  by (simp add: del_where_def)

lemma seq_tinsert [simp]: "seq (tinsert g r t) = seq t + 1"
  by (simp add: tinsert_def)

lemma n_where_0_iff: "n_where P t = 0 \<longleftrightarrow> (\<forall>r \<in> set (rows t). \<not> P r)"
  by (auto simp: n_where_def filter_empty_conv)

lemma upd_where_none: "n_where P t = 0 \<Longrightarrow> upd_where P f t = t"
  by (auto simp: n_where_0_iff upd_where_def map_idI)

text \<open>Counting rows after an update.\<close>

lemma n_where_upd: "n_where R (upd_where P f t) = n_where (\<lambda>r. R (if P r then f r else r)) t"
  by (simp add: n_where_def upd_where_def filter_map o_def)

lemma n_where_upd_same: "(\<And>r. P r \<Longrightarrow> R (f r) = R r) \<Longrightarrow> n_where R (upd_where P f t) = n_where R t"
  unfolding n_where_upd unfolding n_where_def by (intro arg_cong [where f = length] filter_cong) auto

lemma n_where_mono: "(\<And>r. r \<in> set (rows t) \<Longrightarrow> R r \<Longrightarrow> S r) \<Longrightarrow> n_where R t \<le> n_where S t"
proof -
  assume "\<And>r. r \<in> set (rows t) \<Longrightarrow> R r \<Longrightarrow> S r"
  then have "filter R (filter S (rows t)) = filter R (rows t)"
    unfolding filter_filter by (intro filter_cong) auto
  then show ?thesis unfolding n_where_def by (metis length_filter_le)
qed

lemma n_where_upd_le: "(\<And>r. P r \<Longrightarrow> R (f r) \<Longrightarrow> R r) \<Longrightarrow> n_where R (upd_where P f t) \<le> n_where R t"
  unfolding n_where_upd by (rule n_where_mono) (auto split: if_splits)

lemma n_where_del_le: "n_where R (del_where D t) \<le> n_where R t"
proof -
  have "length (filter R (filter N xs)) \<le> length (filter R xs)" for N xs by (induction xs) auto
  then show ?thesis by (simp add: n_where_def del_where_def)
qed

lemma n_where_upd_turn:
  assumes "\<And>r. P r \<Longrightarrow> \<not> R r \<and> R (f r)"
  shows "n_where R (upd_where P f t) = n_where R t + n_where P t"
proof -
  have "length (filter (\<lambda>r. R (if P r then f r else r)) xs) = length (filter R xs) + length (filter P xs)" for xs
    using assms by (induction xs) auto
  then show ?thesis unfolding n_where_upd by (simp add: n_where_def)
qed

lemma tget_Some: "tget rid i t = Some r \<Longrightarrow> r \<in> set (rows t) \<and> rid r = i"
  by (auto simp: tget_def find_Some_iff)

lemma tget_None: "tget rid i t = None \<longleftrightarrow> (\<forall>r \<in> set (rows t). rid r \<noteq> i)"
  by (auto simp: tget_def find_None_iff)

lemmas table_sets [sql_simps] = set_upd_where set_del_where set_tinsert

text \<open>
  The contract of a row type: an identifier the insertion sets.  Updates that keep the
  identifier keep the table well formed, and reading a row back after an update gives the
  updated row.
\<close>

locale id_table =
  fixes rid :: "'r \<Rightarrow> int" and set_id :: "int \<Rightarrow> 'r \<Rightarrow> 'r"
  assumes rid_set: "rid (set_id i r) = i"
begin

lemma wf_insert: "twf rid t \<Longrightarrow> twf rid (tinsert set_id r t)"
  by (force simp: twf_def tinsert_def rid_set)

lemma wf_delete: "twf rid t \<Longrightarrow> twf rid (del_where P t)"
  by (auto simp: twf_def del_where_def distinct_map intro: inj_on_subset)

lemma map_rid_update:
  assumes "\<And>r. P r \<Longrightarrow> rid (f r) = rid r"
  shows "map rid (rows (upd_where P f t)) = map rid (rows t)"
  using assms by (simp add: upd_where_def)

lemma wf_update:
  assumes "\<And>r. P r \<Longrightarrow> rid (f r) = rid r" and "twf rid t"
  shows "twf rid (upd_where P f t)"
proof -
  have "distinct (map rid (rows (upd_where P f t)))"
    using assms(2) by (simp only: map_rid_update [of P f t, OF assms(1)] twf_def)
  then show ?thesis using assms(2) by (auto simp: twf_def set_upd_where assms(1))
qed

lemma find_distinct: "distinct (map rid xs) \<Longrightarrow> r \<in> set xs \<Longrightarrow> find (\<lambda>x. rid x = rid r) xs = Some r"
  by (induction xs) auto

lemma get_member: "twf rid t \<Longrightarrow> r \<in> set (rows t) \<Longrightarrow> tget rid (rid r) t = Some r"
  by (simp add: twf_def tget_def find_distinct)

lemma get_update:
  assumes "\<And>r. P r \<Longrightarrow> rid (f r) = rid r"
  shows "tget rid i (upd_where P f t) = map_option (\<lambda>r. if P r then f r else r) (tget rid i t)"
proof -
  have "find (\<lambda>r. rid r = i) (map (\<lambda>r. if P r then f r else r) xs) =
      map_option (\<lambda>r. if P r then f r else r) (find (\<lambda>r. rid r = i) xs)" for xs
    by (induction xs) (auto simp: assms)
  then show ?thesis by (simp add: tget_def upd_where_def)
qed

lemma get_insert:
  assumes "twf rid t"
  shows "tget rid (seq t + 1) (tinsert set_id r t) = Some (set_id (seq t + 1) r)"
proof -
  have "set_id (seq t + 1) r \<in> set (rows (tinsert set_id r t))" by (simp add: tinsert_def)
  from get_member [OF wf_insert [OF assms] this] show ?thesis by (simp add: rid_set)
qed

lemma unique: "twf rid t \<Longrightarrow> a \<in> set (rows t) \<Longrightarrow> b \<in> set (rows t) \<Longrightarrow> rid a = rid b \<Longrightarrow> a = b"
  by (auto simp: twf_def distinct_map inj_on_def)

end

section \<open>Step relations\<close>

text \<open>
  The contract of a component whose operations are steps of a state: every step keeps the
  invariant, so every reachable state has it.  Where each step also leaves less to do, the
  steps are bounded by what there was.
\<close>

locale step_invariant =
  fixes step :: "'s \<Rightarrow> 's \<Rightarrow> bool" and inv :: "'s \<Rightarrow> bool"
  assumes preserved: "step x y \<Longrightarrow> inv x \<Longrightarrow> inv y"
begin

lemma reachable: "step\<^sup>*\<^sup>* x y \<Longrightarrow> inv x \<Longrightarrow> inv y"
  by (induction rule: rtranclp_induct) (auto intro: preserved)

end

locale measured_steps = step_invariant step inv
  for step :: "'s \<Rightarrow> 's \<Rightarrow> bool" and inv :: "'s \<Rightarrow> bool" +
  fixes todo :: "'s \<Rightarrow> nat"
  assumes less_todo: "step x y \<Longrightarrow> inv x \<Longrightarrow> todo y < todo x"
begin

lemma bounded: "(step ^^ k) x y \<Longrightarrow> inv x \<Longrightarrow> k + todo y \<le> todo x"
proof (induction k arbitrary: y)
  case (Suc k)
  then obtain z where z: "(step ^^ k) x z" "step z y" by auto
  moreover have "step\<^sup>*\<^sup>* x z" using z(1) by (rule relpowp_imp_rtranclp)
  ultimately show ?case using Suc.IH [OF z(1) Suc.prems(2)] less_todo [OF z(2) reachable] Suc.prems(2) by fastforce
qed simp

end

section \<open>Stable sorting\<close>

text \<open>
  \<open>sort.SliceStable\<close> and \<open>slices.SortStableFunc\<close> with a comparison \<open>lt\<close>: an insertion
  sort, whose result is the one every stable sort has when \<open>lt\<close> is a strict weak order
  (\<open>weak_order.sort_unique\<close>).
\<close>

primrec insert_by :: "('a \<Rightarrow> 'a \<Rightarrow> bool) \<Rightarrow> 'a \<Rightarrow> 'a list \<Rightarrow> 'a list" where
  "insert_by lt x [] = [x]"
| "insert_by lt x (y # ys) = (if lt y x then y # insert_by lt x ys else x # y # ys)"

primrec stable_sort :: "('a \<Rightarrow> 'a \<Rightarrow> bool) \<Rightarrow> 'a list \<Rightarrow> 'a list" where
  "stable_sort lt [] = []"
| "stable_sort lt (x # xs) = insert_by lt x (stable_sort lt xs)"

lemma mset_insert_by [simp]: "mset (insert_by lt x xs) = add_mset x (mset xs)"
  by (induction xs) auto

lemma set_insert_by [simp]: "set (insert_by lt x xs) = insert x (set xs)"
  by (induction xs) auto

lemma mset_stable_sort [simp]: "mset (stable_sort lt xs) = mset xs"
  by (induction xs) auto

lemma set_stable_sort [simp]: "set (stable_sort lt xs) = set xs"
  by (metis mset_stable_sort set_mset_mset)

lemma length_stable_sort [simp]: "length (stable_sort lt xs) = length xs"
  by (metis mset_stable_sort size_mset)

lemma distinct_stable_sort [simp]: "distinct (stable_sort lt xs) = distinct xs"
  by (metis mset_eq_imp_distinct_iff mset_stable_sort)

lemma stable_sort_Nil_iff [simp]: "stable_sort lt xs = [] \<longleftrightarrow> xs = []"
  by (metis length_0_conv length_stable_sort)

locale weak_order =
  fixes lt :: "'a \<Rightarrow> 'a \<Rightarrow> bool"
  assumes irrefl: "\<not> lt x x"
    and trans: "lt x y \<Longrightarrow> lt y z \<Longrightarrow> lt x z"
    and neg_trans: "lt x z \<Longrightarrow> lt x y \<or> lt y z"
begin

lemma asym: "lt x y \<Longrightarrow> \<not> lt y x"
  using irrefl trans by blast

lemma insert_sorted:
  "sorted_wrt (\<lambda>a b. \<not> lt b a) xs \<Longrightarrow> sorted_wrt (\<lambda>a b. \<not> lt b a) (insert_by lt x xs)"
  by (induction xs) (auto dest: asym neg_trans)

lemma sort_sorted: "sorted_wrt (\<lambda>a b. \<not> lt b a) (stable_sort lt xs)"
  by (induction xs) (auto intro: insert_sorted)

lemma sort_head: "stable_sort lt xs = y # ys \<Longrightarrow> x \<in> set xs \<Longrightarrow> \<not> lt x y"
  using sort_sorted [of xs] irrefl by (metis set_ConsD set_stable_sort sorted_wrt.simps(2))

definition eqv :: "'a \<Rightarrow> 'a \<Rightarrow> bool" where
  "eqv a b \<longleftrightarrow> \<not> lt a b \<and> \<not> lt b a"

lemma insert_eqv:
  "sorted_wrt (\<lambda>a b. \<not> lt b a) xs \<Longrightarrow>
   filter (eqv k) (insert_by lt x xs) = (if eqv k x then x # filter (eqv k) xs else filter (eqv k) xs)"
  by (induction xs) (auto simp: eqv_def dest: neg_trans)

lemma sort_stable: "filter (eqv k) (stable_sort lt xs) = filter (eqv k) xs"
  by (induction xs) (auto simp: insert_eqv sort_sorted)

lemma sort_id: "sorted_wrt (\<lambda>a b. \<not> lt b a) xs \<Longrightarrow> stable_sort lt xs = xs"
proof (induction xs)
  case (Cons x xs)
  then show ?case by (cases xs) auto
qed simp

end

text \<open>Comparing by a key of a linear order (tuples lexicographically) is a strict weak order.\<close>

lemma weak_order_key: "weak_order (\<lambda>x y. key x < (key y :: 'k::linorder))"
  by unfold_locales auto

lemma weak_order_keyI:
  assumes "\<And>x y. lt x y \<longleftrightarrow> key x < (key y :: 'k::linorder)"
  shows "weak_order lt"
proof -
  have "lt = (\<lambda>x y. key x < key y)" using assms by blast
  then show ?thesis using weak_order_key [of key] by simp
qed

text \<open>A strictly sorted list is determined by its elements.\<close>

lemma strict_sorted_unique:
  assumes "\<And>x y. lt x y \<Longrightarrow> \<not> lt y x"
  shows "sorted_wrt lt xs \<Longrightarrow> sorted_wrt lt ys \<Longrightarrow> set xs = set ys \<Longrightarrow> xs = ys"
proof (induction xs arbitrary: ys)
  case Nil
  then show ?case by simp
next
  case (Cons x xs)
  then obtain y ys' where ys: "ys = y # ys'" by (cases ys) auto
  have xy: "x = y"
  proof (rule ccontr)
    assume "x \<noteq> y"
    with Cons.prems(3) ys have "x \<in> set ys'" and "y \<in> set xs" by auto
    with Cons.prems(1,2) ys have "lt y x" and "lt x y" by auto
    with assms show False by blast
  qed
  have "x \<notin> set xs" using Cons.prems(1) assms by auto
  moreover have "y \<notin> set ys'" using Cons.prems(2) ys assms by auto
  ultimately
  have "set xs = set ys'" using Cons.prems(3) ys xy by auto
  with Cons.IH [of ys'] Cons.prems(1,2) ys xy show ?case by simp
qed

lemma sorted_wrt_strict:
  assumes "\<And>x y. lt x y \<longleftrightarrow> key x < (key y :: 'k::linorder)"
  shows "sorted_wrt (\<lambda>a b. \<not> lt b a) zs \<Longrightarrow> distinct zs \<Longrightarrow> inj_on key (set zs) \<Longrightarrow>
    sorted_wrt (\<lambda>x y. key x < key y) zs"
proof (induction zs)
  case (Cons z zs)
  have "key z < key y" if "y \<in> set zs" for y
    using that Cons.prems by (auto simp: assms not_less inj_on_def order.order_iff_strict)
  with Cons show ?case by (auto intro: inj_on_subset)
qed simp

lemma sort_by_key:
  assumes "\<And>x y. lt x y \<longleftrightarrow> key x < (key y :: 'k::linorder)"
    and "sorted_wrt (\<lambda>x y. key x < key y) ys" and "set ys = set xs" and "distinct xs" and "inj_on key (set xs)"
  shows "stable_sort lt xs = ys"
proof -
  have "weak_order lt" by (rule weak_order_keyI) (rule assms(1))
  then have s: "sorted_wrt (\<lambda>a b. \<not> lt b a) (stable_sort lt xs)" by (rule weak_order.sort_sorted)
  have "sorted_wrt (\<lambda>x y. key x < key y) (stable_sort lt xs)"
    using s assms(4,5) by (intro sorted_wrt_strict [where lt = lt]) (auto simp: assms(1))
  then show ?thesis
    by (rule strict_sorted_unique [rotated]) (use assms in auto)
qed

end
