(* ===== verification/Model.thy ===== *)
theory Model
  imports Prelude
begin

text \<open>
  The persisted entities of \<open>internal/model\<close>: one record per struct, with the struct's
  fields in the struct's order (JSON and bun tags dropped, field names prefixed by the
  entity), one datatype per family of string constants, and the methods the package
  defines on them.  A nullable column is an option; \<open>map[string]string\<close> is a finite map
  given as an association list.
\<close>

section \<open>Accounts\<close>

record group =
  g_id :: int64
  g_name :: string
  g_builtin :: string
  g_permissions :: "string list"
  g_include_tags :: "int64 list"
  g_exclude_tags :: "int64 list"
  g_root_folders :: "int64 list"
  g_auto_approve :: bool
  g_created_at :: time

definition GroupAdmins :: string where "GroupAdmins = ''admins''"
definition GroupUsers :: string where "GroupUsers = ''users''"

record user =
  u_id :: int64
  u_username :: string
  u_password_hash :: string
  u_display_name :: string
  u_group_id :: int64
  u_reader_id :: int64
  u_disabled :: bool
  u_last_login_at :: "time option"
  u_oidc_subject :: string
  u_created_by :: int64
  u_created_at :: time

record invite =
  inv_id :: int64
  inv_token_hash :: string
  inv_group_id :: int64
  inv_note :: string
  inv_max_uses :: int
  inv_uses :: int
  inv_expires_at :: "time option"
  inv_created_by :: int64
  inv_created_at :: time

section \<open>Profiles\<close>

record encode_config =
  e_format :: string
  e_preset :: string
  e_quality :: int
  e_speed :: int
  e_grayscale :: bool
  e_progressive :: bool
  e_min_savings_pct :: int
  e_recycle_originals :: bool

definition DefaultJunkUnder :: int where "DefaultJunkUnder = 300"
definition DefaultSplitRatio :: float64 where "DefaultSplitRatio = 3"
definition DefaultSegmentRatio :: float64 where "DefaultSegmentRatio = 2"

record page_rules =
  p_junk_under :: int
  p_remove_junk :: bool
  p_max_width :: int
  p_split_tall :: bool
  p_split_ratio :: float64
  p_segment_ratio :: float64

text \<open>\<open>SplitRatios\<close>: threshold and tallest segment, both 0 when splitting is off.\<close>

definition SplitRatios :: "page_rules \<Rightarrow> float64 \<times> float64" where
  "SplitRatios r =
     (if \<not> p_split_tall r then (0, 0)
      else
        let threshold = (if p_split_ratio r \<le> 0 then DefaultSplitRatio else p_split_ratio r);
            segment = (if p_segment_ratio r \<le> 0 then DefaultSegmentRatio else p_segment_ratio r);
            threshold = max threshold 1;
            segment = min (max segment (1 / 2)) threshold
        in (threshold, segment))"

definition JunkSize :: "page_rules \<Rightarrow> int" where
  "JunkSize r =
     (if p_junk_under r < 0 then 0
      else if p_junk_under r = 0 then DefaultJunkUnder
      else p_junk_under r)"

definition IsJunk :: "int \<Rightarrow> int \<Rightarrow> int \<Rightarrow> bool" where
  "IsJunk w h junk \<longleftrightarrow> 0 < junk \<and> 0 < w \<and> 0 < h \<and> max w h < junk"

definition PageWidth :: "int \<Rightarrow> int \<Rightarrow> int" where
  "PageWidth w h = (if w > h \<and> h > 0 then go_div w 2 else w)"

definition DefaultLowResWidth :: int where "DefaultLowResWidth = 720"

datatype low_res_action = LowResUnset | LowResKeep | LowResRetry | LowResReject

record low_res_rule =
  lr_width :: int
  lr_action :: low_res_action

definition MinWidth :: "low_res_rule \<Rightarrow> int" where
  "MinWidth r =
     (if lr_action r \<noteq> LowResRetry \<and> lr_action r \<noteq> LowResReject then 0
      else if lr_width r \<le> 0 then DefaultLowResWidth
      else lr_width r)"

record upscale_config =
  up_enabled :: bool
  up_upscaler_id :: int64
  up_min_width :: int
  up_max_width :: int
  up_model :: string
  up_noise :: int
  up_format :: string
  up_quality :: int

record cleanup_override =
  co_enabled :: "bool option"
  co_keep_last_read :: "int option"
  co_grace_days :: "int option"

record profile_config =
  pc_preferred_scanlators :: "string list"
  pc_blocked_scanlators :: "string list"
  pc_allow_upgrades :: bool
  pc_min_pages :: int
  pc_upscale :: upscale_config
  pc_encode :: encode_config
  pc_pages :: page_rules
  pc_low_res :: low_res_rule
  pc_process_timing :: string
  pc_process_existing :: bool
  pc_process_changed_at :: "time option"
  pc_cleanup :: cleanup_override

record profile =
  pr_id :: int64
  pr_name :: string
  pr_is_default :: bool
  pr_config :: profile_config
  pr_created_at :: time
  pr_updated_at :: time

section \<open>Catalogs\<close>

datatype preset = PresetUnset | Gentle | Normal | Fast | PresetOther string

record throttle_config =
  t_preset :: preset
  t_requests_per_minute :: int
  t_burst :: int
  t_min_delay_ms :: int
  t_jitter_ms :: int
  t_max_concurrent :: int
  t_chapter_gap_min :: int
  t_chapter_gap_max :: int
  t_refresh_gap_min :: int
  t_refresh_gap_max :: int

record catalog_pref =
  cp_id :: int64
  cp_module_id :: int64
  cp_source_id :: string
  cp_enabled :: bool
  cp_priority :: int
  cp_throttle :: throttle_config
  cp_cooldown_until :: "time option"
  cp_cooldown_strikes :: int
  cp_last_throttle :: string
  cp_updated_at :: time

record source_priority_list =
  spl_scope :: string
  spl_sources :: "string list"

section \<open>Series\<close>

record adaptation =
  a_title :: string
  a_format :: string
  a_year :: int
  a_cover_url :: string
  a_external_ids :: "(string \<times> string) list"
  a_links :: "(string \<times> string) list"

record series_metadata =
  sm_adaptations :: "adaptation list"
  sm_alt_titles :: "string list"
  sm_description :: string
  sm_year :: int
  sm_authors :: "string list"
  sm_artists :: "string list"
  sm_genres :: "string list"
  sm_tags :: "string list"
  sm_publisher :: string
  sm_cover_url :: string
  sm_links :: "(string \<times> string) list"
  sm_external_ids :: "(string \<times> string) list"
  sm_age_rating :: string
  sm_format :: string
  sm_total_chapters :: int
  sm_provenance :: "(string \<times> string) list"
  sm_locks :: "string list"

definition Locked :: "series_metadata \<Rightarrow> string \<Rightarrow> bool" where
  "Locked m field \<longleftrightarrow> field \<in> set (sm_locks m)"

datatype monitor = MonitorUnset | MonitorAll | MonitorFuture | MonitorLatest | MonitorFrom | MonitorNone

record add_options =
  ao_pending :: bool
  ao_monitor :: monitor
  ao_latest_count :: int
  ao_from_chapter :: float64
  ao_search_missing :: bool

datatype series_status = StatusUnknown | StatusOngoing | StatusCompleted | StatusHiatus | StatusCancelled

datatype priority_mode = Inherit | Custom

record series =
  s_id :: int64
  s_work_id :: int64
  s_title :: string
  s_sort_title :: string
  s_status :: series_status
  s_monitored :: bool
  s_monitor_new :: string
  s_root_folder_id :: int64
  s_path :: string
  s_profile_id :: int64
  s_language :: string
  s_priority_mode :: priority_mode
  s_reading_direction :: string
  s_tags :: "int64 list"
  s_metadata :: series_metadata
  s_add_options :: add_options
  s_blocked_scanlators :: "string list"
  s_added_at :: time
  s_updated_at :: time
  s_last_metadata_refresh :: "time option"

record series_source =
  ss_id :: int64
  ss_series_id :: int64
  ss_module_id :: int64
  ss_source_id :: string
  ss_source_name :: string
  ss_lang :: string
  ss_manga_url :: string
  ss_title :: string
  ss_web_url :: string
  ss_engine_ref :: string
  ss_priority :: int
  ss_enabled :: bool
  ss_check_interval_minutes :: int
  ss_last_checked_at :: "time option"
  ss_last_success_at :: "time option"
  ss_next_check_at :: time
  ss_consecutive_failures :: int
  ss_backoff_until :: "time option"
  ss_last_error :: string
  ss_created_at :: time

section \<open>Chapters\<close>

datatype chapter_state = ChapterMissing | ChapterQueued | ChapterDownloading | ChapterProcessing
  | ChapterImported | ChapterCleaned | ChapterFailed

record chapter_row =
  c_id :: int64
  c_series_id :: int64
  c_number_key :: string
  c_number_sort :: float64
  c_volume :: string
  c_title :: string
  c_monitored :: bool
  c_state :: chapter_state
  c_file_id :: "int64 option"
  c_cleaned_at :: "time option"
  c_release_date :: "time option"
  c_first_seen_at :: time
  c_updated_at :: time

record chapter_release =
  r_id :: int64
  r_series_id :: int64
  r_chapter_id :: "int64 option"
  r_series_source_id :: int64
  r_chapter_url :: string
  r_web_url :: string
  r_engine_ref :: string
  r_name :: string
  r_scanlator :: string
  r_raw_number :: float64
  r_upload_date :: "time option"
  r_removed :: bool
  r_created_at :: time

datatype process_state = ProcessUnset | ProcessDone | ProcessFailed

record chapter_file =
  f_id :: int64
  f_chapter_id :: int64
  f_series_id :: int64
  f_relative_path :: string
  f_size :: int64
  f_page_count :: int
  f_avg_width :: int
  f_format :: string
  f_release_id :: "int64 option"
  f_scanlator :: string
  f_source_name :: string
  f_sha256 :: string
  f_upscaled :: bool
  f_upscale_model :: string
  f_size_before :: int64
  f_imported_at :: time
  f_process_params :: string
  f_process_state :: process_state
  f_process_attempts :: int
  f_process_retry_at :: "time option"
  f_process_error :: string
  f_processed_at :: "time option"
  f_size_original :: int64
  f_process_seconds :: float64
  f_process_pages :: int

section \<open>Queue, history and blocklist\<close>

datatype job_status = JobQueued | JobPaused | JobDownloading | JobProcessing | JobImporting
  | JobCompleted | JobFailed

datatype job_kind = JobKindDownload | JobKindReprocess

definition PriorityReading :: int where "PriorityReading = 100"

record download_job =
  j_id :: int64
  j_kind :: job_kind
  j_series_id :: int64
  j_chapter_id :: int64
  j_release_id :: "int64 option"
  j_status :: job_status
  j_rank :: int64
  j_priority :: int
  j_progress :: int
  j_pages_done :: int
  j_pages_total :: int
  j_attempt :: int
  j_is_upgrade :: bool
  j_error :: string
  j_not_before :: time
  j_created_at :: time
  j_updated_at :: time
  j_started_at :: "time option"

datatype history_event = HistoryFound | HistoryGrabbed | HistoryImported | HistoryUpgraded
  | HistoryFailed | HistoryDeleted | HistoryCleaned | HistoryRestored | HistoryUpscaled
  | HistoryProcessed | HistoryUnparsed | HistoryRetitled | HistoryMoved | HistoryProgress
  | HistoryBlocklist | HistoryReadAhead

record history =
  h_id :: int64
  h_series_id :: int64
  h_chapter_id :: "int64 option"
  h_event_type :: history_event
  h_source_title :: string
  h_data :: "(string \<times> string) list"
  h_created_at :: time

record blocklist =
  b_id :: int64
  b_series_id :: int64
  b_chapter_id :: "int64 option"
  b_series_source_id :: int64
  b_chapter_url :: string
  b_scanlator :: string
  b_reason :: string
  b_created_at :: time

section \<open>Commands and scheduled tasks\<close>

datatype command_status = CommandQueued | CommandStarted | CommandCompleted | CommandFailed | CommandOrphaned

text \<open>A command's body is its canonical JSON text.\<close>

record command =
  cmd_id :: int64
  cmd_name :: string
  cmd_body :: string
  cmd_status :: command_status
  cmd_trigger :: string
  cmd_message :: string
  cmd_queued_at :: time
  cmd_started_at :: "time option"
  cmd_ended_at :: "time option"
  cmd_duration_ms :: int64
  cmd_error :: string

record scheduled_task =
  st_name :: string
  st_interval_minutes :: int
  st_last_execution :: "time option"
  st_last_start :: "time option"

section \<open>Readers\<close>

record reader =
  rd_id :: int64
  rd_name :: string
  rd_count_for_cleanup :: bool
  rd_created_at :: time

datatype read_origin = ReadOriginServer | ReadOriginBackup | ReadOriginApp

record chapter_read_state =
  rs_id :: int64
  rs_reader_id :: int64
  rs_chapter_id :: int64
  rs_series_id :: int64
  rs_completed :: bool
  rs_page :: int
  rs_read_at :: "time option"
  rs_synced_at :: time
  rs_origin :: read_origin

datatype outcome_result = OutcomeApplied | OutcomeKept | OutcomeUnread | OutcomeUnchanged

record reading_session =
  rsn_id :: string
  rsn_reader_id :: int64
  rsn_series_id :: int64
  rsn_chapter_id :: int64
  rsn_active_seconds :: int
  rsn_started_at :: time
  rsn_updated_at :: time

section \<open>Workers\<close>

datatype task_kind = TaskDownload | TaskUpscale | TaskEncode

text \<open>
  What a worker says about itself (\<open>Info\<close>): the upscaling models it has and whether it
  runs the processing stage.
\<close>

record worker_info =
  wi_models :: "(string \<times> int list) list"
  wi_process :: bool

record worker =
  w_id :: int64
  w_name :: string
  w_key_hash :: string
  w_prefix :: string
  w_roles :: "task_kind list"
  w_enabled :: bool
  w_priority :: int
  w_concurrent :: int
  w_page_concurrency :: int
  w_upscale_model :: string
  w_version :: string
  w_platform :: string
  w_info :: worker_info
  w_last_ip :: string
  w_created_by :: int64
  w_created_at :: time
  w_last_seen_at :: "time option"
  w_tasks_done :: int64
  w_tasks_failed :: int64
  w_pages_done :: int64
  w_bytes_in :: int64
  w_bytes_out :: int64
  w_busy_seconds :: float64

definition HasRole :: "worker \<Rightarrow> task_kind \<Rightarrow> bool" where
  "HasRole w role \<longleftrightarrow> role \<in> set (w_roles w)"

datatype task_state = TaskPending | TaskLeased | TaskDone | TaskFailed | TaskAbandoned

text \<open>
  The parts of a task's \<open>Spec\<close> map the ledger reads or writes: the \<open>needsUpscale\<close> mark
  (absent in specs from older servers), the profile's upscale switch it falls back to, and
  the GPU a worker reports at the end.
\<close>

record task_spec =
  sp_needs_upscale :: "bool option"
  sp_profile_upscale :: bool
  sp_gpu :: string

record worker_task =
  wt_id :: int64
  wt_job_id :: int64
  wt_worker_id :: int64
  wt_kind :: task_kind
  wt_seq :: int
  wt_state :: task_state
  wt_spec :: task_spec
  wt_not_before :: time
  wt_lease_until :: "time option"
  wt_heartbeat_at :: "time option"
  wt_cancel :: bool
  wt_attempt :: int
  wt_pages_total :: int
  wt_pages_done :: int
  wt_bytes_in :: int64
  wt_bytes_out :: int64
  wt_error :: string
  wt_created_at :: time
  wt_started_at :: "time option"
  wt_finished_at :: "time option"

definition Open :: "worker_task \<Rightarrow> bool" where
  "Open t \<longleftrightarrow> wt_state t = TaskPending \<or> wt_state t = TaskLeased"

section \<open>Facts on the methods\<close>

lemma SplitRatios_bounds:
  assumes "SplitRatios r = (t, s)" and "p_split_tall r"
  shows "1 \<le> t \<and> 1 / 2 \<le> s \<and> s \<le> t"
  using assms by (auto simp: SplitRatios_def Let_def DefaultSplitRatio_def DefaultSegmentRatio_def split: if_splits)

lemma JunkSize_nonneg: "0 \<le> JunkSize r"
  by (simp add: JunkSize_def DefaultJunkUnder_def)

interpretation jobs_table: id_table j_id "\<lambda>i r. r\<lparr>j_id := i\<rparr>"
  by unfold_locales simp

interpretation chapters_table: id_table c_id "\<lambda>i r. r\<lparr>c_id := i\<rparr>"
  by unfold_locales simp

interpretation tasks_table: id_table wt_id "\<lambda>i r. r\<lparr>wt_id := i\<rparr>"
  by unfold_locales simp

interpretation commands_table: id_table cmd_id "\<lambda>i r. r\<lparr>cmd_id := i\<rparr>"
  by unfold_locales simp

interpretation states_table: id_table rs_id "\<lambda>i r. r\<lparr>rs_id := i\<rparr>"
  by unfold_locales simp

interpretation invites_table: id_table inv_id "\<lambda>i r. r\<lparr>inv_id := i\<rparr>"
  by unfold_locales simp

interpretation users_table: id_table u_id "\<lambda>i r. r\<lparr>u_id := i\<rparr>"
  by unfold_locales simp

end
