(* ===== verification/Samples.thy ===== *)
theory Samples
  imports Model
begin

text \<open>
  Concrete rows used by the witnesses of the development: one default value per entity,
  which a witness adjusts by record update.
\<close>

definition sample_upscale :: upscale_config where
  "sample_upscale = \<lparr>up_enabled = False, up_upscaler_id = 0, up_min_width = 0, up_max_width = 0,
     up_model = [], up_noise = 0, up_format = [], up_quality = 0\<rparr>"

definition sample_encode :: encode_config where
  "sample_encode = \<lparr>e_format = ''keep'', e_preset = [], e_quality = 0, e_speed = 0, e_grayscale = False,
     e_progressive = False, e_min_savings_pct = 0, e_recycle_originals = False\<rparr>"

definition sample_rules :: page_rules where
  "sample_rules = \<lparr>p_junk_under = 0, p_remove_junk = False, p_max_width = 0, p_split_tall = True,
     p_split_ratio = 0, p_segment_ratio = 0\<rparr>"

definition sample_config :: profile_config where
  "sample_config = \<lparr>pc_preferred_scanlators = [], pc_blocked_scanlators = [], pc_allow_upgrades = True,
     pc_min_pages = 0, pc_upscale = sample_upscale, pc_encode = sample_encode, pc_pages = sample_rules,
     pc_low_res = \<lparr>lr_width = 0, lr_action = LowResUnset\<rparr>, pc_process_timing = [], pc_process_existing = False,
     pc_process_changed_at = None,
     pc_cleanup = \<lparr>co_enabled = None, co_keep_last_read = None, co_grace_days = None\<rparr>\<rparr>"

definition sample_profile :: profile where
  "sample_profile = \<lparr>pr_id = 1, pr_name = ''Default'', pr_is_default = True, pr_config = sample_config,
     pr_created_at = 1, pr_updated_at = 1\<rparr>"

definition sample_metadata :: series_metadata where
  "sample_metadata = \<lparr>sm_adaptations = [], sm_alt_titles = [], sm_description = [], sm_year = 0, sm_authors = [],
     sm_artists = [], sm_genres = [], sm_tags = [], sm_publisher = [], sm_cover_url = [], sm_links = [],
     sm_external_ids = [], sm_age_rating = [], sm_format = [], sm_total_chapters = 0, sm_provenance = [], sm_locks = []\<rparr>"

definition sample_series :: series where
  "sample_series = \<lparr>s_id = 1, s_work_id = 0, s_title = ''Berserk'', s_sort_title = ''berserk'',
     s_status = StatusOngoing, s_monitored = True, s_monitor_new = ''all'', s_root_folder_id = 1, s_path = ''Berserk'',
     s_profile_id = 1, s_language = ''en'', s_priority_mode = Custom, s_reading_direction = ''rtl'', s_tags = [],
     s_metadata = sample_metadata,
     s_add_options = \<lparr>ao_pending = False, ao_monitor = MonitorAll, ao_latest_count = 0, ao_from_chapter = 0,
       ao_search_missing = False\<rparr>,
     s_blocked_scanlators = [], s_added_at = 1, s_updated_at = 1, s_last_metadata_refresh = None\<rparr>"

definition sample_source :: series_source where
  "sample_source = \<lparr>ss_id = 1, ss_series_id = 1, ss_module_id = 1, ss_source_id = ''mangadex'',
     ss_source_name = ''MangaDex'', ss_lang = ''en'', ss_manga_url = ''/m/1'', ss_title = ''Berserk'', ss_web_url = [],
     ss_engine_ref = [], ss_priority = 0, ss_enabled = True, ss_check_interval_minutes = 0, ss_last_checked_at = None,
     ss_last_success_at = None, ss_next_check_at = 0, ss_consecutive_failures = 0, ss_backoff_until = None,
     ss_last_error = [], ss_created_at = 1\<rparr>"

definition sample_chapter :: chapter_row where
  "sample_chapter = \<lparr>c_id = 1, c_series_id = 1, c_number_key = ''1'', c_number_sort = 1, c_volume = [], c_title = [],
     c_monitored = True, c_state = ChapterMissing, c_file_id = None, c_cleaned_at = None, c_release_date = None,
     c_first_seen_at = 1, c_updated_at = 1\<rparr>"

definition sample_release :: chapter_release where
  "sample_release = \<lparr>r_id = 1, r_series_id = 1, r_chapter_id = Some 1, r_series_source_id = 1, r_chapter_url = ''/c/1'',
     r_web_url = [], r_engine_ref = [], r_name = ''Ch. 1'', r_scanlator = ''Group'', r_raw_number = 1,
     r_upload_date = Some 5, r_removed = False, r_created_at = 1\<rparr>"

definition sample_file :: chapter_file where
  "sample_file = \<lparr>f_id = 1, f_chapter_id = 1, f_series_id = 1, f_relative_path = ''1.cbz'', f_size = 1000, f_page_count = 20,
     f_avg_width = 800, f_format = ''jpeg'', f_release_id = Some 1, f_scanlator = ''Group'', f_source_name = ''MangaDex'',
     f_sha256 = [], f_upscaled = False, f_upscale_model = [], f_size_before = 0, f_imported_at = 1, f_process_params = [],
     f_process_state = ProcessUnset, f_process_attempts = 0, f_process_retry_at = None, f_process_error = [],
     f_processed_at = None, f_size_original = 1000, f_process_seconds = 0, f_process_pages = 0\<rparr>"

definition sample_job :: download_job where
  "sample_job = \<lparr>j_id = 1, j_kind = JobKindDownload, j_series_id = 1, j_chapter_id = 1, j_release_id = Some 1,
     j_status = JobQueued, j_rank = 1048576, j_priority = 0, j_progress = 0, j_pages_done = 0, j_pages_total = 0,
     j_attempt = 0, j_is_upgrade = False, j_error = [], j_not_before = 0, j_created_at = 1, j_updated_at = 1,
     j_started_at = None\<rparr>"

definition sample_command :: command where
  "sample_command = \<lparr>cmd_id = 1, cmd_name = ''RefreshSeries'', cmd_body = ''{}'', cmd_status = CommandQueued,
     cmd_trigger = ''manual'', cmd_message = [], cmd_queued_at = 1, cmd_started_at = None, cmd_ended_at = None,
     cmd_duration_ms = 0, cmd_error = []\<rparr>"

definition sample_read_state :: chapter_read_state where
  "sample_read_state = \<lparr>rs_id = 1, rs_reader_id = 1, rs_chapter_id = 1, rs_series_id = 1, rs_completed = True, rs_page = 20,
     rs_read_at = Some 5, rs_synced_at = 6, rs_origin = ReadOriginApp\<rparr>"

lemmas samples = sample_upscale_def sample_encode_def sample_rules_def sample_config_def sample_profile_def
  sample_metadata_def sample_series_def sample_source_def sample_chapter_def sample_release_def sample_file_def
  sample_job_def sample_command_def sample_read_state_def

end
