(* ===== verification/Decision.thy ===== *)
theory Decision
  imports Samples
begin

text \<open>
  \<open>internal/decision\<close>: which release of a chapter to download.  \<open>Decide\<close> is the chapter
  level of specifications, then the per-release ones (\<open>check_candidate\<close>, the switch of the
  loop), then the stable sort by \<open>less\<close> and the upgrade rule.  Regular expressions are
  matchers (\<open>string \<Rightarrow> bool\<close>); \<open>regexp.Compile\<close> is the parameter \<open>compile\<close>, and the
  package's pattern cache is the map \<open>CompilePattern\<close> threads.
\<close>

section \<open>Data\<close>

type_synonym matcher = "string \<Rightarrow> bool"
type_synonym re_cache = "string \<rightharpoonup> matcher"

record candidate =
  cand_release :: chapter_release
  cand_source :: series_source

record decide_input =
  in_series :: series
  in_profile :: profile
  in_chapter :: chapter_row
  in_current_file :: "chapter_file option"
  in_current_release :: "candidate option"
  in_queued :: bool
  in_blocklisted :: "(int64 \<Rightarrow> string \<Rightarrow> bool) option"
  in_now :: time
  in_search :: bool

record rejection =
  rej_release_id :: int64
  rej_reason :: string
  rej_temporary :: bool

record decision =
  d_chapter_id :: int64
  d_approved :: "candidate option"
  d_is_upgrade :: bool
  d_rejections :: "rejection list"

section \<open>Patterns\<close>

definition CompilePattern ::
  "(string \<Rightarrow> matcher option) \<Rightarrow> re_cache \<Rightarrow> string \<Rightarrow> matcher option \<times> re_cache" where
  "CompilePattern compile cache p =
     (case cache p of
        Some re \<Rightarrow> (Some re, cache)
      | None \<Rightarrow>
          (case compile (''(?i)'' @ p) of
             None \<Rightarrow> (None, cache)
           | Some re \<Rightarrow> (Some re, cache(p \<mapsto> re))))"

fun compileAll ::
  "(string \<Rightarrow> matcher option) \<Rightarrow> re_cache \<Rightarrow> string list \<Rightarrow> matcher list \<times> re_cache" where
  "compileAll compile cache [] = ([], cache)"
| "compileAll compile cache (p # ps) =
     (if trim_space p = [] then compileAll compile cache ps
      else
        case CompilePattern compile cache p of
          (None, cache') \<Rightarrow> compileAll compile cache' ps
        | (Some re, cache') \<Rightarrow>
            (let (out, cache'') = compileAll compile cache' ps in (re # out, cache'')))"

definition Preferences ::
  "(string \<Rightarrow> matcher option) \<Rightarrow> re_cache \<Rightarrow> profile \<Rightarrow> matcher list \<times> re_cache" where
  "Preferences compile cache p = compileAll compile cache (pc_preferred_scanlators (pr_config p))"

text \<open>The patterns a list stands for, without the cache.\<close>

definition patterns :: "(string \<Rightarrow> matcher option) \<Rightarrow> string list \<Rightarrow> matcher list" where
  "patterns compile ps =
     List.map_filter (\<lambda>p. if trim_space p = [] then None else compile (''(?i)'' @ p)) ps"

definition cache_ok :: "(string \<Rightarrow> matcher option) \<Rightarrow> re_cache \<Rightarrow> bool" where
  "cache_ok compile cache \<longleftrightarrow> (\<forall>p re. cache p = Some re \<longrightarrow> compile (''(?i)'' @ p) = Some re)"

section \<open>Scanlators\<close>

fun scanlatorIndex :: "matcher list \<Rightarrow> string \<Rightarrow> nat" where
  "scanlatorIndex [] scanlator = 0"
| "scanlatorIndex (re # prefs) scanlator =
     (if scanlator \<noteq> [] \<and> re scanlator then 0 else Suc (scanlatorIndex prefs scanlator))"

fun matchAny :: "matcher list \<Rightarrow> string \<Rightarrow> bool" where
  "matchAny [] s = False"
| "matchAny (re # res) s = (if s = [] then False else if re s then True else matchAny res s)"

text \<open>\<open>strings.FieldsFunc\<close>: the maximal non-empty runs of characters outside the separators.\<close>

fun fields_from :: "(char \<Rightarrow> bool) \<Rightarrow> string \<Rightarrow> string \<Rightarrow> string list" where
  "fields_from sep cur [] = (if cur = [] then [] else [rev cur])"
| "fields_from sep cur (c # s) =
     (if sep c then (if cur = [] then fields_from sep [] s else rev cur # fields_from sep [] s)
      else fields_from sep (c # cur) s)"

definition scanlator_sep :: "char \<Rightarrow> bool" where
  "scanlator_sep c \<longleftrightarrow> c = CHR ''&'' \<or> c = CHR '','' \<or> c = CHR 0x7C"

fun blocked_by :: "string list \<Rightarrow> string \<Rightarrow> string list \<Rightarrow> bool" where
  "blocked_by [] scanlator parts = False"
| "blocked_by (n # names) scanlator parts =
     (let n = to_lower (trim_space n) in
      if n = to_lower (trim_space scanlator) then True
      else if n \<in> trim_space ` set parts then True
      else blocked_by names scanlator parts)"

definition blockedForSeries :: "string list \<Rightarrow> string \<Rightarrow> bool" where
  "blockedForSeries names scanlator =
     (if scanlator = [] \<or> names = [] then False
      else blocked_by names scanlator (fields_from scanlator_sep [] (to_lower scanlator)))"

section \<open>Ranking\<close>

record rank =
  rank_priority :: int
  rank_scan_idx :: nat

definition rankOf :: "matcher list \<Rightarrow> candidate \<Rightarrow> rank" where
  "rankOf prefs c = \<lparr>rank_priority = ss_priority (cand_source c),
                     rank_scan_idx = scanlatorIndex prefs (r_scanlator (cand_release c))\<rparr>"

definition Better :: "matcher list \<Rightarrow> candidate \<Rightarrow> candidate \<Rightarrow> bool" where
  "Better prefs a b =
     (let ra = rankOf prefs a; rb = rankOf prefs b in
      if rank_priority ra \<noteq> rank_priority rb then rank_priority ra < rank_priority rb
      else rank_scan_idx ra < rank_scan_idx rb)"

definition cand_less :: "matcher list \<Rightarrow> candidate \<Rightarrow> candidate \<Rightarrow> bool" where
  "cand_less prefs a b =
     (if Better prefs a b then True
      else if Better prefs b a then False
      else
        case (r_upload_date (cand_release a), r_upload_date (cand_release b)) of
          (Some ta, Some tb) \<Rightarrow>
            (if ta \<noteq> tb then ta < tb else r_id (cand_release a) < r_id (cand_release b))
        | (Some ta, None) \<Rightarrow> True
        | (None, Some tb) \<Rightarrow> False
        | (None, None) \<Rightarrow> r_id (cand_release a) < r_id (cand_release b))"

section \<open>The decision\<close>

definition check_candidate ::
  "decide_input \<Rightarrow> matcher list \<Rightarrow> time \<Rightarrow> candidate \<Rightarrow> rejection option" where
  "check_candidate inp blocked now c =
     (let rid = r_id (cand_release c); scan = r_scanlator (cand_release c);
          rej = (\<lambda>reason temp. Some \<lparr>rej_release_id = rid, rej_reason = reason, rej_temporary = temp\<rparr>)
      in
      if r_removed (cand_release c) then rej ''release was removed from the source'' False
      else if \<not> ss_enabled (cand_source c) then rej ''source is disabled'' False
      else if (case ss_backoff_until (cand_source c) of None \<Rightarrow> False | Some u \<Rightarrow> now < u) then
        rej ''source is failing, retrying later'' True
      else if (case in_blocklisted inp of None \<Rightarrow> False
               | Some f \<Rightarrow> f (ss_id (cand_source c)) (r_chapter_url (cand_release c))) then
        rej ''release is blocklisted'' False
      else if matchAny blocked scan then
        rej (''scanlator '' @ scan @ '' is blocked by the profile'') False
      else if blockedForSeries (s_blocked_scanlators (in_series inp)) scan then
        rej (''scanlator '' @ scan @ '' is blocked for this series'') False
      else None)"

fun screen ::
  "(candidate \<Rightarrow> rejection option) \<Rightarrow> candidate list \<Rightarrow> candidate list \<times> rejection list" where
  "screen chk [] = ([], [])"
| "screen chk (c # cands) =
     (let (oks, rejs) = screen chk cands in
      case chk c of Some r \<Rightarrow> (oks, r # rejs) | None \<Rightarrow> (c # oks, rejs))"

text \<open>The part of \<open>Decide\<close> after the chapter-level specifications.\<close>

definition decide_releases ::
  "decide_input \<Rightarrow> matcher list \<Rightarrow> matcher list \<Rightarrow> time \<Rightarrow> candidate list \<Rightarrow> decision" where
  "decide_releases inp prefs blocked now cands =
     (let (oks, rejs) = screen (check_candidate inp blocked now) cands;
          d = \<lparr>d_chapter_id = c_id (in_chapter inp), d_approved = None, d_is_upgrade = False, d_rejections = rejs\<rparr>
      in
      case stable_sort (cand_less prefs) oks of
        [] \<Rightarrow> d
      | best # _ \<Rightarrow>
          (let rej = (\<lambda>reason. d\<lparr>d_rejections := rejs @
                 [\<lparr>rej_release_id = r_id (cand_release best), rej_reason = reason, rej_temporary = False\<rparr>]\<rparr>)
           in
           case in_current_file inp of
             None \<Rightarrow> d\<lparr>d_approved := Some best\<rparr>
           | Some cf \<Rightarrow>
               (case in_current_release inp of
                  Some cur \<Rightarrow>
                    (if \<not> Better prefs best cur then
                       rej ''existing file is from an equal or better release''
                     else d\<lparr>d_is_upgrade := True, d_approved := Some best\<rparr>)
                | None \<Rightarrow>
                    (if f_release_id cf = Some (r_id (cand_release best)) then
                       rej ''existing file is from this release''
                     else d\<lparr>d_is_upgrade := True, d_approved := Some best\<rparr>))))"

text \<open>The chapter-level specifications: the reason to reject, and whether it is temporary.\<close>

definition reject_chapter :: "decide_input \<Rightarrow> candidate list \<Rightarrow> (string \<times> bool) option" where
  "reject_chapter inp cands =
     (if \<not> in_search inp \<and> \<not> s_monitored (in_series inp) then Some (''series is not monitored'', False)
      else if \<not> in_search inp \<and> \<not> c_monitored (in_chapter inp) then Some (''chapter is not monitored'', False)
      else if c_state (in_chapter inp) = ChapterCleaned \<and> \<not> in_search inp then
        Some (''chapter was cleaned after being read'', False)
      else if in_queued inp then Some (''chapter is already queued'', True)
      else if in_current_file inp \<noteq> None \<and> \<not> pc_allow_upgrades (pr_config (in_profile inp)) then
        Some (''chapter is already downloaded and upgrades are disabled'', False)
      else if cands = [] then Some (''no release available'', True)
      else None)"

definition Decide ::
  "(string \<Rightarrow> matcher option) \<Rightarrow> time \<Rightarrow> re_cache \<Rightarrow> decide_input \<Rightarrow> candidate list \<Rightarrow> decision \<times> re_cache" where
  "Decide compile clock cache inp cands =
     (case reject_chapter inp cands of
        Some (reason, temp) \<Rightarrow>
          (\<lparr>d_chapter_id = c_id (in_chapter inp), d_approved = None, d_is_upgrade = False,
             d_rejections = [\<lparr>rej_release_id = 0, rej_reason = reason, rej_temporary = temp\<rparr>]\<rparr>, cache)
      | None \<Rightarrow>
          (let cfg = pr_config (in_profile inp);
               (prefs, cache1) = compileAll compile cache (pc_preferred_scanlators cfg);
               (blocked, cache2) = compileAll compile cache1 (pc_blocked_scanlators cfg);
               now = (if in_now inp = 0 then clock else in_now inp)
           in (decide_releases inp prefs blocked now cands, cache2)))"

section \<open>The ranking is a strict weak order\<close>

definition cand_key :: "matcher list \<Rightarrow> candidate \<Rightarrow> int \<times> nat \<times> bool \<times> time \<times> int64" where
  "cand_key prefs c =
     (ss_priority (cand_source c), scanlatorIndex prefs (r_scanlator (cand_release c)),
      r_upload_date (cand_release c) = None,
      case r_upload_date (cand_release c) of None \<Rightarrow> 0 | Some t \<Rightarrow> t,
      r_id (cand_release c))"

lemma Better_key:
  "Better prefs a b \<longleftrightarrow>
     (ss_priority (cand_source a), scanlatorIndex prefs (r_scanlator (cand_release a)))
     < (ss_priority (cand_source b), scanlatorIndex prefs (r_scanlator (cand_release b)))"
  by (auto simp: Better_def rankOf_def Let_def)

lemma cand_less_key: "cand_less prefs a b \<longleftrightarrow> cand_key prefs a < cand_key prefs b"
  by (auto simp: cand_less_def Better_key cand_key_def split: option.split)

interpretation ranking: weak_order "cand_less prefs" for prefs
  by (rule weak_order_keyI [where key = "cand_key prefs"]) (rule cand_less_key)

lemma Better_less: "Better prefs a b \<Longrightarrow> cand_less prefs a b"
  by (simp add: cand_less_def)

section \<open>Patterns and the cache\<close>

lemma CompilePattern_ok:
  assumes "cache_ok compile cache"
  shows "fst (CompilePattern compile cache p) = compile (''(?i)'' @ p)"
    and "cache_ok compile (snd (CompilePattern compile cache p))"
  using assms by (auto simp: CompilePattern_def cache_ok_def split: option.split)

lemma compileAll_ok:
  "cache_ok compile cache \<Longrightarrow>
   fst (compileAll compile cache ps) = patterns compile ps \<and> cache_ok compile (snd (compileAll compile cache ps))"
proof (induction ps arbitrary: cache)
  case Nil
  then show ?case by (simp add: patterns_def map_filter_simps)
next
  case (Cons p ps)
  obtain r cache' where cp: "CompilePattern compile cache p = (r, cache')" by fastforce
  with CompilePattern_ok [OF Cons.prems, of p]
  have r: "compile (''(?i)'' @ p) = r" and ok: "cache_ok compile cache'" by auto
  show ?case
    using Cons.IH [OF ok] Cons.IH [OF Cons.prems] r
    by (auto simp: cp patterns_def map_filter_simps split: option.split prod.splits)
qed

section \<open>Screening\<close>

lemma screen_oks: "fst (screen chk cands) = filter (\<lambda>c. chk c = None) cands"
  by (induction cands) (auto split: prod.splits option.split)

lemma screen_rejs: "snd (screen chk cands) = List.map_filter chk cands"
  by (induction cands) (auto simp: map_filter_simps split: prod.splits option.split)

lemma scanlatorIndex_le: "scanlatorIndex prefs s \<le> length prefs"
  by (induction prefs) auto

lemma scanlatorIndex_match:
  "scanlatorIndex prefs s < length prefs \<Longrightarrow>
   s \<noteq> [] \<and> (prefs ! scanlatorIndex prefs s) s \<and> (\<forall>i < scanlatorIndex prefs s. \<not> (prefs ! i) s)"
  by (induction prefs) (auto simp: less_Suc_eq_0_disj split: if_splits)

lemma matchAny_iff: "matchAny res s \<longleftrightarrow> s \<noteq> [] \<and> (\<exists>re \<in> set res. re s)"
  by (induction res) auto

lemma blocked_by_iff:
  "blocked_by names s parts \<longleftrightarrow>
     (\<exists>n \<in> set names. to_lower (trim_space n) = to_lower (trim_space s) \<or>
        to_lower (trim_space n) \<in> trim_space ` set parts)"
  by (induction names) (auto simp: Let_def)

section \<open>What a decision guarantees\<close>

definition chapter_wanted :: "decide_input \<Rightarrow> bool" where
  "chapter_wanted inp \<longleftrightarrow>
     (in_search inp \<or>
        s_monitored (in_series inp) \<and> c_monitored (in_chapter inp) \<and> c_state (in_chapter inp) \<noteq> ChapterCleaned)
     \<and> \<not> in_queued inp
     \<and> (in_current_file inp = None \<or> pc_allow_upgrades (pr_config (in_profile inp)))"

definition release_ok :: "decide_input \<Rightarrow> matcher list \<Rightarrow> time \<Rightarrow> candidate \<Rightarrow> bool" where
  "release_ok inp blocked now c \<longleftrightarrow>
     \<not> r_removed (cand_release c) \<and> ss_enabled (cand_source c)
     \<and> (\<forall>u. ss_backoff_until (cand_source c) = Some u \<longrightarrow> u \<le> now)
     \<and> (\<forall>f. in_blocklisted inp = Some f \<longrightarrow> \<not> f (ss_id (cand_source c)) (r_chapter_url (cand_release c)))
     \<and> \<not> (r_scanlator (cand_release c) \<noteq> [] \<and> (\<exists>re \<in> set blocked. re (r_scanlator (cand_release c))))
     \<and> \<not> blockedForSeries (s_blocked_scanlators (in_series inp)) (r_scanlator (cand_release c))"

lemma check_candidate_None: "check_candidate inp blocked now c = None \<longleftrightarrow> release_ok inp blocked now c"
  by (auto simp: check_candidate_def release_ok_def Let_def matchAny_iff split: option.splits)

abbreviation pref_of :: "(string \<Rightarrow> matcher option) \<Rightarrow> decide_input \<Rightarrow> matcher list" where
  "pref_of compile inp \<equiv> patterns compile (pc_preferred_scanlators (pr_config (in_profile inp)))"

abbreviation blocked_of :: "(string \<Rightarrow> matcher option) \<Rightarrow> decide_input \<Rightarrow> matcher list" where
  "blocked_of compile inp \<equiv> patterns compile (pc_blocked_scanlators (pr_config (in_profile inp)))"

abbreviation now_of :: "time \<Rightarrow> decide_input \<Rightarrow> time" where
  "now_of clock inp \<equiv> (if in_now inp = 0 then clock else in_now inp)"

lemma reject_chapter_None: "reject_chapter inp cands = None \<longleftrightarrow> chapter_wanted inp \<and> cands \<noteq> []"
  by (simp add: reject_chapter_def chapter_wanted_def) blast

text \<open>\<open>Decide\<close> is the chapter-level gate in front of \<open>decide_releases\<close>.\<close>

lemma Decide_wanted:
  assumes "cache_ok compile cache" and "chapter_wanted inp" and "cands \<noteq> []"
  shows "fst (Decide compile clock cache inp cands) =
     decide_releases inp (pref_of compile inp) (blocked_of compile inp) (now_of clock inp) cands"
proof -
  obtain pf c1 where p: "compileAll compile cache (pc_preferred_scanlators (pr_config (in_profile inp))) = (pf, c1)"
    by fastforce
  obtain bl c2 where b: "compileAll compile c1 (pc_blocked_scanlators (pr_config (in_profile inp))) = (bl, c2)"
    by fastforce
  from compileAll_ok [OF assms(1)] p have pf: "pf = pref_of compile inp" and c1: "cache_ok compile c1"
    by (metis fst_conv, metis snd_conv)
  from compileAll_ok [OF c1] b have bl: "bl = blocked_of compile inp" by (metis fst_conv)
  show ?thesis
    using reject_chapter_None [of inp cands] assms(2,3) by (simp add: Decide_def Let_def p b pf bl)
qed

lemma Decide_unwanted:
  "\<not> chapter_wanted inp \<or> cands = [] \<Longrightarrow>
   d_approved (fst (Decide compile clock cache inp cands)) = None \<and>
   d_is_upgrade (fst (Decide compile clock cache inp cands)) = False"
  using reject_chapter_None [of inp cands] by (auto simp: Decide_def)

lemma decide_releases_approved:
  assumes "d_approved (decide_releases inp prefs blocked now cands) = Some best"
  shows "best \<in> set cands" and "release_ok inp blocked now best"
    and "c \<in> set cands \<Longrightarrow> release_ok inp blocked now c \<Longrightarrow> \<not> cand_less prefs c best"
    and "in_current_file inp \<noteq> None \<Longrightarrow> in_current_release inp = Some cur \<Longrightarrow> Better prefs best cur"
    and "d_is_upgrade (decide_releases inp prefs blocked now cands) \<longleftrightarrow> in_current_file inp \<noteq> None"
proof -
  let ?oks = "filter (\<lambda>c. check_candidate inp blocked now c = None) cands"
  obtain rejs where sc: "screen (check_candidate inp blocked now) cands = (?oks, rejs)"
    by (metis prod.collapse screen_oks)
  obtain rest where so: "stable_sort (cand_less prefs) ?oks = best # rest"
    using assms by (auto simp: decide_releases_def sc Let_def split: list.splits option.splits if_splits)
  then have "best \<in> set ?oks" by (metis list.set_intros(1) set_stable_sort)
  then show "best \<in> set cands" and "release_ok inp blocked now best"
    by (auto simp: check_candidate_None)
  show "\<not> cand_less prefs c best" if "c \<in> set cands" "release_ok inp blocked now c"
    by (rule ranking.sort_head [OF so]) (use that in \<open>simp add: check_candidate_None\<close>)
  show "Better prefs best cur" if "in_current_file inp \<noteq> None" "in_current_release inp = Some cur"
    using assms that by (auto simp: decide_releases_def sc so Let_def split: option.splits if_splits)
  show "d_is_upgrade (decide_releases inp prefs blocked now cands) \<longleftrightarrow> in_current_file inp \<noteq> None"
    using assms by (auto simp: decide_releases_def sc so Let_def split: option.splits if_splits)
qed

lemma decide_releases_missing:
  assumes "in_current_file inp = None"
  shows "d_approved (decide_releases inp prefs blocked now cands) = None \<longleftrightarrow>
      (\<forall>c \<in> set cands. \<not> release_ok inp blocked now c)"
    and "\<not> d_is_upgrade (decide_releases inp prefs blocked now cands)"
proof -
  let ?oks = "filter (\<lambda>c. check_candidate inp blocked now c = None) cands"
  obtain rejs where sc: "screen (check_candidate inp blocked now) cands = (?oks, rejs)"
    by (metis prod.collapse screen_oks)
  have oks: "?oks = [] \<longleftrightarrow> (\<forall>c \<in> set cands. \<not> release_ok inp blocked now c)"
    by (auto simp: filter_empty_conv check_candidate_None)
  show "d_approved (decide_releases inp prefs blocked now cands) = None \<longleftrightarrow>
      (\<forall>c \<in> set cands. \<not> release_ok inp blocked now c)"
    and "\<not> d_is_upgrade (decide_releases inp prefs blocked now cands)"
    using assms oks stable_sort_Nil_iff [of "cand_less prefs" ?oks]
    by (cases "stable_sort (cand_less prefs) ?oks"; simp add: decide_releases_def sc Let_def)+
qed

lemma Decide_approved:
  assumes "cache_ok compile cache" and "d_approved (fst (Decide compile clock cache inp cands)) = Some best"
  shows "chapter_wanted inp" and "cands \<noteq> []"
    and "d_approved (decide_releases inp (pref_of compile inp) (blocked_of compile inp) (now_of clock inp) cands) = Some best"
proof -
  show w: "chapter_wanted inp" and ne: "cands \<noteq> []"
    using assms(2) Decide_unwanted [of inp cands compile clock cache] by auto
  show "d_approved (decide_releases inp (pref_of compile inp) (blocked_of compile inp) (now_of clock inp) cands) = Some best"
    using assms(2) Decide_wanted [OF assms(1) w ne] by simp
qed

text \<open>A two-source chapter for the witnesses: MangaDex before a second source.\<close>

definition ex_first :: candidate where
  "ex_first = \<lparr>cand_release = sample_release, cand_source = sample_source\<rparr>"

definition ex_second :: candidate where
  "ex_second = \<lparr>cand_release = sample_release\<lparr>r_id := 2, r_series_source_id := 2\<rparr>,
     cand_source = sample_source\<lparr>ss_id := 2, ss_priority := 1\<rparr>\<rparr>"

definition ex_input :: decide_input where
  "ex_input = \<lparr>in_series = sample_series, in_profile = sample_profile, in_chapter = sample_chapter,
     in_current_file = None, in_current_release = None, in_queued = False, in_blocklisted = None, in_now = 0,
     in_search = False\<rparr>"

definition ex_compile :: "string \<Rightarrow> matcher option" where
  "ex_compile p = Some (\<lambda>s. s = ''Group'')"

lemma ex_cache: "cache_ok ex_compile Map.empty"
  by (simp add: cache_ok_def)

lemmas ex_eval = Decide_def reject_chapter_def decide_releases_def check_candidate_def cand_less_def Better_def
  rankOf_def Let_def ex_first_def ex_second_def ex_input_def samples blockedForSeries_def

lemma ex_ok:
  "release_ok ex_input (blocked_of ex_compile ex_input) (now_of 10 ex_input) ex_first"
  "release_ok ex_input (blocked_of ex_compile ex_input) (now_of 10 ex_input) ex_second"
  by (simp_all add: release_ok_def ex_input_def ex_first_def ex_second_def samples patterns_def
      map_filter_simps blockedForSeries_def)

lemma ex_missing: "d_approved (fst (Decide ex_compile 10 Map.empty ex_input [ex_second, ex_first])) = Some ex_first"
  by (simp add: ex_eval)

lemma ex_upgrade:
  "d_approved (fst (Decide ex_compile 10 Map.empty
     (ex_input\<lparr>in_current_file := Some sample_file, in_current_release := Some ex_second\<rparr>) [ex_second, ex_first])) = Some ex_first"
  by (simp add: ex_eval)

text \<open>
  C1: An approved release is one of the candidates, belongs to a wanted chapter, passes every
  release-level specification (present on its source, source enabled and not backing off, not
  blocklisted, scanlator blocked neither by the profile nor by the series), and no other
  candidate that passes them ranks before it.
\<close>

theorem decide_approves_best:
  assumes "cache_ok compile cache" and "d_approved (fst (Decide compile clock cache inp cands)) = Some best"
  shows "chapter_wanted inp \<and> best \<in> set cands
    \<and> release_ok inp (blocked_of compile inp) (now_of clock inp) best
    \<and> (\<forall>c \<in> set cands. release_ok inp (blocked_of compile inp) (now_of clock inp) c \<longrightarrow>
          \<not> cand_less (pref_of compile inp) c best)"
  using Decide_approved [OF assms] decide_releases_approved by blast

theorem decide_approves_best_witness:
  "release_ok ex_input (blocked_of ex_compile ex_input) (now_of 10 ex_input) ex_first
   \<and> \<not> cand_less (pref_of ex_compile ex_input) ex_second ex_first"
  using decide_approves_best [OF ex_cache ex_missing] ex_ok by auto

text \<open>
  A chapter that is wanted and has no file gets a release exactly when some candidate
  passes the release-level specifications; the decision is then not an upgrade.
\<close>

theorem decide_missing_complete:
  assumes "cache_ok compile cache" and "chapter_wanted inp" and "in_current_file inp = None"
  shows "(d_approved (fst (Decide compile clock cache inp cands)) \<noteq> None \<longleftrightarrow>
      (\<exists>c \<in> set cands. release_ok inp (blocked_of compile inp) (now_of clock inp) c))
    \<and> \<not> d_is_upgrade (fst (Decide compile clock cache inp cands))"
proof (cases "cands = []")
  case True
  then show ?thesis using Decide_unwanted [of inp cands compile clock cache] by auto
next
  case False
  then show ?thesis
    unfolding Decide_wanted [OF assms(1,2) False] by (simp add: decide_releases_missing [OF assms(3)])
qed

theorem decide_missing_complete_witness:
  "d_approved (fst (Decide ex_compile 10 Map.empty ex_input [ex_first])) \<noteq> None"
proof -
  have w: "chapter_wanted ex_input" and f: "in_current_file ex_input = None"
    by (simp_all add: chapter_wanted_def ex_input_def samples)
  show ?thesis using decide_missing_complete [OF ex_cache w f, of 10 "[ex_first]"] ex_ok(1) by auto
qed

text \<open>
  Upgrades: a chapter that has a file from a known release is only given a release that is
  strictly better (source priority, then scanlator preference), and only when the profile
  allows upgrades; the decision is flagged as an upgrade exactly then.
\<close>

theorem decide_upgrade_strict:
  assumes "cache_ok compile cache" and "d_approved (fst (Decide compile clock cache inp cands)) = Some best"
    and "in_current_release inp = Some cur"
  shows "(in_current_file inp \<noteq> None \<longrightarrow>
      Better (pref_of compile inp) best cur \<and> pc_allow_upgrades (pr_config (in_profile inp)))
    \<and> (d_is_upgrade (fst (Decide compile clock cache inp cands)) \<longleftrightarrow> in_current_file inp \<noteq> None)"
proof -
  note D = Decide_approved [OF assms(1,2)]
  from D(1) have "in_current_file inp \<noteq> None \<Longrightarrow> pc_allow_upgrades (pr_config (in_profile inp))"
    by (auto simp: chapter_wanted_def)
  with decide_releases_approved(4,5) [OF D(3)] assms(3) show ?thesis
    by (auto simp: Decide_wanted [OF assms(1) D(1,2)])
qed

theorem decide_upgrade_strict_witness: "Better [] ex_first ex_second"
  using decide_upgrade_strict [OF ex_cache ex_upgrade, of ex_second]
  by (simp add: ex_input_def samples patterns_def map_filter_simps)

text \<open>
  C2: Upgrading stops: once the approved release has been imported, the same candidates under the
  same profile, clock and blocklist never yield another download for the chapter, so an upgrade
  cannot oscillate between releases.
\<close>

theorem decide_fixpoint:
  assumes "cache_ok compile cache" and "cache_ok compile cache'"
    and "d_approved (fst (Decide compile clock cache inp cands)) = Some best"
    and "inp' = inp\<lparr>in_current_file := Some file, in_current_release := Some best\<rparr>"
  shows "d_approved (fst (Decide compile clock cache' inp' cands)) = None"
proof (rule ccontr)
  assume "d_approved (fst (Decide compile clock cache' inp' cands)) \<noteq> None"
  then obtain b where b: "d_approved (fst (Decide compile clock cache' inp' cands)) = Some b" by auto
  note D = Decide_approved [OF assms(1,3)] and D' = Decide_approved [OF assms(2) b]
  have "b \<in> set cands" and "release_ok inp' (blocked_of compile inp') (now_of clock inp') b"
    by (rule decide_releases_approved [OF D'(3)])+
  moreover have "release_ok inp' (blocked_of compile inp') (now_of clock inp') b \<longleftrightarrow>
      release_ok inp (blocked_of compile inp) (now_of clock inp) b"
    by (simp add: assms(4) release_ok_def)
  ultimately have "\<not> cand_less (pref_of compile inp) b best"
    using decide_releases_approved(3) [OF D(3)] by blast
  moreover have "Better (pref_of compile inp') b best"
    using decide_releases_approved(4) [OF D'(3)] by (simp add: assms(4))
  ultimately show False by (auto simp: assms(4) dest: Better_less)
qed

theorem decide_fixpoint_witness:
  "d_approved (fst (Decide ex_compile 10 Map.empty
     (ex_input\<lparr>in_current_file := Some sample_file, in_current_release := Some ex_first\<rparr>) [ex_second, ex_first])) = None"
  by (rule decide_fixpoint [OF ex_cache ex_cache ex_missing]) simp

end
