(* ===== verification/SourcePriority.thy ===== *)
theory SourcePriority
  imports Samples
begin

text \<open>
  \<open>internal/sourcepriority\<close>: the effective order of catalogs for a series.  A library list
  comes before a language list, listed catalogs before the others, which keep their global
  priority.  \<open>order_key\<close> says where a catalog belongs; \<open>Order\<close> ranks by it.
\<close>

section \<open>Keys and scopes\<close>

definition Language :: "string \<Rightarrow> string" where
  "Language v = (let v = to_lower (trim_space v) in if v = ''ua'' then ''uk'' else v)"

definition Key :: "int64 \<Rightarrow> string \<Rightarrow> string" where
  "Key moduleID sourceID = format_int moduleID @ '':'' @ sourceID"

definition LibraryScope :: "int64 \<Rightarrow> string" where
  "LibraryScope i = ''library:'' @ format_int i"

definition LanguageScope :: "string \<Rightarrow> string" where
  "LanguageScope lang = ''language:'' @ Language lang"

record entry =
  en_key :: string
  en_priority :: int

section \<open>Ranking\<close>

text \<open>
  The two maps are filled with \<open>len(map)\<close> as the next value, skipping keys that are there, so
  each is the list of its keys in the order of their values.
\<close>

fun add_new :: "'a list \<Rightarrow> 'a list \<Rightarrow> 'a list" where
  "add_new seen [] = seen"
| "add_new seen (x # xs) = (if x \<in> set seen then add_new seen xs else add_new (seen @ [x]) xs)"

fun index_in :: "'a list \<Rightarrow> 'a \<Rightarrow> nat option" where
  "index_in [] x = None"
| "index_in (y # ys) x = (if x = y then Some 0 else map_option Suc (index_in ys x))"

definition explicit_keys :: "string list \<Rightarrow> string list \<Rightarrow> string list" where
  "explicit_keys library language = add_new (add_new [] library) language"

definition entry_less :: "string list \<Rightarrow> entry \<Rightarrow> entry \<Rightarrow> bool" where
  "entry_less ex a b =
     (case index_in ex (en_key a) of
        Some i \<Rightarrow> (case index_in ex (en_key b) of Some j \<Rightarrow> i < j | None \<Rightarrow> True)
      | None \<Rightarrow>
          (case index_in ex (en_key b) of
             Some j \<Rightarrow> False
           | None \<Rightarrow> if en_priority a \<noteq> en_priority b then en_priority a < en_priority b else en_key a < en_key b))"

definition Order :: "entry list \<Rightarrow> string list \<Rightarrow> string list \<Rightarrow> string \<Rightarrow> nat option" where
  "Order entries library language =
     index_in (add_new [] (map en_key (stable_sort (entry_less (explicit_keys library language)) entries)))"

text \<open>A missing key of a Go map reads as 0.\<close>

definition rank_of :: "(string \<Rightarrow> nat option) \<Rightarrow> string \<Rightarrow> int" where
  "rank_of m k = (case m k of None \<Rightarrow> 0 | Some n \<Rightarrow> int n)"

definition Resolve :: "source_priority_list list \<Rightarrow> int64 \<Rightarrow> string \<Rightarrow> entry list \<Rightarrow> string \<Rightarrow> nat option" where
  "Resolve spls rootID lang entries =
     (let ls = filter (\<lambda>l. spl_scope l = LibraryScope rootID \<or> spl_scope l = LanguageScope lang) spls;
          (library, language) = foldl (\<lambda>(library, language) l.
             if spl_scope l = LibraryScope rootID then (spl_sources l, language) else (library, spl_sources l)) ([], []) ls
      in Order entries library language)"

definition global_priority :: "catalog_pref list \<Rightarrow> string \<Rightarrow> int" where
  "global_priority prefs key =
     (case rev (filter (\<lambda>p. Key (cp_module_id p) (cp_source_id p) = key) prefs) of
        [] \<Rightarrow> 100
      | p # _ \<Rightarrow> cp_priority p)"

definition link_key :: "series_source \<Rightarrow> string" where
  "link_key l = Key (ss_module_id l) (ss_source_id l)"

definition Ranks ::
  "source_priority_list list \<Rightarrow> catalog_pref list \<Rightarrow> series \<Rightarrow> series_source list \<Rightarrow> series_source \<Rightarrow> int" where
  "Ranks spls prefs ser links =
     (if s_priority_mode ser \<noteq> Inherit then ss_priority
      else
        let entries = map (\<lambda>l. \<lparr>en_key = link_key l, en_priority = global_priority prefs (link_key l)\<rparr>) links;
            ranks = Resolve spls (s_root_folder_id ser) (s_language ser) entries
        in (\<lambda>l. rank_of ranks (link_key l)))"

definition link_less :: "series_source \<Rightarrow> series_source \<Rightarrow> bool" where
  "link_less a b \<longleftrightarrow>
     (if ss_priority a \<noteq> ss_priority b then ss_priority a < ss_priority b else ss_id a < ss_id b)"

definition Apply ::
  "source_priority_list list \<Rightarrow> catalog_pref list \<Rightarrow> series \<Rightarrow> series_source list \<Rightarrow> series_source list" where
  "Apply spls prefs ser links =
     stable_sort link_less (map (\<lambda>l. l\<lparr>ss_priority := Ranks spls prefs ser links l\<rparr>) links)"

section \<open>The keys of the maps\<close>

lemma Key_inj: "Key m s = Key n t \<Longrightarrow> m = n \<and> s = t"
  by (rule format_int_sep [of m "CHR '':''" s n t]) (auto simp: Key_def digit_def)

lemma add_new_set [simp]: "set (add_new seen xs) = set seen \<union> set xs"
  by (induction seen xs rule: add_new.induct) auto

lemma add_new_distinct: "distinct seen \<Longrightarrow> distinct (add_new seen xs)"
  by (induction seen xs rule: add_new.induct) auto

lemma index_in_None [simp]: "index_in xs x = None \<longleftrightarrow> x \<notin> set xs"
  by (induction xs) auto

lemma index_in_Some: "index_in xs x = Some i \<Longrightarrow> i < length xs \<and> xs ! i = x"
  by (induction xs arbitrary: i) (auto split: if_splits)

lemma index_in_nth: "distinct xs \<Longrightarrow> i < length xs \<Longrightarrow> index_in xs (xs ! i) = Some i"
  by (induction xs arbitrary: i) (auto simp: nth_Cons split: nat.splits)

lemma add_new_prefix: "\<exists>ys. add_new seen xs = seen @ ys"
  by (induction seen xs rule: add_new.induct) auto

text \<open>
  Where a catalog belongs: its position in the library list, then in the language list, then
  its global priority, then its key.
\<close>

definition order_key :: "string list \<Rightarrow> string list \<Rightarrow> entry \<Rightarrow> nat \<times> nat \<times> int \<times> string" where
  "order_key library language e =
     (if en_key e \<in> set library then (0, the (index_in library (en_key e)), 0, [])
      else if en_key e \<in> set language then (1, the (index_in language (en_key e)), 0, [])
      else (2, 0, en_priority e, en_key e))"

section \<open>The order\<close>

lemma index_in_left: "x \<in> set xs \<Longrightarrow> index_in (xs @ ys) x = index_in xs x"
  by (induction xs) auto

lemma index_in_right: "x \<notin> set xs \<Longrightarrow> index_in (xs @ ys) x = map_option (\<lambda>i. length xs + i) (index_in ys x)"
  by (induction xs) (auto simp: map_option_case simp del: index_in_None split: option.splits)

lemma index_in_mem: "x \<in> set xs \<Longrightarrow> index_in xs x = Some (the (index_in xs x))"
  by (cases "index_in xs x") auto

lemma add_new_order:
  assumes "x \<notin> set seen" and "y \<notin> set seen" and "x \<in> set xs" and "y \<in> set xs"
  shows "the (index_in (add_new seen xs) x) < the (index_in (add_new seen xs) y) \<longleftrightarrow>
    the (index_in xs x) < the (index_in xs y)"
  using assms
proof (induction seen xs rule: add_new.induct)
  case (2 seen z xs)
  show ?case
  proof (cases "z \<in> set seen")
    case True
    with 2 show ?thesis by (auto simp: map_option_case split: option.splits)
  next
    case False
    obtain ys where ys: "add_new (seen @ [z]) xs = (seen @ [z]) @ ys" using add_new_prefix by blast
    have z: "index_in (add_new (seen @ [z]) xs) z = Some (length seen)"
      unfolding ys using False by (simp add: index_in_left index_in_right del: append_assoc)
    have o: "\<exists>i. index_in (add_new (seen @ [z]) xs) w = Some i \<and> length seen < i"
      if "w \<noteq> z" "w \<notin> set seen" "w \<in> set (z # xs)" for w
    proof -
      have "w \<in> set (add_new (seen @ [z]) xs)" using that by simp
      then have "w \<in> set ys" using that unfolding ys by simp
      then obtain i where "index_in ys w = Some i" by (cases "index_in ys w") auto
      with that show ?thesis unfolding ys by (simp add: index_in_right del: append_assoc)
    qed
    show ?thesis
    proof (cases "x = z \<or> y = z")
      case True
      then show ?thesis using False z o [of x] o [of y] 2(3-6)
        by (cases "x = y") (auto simp: map_option_case split: option.splits)
    next
      case neq: False
      have e: "the (index_in (z # xs) x) < the (index_in (z # xs) y) \<longleftrightarrow> the (index_in xs x) < the (index_in xs y)"
        using neq 2(5,6) by (auto simp: map_option_case split: option.splits)
      show ?thesis unfolding e using False neq 2(2) [OF False] 2(3-6) by auto
    qed
  qed
qed simp

lemma explicit_split: "\<exists>ys. explicit_keys library language = add_new [] library @ ys"
  unfolding explicit_keys_def by (rule add_new_prefix)

lemma explicit_set [simp]: "set (explicit_keys library language) = set library \<union> set language"
  by (simp add: explicit_keys_def)

lemma explicit_library:
  "x \<in> set library \<Longrightarrow> index_in (explicit_keys library language) x = index_in (add_new [] library) x"
  using explicit_split [of library language] index_in_left [of x "add_new [] library"] by auto

lemma explicit_above:
  assumes "y \<notin> set library" and "y \<in> set language"
  shows "length (add_new [] library) \<le> the (index_in (explicit_keys library language) y)"
proof -
  obtain ys where ys: "explicit_keys library language = add_new [] library @ ys" using explicit_split by blast
  have "y \<in> set (explicit_keys library language)" using assms by simp
  then have "y \<in> set ys" using assms(1) unfolding ys by simp
  then obtain i where "index_in ys y = Some i" by (cases "index_in ys y") auto
  with assms(1) show ?thesis unfolding ys by (simp add: index_in_right)
qed

lemma entry_less_key: "entry_less (explicit_keys library language) a b \<longleftrightarrow> order_key library language a < order_key library language b"
proof -
  let ?ex = "explicit_keys library language"
  have lib: "the (index_in ?ex x) < the (index_in ?ex y) \<longleftrightarrow> the (index_in library x) < the (index_in library y)"
    if "x \<in> set library" "y \<in> set library" for x y
    using that add_new_order [of x "[]" y library] by (simp add: explicit_library)
  have lang: "the (index_in ?ex x) < the (index_in ?ex y) \<longleftrightarrow> the (index_in language x) < the (index_in language y)"
    if "x \<notin> set library" "y \<notin> set library" "x \<in> set language" "y \<in> set language" for x y
    using that add_new_order [of x "add_new [] library" y language] by (simp add: explicit_keys_def)
  have mix: "the (index_in ?ex x) < the (index_in ?ex y) \<and> \<not> the (index_in ?ex y) < the (index_in ?ex x)"
    if "x \<in> set library" "y \<notin> set library" "y \<in> set language" for x y
  proof -
    have "x \<in> set (add_new [] library)" using that by simp
    from index_in_Some [OF index_in_mem [OF this]] have "the (index_in ?ex x) < length (add_new [] library)"
      by (simp add: explicit_library that(1))
    with explicit_above [OF that(2,3)] show ?thesis by simp
  qed
  define pos where "pos x = the (index_in ?ex x)" for x
  have mem: "x \<in> set library \<or> x \<in> set language \<Longrightarrow> index_in ?ex x = Some (pos x)" for x
    unfolding pos_def by (rule index_in_mem) simp
  have nomem: "x \<notin> set library \<Longrightarrow> x \<notin> set language \<Longrightarrow> index_in ?ex x = None" for x by simp
  show ?thesis
    unfolding entry_less_def order_key_def
    using lib [of "en_key a" "en_key b"] lang [of "en_key a" "en_key b"] mix [of "en_key a" "en_key b"] mix [of "en_key b" "en_key a"]
    unfolding pos_def [symmetric]
    by (cases "en_key a \<in> set library"; cases "en_key b \<in> set library"; cases "en_key a \<in> set language";
        cases "en_key b \<in> set language") (auto simp: mem nomem simp del: index_in_None)
qed

interpretation catalogs: weak_order "entry_less (explicit_keys library language)" for library language
  by (rule weak_order_keyI) (rule entry_less_key)

lemma index_mono:
  assumes "sorted_wrt R xs" and "distinct xs" and "x \<in> set xs" and "y \<in> set xs" and "the (index_in xs x) < the (index_in xs y)"
  shows "R x y"
proof -
  obtain i j where i: "index_in xs x = Some i" and j: "index_in xs y = Some j"
    using assms(3,4) by (metis index_in_mem)
  with assms(5) index_in_Some [OF i] index_in_Some [OF j] assms(1) show ?thesis
    by (auto simp: sorted_wrt_iff_nth_less)
qed

lemma add_new_sorted:
  assumes "sorted_wrt (\<lambda>a b. f a \<le> (f b :: 'k :: linorder)) (seen @ xs)"
  shows "sorted_wrt (\<lambda>a b. f a \<le> f b) (add_new seen xs)"
  using assms
  by (induction seen xs rule: add_new.induct) (auto simp: sorted_wrt_append)

text \<open>
  The effective order of catalogs is the documented one: every catalog of the series gets a rank
  of its own, the ranks are the numbers from 0 without gaps, and one catalog ranks before another
  exactly when it comes first in the library list, then the language list, then by global priority,
  then by key.
\<close>

theorem order_spec:
  assumes "\<And>a b. a \<in> set entries \<Longrightarrow> b \<in> set entries \<Longrightarrow> en_key a = en_key b \<Longrightarrow> en_priority a = en_priority b"
    and "a \<in> set entries" and "b \<in> set entries"
  shows "\<exists>i j. Order entries library language (en_key a) = Some i \<and> Order entries library language (en_key b) = Some j
    \<and> i < card (en_key ` set entries) \<and> (i = j \<longleftrightarrow> en_key a = en_key b)
    \<and> (i < j \<longleftrightarrow> order_key library language a < order_key library language b)"
proof -
  let ?lt = "entry_less (explicit_keys library language)" and ?k = "order_key library language"
  let ?s = "stable_sort ?lt entries" and ?r = "add_new [] (map en_key (stable_sort ?lt entries))"
  define g where "g key = ?k (SOME e. e \<in> set entries \<and> en_key e = key)" for key
  have g: "g (en_key e) = ?k e" if "e \<in> set entries" for e
  proof -
    have "\<exists>x. x \<in> set entries \<and> en_key x = en_key e" using that by blast
    from someI_ex [OF this] assms(1) [OF _ that] show ?thesis by (auto simp: g_def order_key_def)
  qed
  have "sorted_wrt (\<lambda>a b. ?k a \<le> ?k b) ?s"
    using catalogs.sort_sorted [of library language entries]
    by (rule sorted_wrt_mono_rel [rotated]) (simp add: entry_less_key)
  then have "sorted_wrt (\<lambda>a b. g (en_key a) \<le> g (en_key b)) ?s"
    by (rule sorted_wrt_mono_rel [rotated]) (simp add: g)
  then have sr: "sorted_wrt (\<lambda>a b. g a \<le> g b) ?r" by (intro add_new_sorted) (simp add: sorted_wrt_map)
  have dr: "distinct ?r" by (rule add_new_distinct) simp
  have set_r: "set ?r = en_key ` set entries" by simp
  then have ra: "en_key a \<in> set ?r" and rb: "en_key b \<in> set ?r" using assms(2,3) by auto
  have len: "length ?r = card (en_key ` set entries)" using distinct_card [OF dr] set_r by simp
  obtain i j where i: "index_in ?r (en_key a) = Some i" and j: "index_in ?r (en_key b) = Some j"
    using ra rb by (metis index_in_mem)
  note I = index_in_Some [OF i] and J = index_in_Some [OF j]
  have inj: "x = y" if "x \<in> set xs" "y \<in> set xs" "the (index_in xs x) = the (index_in xs y)" for x y and xs :: "string list"
    using index_in_Some [OF index_in_mem [OF that(1)]] index_in_Some [OF index_in_mem [OF that(2)]] that(3) by metis
  have ki: "?k a = ?k b \<Longrightarrow> en_key a = en_key b"
    using inj [of "en_key a" library "en_key b"] inj [of "en_key a" language "en_key b"]
    by (simp add: order_key_def split: if_splits)
  have "i < j \<Longrightarrow> ?k a \<le> ?k b" "j < i \<Longrightarrow> ?k b \<le> ?k a"
    using index_mono [OF sr dr ra rb] index_mono [OF sr dr rb ra] i j g [OF assms(2)] g [OF assms(3)] by auto
  moreover have ij: "i = j \<longleftrightarrow> en_key a = en_key b"
  proof
    show "i = j \<Longrightarrow> en_key a = en_key b" using I J by metis
    show "en_key a = en_key b \<Longrightarrow> i = j" using i j by simp
  qed
  moreover have "en_key a = en_key b \<Longrightarrow> ?k a = ?k b" using assms(1) [OF assms(2,3)] by (simp add: order_key_def)
  ultimately have "i < j \<longleftrightarrow> ?k a < ?k b" using ki by (metis linorder_neqE_nat order.strict_iff_order order.antisym)
  moreover have "i < card (en_key ` set entries)" using I len by simp
  ultimately show ?thesis unfolding Order_def using i j ij by blast
qed


theorem order_spec_witness:
  "\<exists>i j. Order [\<lparr>en_key = ''1:a'', en_priority = 5\<rparr>, \<lparr>en_key = ''1:b'', en_priority = 9\<rparr>] [] [''1:b''] ''1:b'' = Some i
    \<and> Order [\<lparr>en_key = ''1:a'', en_priority = 5\<rparr>, \<lparr>en_key = ''1:b'', en_priority = 9\<rparr>] [] [''1:b''] ''1:a'' = Some j \<and> i < j"
proof -
  let ?a = "\<lparr>en_key = ''1:a'', en_priority = 5\<rparr>" and ?b = "\<lparr>en_key = ''1:b'', en_priority = 9\<rparr>"
  have c: "x \<in> set [?a, ?b] \<Longrightarrow> y \<in> set [?a, ?b] \<Longrightarrow> en_key x = en_key y \<Longrightarrow> en_priority x = en_priority y" for x y
    by auto
  have "order_key [] [''1:b''] ?b < order_key [] [''1:b''] ?a" by (simp add: order_key_def)
  with order_spec [where entries = "[?a, ?b]" and a = ?b and b = ?a and library = "[]" and language = "[''1:b'']", OF c]
  show ?thesis by (simp only: entry.simps list.set) blast
qed

end
