(* ===== verification/QueueOrder.thy ===== *)
theory QueueOrder
  imports Samples
begin

text \<open>
  \<open>internal/downloads/rank.go\<close>: the durable order of the download queue.  The state record
  is the part of the database the queue writes (jobs, chapters, releases, blocklist,
  history, the revision row) with the manager's wake channel (capacity one, so a boolean)
  and the change events published on the bus.  \<open>order\<close> is the abstract queue, the job ids in
  rank order; \<open>move_spec\<close> and \<open>refill\<close> say on it what \<open>Move\<close> and \<open>SortByChapter\<close> promise.
\<close>

section \<open>State\<close>

type_synonym change = "string \<times> string \<times> int64"

record queue_state =
  q_jobs :: "download_job table"
  q_chapters :: "chapter_row table"
  q_releases :: "chapter_release table"
  q_blocklist :: "blocklist table"
  q_history :: "history table"
  q_revision :: int64
  q_wake :: bool
  q_bus :: "change list"

datatype queue_error = ErrNoRows | ErrUnknownMove string | ErrAnchorGiven | ErrAnchorRequired
  | ErrAnchorSelected | ErrAnchorNotPending | ErrRankExhausted | ErrQueueOrderChanged

datatype move = Top | Bottom | Before | After | OtherMove string

definition rankStep :: int64 where "rankStep = 1048576"
definition rankLimit :: int64 where "rankLimit = 4503599627370496"

definition pendingStatuses :: "job_status set" where
  "pendingStatuses = {JobQueued, JobPaused}"

abbreviation pending :: "download_job \<Rightarrow> bool" where
  "pending j \<equiv> j_status j \<in> pendingStatuses"

definition signal :: "queue_state \<Rightarrow> queue_state" where
  "signal s = s\<lparr>q_wake := True\<rparr>"

definition changed :: "string \<Rightarrow> string \<Rightarrow> int64 \<Rightarrow> queue_state \<Rightarrow> queue_state" where
  "changed resource action i s = s\<lparr>q_bus := q_bus s @ [(resource, action, i)]\<rparr>"

definition bumpOrder :: "queue_state \<Rightarrow> queue_state" where
  "bumpOrder s = s\<lparr>q_revision := q_revision s + 1\<rparr>"

section \<open>Rank allocation\<close>

definition job_less :: "download_job \<Rightarrow> download_job \<Rightarrow> bool" where
  "job_less a b \<longleftrightarrow> j_rank a < j_rank b \<or> j_rank a = j_rank b \<and> j_id a < j_id b"

definition min_rank :: "download_job list \<Rightarrow> int64 option" where
  "min_rank js = (if js = [] then None else Some (Min (j_rank ` set js)))"

definition max_rank :: "download_job list \<Rightarrow> int64 option" where
  "max_rank js = (if js = [] then None else Some (Max (j_rank ` set js)))"

definition null_int64 :: "int64 option \<Rightarrow> int64" where
  "null_int64 v = (case v of None \<Rightarrow> 0 | Some x \<Rightarrow> x)"

text \<open>The open interval the new ranks go into, one case per action.\<close>

definition rank_gap :: "download_job table \<Rightarrow> move \<Rightarrow> int64 \<Rightarrow> int \<Rightarrow> queue_error + int64 \<times> int64" where
  "rank_gap t action anchorID n =
     (case action of
        Top \<Rightarrow> (let high = null_int64 (min_rank (rows t)) in Inr (high - rankStep * (n + 1), high))
      | Bottom \<Rightarrow> (let low = null_int64 (max_rank (rows t)) in Inr (low, low + rankStep * (n + 1)))
      | Before \<Rightarrow>
          (case tget j_id anchorID t of
             None \<Rightarrow> Inl ErrNoRows
           | Some anchor \<Rightarrow>
               (let high = j_rank anchor in
                case max_rank (filter (\<lambda>j. j_rank j < high) (rows t)) of
                  Some low \<Rightarrow> Inr (low, high)
                | None \<Rightarrow> Inr (high - rankStep * (n + 1), high)))
      | After \<Rightarrow>
          (case tget j_id anchorID t of
             None \<Rightarrow> Inl ErrNoRows
           | Some anchor \<Rightarrow>
               (let low = j_rank anchor in
                case min_rank (filter (\<lambda>j. low < j_rank j) (rows t)) of
                  Some high \<Rightarrow> Inr (low, high)
                | None \<Rightarrow> Inr (low, low + rankStep * (n + 1))))
      | OtherMove a \<Rightarrow> Inl (ErrUnknownMove a))"

text \<open>
  The compaction statement: \<open>ROW_NUMBER() OVER (ORDER BY rank, id) * rankStep\<close>, the row
  number being one more than the number of rows before it.
\<close>

definition renumber :: "download_job table \<Rightarrow> download_job table" where
  "renumber t = t\<lparr>rows := map (\<lambda>j. j\<lparr>j_rank :=
       rankStep * (1 + int (length (filter (\<lambda>k. job_less k j) (rows t))))\<rparr>) (rows t)\<rparr>"

fun ranks_attempt ::
  "nat \<Rightarrow> download_job table \<Rightarrow> move \<Rightarrow> int64 \<Rightarrow> nat \<Rightarrow> queue_error + int64 list \<times> download_job table" where
  "ranks_attempt 0 t action anchorID n = Inl ErrRankExhausted"
| "ranks_attempt (Suc k) t action anchorID n =
     (case rank_gap t action anchorID (int n) of
        Inl e \<Rightarrow> Inl e
      | Inr (low, high) \<Rightarrow>
          (let step = go_div (high - low) (int n + 1) in
           if - rankLimit < low \<and> high < rankLimit \<and> 0 < step then
             Inr (map (\<lambda>i. low + step * (int i + 1)) [0..<n], t)
           else ranks_attempt k (renumber t) action anchorID n))"

definition ranks ::
  "download_job table \<Rightarrow> move \<Rightarrow> int64 \<Rightarrow> nat \<Rightarrow> queue_error + int64 list \<times> download_job table" where
  "ranks t action anchorID n = ranks_attempt 2 t action anchorID n"

text \<open>\<open>SELECT id ... WHERE pending AND priority < ? ORDER BY rank, id LIMIT 1\<close>, then before or at the bottom.\<close>

definition insertionRanks ::
  "download_job table \<Rightarrow> int \<Rightarrow> nat \<Rightarrow> queue_error + int64 list \<times> download_job table" where
  "insertionRanks t priority n =
     (case stable_sort job_less (filter (\<lambda>j. pending j \<and> j_priority j < priority) (rows t)) of
        [] \<Rightarrow> ranks t Bottom 0 n
      | anchor # _ \<Rightarrow> ranks t Before (j_id anchor) n)"

section \<open>Moving and sorting\<close>

fun set_ranks :: "time \<Rightarrow> (int64 \<times> int64) list \<Rightarrow> download_job table \<Rightarrow> download_job table" where
  "set_ranks now [] t = t"
| "set_ranks now ((i, v) # ps) t =
     set_ranks now ps (upd_where (\<lambda>j. j_id j = i) (\<lambda>j. j\<lparr>j_rank := v, j_updated_at := now\<rparr>) t)"

definition selected :: "int64 list \<Rightarrow> download_job table \<Rightarrow> download_job list" where
  "selected ids t = stable_sort job_less (filter (\<lambda>j. j_id j \<in> set ids \<and> pending j) (rows t))"

definition check_move :: "int64 list \<Rightarrow> move \<Rightarrow> int64 \<Rightarrow> queue_error option" where
  "check_move ids action anchorID =
     (case action of
        OtherMove a \<Rightarrow> Some (ErrUnknownMove a)
      | _ \<Rightarrow>
          (if action = Top \<or> action = Bottom then
             (if anchorID \<noteq> 0 then Some ErrAnchorGiven else None)
           else if anchorID \<le> 0 then Some ErrAnchorRequired
           else if anchorID \<in> set ids then Some ErrAnchorSelected
           else None))"

definition after_reorder :: "nat \<Rightarrow> queue_state \<Rightarrow> queue_state" where
  "after_reorder affected s =
     (if affected > 0 then changed ''chapter'' ''updated'' 0 (changed ''queue'' ''sync'' 0 (signal s)) else s)"

definition Move ::
  "time \<Rightarrow> queue_state \<Rightarrow> int64 list \<Rightarrow> move \<Rightarrow> int64 \<Rightarrow> queue_error + queue_state \<times> nat" where
  "Move now s ids action anchorID =
     (case check_move ids action anchorID of
        Some e \<Rightarrow> Inl e
      | None \<Rightarrow>
          if anchorID \<noteq> 0 \<and> filter (\<lambda>j. j_id j = anchorID \<and> pending j) (rows (q_jobs s)) = [] then
            Inl ErrAnchorNotPending
          else
            (let jobs = selected ids (q_jobs s) in
             if jobs = [] then Inr (s, 0)
             else
               case ranks (q_jobs s) action anchorID (length jobs) of
                 Inl e \<Rightarrow> Inl e
               | Inr (vals, t) \<Rightarrow>
                   Inr (after_reorder (length jobs)
                          (bumpOrder (s\<lparr>q_jobs := set_ranks now (zip (map j_id jobs) vals) t\<rparr>)),
                        length jobs)))"

text \<open>\<open>SortByChapter\<close>: the join with the chapters, the slots, the series order, the new ranks.\<close>

definition chapter_of :: "queue_state \<Rightarrow> download_job \<Rightarrow> chapter_row option" where
  "chapter_of s j = tget c_id (j_chapter_id j) (q_chapters s)"

definition number_of :: "queue_state \<Rightarrow> download_job \<Rightarrow> float64" where
  "number_of s j = (case chapter_of s j of None \<Rightarrow> 0 | Some c \<Rightarrow> c_number_sort c)"

fun series_order :: "int64 list \<Rightarrow> int64 list \<Rightarrow> int64 list" where
  "series_order seen [] = seen"
| "series_order seen (x # xs) = (if x \<in> set seen then series_order seen xs else series_order (seen @ [x]) xs)"

fun index_of :: "'a list \<Rightarrow> 'a \<Rightarrow> nat" where
  "index_of [] x = 0"
| "index_of (y # ys) x = (if x = y then 0 else Suc (index_of ys x))"

definition chapter_less :: "queue_state \<Rightarrow> int64 list \<Rightarrow> download_job \<Rightarrow> download_job \<Rightarrow> bool" where
  "chapter_less s sers a b \<longleftrightarrow>
     (if index_of sers (j_series_id a) \<noteq> index_of sers (j_series_id b)
      then index_of sers (j_series_id a) < index_of sers (j_series_id b)
      else number_of s a < number_of s b)"

definition SortByChapter :: "time \<Rightarrow> queue_state \<Rightarrow> int64 list \<Rightarrow> queue_state \<times> nat" where
  "SortByChapter now s ids =
     (let jobs = filter (\<lambda>j. chapter_of s j \<noteq> None) (selected ids (q_jobs s));
          slots = map j_rank jobs;
          sers = series_order [] (map j_series_id jobs);
          sorted = stable_sort (chapter_less s sers) jobs;
          moves = filter (\<lambda>(j, v). j_rank j \<noteq> v) (zip sorted slots)
      in
      if length jobs < 2 \<or> moves = [] then (s, 0)
      else
        (after_reorder (length moves)
           (bumpOrder (s\<lparr>q_jobs := set_ranks now (map (\<lambda>(j, v). (j_id j, v)) moves) (q_jobs s)\<rparr>)),
         length moves))"

section \<open>The abstract queue\<close>

definition order :: "download_job table \<Rightarrow> int64 list" where
  "order t = map j_id (stable_sort job_less (rows t))"

definition move_spec :: "move \<Rightarrow> int64 \<Rightarrow> int64 set \<Rightarrow> int64 list \<Rightarrow> int64 list" where
  "move_spec action anchor sel q =
     (let block = filter (\<lambda>i. i \<in> sel) q; rest = filter (\<lambda>i. i \<notin> sel) q in
      case action of
        Top \<Rightarrow> block @ rest
      | Bottom \<Rightarrow> rest @ block
      | Before \<Rightarrow> takeWhile (\<lambda>i. i \<noteq> anchor) rest @ block @ dropWhile (\<lambda>i. i \<noteq> anchor) rest
      | After \<Rightarrow> takeWhile (\<lambda>i. i \<noteq> anchor) rest @ anchor # block @ tl (dropWhile (\<lambda>i. i \<noteq> anchor) rest)
      | OtherMove _ \<Rightarrow> q)"

fun refill :: "int64 set \<Rightarrow> int64 list \<Rightarrow> int64 list \<Rightarrow> int64 list" where
  "refill sel [] new = []"
| "refill sel (i # q) new =
     (if i \<in> sel then (case new of [] \<Rightarrow> i # refill sel q [] | n # ns \<Rightarrow> n # refill sel q ns)
      else i # refill sel q new)"

text \<open>
  The invariant of the queue: ids are keys, ranks are distinct and inside the range every
  JSON client represents exactly.
\<close>

definition ranks_ok :: "download_job table \<Rightarrow> bool" where
  "ranks_ok t \<longleftrightarrow> twf j_id t \<and> distinct (map j_rank (rows t))
     \<and> (\<forall>j \<in> set (rows t). - rankLimit < j_rank j \<and> j_rank j < rankLimit)"

section \<open>Order and ranks\<close>

abbreviation by_rank :: "download_job \<Rightarrow> download_job \<Rightarrow> bool" where
  "by_rank a b \<equiv> j_rank a < j_rank b"

lemma job_less_key: "job_less a b \<longleftrightarrow> (j_rank a, j_id a) < (j_rank b, j_id b)"
  by (auto simp: job_less_def)

interpretation queue_order: weak_order job_less
  by (rule weak_order_keyI) (rule job_less_key)

lemma inj_id: "twf j_id t \<Longrightarrow> inj_on j_id (set (rows t))"
  by (simp add: twf_def distinct_map)

lemma distinct_rows: "twf j_id t \<Longrightarrow> distinct (rows t)"
  by (simp add: twf_def distinct_map)

lemma sort_eqI:
  assumes "twf j_id t" and "set M = {j \<in> set (rows t). Q j}" and "sorted_wrt by_rank M"
  shows "stable_sort job_less (filter Q (rows t)) = M"
proof (rule sort_by_key [where key = "\<lambda>j. (j_rank j, j_id j)"])
  show "sorted_wrt (\<lambda>x y. (j_rank x, j_id x) < (j_rank y, j_id y)) M"
    using assms(3) by (rule sorted_wrt_mono_rel [rotated]) simp
  show "inj_on (\<lambda>j. (j_rank j, j_id j)) (set (filter Q (rows t)))"
    using inj_id [OF assms(1)] by (auto simp: inj_on_def)
qed (use assms distinct_rows [OF assms(1)] in \<open>auto simp: job_less_key\<close>)

lemma order_eqI:
  assumes "twf j_id t" and "set M = set (rows t)" and "sorted_wrt by_rank M"
  shows "order t = map j_id M"
  using sort_eqI [OF assms(1) _ assms(3), of "\<lambda>_. True"] assms(2) by (simp add: order_def)

definition queue_list :: "download_job table \<Rightarrow> download_job list" where
  "queue_list t = stable_sort job_less (rows t)"

lemma set_queue_list [simp]: "set (queue_list t) = set (rows t)"
  by (simp add: queue_list_def)

lemma order_queue_list: "order t = map j_id (queue_list t)"
  by (simp add: order_def queue_list_def)

lemma queue_list_sorted:
  assumes "twf j_id t" and "distinct (map j_rank (rows t))"
  shows "sorted_wrt by_rank (queue_list t)"
proof -
  have "sorted_wrt (\<lambda>a b. \<not> job_less b a) (queue_list t)"
    by (simp add: queue_list_def queue_order.sort_sorted)
  then have "sorted_wrt (\<lambda>a b. j_rank a \<le> j_rank b) (queue_list t)"
    by (rule sorted_wrt_mono_rel [rotated]) (auto simp: job_less_def)
  moreover have "distinct (map j_rank (queue_list t))"
    using assms(2) by (simp add: queue_list_def distinct_map)
  ultimately show ?thesis
    using strict_sorted_iff [of "map j_rank (queue_list t)"] by (simp add: sorted_wrt_map)
qed

lemma selected_queue_list:
  assumes "twf j_id t" and "distinct (map j_rank (rows t))"
  shows "selected ids t = filter (\<lambda>j. j_id j \<in> set ids \<and> pending j) (queue_list t)"
  unfolding selected_def
  by (rule sort_eqI [OF assms(1)]) (auto intro: sorted_wrt_filter queue_list_sorted [OF assms])

section \<open>Writing ranks\<close>

lemma set_ranks_rows:
  "distinct (map fst ps) \<Longrightarrow>
   rows (set_ranks now ps t) =
     map (\<lambda>j. case map_of ps (j_id j) of Some v \<Rightarrow> j\<lparr>j_rank := v, j_updated_at := now\<rparr> | None \<Rightarrow> j) (rows t)"
proof (induction ps arbitrary: t)
  case Nil
  then show ?case by simp
next
  case (Cons p ps)
  obtain i v where p: "p = (i, v)" by fastforce
  from Cons.prems have "map_of ps i = None" by (simp add: p map_of_eq_None_iff)
  with Cons show ?case by (auto simp: p upd_where_def)
qed

lemma set_ranks_seq [simp]: "seq (set_ranks now ps t) = seq t"
  by (induction now ps t rule: set_ranks.induct) auto

lemma set_ranks_ids: "map j_id (rows (set_ranks now ps t)) = map j_id (rows t)"
  by (induction now ps t rule: set_ranks.induct) (simp_all add: jobs_table.map_rid_update)

lemma set_ranks_twf: "twf j_id t \<Longrightarrow> twf j_id (set_ranks now ps t)"
  by (induction now ps t rule: set_ranks.induct) (simp_all add: jobs_table.wf_update)

lemma by_rank_distinct: "sorted_wrt by_rank js \<Longrightarrow> distinct (map j_rank js)"
  by (induction js) force+

section \<open>Placing a block\<close>

text \<open>
  Writing strictly increasing ranks over a block of the queue, all above the ranks of
  \<open>front\<close> and below those of \<open>rear\<close>, puts the block between them.
\<close>

lemma place_block:
  assumes wf: "twf j_id t" and dr: "distinct (map j_rank (rows t))"
    and parts: "filter (\<lambda>j. j_id j \<notin> set ids) (queue_list t) = front @ rear"
    and block: "filter (\<lambda>j. j_id j \<in> set ids) (queue_list t) = block" "map j_id block = ids"
    and vals: "length vals = length ids" "sorted_wrt (<) vals"
    and lo: "\<And>j v. j \<in> set front \<Longrightarrow> v \<in> set vals \<Longrightarrow> j_rank j < v"
    and hi: "\<And>j v. j \<in> set rear \<Longrightarrow> v \<in> set vals \<Longrightarrow> v < j_rank j"
  shows "order (set_ranks now (zip ids vals) t) = map j_id front @ ids @ map j_id rear"
    and "distinct (map j_rank (rows (set_ranks now (zip ids vals) t)))"
    and "j_rank ` set (rows (set_ranks now (zip ids vals) t)) \<subseteq> j_rank ` set (rows t) \<union> set vals"
proof -
  define g :: "download_job \<Rightarrow> download_job" where "g j = (case map_of (zip ids vals) (j_id j) of
      Some v \<Rightarrow> j\<lparr>j_rank := v, j_updated_at := now\<rparr> | None \<Rightarrow> j)" for j
  let ?t' = "set_ranks now (zip ids vals) t"
  have "distinct (map j_id (queue_list t))"
    using wf by (simp add: queue_list_def distinct_map twf_def)
  then have "distinct (map j_id block)" unfolding block(1) [symmetric] by (rule distinct_map_filter)
  then have dids: "distinct ids" by (simp add: block(2))
  then have rows': "rows ?t' = map g (rows t)"
    by (simp add: set_ranks_rows vals g_def)
  have rest: "g j = j" if "j \<in> set front \<or> j \<in> set rear" for j
  proof -
    have "set (front @ rear) = {j \<in> set (rows t). j_id j \<notin> set ids}" unfolding parts [symmetric] by auto
    with that have "j_id j \<notin> set ids" by auto
    then have "map_of (zip ids vals) (j_id j) = None" by (simp add: map_of_zip_is_None vals(1))
    then show ?thesis by (simp add: g_def)
  qed
  have gid [simp]: "j_id (g j) = j_id j" for j by (simp add: g_def split: option.split)
  have gblock: "map j_rank (map g block) = vals"
  proof (rule nth_equalityI)
    show "length (map j_rank (map g block)) = length vals" using block(2) vals(1) by (metis length_map)
    fix i assume "i < length (map j_rank (map g block))"
    then have i: "i < length ids" "j_id (block ! i) = ids ! i" using block(2) by auto
    then have "map_of (zip ids vals) (j_id (block ! i)) = Some (vals ! i)"
      using dids vals(1) by (simp add: map_of_zip_nth)
    then show "map j_rank (map g block) ! i = vals ! i"
      using i block(2) by (auto simp: g_def)
  qed
  let ?M = "front @ map g block @ rear"
  have M: "?M = map g (front @ block @ rear)" using rest by (simp add: map_idI)
  have "set (front @ rear) = {j \<in> set (rows t). j_id j \<notin> set ids}"
    and "set block = {j \<in> set (rows t). j_id j \<in> set ids}"
    unfolding parts [symmetric] block(1) [symmetric] by auto
  then have "set (front @ block @ rear) = set (rows t)" by auto
  then have setM: "set ?M = set (rows ?t')" unfolding M rows' by (simp only: set_map)
  have sq: "sorted_wrt by_rank (queue_list t)" by (rule queue_list_sorted [OF wf dr])
  have "sorted_wrt by_rank (front @ rear)" using sq unfolding parts [symmetric] by (rule sorted_wrt_filter)
  moreover have "sorted_wrt by_rank (map g block)" using vals(2) unfolding gblock [symmetric] by (simp add: sorted_wrt_map)
  moreover have "j_rank (g b) \<in> set vals" if "b \<in> set block" for b
    using that gblock by (metis image_eqI list.set_map)
  ultimately have sM: "sorted_wrt by_rank ?M"
    using lo hi by (auto simp: sorted_wrt_append)
  from order_eqI [OF set_ranks_twf [OF wf] setM sM]
  show "order ?t' = map j_id front @ ids @ map j_id rear" by (simp add: block(2) [symmetric])
  have "distinct (map j_rank ?M)"
    by (rule by_rank_distinct [OF sM])
  then have "inj_on j_rank (set ?M)" by (simp only: distinct_map)
  then have "inj_on j_rank (set (rows ?t'))" by (simp only: setM)
  then show "distinct (map j_rank (rows ?t'))"
    using distinct_rows [OF set_ranks_twf [OF wf]] by (simp add: distinct_map)
  have "j_rank ` set (front @ rear) \<subseteq> j_rank ` set (rows t)" unfolding parts [symmetric] by auto
  moreover have "j_rank ` set (map g block) = set vals" unfolding gblock [symmetric] by (simp only: set_map)
  ultimately show "j_rank ` set (rows ?t') \<subseteq> j_rank ` set (rows t) \<union> set vals"
    unfolding setM [symmetric] by (auto simp del: set_map)
qed

section \<open>Gaps\<close>

text \<open>No job's rank lies strictly inside the interval, and the interval fits the action.\<close>

definition gap_ok :: "download_job table \<Rightarrow> move \<Rightarrow> int64 \<Rightarrow> int64 \<Rightarrow> int64 \<Rightarrow> bool" where
  "gap_ok t action anchorID low high \<longleftrightarrow>
     (case action of
        Top \<Rightarrow> (\<forall>j \<in> set (rows t). high \<le> j_rank j)
      | Bottom \<Rightarrow> (\<forall>j \<in> set (rows t). j_rank j \<le> low)
      | Before \<Rightarrow> (\<exists>a \<in> set (rows t). j_id a = anchorID \<and> high = j_rank a
            \<and> (\<forall>j \<in> set (rows t). j_rank j \<le> low \<or> high \<le> j_rank j))
      | After \<Rightarrow> (\<exists>a \<in> set (rows t). j_id a = anchorID \<and> low = j_rank a
            \<and> (\<forall>j \<in> set (rows t). j_rank j \<le> low \<or> high \<le> j_rank j))
      | OtherMove _ \<Rightarrow> False)"

lemma min_rank_le: "min_rank js = Some m \<Longrightarrow> j \<in> set js \<Longrightarrow> m \<le> j_rank j"
  by (auto simp: min_rank_def split: if_splits)

lemma max_rank_ge: "max_rank js = Some m \<Longrightarrow> j \<in> set js \<Longrightarrow> j_rank j \<le> m"
  by (auto simp: max_rank_def split: if_splits)

lemma min_rank_None [simp]: "min_rank js = None \<longleftrightarrow> js = []"
  by (simp add: min_rank_def)

lemma max_rank_None [simp]: "max_rank js = None \<longleftrightarrow> js = []"
  by (simp add: max_rank_def)

lemma rank_gap_ok:
  assumes "rank_gap t action anchorID n = Inr (low, high)"
  shows "gap_ok t action anchorID low high"
proof (cases action)
  case Top
  with assms show ?thesis
    by (cases "min_rank (rows t)")
       (auto simp: rank_gap_def gap_ok_def Let_def null_int64_def dest: min_rank_le)
next
  case Bottom
  with assms show ?thesis
    by (cases "max_rank (rows t)")
       (auto simp: rank_gap_def gap_ok_def Let_def null_int64_def dest: max_rank_ge)
next
  case Before
  with assms obtain a where a: "tget j_id anchorID t = Some a" by (auto simp: rank_gap_def split: option.splits)
  note am = tget_Some [OF a]
  show ?thesis
  proof (cases "max_rank (filter (\<lambda>j. j_rank j < j_rank a) (rows t))")
    case None
    then have "j \<in> set (rows t) \<Longrightarrow> j_rank a \<le> j_rank j" for j by (auto simp: filter_empty_conv not_less)
    with None am show ?thesis using assms Before a by (auto simp: rank_gap_def gap_ok_def Let_def simp del: max_rank_None)
  next
    case (Some m)
    then have "j \<in> set (rows t) \<Longrightarrow> j_rank j \<le> m \<or> j_rank a \<le> j_rank j" for j
      using max_rank_ge [OF Some, of j] by (auto simp: not_le)
    with Some am show ?thesis using assms Before a by (auto simp: rank_gap_def gap_ok_def Let_def)
  qed
next
  case After
  with assms obtain a where a: "tget j_id anchorID t = Some a" by (auto simp: rank_gap_def split: option.splits)
  note am = tget_Some [OF a]
  show ?thesis
  proof (cases "min_rank (filter (\<lambda>j. j_rank a < j_rank j) (rows t))")
    case None
    then have "j \<in> set (rows t) \<Longrightarrow> j_rank j \<le> j_rank a" for j by (auto simp: filter_empty_conv not_less)
    with None am show ?thesis using assms After a by (auto simp: rank_gap_def gap_ok_def Let_def simp del: min_rank_None)
  next
    case (Some m)
    then have "j \<in> set (rows t) \<Longrightarrow> j_rank j \<le> j_rank a \<or> m \<le> j_rank j" for j
      using min_rank_le [OF Some, of j] by (cases "j_rank a < j_rank j") auto
    with Some am show ?thesis using assms After a by (auto simp: rank_gap_def gap_ok_def Let_def)
  qed
next
  case (OtherMove a)
  with assms show ?thesis by (simp add: rank_gap_def)
qed

text \<open>The allocated ranks: increasing, inside the gap and so inside the limit.\<close>

lemma gap_vals:
  assumes "0 < go_div (high - low) (int n + 1)"
  defines "vals \<equiv> map (\<lambda>i. low + go_div (high - low) (int n + 1) * (int i + 1)) [0..<n]"
  shows "length vals = n" and "sorted_wrt (<) vals" and "v \<in> set vals \<Longrightarrow> low < v \<and> v < high"
proof -
  let ?s = "go_div (high - low) (int n + 1)"
  show "length vals = n" by (simp add: vals_def)
  show "sorted_wrt (<) vals"
    using assms(1) by (auto simp: vals_def sorted_wrt_iff_nth_less)
  assume "v \<in> set vals"
  then obtain i where i: "i < n" "v = low + ?s * (int i + 1)" by (auto simp: vals_def)
  have pos: "0 < high - low" by (rule go_div_pos_imp [OF assms(1)]) simp
  then have s: "?s = (high - low) div (int n + 1)" by (simp add: go_div_nonneg)
  have "?s * (int i + 1) \<le> ?s * int n" using i(1) assms(1) by (intro mult_left_mono) auto
  also have "\<dots> < ?s * (int n + 1)" using assms(1) by (intro mult_strict_left_mono) auto
  also have "\<dots> \<le> high - low" unfolding s by (metis div_mult_mod_eq add_increasing2 mult.commute order_refl pos_mod_sign pos2 zle_add1_eq_le of_nat_0_le_iff)
  finally show "low < v \<and> v < high" using i assms(1) by (auto simp: zero_less_mult_iff)
qed

section \<open>Compaction\<close>

definition position :: "download_job table \<Rightarrow> download_job \<Rightarrow> nat" where
  "position t j = length (filter (\<lambda>k. job_less k j) (rows t))"

lemma renumber_rows: "rows (renumber t) = map (\<lambda>j. j\<lparr>j_rank := rankStep * (1 + int (position t j))\<rparr>) (rows t)"
  by (simp add: renumber_def position_def)

lemma renumber_seq [simp]: "seq (renumber t) = seq t"
  by (simp add: renumber_def)

lemma renumber_twf: "twf j_id t \<Longrightarrow> twf j_id (renumber t)"
  by (simp add: twf_def renumber_rows comp_def)

lemma position_card: "twf j_id t \<Longrightarrow> position t j = card {k \<in> set (rows t). job_less k j}"
  using distinct_card [of "filter (\<lambda>k. job_less k j) (rows t)"] by (simp add: position_def distinct_rows)

lemma position_mono:
  assumes "twf j_id t" and "job_less a b" and "a \<in> set (rows t)"
  shows "position t a < position t b"
proof -
  have "{k \<in> set (rows t). job_less k a} \<subset> {k \<in> set (rows t). job_less k b}"
    using assms(2,3) queue_order.trans queue_order.irrefl by blast
  then show ?thesis unfolding position_card [OF assms(1)] by (simp add: psubset_card_mono)
qed

lemma position_less:
  assumes "twf j_id t" and "j \<in> set (rows t)"
  shows "position t j < length (rows t)"
proof -
  have "{k \<in> set (rows t). job_less k j} \<subset> set (rows t)"
    using assms(2) queue_order.irrefl by blast
  then have "card {k \<in> set (rows t). job_less k j} < card (set (rows t))" by (simp add: psubset_card_mono)
  then show ?thesis using assms(1) by (simp add: position_card distinct_card distinct_rows)
qed

lemma queue_list_job_less: 
  assumes "twf j_id t" shows "sorted_wrt job_less (queue_list t)"
proof -
  have "sorted_wrt (\<lambda>x y. (j_rank x, j_id x) < (j_rank y, j_id y)) (queue_list t)"
  proof (rule sorted_wrt_strict [where lt = job_less])
    show "sorted_wrt (\<lambda>a b. \<not> job_less b a) (queue_list t)"
      by (simp add: queue_list_def queue_order.sort_sorted)
    show "inj_on (\<lambda>j. (j_rank j, j_id j)) (set (queue_list t))"
      using inj_id [OF assms] by (auto simp: inj_on_def)
  qed (use distinct_rows [OF assms] in \<open>auto simp: job_less_key queue_list_def\<close>)
  then show ?thesis by (rule sorted_wrt_mono_rel [rotated]) (simp add: job_less_key)
qed

lemma renumber_order:
  assumes "twf j_id t"
  shows "order (renumber t) = order t"
    and "sorted_wrt by_rank (map (\<lambda>j. j\<lparr>j_rank := rankStep * (1 + int (position t j))\<rparr>) (queue_list t))"
proof -
  let ?f = "\<lambda>j. j\<lparr>j_rank := rankStep * (1 + int (position t j))\<rparr>"
  have "sorted_wrt (\<lambda>a b. position t a < position t b) (queue_list t)"
    using queue_list_job_less [OF assms]
    by (rule sorted_wrt_mono_rel [rotated]) (auto intro: position_mono [OF assms])
  then show s: "sorted_wrt by_rank (map ?f (queue_list t))"
    by (simp add: sorted_wrt_map rankStep_def)
  have "order (renumber t) = map j_id (map ?f (queue_list t))"
    by (rule order_eqI [OF renumber_twf [OF assms] _ s]) (simp add: renumber_rows)
  then show "order (renumber t) = order t" by (simp add: order_queue_list comp_def)
qed

lemma renumber_distinct: "twf j_id t \<Longrightarrow> distinct (map j_rank (rows (renumber t)))"
  using by_rank_distinct [OF renumber_order(2)] distinct_rows [OF renumber_twf]
  by (auto simp: distinct_map renumber_rows)

lemma renumber_bounds:
  assumes "twf j_id t" and "j \<in> set (rows (renumber t))"
  shows "rankStep \<le> j_rank j \<and> j_rank j \<le> rankStep * int (length (rows t))"
  using assms position_less [OF assms(1)] by (fastforce simp: renumber_rows rankStep_def)

text \<open>A queue small enough to be renumbered inside the limit: fewer than \<open>2 ^ 32\<close> jobs.\<close>

definition small_queue :: "download_job table \<Rightarrow> nat \<Rightarrow> bool" where
  "small_queue t n \<longleftrightarrow> length (rows t) + n < 2 ^ 32"

lemma renumber_ranks_ok: "twf j_id t \<Longrightarrow> small_queue t n \<Longrightarrow> ranks_ok (renumber t)"
  using renumber_bounds [of t] renumber_twf [of t] renumber_distinct [of t]
  by (fastforce simp: ranks_ok_def small_queue_def rankStep_def rankLimit_def)

definition same_jobs :: "download_job table \<Rightarrow> download_job table \<Rightarrow> bool" where
  "same_jobs t t' \<longleftrightarrow> (\<exists>f. rows t' = map (\<lambda>j. j\<lparr>j_rank := f j\<rparr>) (rows t)) \<and> seq t' = seq t"

lemma same_jobs_refl [simp]: "same_jobs t t"
  by (auto simp: same_jobs_def intro!: exI [of _ j_rank])

lemma same_jobs_renumber [simp]: "same_jobs t (renumber t)"
  unfolding same_jobs_def renumber_rows
  by (auto intro: exI [of _ "\<lambda>j. rankStep * (1 + int (position t j))"])

lemma same_jobs_trans: "same_jobs a b \<Longrightarrow> same_jobs b c \<Longrightarrow> same_jobs a c"
  by (fastforce simp: same_jobs_def comp_def)

section \<open>The allocator\<close>

lemma ranks_attempt_spec:
  assumes "ranks_attempt k t action anchorID n = Inr (vals, t')"
    and "ranks_ok t" and "small_queue t m"
  shows "ranks_ok t' \<and> order t' = order t \<and> same_jobs t t' \<and>
    (\<exists>low high. gap_ok t' action anchorID low high \<and> length vals = n \<and> sorted_wrt (<) vals \<and>
       (\<forall>v \<in> set vals. low < v \<and> v < high \<and> - rankLimit < v \<and> v < rankLimit))"
  using assms
proof (induction k arbitrary: t)
  case 0
  then show ?case by simp
next
  case (Suc k)
  obtain low high where g: "rank_gap t action anchorID (int n) = Inr (low, high)"
    using Suc.prems(1) by (auto split: sum.splits)
  show ?case
  proof (cases "- rankLimit < low \<and> high < rankLimit \<and> 0 < go_div (high - low) (int n + 1)")
    case True
    with g Suc.prems(1) have t': "t' = t"
      and v: "vals = map (\<lambda>i. low + go_div (high - low) (int n + 1) * (int i + 1)) [0..<n]"
      by (auto simp: Let_def)
    from True have pos: "0 < go_div (high - low) (int n + 1)" by blast
    note gv = gap_vals [OF pos, folded v]
    have "\<forall>x \<in> set vals. low < x \<and> x < high \<and> - rankLimit < x \<and> x < rankLimit"
      using gv(3) True by fastforce
    then show ?thesis
      using Suc.prems(2) rank_gap_ok [OF g] gv(1,2) by (auto simp: t')
  next
    case False
    with g Suc.prems(1) have r: "ranks_attempt k (renumber t) action anchorID n = Inr (vals, t')"
      by (auto simp: Let_def)
    have wf: "twf j_id t" using Suc.prems(2) by (simp add: ranks_ok_def)
    have sm: "small_queue (renumber t) m" using Suc.prems(3) by (simp add: small_queue_def renumber_rows)
    from Suc.IH [OF r renumber_ranks_ok [OF wf Suc.prems(3)] sm] show ?thesis
      using renumber_order(1) [OF wf] same_jobs_trans [OF same_jobs_renumber] by auto
  qed
qed

lemmas ranks_spec = ranks_attempt_spec [where k = 2, folded ranks_def]

text \<open>
  The allocator never gives up on a queue this small: after compaction neighbouring ranks
  are a full step apart, so the second attempt succeeds.
\<close>

lemma renumber_dvd: "j \<in> set (rows (renumber t)) \<Longrightarrow> rankStep dvd j_rank j"
  by (auto simp: renumber_rows)

lemma dvd_less_step:
  assumes "rankStep dvd a" and "rankStep dvd b" and "a < b" shows "rankStep \<le> b - a"
  using assms by (intro zdvd_imp_le) (auto intro: dvd_diff)

lemma min_rank_in: "min_rank js = Some m \<Longrightarrow> \<exists>j \<in> set js. m = j_rank j"
  using Min_in [of "j_rank ` set js"] by (auto simp: min_rank_def simp del: Min_in split: if_splits)

lemma max_rank_in: "max_rank js = Some m \<Longrightarrow> \<exists>j \<in> set js. m = j_rank j"
  using Max_in [of "j_rank ` set js"] by (auto simp: max_rank_def simp del: Max_in split: if_splits)

lemma renumber_gap:
  assumes wf: "twf j_id t" and n: "length (rows t) + n + 1 < 2 ^ 32"
    and g: "rank_gap (renumber t) action anchorID (int n) = Inr (low, high)"
  shows "- rankLimit < low \<and> high < rankLimit \<and> rankStep \<le> high - low \<and>
    (action = Top \<or> action = Bottom \<longrightarrow> high - low = rankStep * (int n + 1))"
proof -
  let ?r = "renumber t"
  have b: "0 \<le> j_rank j \<and> j_rank j \<le> rankStep * int (length (rows t))" if "j \<in> set (rows ?r)" for j
    using renumber_bounds [OF wf that] by (simp add: rankStep_def)
  have e: "rankStep * int (length (rows t)) + rankStep * (int n + 1) < rankLimit"
    using n by (simp add: rankStep_def rankLimit_def)
  have p: "0 \<le> rankStep * int (length (rows t))" "rankStep \<le> rankStep * (int n + 1)" "0 < rankStep"
    "rankStep * int (length (rows t)) < rankLimit"
    using n by (simp_all add: rankStep_def rankLimit_def)
  show ?thesis
  proof (cases action)
    case Top
    have "0 \<le> null_int64 (min_rank (rows ?r)) \<and> null_int64 (min_rank (rows ?r)) \<le> rankStep * int (length (rows t))"
      using b p by (auto simp: null_int64_def split: option.split dest!: min_rank_in)
    with Top g e p show ?thesis by (auto simp: rank_gap_def Let_def)
  next
    case Bottom
    have "0 \<le> null_int64 (max_rank (rows ?r)) \<and> null_int64 (max_rank (rows ?r)) \<le> rankStep * int (length (rows t))"
      using b p by (auto simp: null_int64_def split: option.split dest!: max_rank_in)
    with Bottom g e p show ?thesis by (auto simp: rank_gap_def Let_def)
  next
    case Before
    with g obtain a where a: "tget j_id anchorID ?r = Some a" by (auto simp: rank_gap_def split: option.splits)
    then have am: "a \<in> set (rows ?r)" by (simp add: tget_Some)
    show ?thesis
    proof (cases "max_rank (filter (\<lambda>j. j_rank j < j_rank a) (rows ?r))")
      case None
      with Before g a have "high = j_rank a" "low = high - rankStep * (int n + 1)"
        by (auto simp: rank_gap_def Let_def simp del: max_rank_None)
      with b [OF am] e p Before show ?thesis by auto
    next
      case (Some m)
      with max_rank_in [OF this] obtain k where "k \<in> set (rows ?r)" "m = j_rank k" "m < j_rank a" by auto
      moreover have "high = j_rank a" "low = m" using Some Before g a by (auto simp: rank_gap_def Let_def)
      ultimately show ?thesis
        using b [OF am] b [of k] e p Before dvd_less_step [OF renumber_dvd renumber_dvd [OF am], of k] by auto
    qed
  next
    case After
    with g obtain a where a: "tget j_id anchorID ?r = Some a" by (auto simp: rank_gap_def split: option.splits)
    then have am: "a \<in> set (rows ?r)" by (simp add: tget_Some)
    show ?thesis
    proof (cases "min_rank (filter (\<lambda>j. j_rank a < j_rank j) (rows ?r))")
      case None
      with After g a have "low = j_rank a" "high = low + rankStep * (int n + 1)"
        by (auto simp: rank_gap_def Let_def simp del: min_rank_None)
      with b [OF am] e p After show ?thesis by auto
    next
      case (Some m)
      with min_rank_in [OF this] obtain k where "k \<in> set (rows ?r)" "m = j_rank k" "j_rank a < m" by auto
      moreover have "low = j_rank a" "high = m" using Some After g a by (auto simp: rank_gap_def Let_def)
      ultimately show ?thesis
        using b [OF am] b [of k] e p After dvd_less_step [OF renumber_dvd [OF am] renumber_dvd, of k] by auto
    qed
  next
    case (OtherMove a)
    with g show ?thesis by (simp add: rank_gap_def)
  qed
qed

lemma rank_gap_total:
  assumes "action \<in> {Top, Bottom} \<or> action \<in> {Before, After} \<and> tget j_id anchorID t \<noteq> None"
  shows "\<exists>low high. rank_gap t action anchorID n = Inr (low, high)"
  using assms by (auto simp: rank_gap_def Let_def split: option.split)

lemma renumber_tget: "tget j_id i (renumber t) = None \<longleftrightarrow> tget j_id i t = None"
  by (auto simp: tget_None renumber_rows)

lemma ranks_total:
  assumes wf: "twf j_id t" and n: "length (rows t) + n + 1 < 2 ^ 32" "int n < rankStep"
    and a: "action \<in> {Top, Bottom} \<or> action \<in> {Before, After} \<and> tget j_id anchorID t \<noteq> None"
  shows "\<exists>vals t'. ranks t action anchorID n = Inr (vals, t')"
proof -
  obtain l h where g: "rank_gap t action anchorID (int n) = Inr (l, h)"
    using rank_gap_total [OF a] by blast
  obtain low high where g': "rank_gap (renumber t) action anchorID (int n) = Inr (low, high)"
    using rank_gap_total a by (metis renumber_tget)
  note r = renumber_gap [OF wf n(1) g']
  have "1 * (int n + 1) \<le> high - low" using r n(2) by simp
  then have "0 < (high - low) div (int n + 1)" by (simp add: pos_imp_zdiv_pos_iff)
  moreover have "0 \<le> high - low" using r by (simp add: rankStep_def)
  ultimately have "0 < go_div (high - low) (int n + 1)" by (simp add: go_div_nonneg)
  with r g g' show ?thesis by (auto simp: ranks_def numeral_2_eq_2 Let_def)
qed

section \<open>Move\<close>

lemma order_filter: "filter (\<lambda>i. P i) (order t) = map j_id (filter (\<lambda>j. P (j_id j)) (queue_list t))"
  by (simp add: order_queue_list filter_map comp_def)

lemma rest_split:
  assumes "twf j_id t" and "distinct (map j_rank (rows t))"
    and "a \<in> set (rows t)" and "j_id a \<notin> S"
  obtains front rear where
    "filter (\<lambda>j. j_id j \<notin> S) (queue_list t) = front @ a # rear"
    "takeWhile (\<lambda>i. i \<noteq> j_id a) (filter (\<lambda>i. i \<notin> S) (order t)) = map j_id front"
    "dropWhile (\<lambda>i. i \<noteq> j_id a) (filter (\<lambda>i. i \<notin> S) (order t)) = j_id a # map j_id rear"
    "\<forall>j \<in> set front. j_rank j < j_rank a" "\<forall>j \<in> set rear. j_rank a < j_rank j"
proof -
  let ?L = "filter (\<lambda>j. j_id j \<notin> S) (queue_list t)"
  have "a \<in> set ?L" using assms by simp
  then obtain front rear where L: "?L = front @ a # rear" by (meson split_list)
  have "distinct (map j_id (queue_list t))" using assms(1) by (simp add: queue_list_def twf_def distinct_map)
  then have "distinct (map j_id ?L)" by (rule distinct_map_filter)
  then have ni: "j_id a \<notin> j_id ` set front" unfolding L by simp
  have "sorted_wrt by_rank ?L" by (rule sorted_wrt_filter) (rule queue_list_sorted [OF assms(1,2)])
  then have "\<forall>j \<in> set front. j_rank j < j_rank a" "\<forall>j \<in> set rear. j_rank a < j_rank j"
    unfolding L by (auto simp: sorted_wrt_append)
  moreover have "filter (\<lambda>i. i \<notin> S) (order t) = map j_id front @ j_id a # map j_id rear"
    by (simp add: order_filter L)
  moreover have "takeWhile (\<lambda>i. i \<noteq> j_id a) (map j_id front @ j_id a # map j_id rear) = map j_id front"
    and "dropWhile (\<lambda>i. i \<noteq> j_id a) (map j_id front @ j_id a # map j_id rear) = j_id a # map j_id rear"
    using ni by (subst takeWhile_append2 dropWhile_append2; force simp: image_iff)+
  ultimately show thesis using that [OF L] by simp
qed

lemma move_spec_empty: "action = Before \<or> action = After \<Longrightarrow> anchor \<in> set q \<Longrightarrow> move_spec action anchor {} q = q"
proof -
  assume "anchor \<in> set q" and a: "action = Before \<or> action = After"
  then have "dropWhile (\<lambda>i. i \<noteq> anchor) q \<noteq> []" by auto
  then obtain x xs where d: "dropWhile (\<lambda>i. i \<noteq> anchor) q = x # xs" by (meson neq_Nil_conv)
  then have "x = anchor" using hd_dropWhile [of "\<lambda>i. i \<noteq> anchor" q] by simp
  with d have "takeWhile (\<lambda>i. i \<noteq> anchor) q @ anchor # xs = q" by (metis takeWhile_dropWhile_id)
  with a d \<open>x = anchor\<close> show ?thesis by (auto simp: move_spec_def Let_def)
qed

text \<open>The new order for ranks written into a gap, by action.\<close>

lemma place_in_gap:
  assumes t: "twf j_id t" "distinct (map j_rank (rows t))"
    and gap: "gap_ok t action anchor low high"
    and ids: "ids = filter (\<lambda>i. i \<in> S) (order t)" and anchor: "anchor \<notin> S"
    and vals: "length vals = length ids" "sorted_wrt (<) vals" "\<And>v. v \<in> set vals \<Longrightarrow> low < v \<and> v < high"
  shows "order (set_ranks now (zip ids vals) t) = move_spec action anchor S (order t)"
    and "distinct (map j_rank (rows (set_ranks now (zip ids vals) t)))"
    and "j_rank ` set (rows (set_ranks now (zip ids vals) t)) \<subseteq> j_rank ` set (rows t) \<union> set vals"
proof -
  have S: "j_id j \<in> set ids \<longleftrightarrow> j_id j \<in> S" if "j \<in> set (rows t)" for j
    using that by (auto simp: ids order_queue_list)
  then have rest: "filter (\<lambda>j. j_id j \<notin> set ids) (queue_list t) = filter (\<lambda>j. j_id j \<notin> S) (queue_list t)"
    and "filter (\<lambda>j. j_id j \<in> set ids) (queue_list t) = filter (\<lambda>j. j_id j \<in> S) (queue_list t)"
    by (auto intro: filter_cong)
  then have block: "map j_id (filter (\<lambda>j. j_id j \<in> set ids) (queue_list t)) = ids"
    using ids by (simp add: order_filter)
  let ?R = "filter (\<lambda>j. j_id j \<notin> S) (queue_list t)"
  have placed: "order (set_ranks now (zip ids vals) t) = move_spec action anchor S (order t)
      \<and> distinct (map j_rank (rows (set_ranks now (zip ids vals) t)))
      \<and> j_rank ` set (rows (set_ranks now (zip ids vals) t)) \<subseteq> j_rank ` set (rows t) \<union> set vals"
    if fb: "?R = front @ rear"
      and lo: "\<And>j. j \<in> set front \<Longrightarrow> j_rank j \<le> low" and hi: "\<And>j. j \<in> set rear \<Longrightarrow> high \<le> j_rank j"
      and spec: "move_spec action anchor S (order t) = map j_id front @ ids @ map j_id rear" for front rear
    using place_block [OF t trans [OF rest fb] refl block vals(1,2), of now] lo hi vals(3) spec by fastforce
  have "order (set_ranks now (zip ids vals) t) = move_spec action anchor S (order t)
      \<and> distinct (map j_rank (rows (set_ranks now (zip ids vals) t)))
      \<and> j_rank ` set (rows (set_ranks now (zip ids vals) t)) \<subseteq> j_rank ` set (rows t) \<union> set vals"
  proof (cases action)
    case Top
    show ?thesis
      by (rule placed [of "[]" ?R]) (use gap Top in \<open>auto simp: gap_ok_def move_spec_def Let_def ids order_filter\<close>)
  next
    case Bottom
    show ?thesis
      by (rule placed [of ?R "[]"]) (use gap Bottom in \<open>auto simp: gap_ok_def move_spec_def Let_def ids order_filter\<close>)
  next
    case Before
    with gap obtain a where a: "a \<in> set (rows t)" "j_id a = anchor" "high = j_rank a"
      and g: "\<forall>j \<in> set (rows t). j_rank j \<le> low \<or> high \<le> j_rank j" by (auto simp: gap_ok_def)
    obtain front rear where r: "?R = front @ a # rear"
      "takeWhile (\<lambda>i. i \<noteq> j_id a) (filter (\<lambda>i. i \<notin> S) (order t)) = map j_id front"
      "dropWhile (\<lambda>i. i \<noteq> j_id a) (filter (\<lambda>i. i \<notin> S) (order t)) = j_id a # map j_id rear"
      "\<forall>j \<in> set front. j_rank j < j_rank a" "\<forall>j \<in> set rear. j_rank a < j_rank j"
      by (rule rest_split [OF t a(1), of S]) (use a(2) anchor in auto)
    have "set front \<subseteq> set (rows t)" using arg_cong [OF r(1), of set] by auto
    then have "\<forall>j \<in> set front. j_rank j \<le> low" using g r(4) a(3) by fastforce
    then show ?thesis
      by (intro placed [OF r(1)]) (use a g r(2-5) Before in \<open>auto simp: move_spec_def Let_def ids\<close>)
  next
    case After
    with gap obtain a where a: "a \<in> set (rows t)" "j_id a = anchor" "low = j_rank a"
      and g: "\<forall>j \<in> set (rows t). j_rank j \<le> low \<or> high \<le> j_rank j" by (auto simp: gap_ok_def)
    obtain front rear where r: "?R = front @ a # rear"
      "takeWhile (\<lambda>i. i \<noteq> j_id a) (filter (\<lambda>i. i \<notin> S) (order t)) = map j_id front"
      "dropWhile (\<lambda>i. i \<noteq> j_id a) (filter (\<lambda>i. i \<notin> S) (order t)) = j_id a # map j_id rear"
      "\<forall>j \<in> set front. j_rank j < j_rank a" "\<forall>j \<in> set rear. j_rank a < j_rank j"
      by (rule rest_split [OF t a(1), of S]) (use a(2) anchor in auto)
    have "set rear \<subseteq> set (rows t)" using arg_cong [OF r(1), of set] by auto
    then have "\<forall>j \<in> set rear. high \<le> j_rank j" using g r(5) a(3) by fastforce
    then show ?thesis
      by (intro placed [of "front @ [a]" rear]) (use a g r After in \<open>auto simp: move_spec_def Let_def ids\<close>)
  next
    case (OtherMove x)
    with gap show ?thesis by (simp add: gap_ok_def)
  qed
  then show "order (set_ranks now (zip ids vals) t) = move_spec action anchor S (order t)"
    and "distinct (map j_rank (rows (set_ranks now (zip ids vals) t)))"
    and "j_rank ` set (rows (set_ranks now (zip ids vals) t)) \<subseteq> j_rank ` set (rows t) \<union> set vals"
    by auto
qed

text \<open>The jobs a move affects: the pending ones among the requested ids.\<close>

definition moved_ids :: "int64 list \<Rightarrow> download_job table \<Rightarrow> int64 set" where
  "moved_ids ids t = {i \<in> set ids. \<exists>j \<in> set (rows t). j_id j = i \<and> pending j}"

lemma selected_order:
  assumes "twf j_id t" and "distinct (map j_rank (rows t))"
  shows "map j_id (selected ids t) = filter (\<lambda>i. i \<in> moved_ids ids t) (order t)"
proof -
  have "j_id j \<in> moved_ids ids t \<longleftrightarrow> j_id j \<in> set ids \<and> pending j" if "j \<in> set (queue_list t)" for j
    using that inj_id [OF assms(1)] by (auto simp: moved_ids_def inj_on_def)
  then have "filter (\<lambda>j. j_id j \<in> moved_ids ids t) (queue_list t) =
      filter (\<lambda>j. j_id j \<in> set ids \<and> pending j) (queue_list t)"
    by (intro filter_cong) auto
  then show ?thesis by (simp add: selected_queue_list [OF assms] order_filter)
qed

lemma same_jobs_twf: "same_jobs t t' \<Longrightarrow> twf j_id t \<Longrightarrow> twf j_id t'"
  by (auto simp: same_jobs_def twf_def comp_def)

lemma after_reorder_jobs [frame_simps]: "q_jobs (after_reorder n s) = q_jobs s"
  by (simp add: after_reorder_def changed_def signal_def)

lemma bumpOrder_jobs [frame_simps]: "q_jobs (bumpOrder s) = q_jobs s"
  by (simp add: bumpOrder_def)

lemma check_move_None: "check_move ids action anchor = None \<Longrightarrow>
   (action = Top \<or> action = Bottom) \<and> anchor = 0 \<or> (action = Before \<or> action = After) \<and> 0 < anchor \<and> anchor \<notin> set ids"
  by (auto simp: check_move_def split: move.splits if_splits)

lemma Move_cases:
  assumes "ranks_ok (q_jobs s)" and "Move now s ids action anchor = Inr (s', k)"
  obtains
    (none) "s' = s" "k = 0" "moved_ids ids (q_jobs s) = {}"
      "action = Before \<or> action = After \<Longrightarrow> anchor \<in> set (order (q_jobs s))" "check_move ids action anchor = None"
  | (moved) vals t where "k = length (selected ids (q_jobs s))" "k \<noteq> 0"
      "ranks (q_jobs s) action anchor k = Inr (vals, t)" "check_move ids action anchor = None"
      "q_jobs s' = set_ranks now (zip (map j_id (selected ids (q_jobs s))) vals) t"
proof (cases "selected ids (q_jobs s) = []")
  case True
  have cm: "check_move ids action anchor = None" using assms(2) by (auto simp: Move_def split: option.splits)
  have "s' = s" "k = 0" using assms(2) True by (auto simp: Move_def Let_def split: option.splits if_splits)
  moreover have "filter (\<lambda>j. j_id j = anchor \<and> pending j) (rows (q_jobs s)) \<noteq> []"
    if "action = Before \<or> action = After"
    using assms(2) check_move_None [OF cm] that by (auto simp: Move_def cm split: if_splits)
  then have "action = Before \<or> action = After \<Longrightarrow> anchor \<in> set (order (q_jobs s))"
    by (auto simp: order_queue_list filter_empty_conv)
  moreover have "moved_ids ids (q_jobs s) = {}"
    using True by (auto simp: selected_def moved_ids_def filter_empty_conv)
  ultimately show thesis using none cm by blast
next
  case False
  then show thesis
    using assms(2) by (auto simp: Move_def Let_def frame_simps split: option.splits if_splits sum.splits intro: moved)
qed

section \<open>Evaluated queues\<close>

definition ex_queue :: queue_state where
  "ex_queue = \<lparr>q_jobs = \<lparr>rows = [sample_job\<lparr>j_id := 1, j_rank := 10, j_chapter_id := 3\<rparr>,
        sample_job\<lparr>j_id := 2, j_rank := 20, j_chapter_id := 2\<rparr>,
        sample_job\<lparr>j_id := 3, j_rank := 21, j_chapter_id := 1\<rparr>], seq = 3\<rparr>,
     q_chapters = \<lparr>rows = [sample_chapter, sample_chapter\<lparr>c_id := 2, c_number_sort := 2\<rparr>,
        sample_chapter\<lparr>c_id := 3, c_number_sort := 3\<rparr>], seq = 3\<rparr>,
     q_releases = \<lparr>rows = [], seq = 0\<rparr>, q_blocklist = \<lparr>rows = [], seq = 0\<rparr>,
     q_history = \<lparr>rows = [], seq = 0\<rparr>, q_revision = 0, q_wake = False, q_bus = []\<rparr>"

lemma ex_queue_ok: "ranks_ok (q_jobs ex_queue)" "twf j_id (q_jobs ex_queue)" "small_queue (q_jobs ex_queue) 0"
  "length (rows (q_jobs ex_queue)) = 3"
  by (auto simp: ranks_ok_def twf_def small_queue_def ex_queue_def samples rankLimit_def)

section \<open>Reordering\<close>

lemma Move_order:
  assumes "ranks_ok (q_jobs s)" and "small_queue (q_jobs s) 0"
    and "Move now s ids action anchor = Inr (s', k)"
  shows "order (q_jobs s') = move_spec action anchor (moved_ids ids (q_jobs s)) (order (q_jobs s))
    \<and> ranks_ok (q_jobs s')"
  using assms(1,3)
proof (cases rule: Move_cases)
  case none
  then have "move_spec action anchor {} (order (q_jobs s)) = order (q_jobs s)"
    using check_move_None [OF none(5)] move_spec_empty by (auto simp: move_spec_def Let_def)
  with none assms(1) show ?thesis by simp
next
  case (moved vals t)
  let ?S = "moved_ids ids (q_jobs s)"
  from ranks_spec [OF moved(3) assms(1,2)] obtain low high where
    t: "ranks_ok t" "order t = order (q_jobs s)" and gap: "gap_ok t action anchor low high"
    and v: "length vals = k" "sorted_wrt (<) vals"
      "\<forall>v \<in> set vals. low < v \<and> v < high \<and> - rankLimit < v \<and> v < rankLimit" by blast
  have wf: "twf j_id (q_jobs s)" "distinct (map j_rank (rows (q_jobs s)))" "twf j_id t" "distinct (map j_rank (rows t))"
    using assms(1) t(1) by (auto simp: ranks_ok_def)
  let ?ids = "map j_id (selected ids (q_jobs s))"
  have ids: "?ids = filter (\<lambda>i. i \<in> ?S) (order t)" by (simp add: selected_order [OF wf(1,2)] t(2))
  have "anchor \<notin> ?S"
    using check_move_None [OF moved(4)] wf(1) by (auto simp: moved_ids_def twf_def)
  note placed = place_in_gap [OF wf(3,4) gap ids this _ v(2), of now]
  have P: "order (q_jobs s') = move_spec action anchor ?S (order t)"
    "distinct (map j_rank (rows (q_jobs s')))" "j_rank ` set (rows (q_jobs s')) \<subseteq> j_rank ` set (rows t) \<union> set vals"
    unfolding moved(5) using placed v(1,3) moved(1) by auto
  have "twf j_id (q_jobs s')" unfolding moved(5) by (rule set_ranks_twf [OF wf(3)])
  with P t v(3) show ?thesis by (fastforce simp: ranks_ok_def)
qed

text \<open>
  C3: \<open>Move\<close> refines the abstract reordering: on a queue with distinct ranks the job ids in rank
  order afterwards are the pending ones among the requested ids, in their old relative order,
  as one block at the top, at the bottom, or next to the anchor, and every other job keeps its
  place in the rest; ranks stay distinct and inside the limit.
\<close>

theorem move_refines:
  assumes "ranks_ok (q_jobs s)" and "small_queue (q_jobs s) 0"
    and "Move now s ids action anchor = Inr (s', k)"
  shows "order (q_jobs s') = move_spec action anchor (moved_ids ids (q_jobs s)) (order (q_jobs s))
    \<and> ranks_ok (q_jobs s')"
  using assms by (rule Move_order)

theorem move_refines_witness:
  "\<exists>s' k. Move 9 ex_queue [3] Before 2 = Inr (s', k) \<and> order (q_jobs s') = [1, 3, 2]"
proof -
  obtain s' k where m: "Move 9 ex_queue [3] Before 2 = Inr (s', k)"
    by (simp add: Move_def check_move_def ex_queue_def selected_def samples pendingStatuses_def ranks_def
        rank_gap_def tget_def max_rank_def go_div_def rankLimit_def numeral_2_eq_2)
  have "moved_ids [3] (q_jobs ex_queue) = {3}" "order (q_jobs ex_queue) = [1, 2, 3]"
    by (auto simp: moved_ids_def ex_queue_def samples pendingStatuses_def order_def job_less_def)
  with move_refines [OF ex_queue_ok(1,3) m] m show ?thesis by (auto simp: move_spec_def)
qed

section \<open>Sorting by chapter\<close>

fun refill_jobs :: "int64 set \<Rightarrow> download_job list \<Rightarrow> download_job list \<Rightarrow> download_job list" where
  "refill_jobs sel [] new = []"
| "refill_jobs sel (j # q) new =
     (if j_id j \<in> sel then (case new of [] \<Rightarrow> j # refill_jobs sel q [] | n # ns \<Rightarrow> n # refill_jobs sel q ns)
      else j # refill_jobs sel q new)"

lemma refill_jobs_ids: "map j_id (refill_jobs sel q new) = refill sel (map j_id q) (map j_id new)"
  by (induction sel q new rule: refill_jobs.induct) (auto split: list.split)

lemma refill_jobs_ranks:
  "map j_rank new = map j_rank (filter (\<lambda>j. j_id j \<in> sel) q) \<Longrightarrow>
   map j_rank (refill_jobs sel q new) = map j_rank q"
  by (induction sel q new rule: refill_jobs.induct) (auto split: list.split)

lemma refill_jobs_set:
  "length new = length (filter (\<lambda>j. j_id j \<in> sel) q) \<Longrightarrow>
   set (refill_jobs sel q new) = set new \<union> {j \<in> set q. j_id j \<notin> sel}"
  by (induction sel q new rule: refill_jobs.induct) (auto split: list.split)

text \<open>
  Writing the slots of a selection over a permutation of it leaves every other job at its
  position in the queue and fills the selected positions in the permutation's order.
\<close>

lemma permute_slots:
  assumes wf: "twf j_id t" "distinct (map j_rank (rows t))"
    and jobs: "jobs = filter (\<lambda>j. j_id j \<in> sel) (queue_list t)"
    and perm: "mset perm = mset jobs"
    and moves: "moves = filter (\<lambda>(j, v). j_rank j \<noteq> v) (zip perm (map j_rank jobs))"
  shows "order (set_ranks now (map (\<lambda>(j, v). (j_id j, v)) moves) t) = refill sel (order t) (map j_id perm)"
    and "mset (map j_rank (rows (set_ranks now (map (\<lambda>(j, v). (j_id j, v)) moves) t))) = mset (map j_rank (rows t))"
proof -
  let ?ps = "map (\<lambda>(j, v). (j_id j, v)) moves"
  let ?t' = "set_ranks now ?ps t"
  have len: "length perm = length jobs" by (metis perm size_mset)
  have sp: "set perm = set jobs" by (metis perm set_mset_mset)
  have "distinct (map j_id (queue_list t))" using wf(1) by (simp add: queue_list_def twf_def distinct_map)
  then have dj: "distinct (map j_id jobs)" unfolding jobs by (rule distinct_map_filter)
  then have dp: "distinct (map j_id perm)" by (metis mset_map mset_eq_imp_distinct_iff perm)
  have "distinct (map fst (zip (map j_id perm) (map j_rank jobs)))" using dp len by simp
  then have "distinct (map (j_id \<circ> fst) (zip perm (map j_rank jobs)))"
    using len by (metis (no_types, lifting) length_map map_fst_zip map_map)
  then have "distinct (map (j_id \<circ> fst) moves)" unfolding moves by (rule distinct_map_filter)
  then have dps: "distinct (map fst ?ps)" by (simp add: comp_def case_prod_unfold)
  define g :: "download_job \<Rightarrow> download_job" where "g j = (case map_of ?ps (j_id j) of
      Some v \<Rightarrow> j\<lparr>j_rank := v, j_updated_at := now\<rparr> | None \<Rightarrow> j)" for j
  have rows': "rows ?t' = map g (rows t)"
    unfolding set_ranks_rows [OF dps] by (rule map_cong) (auto simp: g_def)
  have gid [simp]: "j_id (g j) = j_id j" for j by (simp add: g_def split: option.split)
  have out: "g j = j" if "j_id j \<notin> sel" for j
  proof -
    have "j_id j \<notin> fst ` set ?ps"
    proof
      assume "j_id j \<in> fst ` set ?ps"
      then obtain x where "x \<in> set perm" "j_id x = j_id j"
        unfolding moves by (auto dest: set_zip_leftD)
      with that sp jobs show False by auto
    qed
    then have "map_of ?ps (j_id j) = None" by (simp only: map_of_eq_None_iff not_False_eq_True)
    then show ?thesis by (simp add: g_def)
  qed
  have slot: "j_rank (g (perm ! k)) = j_rank (jobs ! k)" if k: "k < length jobs" for k
  proof (cases "j_rank (perm ! k) = j_rank (jobs ! k)")
    case True
    have "map_of ?ps (j_id (perm ! k)) = None"
    proof (rule ccontr)
      assume "map_of ?ps (j_id (perm ! k)) \<noteq> None"
      then obtain v where "(j_id (perm ! k), v) \<in> set ?ps" by (meson map_of_SomeD option.exhaust)
      then obtain x where x: "(x, v) \<in> set (zip perm (map j_rank jobs))" "j_id x = j_id (perm ! k)" "j_rank x \<noteq> v"
        by (auto simp: moves)
      then obtain m where m: "m < length jobs" "x = perm ! m" "v = j_rank (jobs ! m)"
        by (auto simp: in_set_zip len)
      with x(2) dp k len have "m = k" by (metis distinct_conv_nth length_map nth_map)
      with m x(3) True show False by simp
    qed
    with True show ?thesis by (simp add: g_def)
  next
    case False
    have "(j_id (perm ! k), j_rank (jobs ! k)) \<in> set ?ps"
      using k len False by (auto simp: moves in_set_zip intro!: image_eqI [of _ _ "(perm ! k, j_rank (jobs ! k))"])
    with dps have "map_of ?ps (j_id (perm ! k)) = Some (j_rank (jobs ! k))" by (simp add: map_of_eq_Some_iff)
    then show ?thesis by (simp add: g_def)
  qed
  let ?M = "refill_jobs sel (queue_list t) (map g perm)"
  have "map j_rank (map g perm) = map j_rank jobs"
    by (rule nth_equalityI) (use slot len in auto)
  then have ranksM: "map j_rank ?M = map j_rank (queue_list t)"
    by (intro refill_jobs_ranks) (simp add: jobs)
  have "length (map g perm) = length (filter (\<lambda>j. j_id j \<in> sel) (queue_list t))" using len jobs by simp
  note setM0 = refill_jobs_set [OF this]
  have setM: "set ?M = set (rows ?t')"
  proof -
    have "g ` {j \<in> set (rows t). j_id j \<notin> sel} = {j \<in> set (rows t). j_id j \<notin> sel}"
      by (rule image_cong [THEN trans, OF refl _ image_ident]) (use out in auto)
    moreover have "set perm = {j \<in> set (rows t). j_id j \<in> sel}" using sp jobs by auto
    moreover have "g ` set (rows t) = g ` {j \<in> set (rows t). j_id j \<in> sel} \<union> g ` {j \<in> set (rows t). j_id j \<notin> sel}"
      by blast
    ultimately show ?thesis by (simp add: setM0 rows')
  qed
  have "sorted_wrt by_rank ?M"
    using queue_list_sorted [OF wf] ranksM by (metis sorted_wrt_map)
  with setM have "order ?t' = map j_id ?M" by (rule order_eqI [OF set_ranks_twf [OF wf(1)]])
  then show "order ?t' = refill sel (order t) (map j_id perm)"
    by (simp add: refill_jobs_ids order_queue_list comp_def)
  have "distinct (map j_rank ?M)" unfolding ranksM using wf(2) by (simp add: queue_list_def distinct_map)
  then have "distinct ?M" by (simp add: distinct_map)
  moreover have "distinct (rows ?t')" using set_ranks_twf [OF wf(1)] by (auto simp: twf_def distinct_map)
  ultimately have "mset (rows ?t') = mset ?M" using setM by (metis set_eq_iff_mset_eq_distinct)
  then have "mset (map j_rank (rows ?t')) = mset (map j_rank ?M)" by simp
  also have "\<dots> = mset (map j_rank (rows t))" unfolding ranksM by (simp add: queue_list_def)
  finally show "mset (map j_rank (rows ?t')) = mset (map j_rank (rows t))" .
qed

interpretation chapter_order: weak_order "chapter_less s sers" for s sers
  by (rule weak_order_keyI [where key = "\<lambda>j. (index_of sers (j_series_id j), number_of s j)"])
     (auto simp: chapter_less_def)

text \<open>
  C7: \<open>Move\<close> never runs out of ranks: on a queue with fewer than \<open>2 ^ 32\<close> rows in which
  fewer than \<open>2 ^ 20\<close> jobs are selected, a request that passes its own checks and whose anchor,
  if it names one, is pending succeeds, and reports how many pending jobs it moved.
\<close>

theorem move_succeeds:
  assumes "twf j_id (q_jobs s)" and "check_move ids action anchor = None"
    and "anchor \<noteq> 0 \<Longrightarrow> \<exists>j \<in> set (rows (q_jobs s)). j_id j = anchor \<and> pending j"
    and "2 * length (rows (q_jobs s)) < 2 ^ 32 - 1" and "int (length (selected ids (q_jobs s))) < rankStep"
  shows "\<exists>s'. Move now s ids action anchor = Inr (s', length (selected ids (q_jobs s)))"
proof -
  let ?n = "length (selected ids (q_jobs s))"
  have "?n \<le> length (rows (q_jobs s))" by (simp add: selected_def)
  then have n: "length (rows (q_jobs s)) + ?n + 1 < 2 ^ 32" using assms(4) by simp
  have anc: "\<not> (anchor \<noteq> 0 \<and> filter (\<lambda>j. j_id j = anchor \<and> pending j) (rows (q_jobs s)) = [])"
    using assms(3) by (auto simp: filter_empty_conv)
  have "action \<in> {Top, Bottom} \<or> action \<in> {Before, After} \<and> tget j_id anchor (q_jobs s) \<noteq> None"
    using assms(2,3) by (cases action) (auto simp: check_move_def tget_None split: if_splits)
  from ranks_total [OF assms(1) n assms(5) this] obtain vals t
    where "ranks (q_jobs s) action anchor ?n = Inr (vals, t)" by blast
  with anc assms(2) show ?thesis by (auto simp: Move_def Let_def)
qed

theorem move_succeeds_witness: "\<exists>s'. Move 9 ex_queue [3, 3, 8] Before 2 = Inr (s', 1)"
proof -
  have n: "length (selected [3, 3, 8] (q_jobs ex_queue)) = 1"
    by (simp add: selected_def ex_queue_def samples pendingStatuses_def)
  have "\<exists>j \<in> set (rows (q_jobs ex_queue)). j_id j = 2 \<and> pending j"
    by (auto simp: ex_queue_def samples pendingStatuses_def)
  from move_succeeds [OF ex_queue_ok(2) _ this, of "[3, 3, 8]" Before] n show ?thesis
    by (simp add: check_move_def ex_queue_ok(4) rankStep_def)
qed

lemma SortByChapter_order:
  assumes "ranks_ok (q_jobs s)" and "SortByChapter now s ids = (s', k)"
    and "jobs = filter (\<lambda>j. chapter_of s j \<noteq> None) (selected ids (q_jobs s))"
    and "sers = series_order [] (map j_series_id jobs)"
  shows "\<exists>perm. mset perm = mset jobs
    \<and> sorted_wrt (\<lambda>a b. (index_of sers (j_series_id a), number_of s a) \<le> (index_of sers (j_series_id b), number_of s b)) perm
    \<and> order (q_jobs s') = refill (j_id ` set jobs) (order (q_jobs s)) (map j_id perm)
    \<and> mset (map j_rank (rows (q_jobs s'))) = mset (map j_rank (rows (q_jobs s)))
    \<and> ranks_ok (q_jobs s')"
proof -
  let ?t = "q_jobs s" and ?perm = "stable_sort (chapter_less s sers) jobs"
  let ?moves = "filter (\<lambda>(j, v). j_rank j \<noteq> v) (zip ?perm (map j_rank jobs))"
  let ?t' = "set_ranks now (map (\<lambda>(j, v). (j_id j, v)) ?moves) ?t"
  have wf: "twf j_id ?t" "distinct (map j_rank (rows ?t))" using assms(1) by (auto simp: ranks_ok_def)
  have "jobs = filter (\<lambda>j. j_id j \<in> j_id ` set jobs) (queue_list ?t)"
    unfolding assms(3) selected_queue_list [OF wf] filter_filter
    by (rule filter_cong) (use inj_id [OF wf(1)] in \<open>auto dest: inj_onD\<close>)
  note P = permute_slots [OF wf this mset_stable_sort refl, of now "chapter_less s sers"]
  have m: "length jobs < 2 \<Longrightarrow> ?moves = []"
    by (cases jobs) (auto simp: less_Suc_eq numeral_2_eq_2)
  have s': "q_jobs s' = ?t'"
    using assms(2) m unfolding SortByChapter_def Let_def assms(3,4) by (auto simp: frame_simps split: if_splits)
  have srt: "sorted_wrt (\<lambda>a b. (index_of sers (j_series_id a), number_of s a) \<le> (index_of sers (j_series_id b), number_of s b)) ?perm"
    by (rule sorted_wrt_mono_rel [OF _ chapter_order.sort_sorted]) (auto simp: chapter_less_def split: if_splits)
  have rk: "j_rank ` set (rows ?t') = j_rank ` set (rows ?t)"
    using arg_cong [OF P(2), of set_mset] by simp
  have "distinct (map j_rank (rows ?t'))" using P(2) wf(2) mset_eq_imp_distinct_iff by blast
  moreover have "\<forall>v \<in> j_rank ` set (rows ?t'). - rankLimit < v \<and> v < rankLimit"
    unfolding rk using assms(1) by (auto simp: ranks_ok_def)
  ultimately have "ranks_ok ?t'" using set_ranks_twf [OF wf(1)] by (auto simp: ranks_ok_def)
  then show ?thesis unfolding s' using P srt by (intro exI [of _ ?perm]) simp
qed

text \<open>
  C6: \<open>SortByChapter\<close> permutes the selected pending jobs among their own slots: the rest of the
  queue keeps its positions, the set of ranks in use is unchanged, and the jobs stand in the
  slots by series (in order of first appearance), then by chapter number.
\<close>

theorem sort_by_chapter_refines:
  assumes "ranks_ok (q_jobs s)" and "SortByChapter now s ids = (s', k)"
    and "jobs = filter (\<lambda>j. chapter_of s j \<noteq> None) (selected ids (q_jobs s))"
    and "sers = series_order [] (map j_series_id jobs)"
  shows "\<exists>perm. mset perm = mset jobs
    \<and> sorted_wrt (\<lambda>a b. (index_of sers (j_series_id a), number_of s a) \<le> (index_of sers (j_series_id b), number_of s b)) perm
    \<and> order (q_jobs s') = refill (j_id ` set jobs) (order (q_jobs s)) (map j_id perm)
    \<and> mset (map j_rank (rows (q_jobs s'))) = mset (map j_rank (rows (q_jobs s)))
    \<and> ranks_ok (q_jobs s')"
  using assms by (rule SortByChapter_order)

theorem sort_by_chapter_refines_witness:
  "order (q_jobs (fst (SortByChapter 9 ex_queue [1, 2, 3]))) = [3, 2, 1] \<and>
   ranks_ok (q_jobs (fst (SortByChapter 9 ex_queue [1, 2, 3])))"
proof
  show "order (q_jobs (fst (SortByChapter 9 ex_queue [1, 2, 3]))) = [3, 2, 1]" by code_simp
  show "ranks_ok (q_jobs (fst (SortByChapter 9 ex_queue [1, 2, 3])))"
    using sort_by_chapter_refines [OF ex_queue_ok(1) prod.collapse [symmetric] refl refl] by blast
qed

end
