(* ===== verification/DownloadQueue.thy ===== *)
theory DownloadQueue
  imports QueueOrder
begin

text \<open>
  \<open>internal/downloads/queue.go\<close> and \<open>internal/history\<close>'s \<open>Record\<close>: adding jobs to the
  queue, raising, removing, retrying and listing them.  A statement that would give a
  chapter two unfinished jobs is rejected by the partial unique index on
  \<open>download_jobs (chapter_id)\<close>; \<open>one_active\<close> is that index.  An error inside a transaction
  leaves the state as it was, so an operation that fails returns the error alone.
\<close>

section \<open>Statuses, history, blocklist\<close>

definition activeStatuses :: "job_status set" where
  "activeStatuses = {JobQueued, JobPaused, JobDownloading, JobProcessing, JobImporting}"

abbreviation active :: "download_job \<Rightarrow> bool" where
  "active j \<equiv> j_status j \<in> activeStatuses"

definition one_active :: "download_job table \<Rightarrow> bool" where
  "one_active t \<longleftrightarrow> distinct (map j_chapter_id (filter active (rows t)))"

definition active_job :: "int64 \<Rightarrow> download_job table \<Rightarrow> download_job option" where
  "active_job chapterID t = find (\<lambda>j. j_chapter_id j = chapterID \<and> active j) (rows t)"

text \<open>An UPDATE of jobs under the index: the new table and the rows affected.\<close>

definition update_jobs ::
  "(download_job \<Rightarrow> bool) \<Rightarrow> (download_job \<Rightarrow> download_job) \<Rightarrow> download_job table \<Rightarrow> (download_job table \<times> nat) option" where
  "update_jobs P f t = (let t' = upd_where P f t in if one_active t' then Some (t', n_where P t) else None)"

definition Record ::
  "time \<Rightarrow> int64 \<Rightarrow> int64 option \<Rightarrow> history_event \<Rightarrow> string \<Rightarrow> (string \<times> string) list \<Rightarrow> queue_state \<Rightarrow> queue_state" where
  "Record now seriesID chapterID event sourceTitle data s =
     s\<lparr>q_history := tinsert (\<lambda>i h. h\<lparr>h_id := i\<rparr>)
        \<lparr>h_id = 0, h_series_id = seriesID, h_chapter_id = chapterID, h_event_type = event,
         h_source_title = sourceTitle, h_data = data, h_created_at = now\<rparr> (q_history s)\<rparr>"

definition BlocklistRelease :: "time \<Rightarrow> int64 \<Rightarrow> string \<Rightarrow> queue_state \<Rightarrow> queue_error + queue_state" where
  "BlocklistRelease now releaseID reason s =
     (case tget r_id releaseID (q_releases s) of
        None \<Rightarrow> Inl ErrNoRows
      | Some r \<Rightarrow>
          (let b = \<lparr>b_id = 0, b_series_id = r_series_id r, b_chapter_id = r_chapter_id r,
                    b_series_source_id = r_series_source_id r, b_chapter_url = r_chapter_url r,
                    b_scanlator = r_scanlator r, b_reason = reason, b_created_at = now\<rparr>;
               conflict = (\<exists>x \<in> set (rows (q_blocklist s)).
                 b_series_source_id x = r_series_source_id r \<and> b_chapter_url x = r_chapter_url r);
               s' = (if conflict then s
                     else s\<lparr>q_blocklist := tinsert (\<lambda>i x. x\<lparr>b_id := i\<rparr>) b (q_blocklist s)\<rparr>)
           in Inr (Record now (r_series_id r) (r_chapter_id r) HistoryBlocklist (r_name r)
                     [(''reason'', reason), (''scanlator'', r_scanlator r)] s')))"

definition resetChapterState :: "time \<Rightarrow> int64 \<Rightarrow> queue_state \<Rightarrow> queue_error + queue_state" where
  "resetChapterState now chapterID s =
     (case tget c_id chapterID (q_chapters s) of
        None \<Rightarrow> Inl ErrNoRows
      | Some ch \<Rightarrow>
          (let state = (if c_file_id ch \<noteq> None then ChapterImported
                        else if c_cleaned_at ch \<noteq> None then ChapterCleaned
                        else ChapterMissing)
           in Inr (s\<lparr>q_chapters := upd_where (\<lambda>c. c_id c = chapterID)
                      (\<lambda>c. c\<lparr>c_state := state, c_updated_at := now\<rparr>) (q_chapters s)\<rparr>)))"

definition set_chapter_state :: "time \<Rightarrow> int64 \<Rightarrow> chapter_state \<Rightarrow> queue_state \<Rightarrow> queue_state" where
  "set_chapter_state now chapterID state s =
     s\<lparr>q_chapters := upd_where (\<lambda>c. c_id c = chapterID)
        (\<lambda>c. c\<lparr>c_state := state, c_updated_at := now\<rparr>) (q_chapters s)\<rparr>"

section \<open>Adding jobs\<close>

text \<open>
  \<open>Raise\<close> lifts the queued job of a chapter (the index allows one) above the pending jobs of
  lower priority.
\<close>

definition Raise :: "time \<Rightarrow> queue_state \<Rightarrow> int64 \<Rightarrow> int \<Rightarrow> queue_error + queue_state" where
  "Raise now s chapterID priority =
     (if priority \<le> 0 then Inr s
      else
        case find (\<lambda>j. j_chapter_id j = chapterID \<and> j_status j = JobQueued \<and> j_priority j < priority) (rows (q_jobs s)) of
          None \<Rightarrow> Inr s
        | Some job \<Rightarrow>
            (case insertionRanks (q_jobs s) priority 1 of
               Inl e \<Rightarrow> Inl e
             | Inr (vals, t) \<Rightarrow>
                 (let P = (\<lambda>j. j_id j = j_id job \<and> j_status j = JobQueued);
                      t' = upd_where P (\<lambda>j. j\<lparr>j_priority := priority, j_rank := vals ! 0, j_updated_at := now\<rparr>) t;
                      s' = bumpOrder (s\<lparr>q_jobs := t'\<rparr>)
                  in Inr (if n_where P t > 0 then
                            changed ''chapter'' ''updated'' chapterID (changed ''queue'' ''sync'' 0 (signal s'))
                          else s'))))"

definition new_job ::
  "time \<Rightarrow> int64 \<Rightarrow> int64 \<Rightarrow> int64 option \<Rightarrow> job_kind \<Rightarrow> bool \<Rightarrow> int \<Rightarrow> download_job" where
  "new_job now seriesID chapterID releaseID kind isUpgrade priority =
     \<lparr>j_id = 0, j_kind = kind, j_series_id = seriesID, j_chapter_id = chapterID, j_release_id = releaseID,
      j_status = JobQueued, j_rank = 0, j_priority = priority, j_progress = 0, j_pages_done = 0, j_pages_total = 0,
      j_attempt = 0, j_is_upgrade = isUpgrade, j_error = [], j_not_before = now, j_created_at = now,
      j_updated_at = now, j_started_at = None\<rparr>"

abbreviation insert_job :: "download_job \<Rightarrow> download_job table \<Rightarrow> download_job table" where
  "insert_job \<equiv> tinsert (\<lambda>i j. j\<lparr>j_id := i\<rparr>)"

text \<open>
  The transaction of \<open>EnqueuePriority\<close>, which may run on a later state than the look-up
  before it: a job the index rejects gives way to the one a concurrent call added.
\<close>

definition enqueue_tx ::
  "time \<Rightarrow> queue_state \<Rightarrow> int64 \<Rightarrow> int64 \<Rightarrow> int64 option \<Rightarrow> job_kind \<Rightarrow> bool \<Rightarrow> int
     \<Rightarrow> queue_error + queue_state \<times> download_job \<times> bool" where
  "enqueue_tx now s seriesID chapterID releaseID kind isUpgrade priority =
     (case insertionRanks (q_jobs s) priority 1 of
        Inl e \<Rightarrow> Inl e
      | Inr (vals, t) \<Rightarrow>
          (let job = (new_job now seriesID chapterID releaseID kind isUpgrade priority)\<lparr>j_rank := vals ! 0\<rparr>;
               t' = insert_job job t
           in
           if \<not> one_active t' then
             (case active_job chapterID (q_jobs s) of
                Some winner \<Rightarrow> Inr (s, winner, False)
              | None \<Rightarrow> Inl ErrNoRows)
           else
             (let s1 = bumpOrder (s\<lparr>q_jobs := t'\<rparr>);
                  s2 = (if kind = JobKindDownload \<and> \<not> isUpgrade then set_chapter_state now chapterID ChapterQueued s1 else s1);
                  i = seq t + 1
              in Inr (signal (changed ''chapter'' ''updated'' chapterID (changed ''queue'' ''created'' i s2)),
                      job\<lparr>j_id := i\<rparr>, True))))"

definition EnqueuePriority ::
  "time \<Rightarrow> queue_state \<Rightarrow> int64 \<Rightarrow> int64 \<Rightarrow> int64 option \<Rightarrow> job_kind \<Rightarrow> bool \<Rightarrow> int
     \<Rightarrow> queue_error + queue_state \<times> download_job \<times> bool" where
  "EnqueuePriority now s seriesID chapterID releaseID kind isUpgrade priority =
     (case active_job chapterID (q_jobs s) of
        Some existing \<Rightarrow>
          (case Raise now s chapterID priority of
             Inl e \<Rightarrow> Inl e
           | Inr s' \<Rightarrow>
               (case tget j_id (j_id existing) (q_jobs s') of
                  None \<Rightarrow> Inl ErrNoRows
                | Some j \<Rightarrow> Inr (s', j, False)))
      | None \<Rightarrow> enqueue_tx now s seriesID chapterID releaseID kind isUpgrade priority)"

definition Enqueue ::
  "time \<Rightarrow> queue_state \<Rightarrow> int64 \<Rightarrow> int64 \<Rightarrow> int64 option \<Rightarrow> job_kind \<Rightarrow> bool
     \<Rightarrow> queue_error + queue_state \<times> download_job \<times> bool" where
  "Enqueue now s seriesID chapterID releaseID kind isUpgrade =
     EnqueuePriority now s seriesID chapterID releaseID kind isUpgrade 0"

text \<open>
  \<open>INSERT ... ON CONFLICT DO NOTHING\<close> of several jobs: rows are added in order, a row whose
  chapter already has an unfinished job is skipped.
\<close>

fun insert_jobs :: "download_job list \<Rightarrow> download_job table \<Rightarrow> download_job table \<times> nat" where
  "insert_jobs [] t = (t, 0)"
| "insert_jobs (j # js) t =
     (let t' = insert_job j t in
      if one_active t' then (let (t'', n) = insert_jobs js t' in (t'', Suc n)) else insert_jobs js t)"

definition reprocess_batch ::
  "time \<Rightarrow> chapter_file list \<Rightarrow> int \<Rightarrow> queue_state \<Rightarrow> queue_error + queue_state \<times> nat" where
  "reprocess_batch now files priority s =
     (let jobs = map (\<lambda>f. new_job now (f_series_id f) (f_chapter_id f) (f_release_id f) JobKindReprocess True priority) files in
      case insertionRanks (q_jobs s) priority (length jobs) of
        Inl e \<Rightarrow> Inl e
      | Inr (vals, t) \<Rightarrow>
          (let (t', added) = insert_jobs (map (\<lambda>(j, v). j\<lparr>j_rank := v\<rparr>) (zip jobs vals)) t
           in Inr (bumpOrder (s\<lparr>q_jobs := t'\<rparr>), added)))"

definition batchSize :: nat where "batchSize = 250"

text \<open>
  The batches commit one by one, so an error after the first ones leaves their jobs in the
  queue: the result is the state reached, the count, and the error.
\<close>

function reprocess_batches ::
  "time \<Rightarrow> chapter_file list \<Rightarrow> int \<Rightarrow> queue_state \<Rightarrow> nat \<Rightarrow> queue_state \<times> nat \<times> queue_error option" where
  "reprocess_batches now files priority s created =
     (if files = [] then (s, created, None)
      else
        case reprocess_batch now (take batchSize files) priority s of
          Inl e \<Rightarrow> (s, created, Some e)
        | Inr (s', added) \<Rightarrow> reprocess_batches now (drop batchSize files) priority s' (created + added))"
  by pat_completeness auto
termination
  by (relation "measure (\<lambda>(now, files, priority, s, created). length files)") (auto simp: batchSize_def)

declare reprocess_batches.simps [simp del]

definition EnqueueReprocessFiles ::
  "time \<Rightarrow> queue_state \<Rightarrow> chapter_file list \<Rightarrow> int \<Rightarrow> queue_state \<times> nat \<times> queue_error option" where
  "EnqueueReprocessFiles now s files priority =
     (let (s', created, e) = reprocess_batches now files priority s 0 in
      (if e = None \<and> created > 0 then signal (changed ''queue'' ''sync'' 0 s') else s', created, e))"

section \<open>Removing and retrying\<close>

definition Remove :: "time \<Rightarrow> queue_state \<Rightarrow> int64 \<Rightarrow> bool \<Rightarrow> queue_error + queue_state" where
  "Remove now s i blocklist =
     (case tget j_id i (q_jobs s) of
        None \<Rightarrow> Inl ErrNoRows
      | Some job \<Rightarrow>
          (case (case j_release_id job of
                   Some r \<Rightarrow> if blocklist then BlocklistRelease now r ''removed from queue by user'' s else Inr s
                 | None \<Rightarrow> Inr s) of
             Inl e \<Rightarrow> Inl e
           | Inr s1 \<Rightarrow> resetChapterState now (j_chapter_id job) (s1\<lparr>q_jobs := del_where (\<lambda>j. j_id j = i) (q_jobs s1)\<rparr>)))"

definition requeued :: "time \<Rightarrow> download_job \<Rightarrow> download_job" where
  "requeued now j = j\<lparr>j_status := JobQueued, j_error := [], j_attempt := 0, j_not_before := now, j_updated_at := now\<rparr>"

text \<open>\<open>Retry\<close>: the flag says whether the statement went through.\<close>

definition Retry :: "time \<Rightarrow> queue_state \<Rightarrow> int64 \<Rightarrow> queue_state \<times> bool" where
  "Retry now s i =
     (let u = update_jobs (\<lambda>j. j_id j = i \<and> j_status j = JobFailed) (requeued now) (q_jobs s);
          s' = (case u of Some (t, _) \<Rightarrow> s\<lparr>q_jobs := t\<rparr> | None \<Rightarrow> s)
      in (changed ''queue'' ''updated'' i (signal s'), u \<noteq> None))"

definition ClearFinished :: "time \<Rightarrow> queue_state \<Rightarrow> duration \<Rightarrow> queue_state" where
  "ClearFinished now s d =
     s\<lparr>q_jobs := del_where (\<lambda>j. j_status j \<in> {JobCompleted, JobFailed} \<and> j_updated_at j < now - d) (q_jobs s)\<rparr>"

section \<open>Listing\<close>

text \<open>
  \<open>LOWER(title) LIKE '%' || q || '%'\<close>: a percent sign of the pattern stands for any text, an
  underscore for any character.
\<close>

fun sql_like :: "string \<Rightarrow> string \<Rightarrow> bool" where
  "sql_like [] s = (s = [])"
| "sql_like (p # ps) [] = (p = CHR ''%'' \<and> sql_like ps [])"
| "sql_like (p # ps) (c # s) =
     (if p = CHR ''%'' then sql_like ps (c # s) \<or> sql_like (p # ps) s
      else (p = CHR ''_'' \<or> p = c) \<and> sql_like ps s)"

record list_filter =
  lf_statuses :: "job_status list"
  lf_kind :: "job_kind option"
  lf_series_id :: int64
  lf_query :: string
  lf_include_done :: bool
  lf_ids :: "int64 list"

record job_view =
  jv_job :: download_job
  jv_series_title :: string
  jv_chapter :: string
  jv_number_sort :: float64
  jv_source_name :: string
  jv_scanlator :: string

text \<open>The tables the listing joins with, besides the chapters and releases of the queue.\<close>

record list_tables =
  lt_series :: "series table"
  lt_sources :: "series_source table"

definition base :: "time \<Rightarrow> list_tables \<Rightarrow> queue_state \<Rightarrow> list_filter \<Rightarrow> bool \<Rightarrow> download_job \<Rightarrow> bool" where
  "base now lt s f withStatus j \<longleftrightarrow>
     (case tget s_id (j_series_id j) (lt_series lt) of
        None \<Rightarrow> False
      | Some sr \<Rightarrow>
          chapter_of s j \<noteq> None
          \<and> (case lf_kind f of None \<Rightarrow> True | Some k \<Rightarrow> j_kind j = k)
          \<and> (lf_series_id f > 0 \<longrightarrow> j_series_id j = lf_series_id f)
          \<and> (lf_ids f \<noteq> [] \<longrightarrow> j_id j \<in> set (lf_ids f))
          \<and> (trim_space (lf_query f) \<noteq> [] \<longrightarrow>
               sql_like (''%'' @ to_lower (trim_space (lf_query f)) @ ''%'') (to_lower (s_title sr)))
          \<and> (if withStatus \<and> lf_statuses f \<noteq> [] then j_status j \<in> set (lf_statuses f)
             else if lf_include_done f then active j \<or> j_updated_at j > now - 24 * hour
             else active j))"

definition view :: "list_tables \<Rightarrow> queue_state \<Rightarrow> download_job \<Rightarrow> job_view" where
  "view lt s j =
     (let sr = tget s_id (j_series_id j) (lt_series lt);
          c = chapter_of s j;
          r = (case j_release_id j of None \<Rightarrow> None | Some i \<Rightarrow> tget r_id i (q_releases s));
          ss = (case r of None \<Rightarrow> None | Some x \<Rightarrow> tget ss_id (r_series_source_id x) (lt_sources lt))
      in \<lparr>jv_job = j,
          jv_series_title = (case sr of None \<Rightarrow> [] | Some x \<Rightarrow> s_title x),
          jv_chapter = (case c of None \<Rightarrow> [] | Some x \<Rightarrow> c_number_key x),
          jv_number_sort = (case c of None \<Rightarrow> 0 | Some x \<Rightarrow> c_number_sort x),
          jv_source_name = (case ss of None \<Rightarrow> [] | Some x \<Rightarrow> ss_source_name x),
          jv_scanlator = (case r of None \<Rightarrow> [] | Some x \<Rightarrow> r_scanlator x)\<rparr>)"

definition status_order :: "job_status \<Rightarrow> int" where
  "status_order st = (case st of JobImporting \<Rightarrow> 0 | JobProcessing \<Rightarrow> 1 | JobDownloading \<Rightarrow> 2 | JobQueued \<Rightarrow> 3
     | JobPaused \<Rightarrow> 3 | JobFailed \<Rightarrow> 4 | JobCompleted \<Rightarrow> 5)"

definition list_less :: "download_job \<Rightarrow> download_job \<Rightarrow> bool" where
  "list_less a b \<longleftrightarrow> status_order (j_status a) < status_order (j_status b)
     \<or> status_order (j_status a) = status_order (j_status b) \<and> job_less a b"

record queue_page =
  qp_revision :: int64
  qp_items :: "job_view list"
  qp_total :: nat
  qp_page :: int
  qp_page_size :: int
  qp_counts :: "(job_status \<times> nat) list"

definition all_statuses :: "job_status list" where
  "all_statuses = [JobQueued, JobPaused, JobDownloading, JobProcessing, JobImporting, JobCompleted, JobFailed]"

definition ListPageAt ::
  "time \<Rightarrow> list_tables \<Rightarrow> queue_state \<Rightarrow> list_filter \<Rightarrow> int \<Rightarrow> int \<Rightarrow> int64 option \<Rightarrow> queue_error + queue_page" where
  "ListPageAt now lt s f pg pageSize revision =
     (let pg = max pg 1; pageSize = min (max pageSize 1) 500;
          hits = stable_sort list_less (filter (base now lt s f True) (rows (q_jobs s)));
          all = filter (base now lt s f False) (rows (q_jobs s))
      in
      if (case revision of None \<Rightarrow> False | Some r \<Rightarrow> r \<noteq> q_revision s) then Inl ErrQueueOrderChanged
      else Inr
        \<lparr>qp_revision = q_revision s,
         qp_items = map (view lt s) (take (nat pageSize) (drop (nat ((pg - 1) * pageSize)) hits)),
         qp_total = length hits, qp_page = pg, qp_page_size = pageSize,
         qp_counts = filter (\<lambda>(st, n). n > 0) (map (\<lambda>st. (st, length (filter (\<lambda>j. j_status j = st) all))) all_statuses)\<rparr>)"

definition ListPage ::
  "time \<Rightarrow> list_tables \<Rightarrow> queue_state \<Rightarrow> list_filter \<Rightarrow> int \<Rightarrow> int \<Rightarrow> queue_error + queue_page" where
  "ListPage now lt s f pg pageSize = ListPageAt now lt s f pg pageSize None"

definition IDs :: "time \<Rightarrow> list_tables \<Rightarrow> queue_state \<Rightarrow> list_filter \<Rightarrow> int64 list" where
  "IDs now lt s f = stable_sort (<) (map j_id (filter (base now lt s f True) (rows (q_jobs s))))"

definition ActiveChapters :: "queue_state \<Rightarrow> int64 \<Rightarrow> int64 set" where
  "ActiveChapters s seriesID =
     j_chapter_id ` set (filter (\<lambda>j. j_series_id j = seriesID \<and> active j) (rows (q_jobs s)))"

section \<open>The invariant\<close>

text \<open>
  Ranks are distinct and bounded, a chapter has at most one unfinished job, ids are keys, and
  a release is on the blocklist once.
\<close>

definition block_key :: "blocklist \<Rightarrow> int64 \<times> string" where
  "block_key b = (b_series_source_id b, b_chapter_url b)"

definition queue_ok :: "queue_state \<Rightarrow> bool" where
  "queue_ok s \<longleftrightarrow> ranks_ok (q_jobs s) \<and> one_active (q_jobs s) \<and> twf c_id (q_chapters s)
     \<and> twf b_id (q_blocklist s) \<and> twf h_id (q_history s) \<and> distinct (map block_key (rows (q_blocklist s)))"

lemma ranks_ok_twf: "ranks_ok t \<Longrightarrow> twf j_id t"
  by (simp add: ranks_ok_def)

lemma one_active_map:
  assumes "\<And>j. j \<in> set (rows t) \<Longrightarrow> j_chapter_id (f j) = j_chapter_id j \<and> (active (f j) \<longrightarrow> active j)"
    and "one_active t" and "rows t' = map f (rows t)"
  shows "one_active t'"
proof -
  have "distinct (map j_chapter_id (filter active (map f js))) \<and>
      set (map j_chapter_id (filter active (map f js))) \<subseteq> set (map j_chapter_id (filter active js))"
    if "\<And>j. j \<in> set js \<Longrightarrow> j_chapter_id (f j) = j_chapter_id j \<and> (active (f j) \<longrightarrow> active j)"
      "distinct (map j_chapter_id (filter active js))" for js
    using that
  proof (induction js)
    case (Cons j js)
    then have IH: "distinct (map j_chapter_id (filter active (map f js)))"
      "set (map j_chapter_id (filter active (map f js))) \<subseteq> set (map j_chapter_id (filter active js))"
      by (auto split: if_splits)
    moreover have "j_chapter_id (f j) = j_chapter_id j" "active (f j) \<Longrightarrow> active j"
      using Cons.prems(1) [of j] by auto
    ultimately show ?case using Cons.prems(2) by (cases "active (f j)") auto
  qed simp
  from this [of "rows t"] show ?thesis using assms by (simp add: one_active_def)
qed

lemma one_active_upd:
  assumes "\<And>j. P j \<Longrightarrow> j_chapter_id (f j) = j_chapter_id j \<and> (active (f j) \<longrightarrow> active j)" and "one_active t"
  shows "one_active (upd_where P f t)"
  by (rule one_active_map [OF _ assms(2), of "\<lambda>j. if P j then f j else j"]) (use assms(1) in \<open>auto simp: upd_where_def\<close>)

lemma one_active_del: "one_active t \<Longrightarrow> one_active (del_where P t)"
  using distinct_map_filter [of j_chapter_id "filter active (rows t)" "\<lambda>j. \<not> P j"]
  by (simp add: one_active_def del_where_def conj_commute)

lemma one_active_insert:
  "one_active (insert_job j t) \<longleftrightarrow>
     one_active t \<and> (active j \<longrightarrow> (\<forall>k \<in> set (rows t). active k \<longrightarrow> j_chapter_id k \<noteq> j_chapter_id j))"
  by (auto simp: one_active_def tinsert_def image_iff; metis)

lemma one_active_unique:
  "one_active t \<Longrightarrow> a \<in> set (rows t) \<Longrightarrow> b \<in> set (rows t) \<Longrightarrow> active a \<Longrightarrow> active b \<Longrightarrow>
   j_chapter_id a = j_chapter_id b \<Longrightarrow> a = b"
  by (auto simp: one_active_def distinct_map dest: inj_onD)

lemma one_active_same_jobs: "same_jobs t t' \<Longrightarrow> one_active t \<Longrightarrow> one_active t'"
  unfolding same_jobs_def
proof (elim conjE exE)
  fix f assume "one_active t" "rows t' = map (\<lambda>j. j\<lparr>j_rank := f j\<rparr>) (rows t)"
  then show "one_active t'" by (rule one_active_map [rotated]) simp
qed

lemma one_active_set_ranks: "one_active t \<Longrightarrow> one_active (set_ranks now ps t)"
proof (induction now ps t rule: set_ranks.induct)
  case (2 now i v ps t)
  then show ?case using one_active_upd [of "\<lambda>j. j_id j = i"] by simp
qed simp

lemma active_job_None: "active_job c t = None \<longleftrightarrow> (\<forall>j \<in> set (rows t). active j \<longrightarrow> j_chapter_id j \<noteq> c)"
  by (auto simp: active_job_def find_None_iff)

lemma active_job_Some: "active_job c t = Some j \<Longrightarrow> j \<in> set (rows t) \<and> active j \<and> j_chapter_id j = c"
  by (auto simp: active_job_def find_Some_iff)

lemma update_jobs_Some: "update_jobs P f t = Some (t', n) \<longleftrightarrow> t' = upd_where P f t \<and> n = n_where P t \<and> one_active t'"
  by (auto simp: update_jobs_def Let_def)

text \<open>Statements that leave the ranks alone keep them well formed.\<close>

lemma ranks_ok_upd:
  assumes "\<And>j. P j \<Longrightarrow> j_id (f j) = j_id j \<and> j_rank (f j) = j_rank j" and "ranks_ok t"
  shows "ranks_ok (upd_where P f t)"
proof -
  have "map j_rank (rows (upd_where P f t)) = map j_rank (rows t)" using assms(1) by (simp add: upd_where_def)
  then show ?thesis
    using assms jobs_table.wf_update [of P f t] by (auto simp: ranks_ok_def set_upd_where)
qed

lemma ranks_ok_del: "ranks_ok t \<Longrightarrow> ranks_ok (del_where P t)"
  using jobs_table.wf_delete [of t P]
  by (auto simp: ranks_ok_def set_del_where) (auto simp: del_where_def distinct_map intro: inj_on_subset)

lemma ranks_ok_insert:
  assumes "ranks_ok t" and "- rankLimit < j_rank j \<and> j_rank j < rankLimit" and "j_rank j \<notin> j_rank ` set (rows t)"
  shows "ranks_ok (insert_job j t)"
proof -
  have "twf j_id (insert_job j t)" using assms(1) by (intro jobs_table.wf_insert) (simp add: ranks_ok_def)
  then show ?thesis using assms by (auto simp: ranks_ok_def tinsert_def)
qed

lemma ranks_ok_rerank:
  assumes "ranks_ok t" and "- rankLimit < v \<and> v < rankLimit" and "v \<notin> j_rank ` set (rows t)"
    and "\<And>j. P j \<Longrightarrow> j_id (f j) = j_id j \<and> j_rank (f j) = v" and "\<And>j. P j \<Longrightarrow> j_id j = i"
  shows "ranks_ok (upd_where P f t)"
proof -
  have wf: "twf j_id t" using assms(1) by (simp add: ranks_ok_def)
  have d: "distinct (map j_id js) \<Longrightarrow> distinct (map j_rank js) \<Longrightarrow> v \<notin> j_rank ` set js \<Longrightarrow>
      distinct (map j_rank (map (\<lambda>j. if P j then f j else j) js))" for js
  proof (induction js)
    case (Cons j js)
    then have "P j \<Longrightarrow> k \<in> set js \<Longrightarrow> \<not> P k" for k using assms(5) by auto
    with Cons show ?case using assms(4) by (auto split: if_splits)
  qed simp
  have "twf j_id (upd_where P f t)" using assms(4) by (intro jobs_table.wf_update [OF _ wf]) auto
  moreover have "distinct (map j_rank (rows (upd_where P f t)))"
    using d [of "rows t"] wf assms(1,3) by (simp add: upd_where_def ranks_ok_def twf_def)
  ultimately show ?thesis using assms by (auto simp: ranks_ok_def set_upd_where)
qed

text \<open>The insertion ranks: increasing, unused, and in a gap at the place of the priority.\<close>

definition first_below :: "int \<Rightarrow> download_job table \<Rightarrow> download_job option" where
  "first_below p t = find (\<lambda>j. pending j \<and> j_priority j < p) (queue_list t)"


lemma find_filter: "find P xs = (case filter P xs of [] \<Rightarrow> None | x # _ \<Rightarrow> Some x)"
  by (induction xs) auto

lemma first_below_alt:
  assumes "ranks_ok t"
  shows "first_below p t = (case stable_sort job_less (filter (\<lambda>j. pending j \<and> j_priority j < p) (rows t)) of
    [] \<Rightarrow> None | a # _ \<Rightarrow> Some a)"
proof -
  have wf: "twf j_id t" "distinct (map j_rank (rows t))" using assms by (auto simp: ranks_ok_def)
  have "stable_sort job_less (filter (\<lambda>j. pending j \<and> j_priority j < p) (rows t)) =
      filter (\<lambda>j. pending j \<and> j_priority j < p) (queue_list t)"
    by (rule sort_eqI [OF wf(1)]) (auto intro: sorted_wrt_filter queue_list_sorted [OF wf])
  then show ?thesis by (simp add: first_below_def find_filter)
qed

lemma insertionRanks_alt:
  "ranks_ok t \<Longrightarrow> insertionRanks t p n =
     (case first_below p t of None \<Rightarrow> ranks t Bottom 0 n | Some a \<Rightarrow> ranks t Before (j_id a) n)"
  by (simp add: insertionRanks_def first_below_alt split: list.split)

lemma first_below_Some: "first_below p t = Some a \<Longrightarrow> a \<in> set (rows t) \<and> pending a \<and> j_priority a < p"
  by (auto simp: first_below_def find_Some_iff) (metis nth_mem set_queue_list)

text \<open>Where in the order a job goes that is added (or raised) with priority \<open>p\<close>.\<close>

definition place :: "int \<Rightarrow> download_job table \<Rightarrow> int64 list \<Rightarrow> int64 list \<times> int64 list" where
  "place p t q =
     (case first_below p t of
        None \<Rightarrow> (q, [])
      | Some a \<Rightarrow> (takeWhile (\<lambda>i. i \<noteq> j_id a) q, dropWhile (\<lambda>i. i \<noteq> j_id a) q))"

definition enqueue_spec :: "int \<Rightarrow> download_job table \<Rightarrow> int64 list \<Rightarrow> int64 list \<Rightarrow> int64 list" where
  "enqueue_spec p t q new = (let (front, rear) = place p t q in front @ new @ rear)"

text \<open>The same for a job that is in the queue already.\<close>

definition raise_spec :: "int \<Rightarrow> download_job table \<Rightarrow> int64 list \<Rightarrow> int64 \<Rightarrow> int64 list" where
  "raise_spec p t q i =
     (let (front, rear) = place p t q in filter (\<lambda>x. x \<noteq> i) front @ i # filter (\<lambda>x. x \<noteq> i) rear)"

lemma same_jobs_member:
  assumes "same_jobs t t'" and "a \<in> set (rows t)"
  obtains v where "a\<lparr>j_rank := v\<rparr> \<in> set (rows t')"
proof -
  from assms(1) obtain f where "rows t' = map (\<lambda>j. j\<lparr>j_rank := f j\<rparr>) (rows t)" by (auto simp: same_jobs_def)
  with assms(2) have "a\<lparr>j_rank := f a\<rparr> \<in> set (rows t')" by simp
  then show thesis by (rule that)
qed

text \<open>A rank in the gap splits the queue at the place of the specification.\<close>

lemma insertion_split:
  assumes "insertionRanks t p n = Inr (vals, t')" and "ranks_ok t" and "small_queue t m"
  shows "ranks_ok t' \<and> order t' = order t \<and> same_jobs t t' \<and> length vals = n \<and> sorted_wrt (<) vals"
    and "v \<in> set vals \<Longrightarrow> - rankLimit < v \<and> v < rankLimit \<and> v \<notin> j_rank ` set (rows t')"
    and "v \<in> set vals \<Longrightarrow> place p t (order t) =
        (map j_id (filter (\<lambda>j. j_rank j < v) (queue_list t')), map j_id (filter (\<lambda>j. v < j_rank j) (queue_list t')))"
proof -
  obtain action anchor where r: "ranks t action anchor n = Inr (vals, t')"
    and act: "(first_below p t = None \<and> action = Bottom) \<or>
      (\<exists>a. first_below p t = Some a \<and> action = Before \<and> anchor = j_id a)"
    using assms(1) by (auto simp: insertionRanks_alt [OF assms(2)] split: option.splits)
  from ranks_spec [OF r assms(2,3)] obtain low high where
    R: "ranks_ok t'" "order t' = order t" "same_jobs t t'" "gap_ok t' action anchor low high" "length vals = n" "sorted_wrt (<) vals"
    and v: "\<And>v. v \<in> set vals \<Longrightarrow> low < v \<and> v < high \<and> - rankLimit < v \<and> v < rankLimit" by blast
  then show "ranks_ok t' \<and> order t' = order t \<and> same_jobs t t' \<and> length vals = n \<and> sorted_wrt (<) vals" by blast
  have wf: "twf j_id t'" "distinct (map j_rank (rows t'))" using R(1) by (auto simp: ranks_ok_def)
  assume vv: "v \<in> set vals"
  have gap: "j \<in> set (rows t') \<Longrightarrow> j_rank j \<le> low \<or> high \<le> j_rank j" for j
    using R(4) act by (auto simp: gap_ok_def)
  then have out: "j \<in> set (rows t') \<Longrightarrow> j_rank j \<noteq> v" for j using v [OF vv] by fastforce
  then show "- rankLimit < v \<and> v < rankLimit \<and> v \<notin> j_rank ` set (rows t')" using v [OF vv] by auto
  show "place p t (order t) =
      (map j_id (filter (\<lambda>j. j_rank j < v) (queue_list t')), map j_id (filter (\<lambda>j. v < j_rank j) (queue_list t')))"
  proof (cases "first_below p t")
    case None
    with act have "gap_ok t' Bottom anchor low high" using R(4) by auto
    then have "\<And>j. j \<in> set (rows t') \<Longrightarrow> j_rank j < v" using v [OF vv] by (fastforce simp: gap_ok_def)
    then have "filter (\<lambda>j. j_rank j < v) (queue_list t') = queue_list t'" "filter (\<lambda>j. v < j_rank j) (queue_list t') = []"
      by (auto simp: filter_id_conv filter_empty_conv dest: order_less_asym)
    with None R(2) show ?thesis by (simp add: place_def order_queue_list)
  next
    case (Some a)
    with act have "gap_ok t' Before (j_id a) low high" using R(4) by auto
    then obtain a' where a': "a' \<in> set (rows t')" "j_id a' = j_id a" "high = j_rank a'" by (auto simp: gap_ok_def)
    from rest_split [OF wf a'(1), of "{}"] obtain front rear where
      fr: "queue_list t' = front @ a' # rear"
      "takeWhile (\<lambda>i. i \<noteq> j_id a') (order t') = map j_id front"
      "dropWhile (\<lambda>i. i \<noteq> j_id a') (order t') = j_id a' # map j_id rear"
      "\<forall>j \<in> set front. j_rank j < j_rank a'" "\<forall>j \<in> set rear. j_rank a' < j_rank j"
      by (auto simp: order_def)
    have sets: "set (rows t') = set front \<union> {a'} \<union> set rear" using fr(1) set_queue_list [of t'] by auto
    have f: "\<And>j. j \<in> set front \<Longrightarrow> j_rank j < v"
    proof -
      fix j assume "j \<in> set front"
      with sets fr(4) gap a'(3) have "j_rank j \<le> low" by fastforce
      with v [OF vv] show "j_rank j < v" by simp
    qed
    have b: "\<And>j. j \<in> set rear \<Longrightarrow> v < j_rank j" "v < j_rank a'" using fr(5) v [OF vv] a'(3) by fastforce+
    have "filter (\<lambda>j. j_rank j < v) (queue_list t') = front"
      unfolding fr(1) using f b by (auto simp: filter_empty_conv filter_id_conv dest: order_less_asym)
    moreover have "filter (\<lambda>j. v < j_rank j) (queue_list t') = a' # rear"
      unfolding fr(1) using f b by (auto simp: filter_empty_conv filter_id_conv dest: order_less_asym)
    ultimately show ?thesis using Some fr(2,3) a'(2) R(2) by (simp add: place_def)
  qed
qed

text \<open>Adding a row, or giving a row a new rank, splits the order around the rank.\<close>

lemma split_order:
  assumes ok: "ranks_ok t" and v: "v \<notin> j_rank ` set (rows t)" and wf': "twf j_id t'"
    and s: "set (rows t') = insert new {j \<in> set (rows t). j_id j \<notin> S}" and n: "j_rank new = v"
  shows "order t' = filter (\<lambda>i. i \<notin> S) (map j_id (filter (\<lambda>j. j_rank j < v) (queue_list t))) @ j_id new #
      filter (\<lambda>i. i \<notin> S) (map j_id (filter (\<lambda>j. v < j_rank j) (queue_list t)))"
proof -
  have wf: "twf j_id t" "distinct (map j_rank (rows t))" using ok by (auto simp: ranks_ok_def)
  let ?Q = "filter (\<lambda>j. j_id j \<notin> S) (queue_list t)"
  let ?M = "filter (\<lambda>j. j_rank j < v) ?Q @ new # filter (\<lambda>j. v < j_rank j) ?Q"
  have "sorted_wrt by_rank ?M" using n queue_list_sorted [OF wf] by (auto simp: sorted_wrt_append intro: sorted_wrt_filter order.strict_trans)
  moreover have "set ?M = set (rows t')" using v unfolding s by (auto simp: not_less_iff_gr_or_eq)
  ultimately have "order t' = map j_id ?M" by (intro order_eqI [OF wf'])
  then show ?thesis by (simp add: filter_map comp_def conj_commute)
qed


section \<open>The operations keep the invariant\<close>

lemma queue_ok_frames [simp]:
  "queue_ok (signal s) = queue_ok s" "queue_ok (changed r a i s) = queue_ok s"
  "queue_ok (bumpOrder s) = queue_ok s" "queue_ok (after_reorder n s) = queue_ok s"
  by (simp_all add: queue_ok_def signal_def changed_def bumpOrder_def after_reorder_def)

lemma frames_jobs [simp]:
  "q_jobs (signal s) = q_jobs s" "q_jobs (changed r a i s) = q_jobs s" "q_jobs (bumpOrder s) = q_jobs s"
  "q_chapters (signal s) = q_chapters s" "q_chapters (changed r a i s) = q_chapters s" "q_chapters (bumpOrder s) = q_chapters s"
  "q_blocklist (signal s) = q_blocklist s" "q_blocklist (changed r a i s) = q_blocklist s" "q_blocklist (bumpOrder s) = q_blocklist s"
  "q_releases (signal s) = q_releases s" "q_releases (changed r a i s) = q_releases s" "q_releases (bumpOrder s) = q_releases s"
  "q_history (signal s) = q_history s" "q_history (changed r a i s) = q_history s" "q_history (bumpOrder s) = q_history s"
  by (simp_all add: signal_def changed_def bumpOrder_def)

lemma queue_ok_jobs: "queue_ok s \<Longrightarrow> ranks_ok t \<Longrightarrow> one_active t \<Longrightarrow> queue_ok (s\<lparr>q_jobs := t\<rparr>)"
  by (simp add: queue_ok_def)

lemma set_chapter_state_jobs [simp]:
  "q_jobs (set_chapter_state now c st s) = q_jobs s" "q_blocklist (set_chapter_state now c st s) = q_blocklist s"
  "q_releases (set_chapter_state now c st s) = q_releases s"
  by (simp_all add: set_chapter_state_def)

lemma set_chapter_state_ok: "queue_ok s \<Longrightarrow> queue_ok (set_chapter_state now c st s)"
  using chapters_table.wf_update [of "\<lambda>x. c_id x = c" "\<lambda>x. x\<lparr>c_state := st, c_updated_at := now\<rparr>" "q_chapters s"]
  by (simp add: queue_ok_def set_chapter_state_def)

lemma resetChapterState_set:
  "resetChapterState now c s = Inr s' \<Longrightarrow> \<exists>st. s' = set_chapter_state now c st s"
  by (auto simp: resetChapterState_def set_chapter_state_def Let_def split: option.splits)

interpretation history_table: id_table h_id "\<lambda>i h. h\<lparr>h_id := i\<rparr>"
  by unfold_locales simp

interpretation blocklist_table: id_table b_id "\<lambda>i x. x\<lparr>b_id := i\<rparr>"
  by unfold_locales simp

lemma Record_ok: "queue_ok s \<Longrightarrow> queue_ok (Record now sid c e t d s)"
  by (simp add: queue_ok_def Record_def history_table.wf_insert)

lemma Record_frames [simp]:
  "q_jobs (Record now sid c e t d s) = q_jobs s" "q_chapters (Record now sid c e t d s) = q_chapters s"
  "q_blocklist (Record now sid c e t d s) = q_blocklist s" "q_releases (Record now sid c e t d s) = q_releases s"
  by (simp_all add: Record_def)

lemma BlocklistRelease_frames:
  "BlocklistRelease now r reason s = Inr s' \<Longrightarrow>
   q_jobs s' = q_jobs s \<and> q_chapters s' = q_chapters s \<and> q_releases s' = q_releases s"
  by (auto simp: BlocklistRelease_def Let_def split: option.splits)

lemma add_block_ok:
  assumes "queue_ok s" and "block_key b \<notin> block_key ` set (rows (q_blocklist s))"
  shows "queue_ok (s\<lparr>q_blocklist := tinsert (\<lambda>i x. x\<lparr>b_id := i\<rparr>) b (q_blocklist s)\<rparr>)"
  using assms blocklist_table.wf_insert [of "q_blocklist s" b]
  by (simp add: queue_ok_def) (simp add: tinsert_def block_key_def)

lemma BlocklistRelease_ok:
  assumes "queue_ok s" and "BlocklistRelease now r reason s = Inr s'" shows "queue_ok s'"
proof -
  obtain x where "tget r_id r (q_releases s) = Some x"
    using assms(2) by (auto simp: BlocklistRelease_def split: option.splits)
  with assms show ?thesis
    by (auto simp: BlocklistRelease_def Let_def block_key_def image_iff intro!: Record_ok add_block_ok split: if_splits)
qed

lemma Remove_cases:
  assumes "Remove now s i b = Inr s'"
  obtains job s1 where "tget j_id i (q_jobs s) = Some job"
    "s1 = s \<or> (\<exists>r. BlocklistRelease now r ''removed from queue by user'' s = Inr s1)"
    "resetChapterState now (j_chapter_id job) (s1\<lparr>q_jobs := del_where (\<lambda>j. j_id j = i) (q_jobs s1)\<rparr>) = Inr s'"
proof -
  have "\<exists>job s1. tget j_id i (q_jobs s) = Some job \<and>
      (s1 = s \<or> (\<exists>r. BlocklistRelease now r ''removed from queue by user'' s = Inr s1)) \<and>
      resetChapterState now (j_chapter_id job) (s1\<lparr>q_jobs := del_where (\<lambda>j. j_id j = i) (q_jobs s1)\<rparr>) = Inr s'"
    using assms by (auto simp: Remove_def split: option.splits sum.splits if_splits)
  then show thesis using that by blast
qed

lemma Remove_ok:
  assumes "queue_ok s" and "Remove now s i b = Inr s'" shows "queue_ok s'"
  using assms(2)
proof (cases rule: Remove_cases)
  case (1 job s1)
  have "queue_ok s1" using 1(2) assms(1) BlocklistRelease_ok by blast
  then have "queue_ok (s1\<lparr>q_jobs := del_where (\<lambda>j. j_id j = i) (q_jobs s1)\<rparr>)"
    by (intro queue_ok_jobs ranks_ok_del one_active_del) (simp_all add: queue_ok_def)
  then show ?thesis using resetChapterState_set [OF 1(3)] set_chapter_state_ok by blast
qed

lemma Retry_ok: "queue_ok s \<Longrightarrow> queue_ok (fst (Retry now s i))"
  by (auto simp: Retry_def Let_def update_jobs_Some requeued_def queue_ok_def intro!: ranks_ok_upd split: option.split)

lemma ClearFinished_ok: "queue_ok s \<Longrightarrow> queue_ok (ClearFinished now s d)"
  unfolding ClearFinished_def
  by (intro queue_ok_jobs ranks_ok_del one_active_del) (simp_all add: queue_ok_def)

lemma Raise_cases:
  assumes "Raise now s c p = Inr s'"
  obtains (same) "s' = s" "p \<le> 0 \<or> (\<forall>j \<in> set (rows (q_jobs s)). j_chapter_id j = c \<longrightarrow> j_status j = JobQueued \<longrightarrow> p \<le> j_priority j)"
    | (raised) job vals t v P where "0 < p" "job \<in> set (rows (q_jobs s))" "j_chapter_id job = c" "j_status job = JobQueued"
        "j_priority job < p" "insertionRanks (q_jobs s) p 1 = Inr (vals, t)" "v = vals ! 0"
        "P = (\<lambda>j. j_id j = j_id job \<and> j_status j = JobQueued)"
        "q_jobs s' = upd_where P (\<lambda>j. j\<lparr>j_priority := p, j_rank := v, j_updated_at := now\<rparr>) t"
        "\<And>t'. queue_ok (s\<lparr>q_jobs := t'\<rparr>) \<Longrightarrow> q_jobs s' = t' \<Longrightarrow> queue_ok s'"
proof (cases "p \<le> 0 \<or> find (\<lambda>j. j_chapter_id j = c \<and> j_status j = JobQueued \<and> j_priority j < p) (rows (q_jobs s)) = None")
  case True
  then have "s' = s" using assms by (auto simp: Raise_def split: if_splits)
  with True show thesis by (intro same) (auto simp: find_None_iff)
next
  case False
  then obtain job where p: "0 < p"
    and j: "find (\<lambda>j. j_chapter_id j = c \<and> j_status j = JobQueued \<and> j_priority j < p) (rows (q_jobs s)) = Some job"
    by auto
  obtain vals t where i: "insertionRanks (q_jobs s) p 1 = Inr (vals, t)"
    using assms p j by (auto simp: Raise_def split: sum.splits)
  note jm = j [unfolded find_Some_iff]
  let ?P = "\<lambda>j. j_id j = j_id job \<and> j_status j = JobQueued"
  let ?t = "upd_where ?P (\<lambda>j. j\<lparr>j_priority := p, j_rank := vals ! 0, j_updated_at := now\<rparr>) t"
  let ?s = "bumpOrder (s\<lparr>q_jobs := ?t\<rparr>)"
  have E: "s' = (if n_where ?P t > 0 then changed ''chapter'' ''updated'' c (changed ''queue'' ''sync'' 0 (signal ?s)) else ?s)"
    using assms p j i by (simp add: Raise_def Let_def)
  show thesis
  proof (rule raised [OF p _ _ _ _ i refl refl])
    show "job \<in> set (rows (q_jobs s))" "j_chapter_id job = c" "j_status job = JobQueued" "j_priority job < p"
      using jm by auto
    show "q_jobs s' = ?t" by (simp add: E)
    show "\<And>t'. queue_ok (s\<lparr>q_jobs := t'\<rparr>) \<Longrightarrow> q_jobs s' = t' \<Longrightarrow> queue_ok s'"
      by (auto simp: E)
  qed
qed

lemma Raise_ok:
  assumes "queue_ok s" and "small_queue (q_jobs s) m" and "Raise now s c p = Inr s'"
  shows "queue_ok s'"
  using assms(3)
proof (cases rule: Raise_cases)
  case (raised job vals t v P)
  have ok: "ranks_ok (q_jobs s)" "one_active (q_jobs s)" using assms(1) by (auto simp: queue_ok_def)
  note I = insertion_split [OF raised(6) ok(1) assms(2)]
  have v: "v \<in> set vals" using I(1) raised(7) by (metis One_nat_def lessI nth_mem)
  have r: "ranks_ok (q_jobs s')" unfolding raised(9)
    by (rule ranks_ok_rerank [where v = v and i = "j_id job"]) (use I(1) I(2) [OF v] raised(8) in auto)
  have "one_active (q_jobs s')" unfolding raised(9)
    by (rule one_active_upd) (use one_active_same_jobs ok(2) I(1) in auto)
  with r show ?thesis by (intro raised(10) [OF _ refl] queue_ok_jobs [OF assms(1)])
qed (use assms(1) in simp)

lemma vals_head: "length vals = 1 \<Longrightarrow> vals ! 0 \<in> set vals"
  by (cases vals) auto

lemma if_cases_ok: "P y \<Longrightarrow> P x \<Longrightarrow> P (if c then x else y)"
  by simp

lemma enqueue_tx_cases:
  assumes "enqueue_tx now s sid c r k u p = Inr (s', j, created)"
  obtains (lost) "s' = s" "\<not> created" "active_job c (q_jobs s) = Some j"
    | (added) vals t where "created" "insertionRanks (q_jobs s) p 1 = Inr (vals, t)"
        "j = (new_job now sid c r k u p)\<lparr>j_rank := vals ! 0, j_id := seq t + 1\<rparr>"
        "one_active (q_jobs s')" "rows (q_jobs s') = rows t @ [j]" "seq (q_jobs s') = seq t + 1"
        "q_jobs s' = insert_job j t"
        "k = JobKindDownload \<and> \<not> u \<Longrightarrow> q_chapters s' = upd_where (\<lambda>x. c_id x = c)
            (\<lambda>x. x\<lparr>c_state := ChapterQueued, c_updated_at := now\<rparr>) (q_chapters s)"
        "\<not> (k = JobKindDownload \<and> \<not> u) \<Longrightarrow> q_chapters s' = q_chapters s"
        "queue_ok (s\<lparr>q_jobs := q_jobs s'\<rparr>) \<Longrightarrow> queue_ok s'"
proof -
  obtain vals t where i: "insertionRanks (q_jobs s) p 1 = Inr (vals, t)"
    using assms by (auto simp: enqueue_tx_def split: sum.splits)
  let ?j = "(new_job now sid c r k u p)\<lparr>j_rank := vals ! 0\<rparr>"
  show thesis
  proof (cases "one_active (insert_job ?j t)")
    case True
    let ?s1 = "bumpOrder (s\<lparr>q_jobs := insert_job ?j t\<rparr>)"
    let ?s2 = "if k = JobKindDownload \<and> \<not> u then set_chapter_state now c ChapterQueued ?s1 else ?s1"
    have E: "s' = signal (changed ''chapter'' ''updated'' c (changed ''queue'' ''created'' (seq t + 1) ?s2))"
      "j = ?j\<lparr>j_id := seq t + 1\<rparr>" "created"
      using assms i True by (simp_all add: enqueue_tx_def Let_def)
    show thesis
    proof (rule added [OF E(3) i])
      show "j = (new_job now sid c r k u p)\<lparr>j_rank := vals ! 0, j_id := seq t + 1\<rparr>" using E(2) by simp
      show J: "q_jobs s' = insert_job j t" by (simp add: E tinsert_def)
      show "rows (q_jobs s') = rows t @ [j]" "seq (q_jobs s') = seq t + 1"
        unfolding J by (simp_all add: E(2) tinsert_def)
      show "one_active (q_jobs s')" using True unfolding J E(2) by (simp add: tinsert_def)
      show "k = JobKindDownload \<and> \<not> u \<Longrightarrow> q_chapters s' = upd_where (\<lambda>x. c_id x = c)
          (\<lambda>x. x\<lparr>c_state := ChapterQueued, c_updated_at := now\<rparr>) (q_chapters s)"
        "\<not> (k = JobKindDownload \<and> \<not> u) \<Longrightarrow> q_chapters s' = q_chapters s"
        by (auto simp: E(1) set_chapter_state_def)
      assume ok: "queue_ok (s\<lparr>q_jobs := q_jobs s'\<rparr>)"
      have "q_jobs s' = insert_job ?j t" by (simp add: E(1))
      with ok have "queue_ok ?s1" by simp
      from this set_chapter_state_ok [OF this] have "queue_ok ?s2"
        by (rule if_cases_ok)
      then show "queue_ok s'" unfolding E(1) by (simp only: queue_ok_frames)
    qed
  next
    case False
    with assms i show thesis by (auto simp: enqueue_tx_def Let_def intro: lost split: option.splits)
  qed
qed

lemma enqueue_tx_ok:
  assumes "queue_ok s" and "small_queue (q_jobs s) m" and "enqueue_tx now s sid c r k u p = Inr (s', j, created)"
  shows "queue_ok s'"
  using assms(3)
proof (cases rule: enqueue_tx_cases)
  case (added vals t)
  have ok: "ranks_ok (q_jobs s)" using assms(1) by (auto simp: queue_ok_def)
  note I = insertion_split [OF added(2) ok assms(2)]
  have v: "vals ! 0 \<in> set vals" using I(1) by (auto intro: vals_head)
  have "ranks_ok (q_jobs s')" unfolding added(7)
    by (rule ranks_ok_insert) (use I(1) I(2) [OF v] added(3) in auto)
  with added(4) show ?thesis by (intro added(10) queue_ok_jobs [OF assms(1)])
qed (use assms(1) in simp)

lemma EnqueuePriority_ok:
  assumes "queue_ok s" and "small_queue (q_jobs s) m" and "EnqueuePriority now s sid c r k u p = Inr (s', j, created)"
  shows "queue_ok s'"
  using assms(3) Raise_ok [OF assms(1,2)] enqueue_tx_ok [OF assms(1,2)]
  by (auto simp: EnqueuePriority_def split: option.splits sum.splits)


section \<open>Bulk processing jobs\<close>

lemma insert_jobs_spec:
  assumes "insert_jobs js t = (t', n)" and "ranks_ok t" and "one_active t" and "distinct (map j_rank js)"
    and "\<And>j. j \<in> set js \<Longrightarrow> active j \<and> - rankLimit < j_rank j \<and> j_rank j < rankLimit \<and> j_rank j \<notin> j_rank ` set (rows t)"
  shows "ranks_ok t' \<and> one_active t' \<and> n \<le> length js
    \<and> (\<exists>new. rows t' = rows t @ new \<and> length new = n \<and> (\<forall>k \<in> set new. \<exists>j \<in> set js. \<exists>i. k = j\<lparr>j_id := i\<rparr>))
    \<and> (\<forall>j \<in> set js. active_job (j_chapter_id j) t' \<noteq> None)"
  using assms
proof (induction js t arbitrary: t' n rule: insert_jobs.induct)
  case (1 t)
  then show ?case by simp
next
  case (2 j js t)
  let ?t = "insert_job j t"
  have j: "active j" "- rankLimit < j_rank j \<and> j_rank j < rankLimit" "j_rank j \<notin> j_rank ` set (rows t)"
    using "2.prems"(5) [of j] by auto
  show ?case
  proof (cases "one_active ?t")
    case True
    obtain n1 where n1: "insert_jobs js ?t = (t', n1)" "n = Suc n1"
      using "2.prems"(1) True by (auto simp: Let_def split: prod.splits)
    have rt: "rows ?t = rows t @ [j\<lparr>j_id := seq t + 1\<rparr>]" by (simp add: tinsert_def)
    have "ranks_ok ?t" by (rule ranks_ok_insert) (use "2.prems"(2) j in auto)
    then have IH: "ranks_ok t' \<and> one_active t' \<and> n1 \<le> length js
        \<and> (\<exists>new. rows t' = rows ?t @ new \<and> length new = n1 \<and> (\<forall>k \<in> set new. \<exists>j \<in> set js. \<exists>i. k = j\<lparr>j_id := i\<rparr>))
        \<and> (\<forall>j \<in> set js. active_job (j_chapter_id j) t' \<noteq> None)"
      by (rule "2.IH"(1) [OF refl True n1(1) _ True]) (use "2.prems"(4,5) in \<open>auto simp: rt image_iff\<close>)
    then obtain new where new: "rows t' = rows t @ j\<lparr>j_id := seq t + 1\<rparr> # new" "length new = n1"
      "\<forall>k \<in> set new. \<exists>j \<in> set js. \<exists>i. k = j\<lparr>j_id := i\<rparr>" by (auto simp: rt)
    have "active_job (j_chapter_id j) t' \<noteq> None" using j(1) by (auto simp: active_job_None new(1))
    moreover have "\<exists>new. rows t' = rows t @ new \<and> length new = n \<and> (\<forall>k \<in> set new. \<exists>x \<in> set (j # js). \<exists>i. k = x\<lparr>j_id := i\<rparr>)"
      using new n1(2) by (intro exI [of _ "j\<lparr>j_id := seq t + 1\<rparr> # new"]) auto
    ultimately show ?thesis using IH n1(2) by auto
  next
    case False
    have i: "insert_jobs js t = (t', n)" using "2.prems"(1) False by (simp add: Let_def)
    have IH: "ranks_ok t' \<and> one_active t' \<and> n \<le> length js
        \<and> (\<exists>new. rows t' = rows t @ new \<and> length new = n \<and> (\<forall>k \<in> set new. \<exists>j \<in> set js. \<exists>i. k = j\<lparr>j_id := i\<rparr>))
        \<and> (\<forall>j \<in> set js. active_job (j_chapter_id j) t' \<noteq> None)"
      by (rule "2.IH"(2) [OF refl False i "2.prems"(2,3)]) (use "2.prems"(4,5) in auto)
    have "active_job (j_chapter_id j) t \<noteq> None"
      using False "2.prems"(3) by (auto simp: one_active_insert active_job_None)
    then have "active_job (j_chapter_id j) t' \<noteq> None" using IH by (auto simp: active_job_None)
    with IH show ?thesis by auto
  qed
qed

lemma reprocess_batch_spec:
  assumes ok: "queue_ok s" and sm: "small_queue (q_jobs s) m"
    and b: "reprocess_batch now files p s = Inr (s', n)"
  shows "queue_ok s' \<and> n \<le> length files \<and> q_chapters s' = q_chapters s \<and>
    (\<exists>f new. rows (q_jobs s') = map (\<lambda>j. j\<lparr>j_rank := f j\<rparr>) (rows (q_jobs s)) @ new \<and> length new = n
       \<and> (\<forall>k \<in> set new. j_status k = JobQueued \<and> j_kind k = JobKindReprocess \<and> j_priority k = p)) \<and>
    (\<forall>f \<in> set files. active_job (f_chapter_id f) (q_jobs s') \<noteq> None)"
proof -
  let ?jobs = "map (\<lambda>f. new_job now (f_series_id f) (f_chapter_id f) (f_release_id f) JobKindReprocess True p) files"
  from b obtain vals t t' where i: "insertionRanks (q_jobs s) p (length files) = Inr (vals, t)"
    and ij: "insert_jobs (map (\<lambda>(j, v). j\<lparr>j_rank := v\<rparr>) (zip ?jobs vals)) t = (t', n)"
    and s': "s' = bumpOrder (s\<lparr>q_jobs := t'\<rparr>)"
    by (auto simp: reprocess_batch_def Let_def split: sum.splits prod.splits)
  have q: "ranks_ok (q_jobs s)" "one_active (q_jobs s)" using ok by (auto simp: queue_ok_def)
  note I = insertion_split [OF i q(1) sm]
  let ?js = "map (\<lambda>(j, v). j\<lparr>j_rank := v\<rparr>) (zip ?jobs vals)"
  have len: "length vals = length files" using I(1) by simp
  have rk: "map j_rank ?js = vals" using len by (auto intro!: nth_equalityI)
  have act: "j \<in> set ?js \<Longrightarrow> active j \<and> j_status j = JobQueued \<and> j_kind j = JobKindReprocess \<and> j_priority j = p" for j
    by (auto simp: activeStatuses_def new_job_def dest!: set_zip_leftD)
  have chs: "map j_chapter_id ?js = map f_chapter_id files"
    using len by (auto intro!: nth_equalityI simp: new_job_def)
  have "distinct vals" using I(1) by (simp add: strict_sorted_iff)
  then have d: "distinct (map j_rank ?js)" by (simp only: rk)
  have "one_active t" using I(1) q(2) one_active_same_jobs by blast
  moreover have "active j \<and> - rankLimit < j_rank j \<and> j_rank j < rankLimit \<and> j_rank j \<notin> j_rank ` set (rows t)"
    if j: "j \<in> set ?js" for j
  proof -
    have "j_rank j \<in> set (map j_rank ?js)" unfolding set_map [of j_rank] by (rule imageI [OF j])
    then have "j_rank j \<in> set vals" by (simp only: rk)
    from I(2) [OF this] act [OF j] show ?thesis by (simp add: activeStatuses_def)
  qed
  ultimately have S: "ranks_ok t' \<and> one_active t' \<and> n \<le> length ?js
    \<and> (\<exists>new. rows t' = rows t @ new \<and> length new = n \<and> (\<forall>k \<in> set new. \<exists>j \<in> set ?js. \<exists>i. k = j\<lparr>j_id := i\<rparr>))
    \<and> (\<forall>j \<in> set ?js. active_job (j_chapter_id j) t' \<noteq> None)"
    using I(1) by (intro insert_jobs_spec [OF ij _ _ d]) auto
  then obtain new where new: "rows t' = rows t @ new" "length new = n"
    "\<forall>k \<in> set new. \<exists>j \<in> set ?js. \<exists>i. k = j\<lparr>j_id := i\<rparr>" by blast
  have "\<forall>k \<in> set new. j_status k = JobQueued \<and> j_kind k = JobKindReprocess \<and> j_priority k = p"
  proof
    fix k assume "k \<in> set new"
    with new(3) obtain j i where "j \<in> set ?js" "k = j\<lparr>j_id := i\<rparr>" by blast
    with act [of j] show "j_status k = JobQueued \<and> j_kind k = JobKindReprocess \<and> j_priority k = p" by simp
  qed
  moreover from I(1) obtain f where "rows t = map (\<lambda>j. j\<lparr>j_rank := f j\<rparr>) (rows (q_jobs s))"
    by (auto simp: same_jobs_def)
  moreover have "\<forall>f \<in> set files. active_job (f_chapter_id f) t' \<noteq> None"
  proof
    fix f assume "f \<in> set files"
    then have "f_chapter_id f \<in> set (map j_chapter_id ?js)" by (simp only: chs) simp
    then obtain j where j: "j \<in> set ?js" and c: "f_chapter_id f = j_chapter_id j" unfolding set_map [of j_chapter_id] by blast
    from S have "\<forall>j \<in> set ?js. active_job (j_chapter_id j) t' \<noteq> None" by (elim conjE)
    from bspec [OF this j] show "active_job (f_chapter_id f) t' \<noteq> None" by (simp only: c not_False_eq_True)
  qed
  moreover have "queue_ok s'" unfolding s' using S by (simp add: queue_ok_jobs [OF ok])
  moreover have "length ?js = length files" using len by simp
  ultimately show ?thesis using S new(1,2) unfolding s' by auto
qed


text \<open>Batches of at most \<open>batchSize\<close> always find their ranks.\<close>

lemma reprocess_batch_total:
  assumes "queue_ok s" and "small_queue (q_jobs s) (length files + 1)" and "length files \<le> batchSize"
  shows "\<exists>s' n. reprocess_batch now files p s = Inr (s', n)"
proof -
  have ok: "ranks_ok (q_jobs s)" and wf: "twf j_id (q_jobs s)" using assms(1) by (auto simp: queue_ok_def ranks_ok_def)
  have n: "length (rows (q_jobs s)) + length files + 1 < 2 ^ 32" "int (length files) < rankStep"
    using assms(2,3) by (auto simp: small_queue_def rankStep_def batchSize_def)
  have "\<exists>vals t. insertionRanks (q_jobs s) p (length files) = Inr (vals, t)"
  proof (cases "first_below p (q_jobs s)")
    case None
    then show ?thesis using ranks_total [OF wf n, of Bottom 0] by (simp add: insertionRanks_alt [OF ok])
  next
    case (Some a)
    then have "tget j_id (j_id a) (q_jobs s) \<noteq> None" by (auto simp: tget_None dest: first_below_Some)
    with Some show ?thesis using ranks_total [OF wf n, of Before "j_id a"] by (simp add: insertionRanks_alt [OF ok])
  qed
  then obtain vals t where i: "insertionRanks (q_jobs s) p (length files) = Inr (vals, t)" by blast
  let ?js = "map (\<lambda>(j, v). j\<lparr>j_rank := v\<rparr>) (zip (map (\<lambda>f. new_job now (f_series_id f) (f_chapter_id f)
      (f_release_id f) JobKindReprocess True p) files) vals)"
  obtain t' k where "insert_jobs ?js t = (t', k)" by fastforce
  with i show ?thesis by (simp add: reprocess_batch_def Let_def)
qed

lemma reprocess_batches_spec:
  assumes "queue_ok s" and "small_queue (q_jobs s) (length files + 1)"
    and "reprocess_batches now files p s k = (s', n, e)"
  shows "queue_ok s' \<and> e = None \<and> length (rows (q_jobs s')) + k = length (rows (q_jobs s)) + n \<and>
    q_chapters s' = q_chapters s \<and>
    (\<forall>f \<in> set files. active_job (f_chapter_id f) (q_jobs s') \<noteq> None) \<and>
    (\<forall>j \<in> set (rows (q_jobs s)). \<exists>v. j\<lparr>j_rank := v\<rparr> \<in> set (rows (q_jobs s')))"
  using assms
proof (induction now files p s k rule: reprocess_batches.induct)
  case (1 now files p s k)
  show ?case
  proof (cases "files = []")
    case True
    with 1(2,4) show ?thesis
      by (auto simp: reprocess_batches.simps [of now "[]"]) (metis download_job.surjective download_job.update_convs(7))
  next
    case False
    let ?fs = "take batchSize files"
    have sm: "small_queue (q_jobs s) (length ?fs + 1)" using 1(3) by (simp add: small_queue_def)
    obtain s1 a where b: "reprocess_batch now ?fs p s = Inr (s1, a)"
      using reprocess_batch_total [OF 1(2) sm] by fastforce
    note B = reprocess_batch_spec [OF 1(2) sm b]
    have rec: "reprocess_batches now (drop batchSize files) p s1 (k + a) = (s', n, e)"
      using 1(4) False b by (simp add: reprocess_batches.simps [of now files])
    from B obtain f new where rw: "rows (q_jobs s1) = map (\<lambda>j. j\<lparr>j_rank := f j\<rparr>) (rows (q_jobs s)) @ new" "length new = a"
      by blast
    have "small_queue (q_jobs s1) (length (drop batchSize files) + 1)"
      using 1(3) B rw by (auto simp: small_queue_def)
    with B have IH: "queue_ok s' \<and> e = None \<and> length (rows (q_jobs s')) + (k + a) = length (rows (q_jobs s1)) + n \<and>
      q_chapters s' = q_chapters s1 \<and>
      (\<forall>f \<in> set (drop batchSize files). active_job (f_chapter_id f) (q_jobs s') \<noteq> None) \<and>
      (\<forall>j \<in> set (rows (q_jobs s1)). \<exists>v. j\<lparr>j_rank := v\<rparr> \<in> set (rows (q_jobs s')))"
      by (intro 1(1) [OF False b refl _ _ rec]) auto
    have keep: "\<exists>v. j\<lparr>j_rank := v\<rparr> \<in> set (rows (q_jobs s'))" if "j \<in> set (rows (q_jobs s))" for j
    proof -
      have "j\<lparr>j_rank := f j\<rparr> \<in> set (rows (q_jobs s1))" using that rw(1) by auto
      then obtain v where "j\<lparr>j_rank := f j\<rparr>\<lparr>j_rank := v\<rparr> \<in> set (rows (q_jobs s'))" using IH by blast
      then show ?thesis by auto
    qed
    have held: "active_job c (q_jobs s') \<noteq> None" if "active_job c (q_jobs s1) \<noteq> None" for c
    proof -
      from that obtain j where j: "j \<in> set (rows (q_jobs s1))" "active j" "j_chapter_id j = c"
        by (auto simp: active_job_None)
      then obtain v where "j\<lparr>j_rank := v\<rparr> \<in> set (rows (q_jobs s'))" using IH by blast
      with j(2,3) show ?thesis unfolding active_job_None by force
    qed
    have "set files = set ?fs \<union> set (drop batchSize files)" by (metis append_take_drop_id set_append)
    with IH B held keep rw show ?thesis by auto
  qed
qed

lemma ex_queue_inv: "queue_ok ex_queue" "small_queue (q_jobs ex_queue) 1" "small_queue (q_jobs ex_queue) 2"
  using ex_queue_ok(1)
  by (auto simp: queue_ok_def one_active_def twf_def small_queue_def ex_queue_def samples activeStatuses_def)

lemma result_flag: "(case x of Inl _ \<Rightarrow> False | Inr y \<Rightarrow> snd (snd y) = b) \<Longrightarrow> \<exists>s j. x = Inr (s, j, b)"
  by (cases x) auto

section \<open>Properties\<close>

text \<open>
  C4: Adding a job: when \<open>EnqueuePriority\<close> creates one, the queue keeps its invariant, the new job
  is the chapter's only unfinished one, it stands directly before the first pending job of lower
  priority (at the end when there is none), no other job changes its place, and a fresh download
  marks its chapter queued.
\<close>

theorem enqueue_places:
  assumes "queue_ok s" and "small_queue (q_jobs s) 1"
    and "EnqueuePriority now s sid c r k u p = Inr (s', j, True)"
  shows "queue_ok s' \<and> active_job c (q_jobs s') = Some j
    \<and> order (q_jobs s') = enqueue_spec p (q_jobs s) (order (q_jobs s)) [j_id j]
    \<and> j_id j \<notin> set (order (q_jobs s))
    \<and> j_status j = JobQueued \<and> j_kind j = k \<and> j_release_id j = r \<and> j_priority j = p
    \<and> (k = JobKindDownload \<and> \<not> u \<longrightarrow> (\<forall>x \<in> set (rows (q_chapters s')). c_id x = c \<longrightarrow> c_state x = ChapterQueued))"
proof -
  have ok': "queue_ok s'" by (rule EnqueuePriority_ok [OF assms])
  have tx: "enqueue_tx now s sid c r k u p = Inr (s', j, True)"
    using assms(3) by (auto simp: EnqueuePriority_def split: option.splits sum.splits)
  from tx show ?thesis
  proof (cases rule: enqueue_tx_cases)
    case (added vals t)
    have ok: "ranks_ok (q_jobs s)" using assms(1) by (simp add: queue_ok_def)
    note I = insertion_split [OF added(2) ok assms(2)]
    have v: "vals ! 0 \<in> set vals" using I(1) by (auto intro: vals_head)
    have rj: "j_rank j = vals ! 0" and cj: "j_chapter_id j = c" "active j" and ij: "j_id j = seq t + 1"
      using added(3) by (auto simp: new_job_def activeStatuses_def)
    have "order (q_jobs s') = enqueue_spec p (q_jobs s) (order (q_jobs s)) [j_id j]"
      using split_order [of t "vals ! 0" "q_jobs s'" j "{}"] I(1) I(2) [OF v] I(3) [OF v] ok' rj added(5)
      by (auto simp: queue_ok_def ranks_ok_def enqueue_spec_def)
    moreover have "active_job c (q_jobs s') = Some j"
    proof -
      have j': "j \<in> set (rows (q_jobs s'))" using added(5) by simp
      then obtain w where w: "active_job c (q_jobs s') = Some w"
        using active_job_None [of c "q_jobs s'"] cj by auto
      have "w = j" by (rule one_active_unique [OF added(4) _ j']) (use active_job_Some [OF w] cj in simp_all)
      with w show ?thesis by simp
    qed
    moreover have "j_id j \<notin> set (order (q_jobs s))"
    proof -
      have "twf j_id t" using I(1) by (simp add: ranks_ok_def)
      then have "j_id j \<notin> set (order t)" unfolding ij by (force simp: order_queue_list twf_def)
      with I(1) show ?thesis by simp
    qed
    moreover have "k = JobKindDownload \<and> \<not> u \<longrightarrow> (\<forall>x \<in> set (rows (q_chapters s')). c_id x = c \<longrightarrow> c_state x = ChapterQueued)"
    proof (intro impI ballI)
      fix x assume K: "k = JobKindDownload \<and> \<not> u" and x: "x \<in> set (rows (q_chapters s'))" "c_id x = c"
      from x(1) obtain y where y: "x = (if c_id y = c then y\<lparr>c_state := ChapterQueued, c_updated_at := now\<rparr> else y)"
        unfolding added(8) [OF K] by (rule in_upd_whereE)
      then show "c_state x = ChapterQueued" using x(2) by (cases "c_id y = c") simp_all
    qed
    moreover have "j_status j = JobQueued \<and> j_kind j = k \<and> j_release_id j = r \<and> j_priority j = p"
      by (simp add: added(3) new_job_def)
    ultimately show ?thesis using ok' by (intro conjI; simp only: simp_thms)
  qed simp
qed


theorem enqueue_places_witness:
  "\<exists>s' j. EnqueuePriority 9 ex_queue 1 4 None JobKindDownload False 5 = Inr (s', j, True)
     \<and> order (q_jobs s') = [j_id j, 1, 2, 3]"
proof -
  have "case EnqueuePriority 9 ex_queue 1 4 None JobKindDownload False 5 of Inl _ \<Rightarrow> False | Inr y \<Rightarrow> snd (snd y) = True"
    by code_simp
  from result_flag [OF this] obtain s' j where e: "EnqueuePriority 9 ex_queue 1 4 None JobKindDownload False 5 = Inr (s', j, True)"
    by blast
  have "enqueue_spec 5 (q_jobs ex_queue) (order (q_jobs ex_queue)) [x] = [x, 1, 2, 3]" for x
  proof -
    have "place 5 (q_jobs ex_queue) (order (q_jobs ex_queue)) = ([], [1, 2, 3])" by code_simp
    then show ?thesis by (simp add: enqueue_spec_def)
  qed
  with enqueue_places [OF ex_queue_inv(1,2) e] e show ?thesis by auto
qed

lemma upd_one:
  assumes "distinct (map j_id (rows t))" and "x \<in> set (rows t)" and "P x" and "\<And>j. P j \<Longrightarrow> j_id j = j_id x"
  shows "set (rows (upd_where P f t)) = insert (f x) {j \<in> set (rows t). j_id j \<notin> {j_id x}}"
proof -
  let ?O = "{j \<in> set (rows t). j_id j \<notin> {j_id x}}"
  have "j \<in> set (rows t) \<Longrightarrow> j_id j = j_id x \<Longrightarrow> j = x" for j
    using assms(1,2) by (auto simp: distinct_map dest: inj_onD)
  then have R: "set (rows t) = insert x ?O" using assms(2) by auto
  have "(\<lambda>r. if P r then f r else r) ` ?O = (\<lambda>r. r) ` ?O" by (rule image_cong) (use assms(4) in auto)
  then have "(\<lambda>r. if P r then f r else r) ` insert x ?O = insert (f x) ?O" using assms(3) by simp
  then show ?thesis by (simp only: set_upd_where R [symmetric])
qed

lemma place_set: "place p t q = (front, rear) \<Longrightarrow> set q = set front \<union> set rear"
  by (auto simp: place_def simp flip: set_append split: option.splits)

lemma raise_spec_set:
  assumes "i \<in> set q" shows "set (raise_spec p t q i) = set q"
proof -
  obtain front rear where p: "place p t q = (front, rear)" by fastforce
  show ?thesis using place_set [OF p] assms by (auto simp: raise_spec_def p)
qed

lemma Raise_order:
  assumes "queue_ok s" and "small_queue (q_jobs s) m" and "Raise now s c p = Inr s'"
    and "0 < p" and "job \<in> set (rows (q_jobs s))" and "j_chapter_id job = c" and "j_status job = JobQueued" and "j_priority job < p"
  shows "order (q_jobs s') = raise_spec p (q_jobs s) (order (q_jobs s)) (j_id job) \<and>
    (\<exists>j \<in> set (rows (q_jobs s')). j_id j = j_id job \<and> j_priority j = p \<and> j_status j = JobQueued \<and> j_chapter_id j = c)"
proof -
  have ok: "ranks_ok (q_jobs s)" "one_active (q_jobs s)" using assms(1) by (auto simp: queue_ok_def)
  from assms(3) show ?thesis
  proof (cases rule: Raise_cases)
    case same
    with assms(4-8) have False by force
    then show ?thesis ..
  next
    case (raised job' vals t v P)
    have "job' = job"
      by (rule one_active_unique [OF ok(2) raised(2) assms(5)]) (use raised(3,4) assms(6,7) in \<open>simp_all add: activeStatuses_def\<close>)
    note I = insertion_split [OF raised(6) ok(1) assms(2)]
    have v: "v \<in> set vals" using I(1) raised(7) by (metis One_nat_def lessI nth_mem)
    have wf: "twf j_id t" "distinct (map j_id (rows t))" using I(1) by (auto simp: ranks_ok_def twf_def)
    from I(1) obtain w where x: "job\<lparr>j_rank := w\<rparr> \<in> set (rows t)"
      using assms(5) same_jobs_member by metis
    let ?f = "\<lambda>j. j\<lparr>j_priority := p, j_rank := v, j_updated_at := now\<rparr>"
    have S: "set (rows (q_jobs s')) = insert (?f (job\<lparr>j_rank := w\<rparr>)) {j \<in> set (rows t). j_id j \<notin> {j_id job}}"
    proof -
      have Px: "P (job\<lparr>j_rank := w\<rparr>)" by (simp add: raised(8) \<open>job' = job\<close> assms(7))
      have Pi: "\<And>j. P j \<Longrightarrow> j_id j = j_id (job\<lparr>j_rank := w\<rparr>)" by (simp add: raised(8) \<open>job' = job\<close>)
      show ?thesis unfolding raised(9) using upd_one [where P = P and f = ?f, OF wf(2) x Px Pi] by simp
    qed
    have "twf j_id (q_jobs s')" unfolding raised(9) by (rule jobs_table.wf_update [OF _ wf(1)]) simp
    from split_order [OF _ _ this S, of v] I(1) I(2) [OF v] I(3) [OF v]
    have "order (q_jobs s') = raise_spec p (q_jobs s) (order (q_jobs s)) (j_id job)" by (simp add: raise_spec_def)
    moreover have "?f (job\<lparr>j_rank := w\<rparr>) \<in> set (rows (q_jobs s'))" unfolding S by simp
    ultimately show ?thesis using assms(6,7) by (intro conjI bexI [of _ "?f (job\<lparr>j_rank := w\<rparr>)"]) simp_all
  qed
qed


text \<open>
  Adding a job for a chapter that already has an unfinished one adds nothing: the existing job
  comes back, the set of job ids is unchanged, and all that happens is that a job still waiting
  with a lower priority takes the new one and moves directly before the first pending job of
  lower priority.
\<close>

theorem enqueue_existing:
  assumes "queue_ok s" and "small_queue (q_jobs s) 1" and "active_job c (q_jobs s) = Some e"
    and "EnqueuePriority now s sid c r k u p = Inr (s', j, created)"
  shows "\<not> created \<and> j_id j = j_id e \<and> queue_ok s' \<and> set (order (q_jobs s')) = set (order (q_jobs s))
    \<and> (if j_status e = JobQueued \<and> 0 < p \<and> j_priority e < p
        then j_priority j = p \<and> order (q_jobs s') = raise_spec p (q_jobs s) (order (q_jobs s)) (j_id e)
        else s' = s \<and> j = e)"
proof -
  have ok: "ranks_ok (q_jobs s)" "one_active (q_jobs s)" "twf j_id (q_jobs s)"
    using assms(1) by (auto simp: queue_ok_def ranks_ok_def)
  note e = active_job_Some [OF assms(3)]
  obtain R: "Raise now s c p = Inr s'" and g: "tget j_id (j_id e) (q_jobs s') = Some j" and cr: "\<not> created"
    using assms(3,4) by (auto simp: EnqueuePriority_def split: option.splits sum.splits)
  have ok': "queue_ok s'" by (rule Raise_ok [OF assms(1,2) R])
  note gj = tget_Some [OF g]
  show ?thesis
  proof (cases "j_status e = JobQueued \<and> 0 < p \<and> j_priority e < p")
    case True
    then have "0 < p" "j_status e = JobQueued" "j_priority e < p" by auto
    from Raise_order [OF assms(1,2) R this(1) _ _ this(2,3)] e
    obtain j' where O: "order (q_jobs s') = raise_spec p (q_jobs s) (order (q_jobs s)) (j_id e)"
      and j': "j' \<in> set (rows (q_jobs s'))" "j_id j' = j_id e" "j_priority j' = p" by blast
    have "j' = j"
      by (rule jobs_table.unique [OF _ j'(1)]) (use ok' gj j'(2) in \<open>auto simp: queue_ok_def ranks_ok_def\<close>)
    moreover have "set (raise_spec p (q_jobs s) (order (q_jobs s)) (j_id e)) = set (order (q_jobs s))"
    proof -
      have "j_id e \<in> set (order (q_jobs s))" using e by (simp add: order_queue_list)
      then show ?thesis by (rule raise_spec_set)
    qed
    ultimately show ?thesis using True O j'(3) gj cr ok' by simp
  next
    case False
    have "s' = s" using R
    proof (cases rule: Raise_cases)
      case (raised job vals t v P)
      have "job = e" by (rule one_active_unique [OF ok(2) raised(2)]) (use e raised(3,4) in \<open>simp_all add: activeStatuses_def\<close>)
      with False raised(1,4,5) show ?thesis by simp
    qed
    moreover from this have "j = e" using jobs_table.unique [OF ok(3), of j e] gj e by simp
    ultimately show ?thesis using False cr assms(1) by simp
  qed
qed

theorem enqueue_existing_witness:
  "\<exists>s' j. EnqueuePriority 9 ex_queue 1 1 None JobKindDownload False 5 = Inr (s', j, False)
     \<and> j_id j = 3 \<and> order (q_jobs s') = [3, 1, 2]"
proof -
  have "case EnqueuePriority 9 ex_queue 1 1 None JobKindDownload False 5 of Inl _ \<Rightarrow> False | Inr y \<Rightarrow> snd (snd y) = False"
    by code_simp
  from result_flag [OF this] obtain s' j where e: "EnqueuePriority 9 ex_queue 1 1 None JobKindDownload False 5 = Inr (s', j, False)"
    by blast
  let ?e = "sample_job\<lparr>j_id := 3, j_rank := 21, j_chapter_id := 1\<rparr>"
  have a: "active_job 1 (q_jobs ex_queue) = Some ?e"
    by (simp add: active_job_def ex_queue_def samples activeStatuses_def)
  have "raise_spec 5 (q_jobs ex_queue) (order (q_jobs ex_queue)) 3 = [3, 1, 2]" by code_simp
  with enqueue_existing [OF ex_queue_inv(1,2) a e] e show ?thesis by (simp add: samples)
qed

text \<open>
  C10: \<open>EnqueueReprocessFiles\<close> always goes through, whatever the number of batches: every file's chapter
  has an unfinished job afterwards (its own or one that was there), the jobs that were there keep
  everything but their rank, and the count is the number of jobs added.
\<close>

theorem reprocess_covers:
  assumes "queue_ok s" and "small_queue (q_jobs s) (length files + 1)"
    and "EnqueueReprocessFiles now s files p = (s', n, e)"
  shows "e = None \<and> queue_ok s' \<and> length (rows (q_jobs s')) = length (rows (q_jobs s)) + n
    \<and> (\<forall>f \<in> set files. active_job (f_chapter_id f) (q_jobs s') \<noteq> None)
    \<and> (\<forall>j \<in> set (rows (q_jobs s)). \<exists>v. j\<lparr>j_rank := v\<rparr> \<in> set (rows (q_jobs s')))
    \<and> q_chapters s' = q_chapters s"
proof -
  obtain s1 where b: "reprocess_batches now files p s 0 = (s1, n, e)"
    and s': "s' = (if e = None \<and> n > 0 then signal (changed ''queue'' ''sync'' 0 s1) else s1)"
    using assms(3) by (auto simp: EnqueueReprocessFiles_def Let_def split: prod.splits)
  from reprocess_batches_spec [OF assms(1,2) b] show ?thesis by (simp add: s')
qed

theorem reprocess_covers_witness:
  "\<exists>s' n. EnqueueReprocessFiles 9 ex_queue [sample_file\<lparr>f_chapter_id := 7\<rparr>] 0 = (s', n, None)
     \<and> active_job 7 (q_jobs s') \<noteq> None"
proof -
  obtain s' n e where r: "EnqueueReprocessFiles 9 ex_queue [sample_file\<lparr>f_chapter_id := 7\<rparr>] 0 = (s', n, e)"
    using prod_cases3 by blast
  from reprocess_covers [OF ex_queue_inv(1) _ r] r show ?thesis by (simp add: ex_queue_inv(3) numeral_2_eq_2 [symmetric])
qed

interpretation listing: weak_order list_less
  by (rule weak_order_keyI [where key = "\<lambda>j. (status_order (j_status j), j_rank j, j_id j)"])
     (auto simp: list_less_def job_less_def)

definition hits :: "time \<Rightarrow> list_tables \<Rightarrow> queue_state \<Rightarrow> list_filter \<Rightarrow> download_job list" where
  "hits now lt s f = stable_sort list_less (filter (base now lt s f True) (rows (q_jobs s)))"

lemma concat_pages:
  assumes "0 < k"
  shows "concat (map (\<lambda>i. take k (drop (i * k) xs)) [0..<n]) = take (n * k) xs"
proof (induction n)
  case (Suc n)
  have "concat (map (\<lambda>i. take k (drop (i * k) xs)) [0..<Suc n]) = take (n * k) xs @ take k (drop (n * k) xs)"
    using Suc by simp
  also have "\<dots> = take (n * k + k) xs" by (rule take_add [symmetric])
  finally show ?case by (simp add: add.commute)
qed simp

text \<open>
  C10: Paging is exact: reading pages 1 to \<open>n\<close> of the queue at one revision, with any page size from 1
  to 500 and enough pages for the reported total, shows every matching job exactly once, running
  jobs first and then in rank order.
\<close>

theorem pages_exact:
  assumes "1 \<le> k" and "k \<le> 500" and "length (hits now lt s f) \<le> n * k"
  shows "concat (map (\<lambda>i. case ListPageAt now lt s f (int i + 1) (int k) (Some (q_revision s)) of
       Inl _ \<Rightarrow> [] | Inr pg \<Rightarrow> qp_items pg) [0..<n]) = map (view lt s) (hits now lt s f)
    \<and> mset (hits now lt s f) = mset (filter (base now lt s f True) (rows (q_jobs s)))
    \<and> sorted_wrt (\<lambda>a b. \<not> list_less b a) (hits now lt s f)"
proof -
  have pos: "0 < k" using assms(1) by simp
  have pg: "(case ListPageAt now lt s f (int i + 1) (int k) (Some (q_revision s)) of Inl _ \<Rightarrow> [] | Inr pg \<Rightarrow> qp_items pg) =
      take k (drop (i * k) (map (view lt s) (hits now lt s f)))" for i
    using assms(1,2) by (simp add: ListPageAt_def Let_def hits_def nat_mult_distrib take_map drop_map)
  have "concat (map (\<lambda>i. case ListPageAt now lt s f (int i + 1) (int k) (Some (q_revision s)) of
       Inl _ \<Rightarrow> [] | Inr pg \<Rightarrow> qp_items pg) [0..<n]) = map (view lt s) (hits now lt s f)"
    unfolding pg concat_pages [OF pos] using assms(3) by simp
  then show ?thesis by (simp add: hits_def listing.sort_sorted)
qed

definition ex_lists :: list_tables where
  "ex_lists = \<lparr>lt_series = \<lparr>rows = [sample_series], seq = 1\<rparr>, lt_sources = \<lparr>rows = [sample_source], seq = 1\<rparr>\<rparr>"

definition ex_filter :: list_filter where
  "ex_filter = \<lparr>lf_statuses = [], lf_kind = None, lf_series_id = 0, lf_query = '' ers'', lf_include_done = False, lf_ids = []\<rparr>"

theorem pages_exact_witness:
  "map (\<lambda>v. j_id (jv_job v)) (concat (map (\<lambda>i. case ListPageAt 9 ex_lists ex_queue ex_filter (int i + 1) (int 2) (Some (q_revision ex_queue)) of
     Inl _ \<Rightarrow> [] | Inr pg \<Rightarrow> qp_items pg) [0..<2])) = [1, 2, 3]"
proof -
  have n: "length (hits 9 ex_lists ex_queue ex_filter) \<le> 2 * 2" by code_simp
  have "map j_id (hits 9 ex_lists ex_queue ex_filter) = [1, 2, 3]" by code_simp
  then have "map (\<lambda>v. j_id (jv_job v)) (map (view ex_lists ex_queue) (hits 9 ex_lists ex_queue ex_filter)) = [1, 2, 3]"
    by (simp add: view_def Let_def comp_def)
  moreover have "(1::nat) \<le> 2" "(2::nat) \<le> 500" by simp_all
  ultimately show ?thesis using pages_exact [OF _ _ n] by presburger
qed

end
