(* ===== verification/Searcher.thy ===== *)
theory Searcher
  imports Decision SourcePriority DownloadQueue
begin

text \<open>
  \<open>internal/downloads/search.go\<close>: what the decision engine needs for one series is loaded from
  the database (\<open>load\<close>), each chapter is decided, and approved releases are queued
  (\<open>EvaluateAt\<close>); \<open>NextCandidate\<close> picks what to try after a failure.  The tables the search
  only reads are the record \<open>catalog_db\<close>; the queue, releases and blocklist are the queue's
  state.
\<close>

section \<open>Loading\<close>

record catalog_db =
  db_series :: "series table"
  db_profiles :: "profile table"
  db_sources :: "series_source table"
  db_files :: "chapter_file table"
  db_priority_lists :: "source_priority_list list"
  db_catalog_prefs :: "catalog_pref list"

record series_state =
  st_series :: series
  st_profile :: profile
  st_chapters :: "chapter_row list"
  st_releases :: "int64 \<Rightarrow> candidate list"
  st_by_release :: "int64 \<Rightarrow> candidate option"
  st_files :: "int64 \<Rightarrow> chapter_file option"
  st_queued :: "int64 set"
  st_blocked :: "string set"

definition blockKey :: "int64 \<Rightarrow> string \<Rightarrow> string" where
  "blockKey ss url = format_int ss @ ''|'' @ url"

text \<open>The candidates of the series: its placed releases with the source they come from.\<close>

definition candidates :: "series_source list \<Rightarrow> chapter_release list \<Rightarrow> candidate list" where
  "candidates sources rels =
     List.map_filter (\<lambda>r. map_option (\<lambda>ss. \<lparr>cand_release = r, cand_source = ss\<rparr>)
       (find (\<lambda>ss. ss_id ss = r_series_source_id r) sources)) rels"

definition load :: "catalog_db \<Rightarrow> queue_state \<Rightarrow> int64 \<Rightarrow> int64 list \<Rightarrow> series_state option" where
  "load db s seriesID chapterIDs =
     (case tget s_id seriesID (db_series db) of
        None \<Rightarrow> None
      | Some ser \<Rightarrow>
          (case tget pr_id (s_profile_id ser) (db_profiles db) of
             None \<Rightarrow> None
           | Some prof \<Rightarrow>
               (let chapters = stable_sort (\<lambda>a b. c_number_sort a < c_number_sort b)
                      (filter (\<lambda>c. c_series_id c = seriesID \<and> (chapterIDs \<noteq> [] \<longrightarrow> c_id c \<in> set chapterIDs)) (rows (q_chapters s)));
                    sources = Apply (db_priority_lists db) (db_catalog_prefs db) ser
                      (filter (\<lambda>x. ss_series_id x = seriesID) (rows (db_sources db)));
                    rels = filter (\<lambda>r. r_series_id r = seriesID \<and> r_chapter_id r \<noteq> None) (rows (q_releases s));
                    cands = candidates sources rels;
                    files = filter (\<lambda>f. f_series_id f = seriesID) (rows (db_files db));
                    bl = filter (\<lambda>b. b_series_id b = seriesID) (rows (q_blocklist s))
                in Some \<lparr>st_series = ser, st_profile = prof, st_chapters = chapters,
                     st_releases = (\<lambda>c. filter (\<lambda>x. r_chapter_id (cand_release x) = Some c) cands),
                     st_by_release = (\<lambda>r. find (\<lambda>x. r_id (cand_release x) = r) (rev cands)),
                     st_files = (\<lambda>c. find (\<lambda>f. f_chapter_id f = c) (rev files)),
                     st_queued = ActiveChapters s seriesID,
                     st_blocked = (\<lambda>b. blockKey (b_series_source_id b) (b_chapter_url b)) ` set bl\<rparr>)))"

definition input :: "time \<Rightarrow> series_state \<Rightarrow> chapter_row \<Rightarrow> bool \<Rightarrow> decide_input" where
  "input now st ch explicit =
     \<lparr>in_series = st_series st, in_profile = st_profile st, in_chapter = ch,
      in_current_file = st_files st (c_id ch),
      in_current_release = (case st_files st (c_id ch) of
         None \<Rightarrow> None
       | Some f \<Rightarrow> (case f_release_id f of None \<Rightarrow> None | Some r \<Rightarrow> st_by_release st r)),
      in_queued = (c_id ch \<in> st_queued st),
      in_blocklisted = Some (\<lambda>ss url. blockKey ss url \<in> st_blocked st),
      in_now = now, in_search = explicit\<rparr>"

section \<open>Searching\<close>

text \<open>The loop over the chapters: the queue, the pattern cache and the count, and the error that ends it.\<close>

definition boolStr :: "bool \<Rightarrow> string" where
  "boolStr b = (if b then ''true'' else ''false'')"

definition evaluate_chapter ::
  "(string \<Rightarrow> matcher option) \<Rightarrow> time \<Rightarrow> series_state \<Rightarrow> int64 \<Rightarrow> bool \<Rightarrow> int \<Rightarrow> chapter_row
     \<Rightarrow> queue_state \<Rightarrow> re_cache \<Rightarrow> nat \<Rightarrow> queue_state \<times> re_cache \<times> nat \<times> queue_error option" where
  "evaluate_chapter compile now st seriesID explicit priority ch s cache grabbed =
     (if \<not> explicit \<and> c_file_id ch = None \<and> c_state ch = ChapterCleaned then (s, cache, grabbed, None)
      else if c_id ch \<in> st_queued st then
        (case Raise now s (c_id ch) priority of
           Inl e \<Rightarrow> (s, cache, grabbed, Some e)
         | Inr s' \<Rightarrow> (s', cache, grabbed, None))
      else
        (case Decide compile now cache (input now st ch explicit) (st_releases st (c_id ch)) of
           (d, cache') \<Rightarrow>
             (case d_approved d of
                None \<Rightarrow> (s, cache', grabbed, None)
              | Some best \<Rightarrow>
                  (case EnqueuePriority now s seriesID (c_id ch) (Some (r_id (cand_release best))) JobKindDownload
                          (d_is_upgrade d) priority of
                     Inl e \<Rightarrow> (s, cache', grabbed, Some e)
                   | Inr (s', job, created) \<Rightarrow>
                       (if created then
                          (Record now seriesID (Some (c_id ch)) HistoryGrabbed (r_name (cand_release best))
                             [(''source'', ss_source_name (cand_source best)), (''scanlator'', r_scanlator (cand_release best)),
                              (''jobId'', format_int (j_id job)), (''upgrade'', boolStr (d_is_upgrade d))] s',
                           cache', grabbed + 1, None)
                        else (s', cache', grabbed, None))))))"

fun evaluate_chapters ::
  "(string \<Rightarrow> matcher option) \<Rightarrow> time \<Rightarrow> series_state \<Rightarrow> int64 \<Rightarrow> bool \<Rightarrow> int \<Rightarrow> chapter_row list
     \<Rightarrow> queue_state \<Rightarrow> re_cache \<Rightarrow> nat \<Rightarrow> queue_state \<times> re_cache \<times> nat \<times> queue_error option" where
  "evaluate_chapters compile now st seriesID explicit priority [] s cache grabbed = (s, cache, grabbed, None)"
| "evaluate_chapters compile now st seriesID explicit priority (ch # chs) s cache grabbed =
     (case evaluate_chapter compile now st seriesID explicit priority ch s cache grabbed of
        (s', cache', grabbed', Some e) \<Rightarrow> (s', cache', grabbed', Some e)
      | (s', cache', grabbed', None) \<Rightarrow>
          evaluate_chapters compile now st seriesID explicit priority chs s' cache' grabbed')"

definition EvaluateAt ::
  "(string \<Rightarrow> matcher option) \<Rightarrow> time \<Rightarrow> catalog_db \<Rightarrow> re_cache \<Rightarrow> queue_state \<Rightarrow> int64 \<Rightarrow> int64 list \<Rightarrow> bool \<Rightarrow> int
     \<Rightarrow> queue_state \<times> re_cache \<times> nat \<times> queue_error option" where
  "EvaluateAt compile now db cache s seriesID chapterIDs explicit priority =
     (case load db s seriesID chapterIDs of
        None \<Rightarrow> (s, cache, 0, Some ErrNoRows)
      | Some st \<Rightarrow> evaluate_chapters compile now st seriesID explicit priority (st_chapters st) s cache 0)"

definition Evaluate ::
  "(string \<Rightarrow> matcher option) \<Rightarrow> time \<Rightarrow> catalog_db \<Rightarrow> re_cache \<Rightarrow> queue_state \<Rightarrow> int64 \<Rightarrow> int64 list \<Rightarrow> bool
     \<Rightarrow> queue_state \<times> re_cache \<times> nat \<times> queue_error option" where
  "Evaluate compile now db cache s seriesID chapterIDs explicit =
     EvaluateAt compile now db cache s seriesID chapterIDs explicit 0"

definition Explain ::
  "(string \<Rightarrow> matcher option) \<Rightarrow> time \<Rightarrow> catalog_db \<Rightarrow> re_cache \<Rightarrow> queue_state \<Rightarrow> int64 \<Rightarrow> int64 \<Rightarrow> decision option" where
  "Explain compile now db cache s seriesID chapterID =
     (case load db s seriesID [chapterID] of
        None \<Rightarrow> None
      | Some st \<Rightarrow>
          (case st_chapters st of
             [] \<Rightarrow> None
           | ch # _ \<Rightarrow> Some (fst (Decide compile now cache (input now st ch False) (st_releases st chapterID)))))"

definition NextCandidate ::
  "(string \<Rightarrow> matcher option) \<Rightarrow> time \<Rightarrow> catalog_db \<Rightarrow> re_cache \<Rightarrow> queue_state \<Rightarrow> int64 \<Rightarrow> int64 \<Rightarrow> (candidate \<times> bool) option" where
  "NextCandidate compile now db cache s seriesID chapterID =
     (case load db s seriesID [chapterID] of
        None \<Rightarrow> None
      | Some st \<Rightarrow>
          (case st_chapters st of
             [] \<Rightarrow> None
           | ch # _ \<Rightarrow>
               (let d = fst (Decide compile now cache ((input now st ch True)\<lparr>in_queued := False\<rparr>) (st_releases st chapterID))
                in map_option (\<lambda>c. (c, d_is_upgrade d)) (d_approved d))))"

definition HasAlternative ::
  "(string \<Rightarrow> matcher option) \<Rightarrow> time \<Rightarrow> catalog_db \<Rightarrow> re_cache \<Rightarrow> queue_state \<Rightarrow> int64 \<Rightarrow> int64 \<Rightarrow> int64 \<Rightarrow> bool" where
  "HasAlternative compile now db cache s seriesID chapterID exclude =
     (case load db s seriesID [chapterID] of
        None \<Rightarrow> False
      | Some st \<Rightarrow>
          (case st_chapters st of
             [] \<Rightarrow> False
           | ch # _ \<Rightarrow>
               (let others = filter (\<lambda>c. r_id (cand_release c) \<noteq> exclude) (st_releases st chapterID);
                    inp = (input now st ch True)\<lparr>in_queued := False, in_current_file := None, in_current_release := None\<rparr>
                in d_approved (fst (Decide compile now cache inp others)) \<noteq> None)))"

section \<open>Candidates\<close>

lemma blockKey_inj: "blockKey a s = blockKey b t \<Longrightarrow> a = b \<and> s = t"
  by (rule format_int_sep [of a "CHR 0x7C" s b t]) (auto simp: blockKey_def digit_def)

lemma candidates_member:
  "c \<in> set (candidates sources rels) \<Longrightarrow>
   cand_release c \<in> set rels \<and> cand_source c \<in> set sources \<and> ss_id (cand_source c) = r_series_source_id (cand_release c)"
  by (induction rels) (auto simp: candidates_def map_filter_simps find_Some_iff split: option.splits)

lemma load_releases:
  assumes "load db s seriesID ids = Some st" and "c \<in> set (st_releases st chapterID)"
  shows "cand_release c \<in> set (rows (q_releases s)) \<and> r_series_id (cand_release c) = seriesID
    \<and> r_chapter_id (cand_release c) = Some chapterID \<and> ss_id (cand_source c) = r_series_source_id (cand_release c)"
  using assms by (auto simp: load_def Let_def split: option.splits dest!: candidates_member)

lemma load_blocked:
  assumes "load db s seriesID ids = Some st"
  shows "blockKey ss url \<in> st_blocked st \<longleftrightarrow>
    (\<exists>b \<in> set (rows (q_blocklist s)). b_series_id b = seriesID \<and> b_series_source_id b = ss \<and> b_chapter_url b = url)"
proof -
  have "st_blocked st = (\<lambda>b. blockKey (b_series_source_id b) (b_chapter_url b)) `
      set (filter (\<lambda>b. b_series_id b = seriesID) (rows (q_blocklist s)))"
    using assms by (auto simp: load_def Let_def split: option.splits)
  then show ?thesis by (auto simp: image_iff dest: blockKey_inj)
qed

text \<open>What can be tried for a chapter: its releases that are not on the series' blocklist.\<close>

definition blocked_release :: "queue_state \<Rightarrow> chapter_release \<Rightarrow> bool" where
  "blocked_release s r \<longleftrightarrow> (\<exists>b \<in> set (rows (q_blocklist s)).
     b_series_id b = r_series_id r \<and> b_series_source_id b = r_series_source_id r \<and> b_chapter_url b = r_chapter_url r)"

definition untried :: "queue_state \<Rightarrow> int64 \<Rightarrow> chapter_release list" where
  "untried s chapterID = filter (\<lambda>r. r_chapter_id r = Some chapterID \<and> \<not> blocked_release s r) (rows (q_releases s))"

lemma next_candidate_untried:
  assumes "cache_ok compile cache" and "NextCandidate compile now db cache s seriesID chapterID = Some (c, u)"
  shows "cand_release c \<in> set (untried s chapterID) \<and> r_series_id (cand_release c) = seriesID"
proof -
  obtain st ch chs where st: "load db s seriesID [chapterID] = Some st" "st_chapters st = ch # chs"
    and ap: "d_approved (fst (Decide compile now cache ((input now st ch True)\<lparr>in_queued := False\<rparr>) (st_releases st chapterID))) = Some c"
    using assms(2) by (auto simp: NextCandidate_def Let_def split: option.splits list.splits)
  let ?inp = "(input now st ch True)\<lparr>in_queued := False\<rparr>"
  have "c \<in> set (st_releases st chapterID) \<and> release_ok ?inp (blocked_of compile ?inp) (now_of now ?inp) c"
    using Decide_approved [OF assms(1) ap] decide_releases_approved by blast
  then have c: "c \<in> set (st_releases st chapterID)" "blockKey (ss_id (cand_source c)) (r_chapter_url (cand_release c)) \<notin> st_blocked st"
    by (auto simp: release_ok_def input_def)
  with load_releases [OF st(1) c(1)] load_blocked [OF st(1)] show ?thesis
    by (auto simp: untried_def blocked_release_def)
qed

section \<open>What a search adds\<close>

text \<open>The rows after an operation that adds at most one job: the old ones, reranked or raised, then the new one.\<close>

definition carries :: "(download_job \<Rightarrow> download_job) \<Rightarrow> bool" where
  "carries f \<longleftrightarrow> (\<forall>j. j_id (f j) = j_id j \<and> j_chapter_id (f j) = j_chapter_id j \<and> j_release_id (f j) = j_release_id j)"

lemma carries_comp: "carries f \<Longrightarrow> carries g \<Longrightarrow> carries (\<lambda>j. g (f j))"
  by (simp add: carries_def)

lemma same_jobs_carries: "same_jobs t t' \<Longrightarrow> \<exists>f. carries f \<and> rows t' = map f (rows t)"
proof -
  assume "same_jobs t t'"
  then obtain f where "rows t' = map (\<lambda>j. j\<lparr>j_rank := f j\<rparr>) (rows t)" by (auto simp: same_jobs_def)
  then show ?thesis by (intro exI [of _ "\<lambda>j. j\<lparr>j_rank := f j\<rparr>"]) (simp add: carries_def)
qed

lemma Raise_rows:
  assumes "queue_ok s" and "small_queue (q_jobs s) m" and "Raise now s c p = Inr s'"
  shows "\<exists>f. carries f \<and> rows (q_jobs s') = map f (rows (q_jobs s))"
  using assms(3)
proof (cases rule: Raise_cases)
  case same
  then show ?thesis by (intro exI [of _ "\<lambda>j. j"]) (simp add: carries_def)
next
  case (raised job vals t v P)
  have "ranks_ok (q_jobs s)" using assms(1) by (simp add: queue_ok_def)
  from same_jobs_carries insertion_split(1) [OF raised(6) this assms(2)] obtain f where
    f: "carries f" "rows t = map f (rows (q_jobs s))" by blast
  let ?g = "\<lambda>j. if P j then j\<lparr>j_priority := p, j_rank := v, j_updated_at := now\<rparr> else j"
  have "carries ?g" by (simp add: carries_def)
  from carries_comp [OF f(1) this] show ?thesis
    by (intro exI [of _ "\<lambda>j. ?g (f j)"]) (simp add: raised(9) upd_where_def f(2))
qed

lemma EnqueuePriority_rows:
  assumes "queue_ok s" and "small_queue (q_jobs s) m" and "EnqueuePriority now s sid c r k u p = Inr (s', j, created)"
  shows "\<exists>f. carries f \<and> rows (q_jobs s') = map f (rows (q_jobs s)) @ (if created then [j] else [])"
    and "created \<Longrightarrow> j_chapter_id j = c \<and> j_release_id j = r"
proof -
  have ok: "ranks_ok (q_jobs s)" using assms(1) by (simp add: queue_ok_def)
  have "(\<exists>f. carries f \<and> rows (q_jobs s') = map f (rows (q_jobs s)) @ (if created then [j] else [])) \<and>
      (created \<longrightarrow> j_chapter_id j = c \<and> j_release_id j = r)"
  proof (cases "active_job c (q_jobs s)")
    case None
    then have "enqueue_tx now s sid c r k u p = Inr (s', j, created)" using assms(3) by (simp add: EnqueuePriority_def)
    then show ?thesis
    proof (cases rule: enqueue_tx_cases)
      case lost
      then show ?thesis by (auto simp: None)
    next
      case (added vals t)
      from same_jobs_carries insertion_split(1) [OF added(2) ok assms(2)] obtain f where
        "carries f" "rows t = map f (rows (q_jobs s))" by blast
      then show ?thesis using added(1,5) by (auto simp: added(3) new_job_def)
    qed
  next
    case (Some e)
    then have "Raise now s c p = Inr s'" "\<not> created"
      using assms(3) by (auto simp: EnqueuePriority_def split: option.splits sum.splits)
    with Raise_rows [OF assms(1,2)] show ?thesis by simp
  qed
  then show "\<exists>f. carries f \<and> rows (q_jobs s') = map f (rows (q_jobs s)) @ (if created then [j] else [])"
    and "created \<Longrightarrow> j_chapter_id j = c \<and> j_release_id j = r" by auto
qed

text \<open>A job grabbed by a search of the loaded series: its release was a candidate and passed.\<close>

definition grabbed_ok ::
  "(string \<Rightarrow> matcher option) \<Rightarrow> time \<Rightarrow> series_state \<Rightarrow> bool \<Rightarrow> download_job \<Rightarrow> bool" where
  "grabbed_ok compile now st explicit j \<longleftrightarrow>
     (\<exists>ch \<in> set (st_chapters st). \<exists>c \<in> set (st_releases st (c_id ch)).
        j_chapter_id j = c_id ch \<and> j_release_id j = Some (r_id (cand_release c))
        \<and> chapter_wanted (input now st ch explicit)
        \<and> release_ok (input now st ch explicit) (blocked_of compile (input now st ch explicit))
            (now_of now (input now st ch explicit)) c)"

lemma grabbed_ok_carries: "carries f \<Longrightarrow> grabbed_ok compile now st explicit (f j) = grabbed_ok compile now st explicit j"
  by (simp add: grabbed_ok_def carries_def)

lemma Decide_cache:
  assumes "cache_ok compile cache" and "Decide compile clock cache inp cands = (d, cache')"
  shows "cache_ok compile cache'"
  using assms compileAll_ok
  by (auto simp: Decide_def Let_def split: option.splits prod.splits) (metis snd_conv)+

text \<open>What a search may do to the queue: keep the invariant, carry the old jobs, add passing ones.\<close>

definition search_step ::
  "(string \<Rightarrow> matcher option) \<Rightarrow> time \<Rightarrow> series_state \<Rightarrow> bool \<Rightarrow> queue_state \<Rightarrow> nat \<Rightarrow> queue_state \<Rightarrow> nat \<Rightarrow> bool" where
  "search_step compile now st explicit s n0 s' n \<longleftrightarrow> queue_ok s' \<and>
     (\<exists>f new. carries f \<and> rows (q_jobs s') = map f (rows (q_jobs s)) @ new \<and> length new + n0 = n
        \<and> (\<forall>j \<in> set new. grabbed_ok compile now st explicit j))"

lemma search_step_refl: "queue_ok s \<Longrightarrow> search_step compile now st explicit s n s n"
  by (auto simp: search_step_def carries_def intro!: exI [of _ "\<lambda>j. j"])

lemma search_step_trans:
  assumes "search_step compile now st explicit s n s1 n1" and "search_step compile now st explicit s1 n1 s' n'"
  shows "search_step compile now st explicit s n s' n'"
proof -
  obtain f new where f: "carries f" "rows (q_jobs s1) = map f (rows (q_jobs s)) @ new" "length new + n = n1"
    "\<forall>j \<in> set new. grabbed_ok compile now st explicit j" using assms(1) by (auto simp: search_step_def)
  obtain g new' where g: "carries g" "rows (q_jobs s') = map g (rows (q_jobs s1)) @ new'" "length new' + n1 = n'"
    "\<forall>j \<in> set new'. grabbed_ok compile now st explicit j" "queue_ok s'" using assms(2) by (auto simp: search_step_def)
  have "rows (q_jobs s') = map (\<lambda>j. g (f j)) (rows (q_jobs s)) @ (map g new @ new')" using f(2) g(2) by simp
  moreover have "\<forall>j \<in> set (map g new @ new'). grabbed_ok compile now st explicit j"
    using f(4) g(4) grabbed_ok_carries [OF g(1)] by auto
  moreover have "length (map g new @ new') + n = n'" using f(3) g(3) by simp
  ultimately show ?thesis using carries_comp [OF f(1) g(1)] g(5) unfolding search_step_def by blast
qed

lemma search_step_raise:
  assumes "queue_ok s" and "small_queue (q_jobs s) 1" and "Raise now s c p = Inr s'"
  shows "search_step compile now st explicit s n s' n"
  using Raise_rows [OF assms] Raise_ok [OF assms] by (auto simp: search_step_def)

lemma search_step_enqueue:
  assumes ok: "queue_ok s" "small_queue (q_jobs s) 1" and cache: "cache_ok compile cache" and ch: "ch \<in> set (st_chapters st)"
    and d: "d_approved (fst (Decide compile now cache (input now st ch explicit) (st_releases st (c_id ch)))) = Some best"
    and en: "EnqueuePriority now s seriesID (c_id ch) (Some (r_id (cand_release best))) JobKindDownload u p = Inr (s', job, created)"
  shows "search_step compile now st explicit s n s' (if created then n + 1 else n)"
proof -
  obtain f where f: "carries f" "rows (q_jobs s') = map f (rows (q_jobs s)) @ (if created then [job] else [])"
    using EnqueuePriority_rows(1) [OF ok en] by blast
  have "chapter_wanted (input now st ch explicit) \<and> best \<in> set (st_releases st (c_id ch)) \<and>
      release_ok (input now st ch explicit) (blocked_of compile (input now st ch explicit)) (now_of now (input now st ch explicit)) best"
    using Decide_approved [OF cache d] decide_releases_approved by blast
  then have "created \<Longrightarrow> grabbed_ok compile now st explicit job"
    using EnqueuePriority_rows(2) [OF ok en] ch unfolding grabbed_ok_def by blast
  then have "\<forall>j \<in> set (if created then [job] else []). grabbed_ok compile now st explicit j" by simp
  moreover have "length (if created then [job] else []) + n = (if created then n + 1 else n)" by simp
  ultimately show ?thesis using f EnqueuePriority_ok [OF ok en] unfolding search_step_def by blast
qed

lemma search_step_record:
  "search_step compile now st explicit s n s' n' \<Longrightarrow> search_step compile now st explicit s n (Record t i c e x d s') n'"
  by (auto simp: search_step_def Record_ok)

lemma evaluate_chapter_spec:
  assumes ev: "evaluate_chapter compile now st seriesID explicit priority ch s cache n0 = (s', cache', n, e)"
    and ok: "queue_ok s" "small_queue (q_jobs s) 1" and cache: "cache_ok compile cache" and ch: "ch \<in> set (st_chapters st)"
  shows "search_step compile now st explicit s n0 s' n \<and> cache_ok compile cache' \<and> n \<le> n0 + 1"
proof -
  obtain d cache1 where d: "Decide compile now cache (input now st ch explicit) (st_releases st (c_id ch)) = (d, cache1)" by fastforce
  note c1 = Decide_cache [OF cache d]
  have E: "search_step compile now st explicit s m x (if created then m + 1 else m)"
    if "d_approved d = Some best"
      "EnqueuePriority now s seriesID (c_id ch) (Some (r_id (cand_release best))) JobKindDownload (d_is_upgrade d) priority = Inr (x, job, created)"
    for best x job created m
    by (rule search_step_enqueue [OF ok cache ch _ that(2)]) (use d that(1) in simp)
  have E1: "search_step compile now st explicit s m (Record t i c ev y z x) (Suc m)"
    if "d_approved d = Some best"
      "EnqueuePriority now s seriesID (c_id ch) (Some (r_id (cand_release best))) JobKindDownload (d_is_upgrade d) priority = Inr (x, job, True)"
    for best x job t i c ev y z m
    using search_step_record [OF E [OF that, of m]] by simp
  have E2: "search_step compile now st explicit s m x m"
    if "d_approved d = Some best"
      "EnqueuePriority now s seriesID (c_id ch) (Some (r_id (cand_release best))) JobKindDownload (d_is_upgrade d) priority = Inr (x, job, False)"
    for best x job m
    using E [OF that, of m] by simp
  show ?thesis
    using ev cache c1 search_step_refl [OF ok(1)]
    by (auto simp: evaluate_chapter_def d intro: search_step_raise [OF ok] E1 E2
        split: if_splits sum.splits option.splits prod.splits)
qed

lemma evaluate_chapters_spec:
  assumes "evaluate_chapters compile now st seriesID explicit priority chs s cache n0 = (s', cache', n, e)"
    and "queue_ok s" and "small_queue (q_jobs s) (length chs + 1)" and "cache_ok compile cache"
    and "set chs \<subseteq> set (st_chapters st)"
  shows "search_step compile now st explicit s n0 s' n \<and> cache_ok compile cache'"
  using assms
proof (induction chs arbitrary: s cache n0)
  case Nil
  then show ?case by (simp add: search_step_refl)
next
  case (Cons ch chs)
  obtain s1 c1 n1 e1 where ev: "evaluate_chapter compile now st seriesID explicit priority ch s cache n0 = (s1, c1, n1, e1)"
    using prod_cases4 by blast
  have "small_queue (q_jobs s) 1" using Cons.prems(3) by (simp add: small_queue_def)
  from evaluate_chapter_spec [OF ev Cons.prems(2) this Cons.prems(4)] Cons.prems(5)
  have S: "search_step compile now st explicit s n0 s1 n1" "cache_ok compile c1" "n1 \<le> n0 + 1" by auto
  show ?case
  proof (cases e1)
    case None
    have "length (rows (q_jobs s1)) \<le> length (rows (q_jobs s)) + 1" using S(1,3) by (auto simp: search_step_def)
    then have sm: "small_queue (q_jobs s1) (length chs + 1)" using Cons.prems(3) by (simp add: small_queue_def)
    have "search_step compile now st explicit s1 n1 s' n \<and> cache_ok compile cache'"
      by (rule Cons.IH [OF _ _ sm S(2)]) (use Cons.prems(1,5) ev None S(1) in \<open>auto simp: search_step_def\<close>)
    with S(1) search_step_trans show ?thesis by blast
  next
    case (Some x)
    with Cons.prems(1) ev S show ?thesis by simp
  qed
qed

lemma load_chapters: "load db s seriesID ids = Some st \<Longrightarrow> length (st_chapters st) \<le> length (rows (q_chapters s))"
  by (auto simp: load_def Let_def split: option.splits)

definition ex_db :: catalog_db where
  "ex_db = \<lparr>db_series = \<lparr>rows = [sample_series], seq = 1\<rparr>, db_profiles = \<lparr>rows = [sample_profile], seq = 1\<rparr>,
     db_sources = \<lparr>rows = [sample_source], seq = 1\<rparr>, db_files = \<lparr>rows = [], seq = 0\<rparr>,
     db_priority_lists = [], db_catalog_prefs = []\<rparr>"

definition ex_idle :: queue_state where
  "ex_idle = ex_queue\<lparr>q_jobs := \<lparr>rows = [], seq = 0\<rparr>, q_chapters := \<lparr>rows = [sample_chapter], seq = 1\<rparr>,
     q_releases := \<lparr>rows = [sample_release], seq = 1\<rparr>\<rparr>"

lemma ex_idle_ok: "queue_ok ex_idle" "small_queue (q_jobs ex_idle) (length (rows (q_chapters ex_idle)) + 1)"
  by (auto simp: queue_ok_def ranks_ok_def one_active_def twf_def small_queue_def ex_idle_def ex_queue_def samples)

text \<open>
  C9: A search only queues what the decision engine approves: every job \<open>EvaluateAt\<close> adds is for a chapter
  of the series that is wanted, and for a release that was among its candidates and passes the
  specifications, so it is not blocklisted, removed, backing off or from a blocked group; the
  reported count is the number of jobs added and the queue keeps its invariant.
\<close>

theorem search_grabs:
  assumes "queue_ok s" and "small_queue (q_jobs s) (length (rows (q_chapters s)) + 1)" and "cache_ok compile cache"
    and "load db s seriesID ids = Some st"
    and "EvaluateAt compile now db cache s seriesID ids explicit priority = (s', cache', n, e)"
  shows "queue_ok s' \<and> cache_ok compile cache' \<and> length (rows (q_jobs s')) = length (rows (q_jobs s)) + n
    \<and> (\<forall>j \<in> set (rows (q_jobs s')). j_id j \<notin> set (order (q_jobs s)) \<longrightarrow> grabbed_ok compile now st explicit j)"
proof -
  have sm: "small_queue (q_jobs s) (length (st_chapters st) + 1)"
    using assms(2) load_chapters [OF assms(4)] by (simp add: small_queue_def)
  have ev: "evaluate_chapters compile now st seriesID explicit priority (st_chapters st) s cache 0 = (s', cache', n, e)"
    using assms(4,5) by (simp add: EvaluateAt_def)
  from evaluate_chapters_spec [OF ev assms(1) sm assms(3) subset_refl] obtain f new where
    S: "queue_ok s'" "cache_ok compile cache'" "carries f" "rows (q_jobs s') = map f (rows (q_jobs s)) @ new" "length new = n"
    "\<forall>j \<in> set new. grabbed_ok compile now st explicit j" by (auto simp: search_step_def)
  have "j \<in> set new" if "j \<in> set (rows (q_jobs s'))" "j_id j \<notin> set (order (q_jobs s))" for j
    using that S(3,4) by (auto simp: order_queue_list carries_def)
  with S show ?thesis by auto
qed

theorem search_grabs_witness:
  "\<exists>st. load ex_db ex_idle 1 [] = Some st \<and>
     (case EvaluateAt ex_compile 10 ex_db Map.empty ex_idle 1 [] False 0 of (s', c, n, e) \<Rightarrow>
        queue_ok s' \<and> length (rows (q_jobs s')) = n)"
proof -
  obtain st where st: "load ex_db ex_idle 1 [] = Some st"
    by (simp add: load_def ex_db_def ex_idle_def ex_queue_def samples tget_def Let_def)
  obtain s' c n e where ev: "EvaluateAt ex_compile 10 ex_db Map.empty ex_idle 1 [] False 0 = (s', c, n, e)"
    using prod_cases4 by blast
  have "rows (q_jobs ex_idle) = []" by (simp add: ex_idle_def)
  with search_grabs [OF ex_idle_ok ex_cache st ev] st ev show ?thesis by simp
qed

section \<open>Blocklisting makes progress\<close>

lemma BlocklistRelease_untried:
  assumes "tget r_id i (q_releases s) = Some r" and "BlocklistRelease now i reason s = Inr s'"
    and "\<And>b. b \<in> set (rows (q_blocklist s)) \<Longrightarrow> b_series_source_id b = r_series_source_id r \<Longrightarrow> b_series_id b = r_series_id r"
  shows "blocked_release s' r \<and> q_releases s' = q_releases s \<and> (\<forall>x. blocked_release s x \<longrightarrow> blocked_release s' x)"
proof -
  have "q_releases s' = q_releases s" using BlocklistRelease_frames [OF assms(2)] by simp
  moreover have "blocked_release s' r \<and> (\<forall>x. blocked_release s x \<longrightarrow> blocked_release s' x)"
    using assms(1,2) by (auto simp: BlocklistRelease_def Let_def blocked_release_def tinsert_def split: if_splits)
      (metis assms(3))
  ultimately show ?thesis by blast
qed

lemma untried_decreases:
  assumes "r \<in> set (untried s c)" and "blocked_release s' r" and "q_releases s' = q_releases s"
    and "\<forall>x. blocked_release s x \<longrightarrow> blocked_release s' x"
  shows "length (untried s' c) < length (untried s c)"
proof -
  have "untried s' c = filter (\<lambda>x. \<not> blocked_release s' x) (untried s c)"
    using assms(3,4) by (auto simp: untried_def intro: filter_cong)
  moreover have "filter (\<lambda>x. \<not> blocked_release s' x) (untried s c) \<noteq> untried s c"
    using assms(1,2) by (metis (mono_tags, lifting) filter_id_conv)
  ultimately show ?thesis by (metis length_filter_less assms(1,2))
qed

end
