(* ===== verification/JobControl.thy ===== *)
theory JobControl
  imports Searcher
begin

text \<open>
  The manager of the download queue, without its pipeline stages:
  \<open>internal/downloads/queue_control.go\<close> (status changes, claiming, bulk actions),
  \<open>retry.go\<close> (what happens after a failed attempt), \<open>manager.go\<close> (recovery at start, release at
  stop), the bookkeeping of \<open>process.go\<close>, and \<open>screen.go\<close>.  Cancelling a running job appends
  its id to \<open>m_cancelled\<close>, a call of the worker ledger's \<open>Cancel\<close> to \<open>m_task_cancels\<close>.
\<close>

section \<open>State\<close>

record manager_state =
  m_queue :: queue_state
  m_files :: "chapter_file table"
  m_running :: "(int64 \<times> job_kind) list"
  m_running_src :: "string \<Rightarrow> int"
  m_local :: int
  m_last_maint :: time
  m_was_busy :: bool
  m_held :: bool
  m_last_persist :: "int64 \<Rightarrow> time"
  m_cancelled :: "int64 list"
  m_has_tasks :: bool
  m_task_cancels :: "int64 list"

abbreviation on_queue :: "(queue_state \<Rightarrow> queue_state) \<Rightarrow> manager_state \<Rightarrow> manager_state" where
  "on_queue f m \<equiv> m\<lparr>m_queue := f (m_queue m)\<rparr>"

definition publish :: "string \<Rightarrow> int64 \<Rightarrow> queue_state \<Rightarrow> queue_state" where
  "publish event seriesID s = changed ''event'' event seriesID s"

record job_ctx =
  jc_series :: series
  jc_profile :: profile
  jc_chapter :: chapter_row
  jc_release :: "chapter_release option"
  jc_link :: "series_source option"
  jc_file :: "chapter_file option"

definition load_job :: "catalog_db \<Rightarrow> manager_state \<Rightarrow> download_job \<Rightarrow> job_ctx option" where
  "load_job db m job =
     (case tget c_id (j_chapter_id job) (q_chapters (m_queue m)) of
        None \<Rightarrow> None
      | Some ch \<Rightarrow>
          (case tget s_id (j_series_id job) (db_series db) of
             None \<Rightarrow> None
           | Some ser \<Rightarrow>
               (case tget pr_id (s_profile_id ser) (db_profiles db) of
                  None \<Rightarrow> None
                | Some prof \<Rightarrow>
                    (let file = (case c_file_id ch of None \<Rightarrow> None | Some i \<Rightarrow> tget f_id i (m_files m));
                         rel = (case j_release_id job of None \<Rightarrow> None | Some i \<Rightarrow> tget r_id i (q_releases (m_queue m)));
                         link = (case rel of None \<Rightarrow> None | Some r \<Rightarrow> tget ss_id (r_series_source_id r) (db_sources db))
                     in Some \<lparr>jc_series = ser, jc_profile = prof, jc_chapter = ch, jc_release = rel, jc_link = link, jc_file = file\<rparr>))))"

section \<open>Control\<close>

definition Hold :: "bool \<Rightarrow> manager_state \<Rightarrow> manager_state" where
  "Hold on m = on_queue signal (m\<lparr>m_held := on\<rparr>)"

definition CancelAll :: "manager_state \<Rightarrow> manager_state" where
  "CancelAll m = m\<lparr>m_cancelled := m_cancelled m @ map fst (m_running m)\<rparr>"

definition Running :: "manager_state \<Rightarrow> nat" where
  "Running m = length (m_running m)"

definition Cancel :: "int64 \<Rightarrow> manager_state \<Rightarrow> manager_state" where
  "Cancel jobID m =
     (let m = (if jobID \<in> fst ` set (m_running m) then m\<lparr>m_cancelled := m_cancelled m @ [jobID]\<rparr> else m)
      in if m_has_tasks m then m\<lparr>m_task_cancels := m_task_cancels m @ [jobID]\<rparr> else m)"

text \<open>
  An UPDATE of one job's columns: \<open>cols\<close> copies them from the job in hand, \<open>guarded\<close> adds
  \<open>status <> 'paused'\<close>.  A rejected statement changes nothing.
\<close>

definition write_job ::
  "bool \<Rightarrow> (download_job \<Rightarrow> download_job) \<Rightarrow> int64 \<Rightarrow> queue_state \<Rightarrow> queue_state \<times> nat" where
  "write_job guarded cols i s =
     (case update_jobs (\<lambda>j. j_id j = i \<and> (guarded \<longrightarrow> j_status j \<noteq> JobPaused)) cols (q_jobs s) of
        None \<Rightarrow> (s, 0)
      | Some (t, n) \<Rightarrow> (s\<lparr>q_jobs := t\<rparr>, n))"

definition setStatus ::
  "time \<Rightarrow> download_job \<Rightarrow> job_status \<Rightarrow> chapter_state option \<Rightarrow> queue_state \<Rightarrow> queue_state \<times> download_job" where
  "setStatus now job status chapterState s =
     (let started = (if status = JobDownloading \<and> j_started_at job = None then Some now else j_started_at job);
          job' = job\<lparr>j_status := status, j_updated_at := now, j_started_at := started\<rparr>;
          cols = (\<lambda>j. if status = JobDownloading \<and> j_started_at job = None
                      then j\<lparr>j_status := status, j_updated_at := now, j_started_at := started\<rparr>
                      else j\<lparr>j_status := status, j_updated_at := now\<rparr>);
          (s1, n) = write_job True cols (j_id job) s
      in
      if n = 0 then (s1, job')
      else
        (let s2 = (case chapterState of
               Some st \<Rightarrow>
                 if \<not> j_is_upgrade job \<and> j_kind job = JobKindDownload then
                   changed ''chapter'' ''updated'' (j_chapter_id job) (set_chapter_state now (j_chapter_id job) st s1)
                 else s1
             | None \<Rightarrow> s1)
         in (changed ''queue'' ''updated'' (j_id job) s2, job')))"

definition persist_gap :: duration where "persist_gap = 2 * second"

definition job_progress :: "time \<Rightarrow> download_job \<Rightarrow> int \<Rightarrow> int \<Rightarrow> manager_state \<Rightarrow> manager_state \<times> download_job" where
  "job_progress now job finished tot m =
     (let job' = job\<lparr>j_pages_done := finished, j_pages_total := tot,
             j_progress := (if tot > 0 then go_div (finished * 100) tot else j_progress job)\<rparr>;
          persist = (now - m_last_persist m (j_id job) > persist_gap \<or> finished = tot)
      in
      if persist then
        (on_queue (\<lambda>s. changed ''queue'' ''updated'' (j_id job)
             (fst (write_job False (\<lambda>j. j\<lparr>j_pages_done := finished, j_pages_total := tot, j_progress := j_progress job'\<rparr>) (j_id job) s)))
           (m\<lparr>m_last_persist := (m_last_persist m)(j_id job := now)\<rparr>), job')
      else (m, job'))"

definition claim :: "time \<Rightarrow> download_job \<Rightarrow> queue_state \<Rightarrow> queue_state \<times> bool" where
  "claim now job s =
     (case update_jobs (\<lambda>j. j_id j = j_id job \<and> j_status j = JobQueued)
             (\<lambda>j. j\<lparr>j_status := JobDownloading, j_updated_at := now\<rparr>) (q_jobs s) of
        None \<Rightarrow> (s, False)
      | Some (t, n) \<Rightarrow> (s\<lparr>q_jobs := t\<rparr>, n = 1))"

section \<open>Bulk actions\<close>

datatype bulk_action = BulkPause | BulkResume | BulkRetry | BulkRemove | BulkBlocklist | BulkTop | BulkBottom
  | BulkOther string

datatype bulk_error = ErrUnknownAction string | ErrUnique | ErrQueue queue_error

fun bulk_remove :: "time \<Rightarrow> bool \<Rightarrow> int64 list \<Rightarrow> manager_state \<Rightarrow> nat \<Rightarrow> bulk_error option \<Rightarrow> manager_state \<times> nat \<times> bulk_error option" where
  "bulk_remove now blocklist [] m affected err = (m, affected, err)"
| "bulk_remove now blocklist (i # ids) m affected err =
     (let m = Cancel i m in
      case Remove now (m_queue m) i blocklist of
        Inr s \<Rightarrow> bulk_remove now blocklist ids (m\<lparr>m_queue := s\<rparr>) (affected + 1) err
      | Inl e \<Rightarrow> bulk_remove now blocklist ids m affected (if e = ErrNoRows then err else Some (ErrQueue e)))"

definition bulk_done :: "manager_state \<Rightarrow> nat \<Rightarrow> bulk_error option \<Rightarrow> manager_state \<times> nat \<times> bulk_error option" where
  "bulk_done m affected err =
     (on_queue (\<lambda>s. changed ''chapter'' ''updated'' 0 (changed ''queue'' ''sync'' 0 (signal s))) m, affected, err)"

definition bulk_update ::
  "(download_job \<Rightarrow> bool) \<Rightarrow> (download_job \<Rightarrow> download_job) \<Rightarrow> int64 list \<Rightarrow> manager_state \<Rightarrow> manager_state \<times> nat \<times> bulk_error option" where
  "bulk_update P f ids m =
     (case update_jobs (\<lambda>j. P j \<and> j_id j \<in> set ids) f (q_jobs (m_queue m)) of
        None \<Rightarrow> (m, 0, Some ErrUnique)
      | Some (t, n) \<Rightarrow> (on_queue (\<lambda>s. s\<lparr>q_jobs := t\<rparr>) m, n, None))"

definition Bulk :: "time \<Rightarrow> int64 list \<Rightarrow> bulk_action \<Rightarrow> manager_state \<Rightarrow> manager_state \<times> nat \<times> bulk_error option" where
  "Bulk now ids action m =
     (if ids = [] then (m, 0, None)
      else
        case action of
          BulkPause \<Rightarrow>
            (let (m1, n, e) = bulk_update (\<lambda>j. j_status j \<in> {JobQueued, JobDownloading, JobProcessing})
                                (\<lambda>j. j\<lparr>j_status := JobPaused, j_updated_at := now\<rparr>) ids m;
                 m2 = (if e = None then
                         on_queue (\<lambda>s. s\<lparr>q_chapters := upd_where
                             (\<lambda>c. (\<exists>j \<in> set (rows (q_jobs s)). j_chapter_id j = c_id c \<and> j_id j \<in> set ids
                                     \<and> j_status j = JobPaused \<and> j_kind j = JobKindDownload \<and> \<not> j_is_upgrade j)
                                  \<and> c_state c \<in> {ChapterDownloading, ChapterProcessing})
                             (\<lambda>c. c\<lparr>c_state := ChapterQueued, c_updated_at := now\<rparr>) (q_chapters s)\<rparr>)
                           (foldl (\<lambda>m i. Cancel i m) m1 ids)
                       else m1)
             in bulk_done m2 n e)
        | BulkResume \<Rightarrow>
            (let (m1, n, e) = bulk_update (\<lambda>j. j_status j = JobPaused)
                                (\<lambda>j. j\<lparr>j_status := JobQueued, j_not_before := now, j_updated_at := now\<rparr>) ids m
             in bulk_done m1 n e)
        | BulkRetry \<Rightarrow>
            (let (m1, n, e) = bulk_update (\<lambda>j. j_status j = JobFailed) (requeued now) ids m
             in bulk_done m1 n e)
        | BulkRemove \<Rightarrow> (let (m1, n, e) = bulk_remove now False ids m 0 None in bulk_done m1 n e)
        | BulkBlocklist \<Rightarrow> (let (m1, n, e) = bulk_remove now True ids m 0 None in bulk_done m1 n e)
        | BulkTop \<Rightarrow>
            (case Move now (m_queue m) ids Top 0 of
               Inl e \<Rightarrow> (m, 0, Some (ErrQueue e))
             | Inr (s, n) \<Rightarrow> (m\<lparr>m_queue := s\<rparr>, n, None))
        | BulkBottom \<Rightarrow>
            (case Move now (m_queue m) ids Bottom 0 of
               Inl e \<Rightarrow> (m, 0, Some (ErrQueue e))
             | Inr (s, n) \<Rightarrow> (m\<lparr>m_queue := s\<rparr>, n, None))
        | BulkOther a \<Rightarrow> (m, 0, Some (ErrUnknownAction a)))"

section \<open>Failures\<close>

text \<open>
  What the code asks of an error: its text, whether it is a \<open>net.Error\<close>, the wrappers
  \<open>permanentError\<close> and \<open>infraError\<close>, the time of a \<open>CoolingDown\<close> error, and whether
  \<open>sourcegov.Classify\<close> calls it throttling.
\<close>

record run_error =
  re_msg :: string
  re_net :: bool
  re_permanent :: bool
  re_infra :: bool
  re_cooling :: "time option"
  re_throttled :: bool

definition permanent :: "run_error \<Rightarrow> run_error" where
  "permanent e = e\<lparr>re_permanent := True\<rparr>"

definition classify :: "run_error \<Rightarrow> run_error" where
  "classify e =
     (let msg = to_lower (re_msg e) in
      if re_net e \<or> str_contains msg ''connection refused'' \<or> str_contains msg ''no such host''
         \<or> str_contains msg ''unauthorized (check''
      then e\<lparr>re_infra := True\<rparr> else e)"

definition retryDelays :: "duration list" where
  "retryDelays = [30 * second, 2 * minute, 10 * minute]"

definition cooldownUntil :: "(int64 \<Rightarrow> string \<Rightarrow> time) option \<Rightarrow> run_error \<Rightarrow> job_ctx option \<Rightarrow> time" where
  "cooldownUntil gov e jc =
     (case re_cooling e of
        Some until \<Rightarrow> until
      | None \<Rightarrow>
          (case gov of
             None \<Rightarrow> 0
           | Some cooldown \<Rightarrow>
               (case jc of
                  None \<Rightarrow> 0
                | Some x \<Rightarrow>
                    (case jc_link x of
                       None \<Rightarrow> 0
                     | Some link \<Rightarrow> if re_throttled e then cooldown (ss_module_id link) (ss_source_id link) else 0))))"

text \<open>The services a failure uses: the governor, the attempts setting and the searcher's view.\<close>

record fail_env =
  fe_compile :: "string \<Rightarrow> matcher option"
  fe_db :: catalog_db
  fe_cache :: re_cache
  fe_gov :: "(int64 \<Rightarrow> string \<Rightarrow> time) option"
  fe_max_attempts :: int

definition requeue :: "time \<Rightarrow> download_job \<Rightarrow> duration \<Rightarrow> queue_state \<Rightarrow> queue_state" where
  "requeue now job delay s =
     (let job = job\<lparr>j_status := JobQueued, j_not_before := now + delay\<rparr> in
      changed ''queue'' ''updated'' (j_id job)
        (fst (write_job True (\<lambda>j. j\<lparr>j_status := j_status job, j_attempt := j_attempt job, j_error := j_error job,
            j_not_before := j_not_before job, j_updated_at := j_updated_at job, j_release_id := j_release_id job\<rparr>) (j_id job) s)))"

definition infra_delay :: "int \<Rightarrow> duration" where
  "infra_delay attempt = min (attempt * 5 * minute) hour"

definition retry_delay :: "int \<Rightarrow> duration" where
  "retry_delay attempt = retryDelays ! nat (min (attempt - 1) (int (length retryDelays) - 1))"

definition give_up :: "time \<Rightarrow> download_job \<Rightarrow> job_ctx option \<Rightarrow> run_error \<Rightarrow> queue_state \<Rightarrow> queue_state" where
  "give_up now job jc err s =
     (let s1 = fst (write_job True (\<lambda>j. j\<lparr>j_status := JobFailed, j_attempt := j_attempt job, j_error := j_error job,
                 j_updated_at := j_updated_at job\<rparr>) (j_id job) s);
          s2 = (if j_kind job = JobKindDownload then
                  (let s' = (case resetChapterState now (j_chapter_id job) s1 of Inl _ \<Rightarrow> s1 | Inr x \<Rightarrow> x) in
                   case tget c_id (j_chapter_id job) (q_chapters s') of
                     None \<Rightarrow> s'
                   | Some ch \<Rightarrow>
                       if c_file_id ch = None then
                         s'\<lparr>q_chapters := upd_where (\<lambda>c. c_id c = c_id ch) (\<lambda>c. c\<lparr>c_state := ChapterFailed\<rparr>) (q_chapters s')\<rparr>
                       else s')
                else s1);
          s3 = (case jc of
                  None \<Rightarrow> s2
                | Some x \<Rightarrow>
                    publish ''downloadFailed'' (s_id (jc_series x))
                      (Record now (s_id (jc_series x)) (Some (c_id (jc_chapter x))) HistoryFailed [] [(''error'', re_msg err)] s2))
      in changed ''chapter'' ''updated'' (j_chapter_id job) (changed ''queue'' ''updated'' (j_id job) s3))"

text \<open>After the last attempt: blocklist the release and try the next one, or give up.\<close>

definition exhausted ::
  "fail_env \<Rightarrow> time \<Rightarrow> download_job \<Rightarrow> job_ctx option \<Rightarrow> run_error \<Rightarrow> queue_state \<Rightarrow> queue_state" where
  "exhausted env now job jc err s =
     (case (if j_kind job = JobKindDownload then j_release_id job else None) of
        None \<Rightarrow> give_up now job jc err s
      | Some rid \<Rightarrow>
          (let s1 = (case BlocklistRelease now rid (re_msg err) s of Inl _ \<Rightarrow> s | Inr x \<Rightarrow> x) in
           case jc of
             None \<Rightarrow> give_up now job jc err s1
           | Some x \<Rightarrow>
               (case NextCandidate (fe_compile env) now (fe_db env) (fe_cache env) s1 (s_id (jc_series x)) (c_id (jc_chapter x)) of
                  None \<Rightarrow> give_up now job jc err s1
                | Some (cand, upgrade) \<Rightarrow>
                    (let job = job\<lparr>j_release_id := Some (r_id (cand_release cand)), j_is_upgrade := upgrade, j_attempt := 0\<rparr>;
                         s2 = fst (write_job False (\<lambda>j. j\<lparr>j_is_upgrade := upgrade\<rparr>) (j_id job) s1)
                     in requeue now job (5 * second) s2))))"

definition fail ::
  "fail_env \<Rightarrow> time \<Rightarrow> bool \<Rightarrow> download_job \<Rightarrow> job_ctx option \<Rightarrow> run_error \<Rightarrow> queue_state \<Rightarrow> queue_state" where
  "fail env now cancelled job jc err s =
     (if cancelled then s
      else
        let maxAttempts = (if fe_max_attempts env \<le> 0 then 3 else fe_max_attempts env);
            job = job\<lparr>j_error := re_msg err, j_updated_at := now\<rparr>;
            until = cooldownUntil (fe_gov env) err jc
        in
        if until \<noteq> 0 then
          changed ''queue'' ''updated'' (j_id job)
            (fst (write_job True (\<lambda>j. j\<lparr>j_status := JobQueued, j_error := j_error job, j_not_before := until,
                j_updated_at := j_updated_at job, j_release_id := j_release_id job\<rparr>) (j_id job) s))
        else
          let job = job\<lparr>j_attempt := j_attempt job + 1\<rparr> in
          if re_infra err then requeue now job (infra_delay (j_attempt job)) s
          else if \<not> re_permanent err \<and> j_attempt job < maxAttempts \<and> j_kind job = JobKindDownload then
            requeue now job (retry_delay (j_attempt job)) s
          else exhausted env now job jc err s)"

section \<open>Bookkeeping of processed files\<close>

definition markProcessed :: "time \<Rightarrow> chapter_file option \<Rightarrow> string \<Rightarrow> float64 \<Rightarrow> manager_state \<Rightarrow> manager_state" where
  "markProcessed now file params seconds m =
     (case file of
        None \<Rightarrow> m
      | Some f \<Rightarrow>
          on_queue (changed ''chapter'' ''updated'' (f_chapter_id f))
            (m\<lparr>m_files := upd_where (\<lambda>x. f_id x = f_id f)
               (\<lambda>x. x\<lparr>f_process_params := params, f_process_state := ProcessDone, f_process_seconds := seconds,
                  f_process_pages := (if seconds > 0 then f_page_count f else 0), f_process_error := [],
                  f_process_attempts := 0, f_process_retry_at := None, f_processed_at := Some now\<rparr>) (m_files m)\<rparr>))"

definition markProcessRetry :: "time \<Rightarrow> chapter_file option \<Rightarrow> string \<Rightarrow> manager_state \<Rightarrow> manager_state" where
  "markProcessRetry now file msg m =
     (case file of
        None \<Rightarrow> m
      | Some f \<Rightarrow>
          m\<lparr>m_files := upd_where (\<lambda>x. f_id x = f_id f)
             (\<lambda>x. x\<lparr>f_process_error := msg, f_process_retry_at := Some (now + 30 * minute)\<rparr>) (m_files m)\<rparr>)"

definition process_delay :: "int \<Rightarrow> duration" where
  "process_delay attempts = 2 ^ nat (min attempts 5) * hour"

definition markProcessFailed :: "time \<Rightarrow> chapter_file option \<Rightarrow> string \<Rightarrow> manager_state \<Rightarrow> manager_state" where
  "markProcessFailed now file msg m =
     (case file of
        None \<Rightarrow> m
      | Some f \<Rightarrow>
          on_queue (changed ''chapter'' ''updated'' (f_chapter_id f))
            (m\<lparr>m_files := upd_where (\<lambda>x. f_id x = f_id f)
               (\<lambda>x. x\<lparr>f_process_state := ProcessFailed, f_process_error := msg,
                  f_process_attempts := f_process_attempts x + 1,
                  f_process_retry_at := Some (now + process_delay (f_process_attempts f))\<rparr>) (m_files m)\<rparr>))"

definition MaxProcessAttempts :: int where "MaxProcessAttempts = 5"

definition completeUnchanged :: "time \<Rightarrow> download_job \<Rightarrow> queue_state \<Rightarrow> queue_state" where
  "completeUnchanged now job s =
     changed ''queue'' ''updated'' (j_id job)
       (fst (write_job True (\<lambda>j. j\<lparr>j_status := JobCompleted, j_progress := 100, j_error := [], j_updated_at := now\<rparr>) (j_id job) s))"

section \<open>Start and stop\<close>

definition runningStatuses :: "job_status set" where
  "runningStatuses = {JobDownloading, JobProcessing, JobImporting}"

definition ErrStoppedWhileProcessing :: string where
  "ErrStoppedWhileProcessing = ''mangarr stopped while processing this chapter (most likely it ran out of memory); it is retried later''"

definition fail_crashed :: "time \<Rightarrow> download_job \<Rightarrow> manager_state \<Rightarrow> manager_state" where
  "fail_crashed now job m =
     (let file = (case tget c_id (j_chapter_id job) (q_chapters (m_queue m)) of
            None \<Rightarrow> None
          | Some ch \<Rightarrow> (case c_file_id ch of None \<Rightarrow> None | Some i \<Rightarrow> tget f_id i (m_files m)));
          m1 = markProcessFailed now file ErrStoppedWhileProcessing m
      in on_queue (\<lambda>s. Record now (j_series_id job) (Some (j_chapter_id job)) HistoryFailed [] [(''error'', ErrStoppedWhileProcessing)]
           (fst (write_job False (\<lambda>j. j\<lparr>j_status := JobFailed, j_attempt := j_attempt job + 1,
              j_error := ErrStoppedWhileProcessing, j_updated_at := now\<rparr>) (j_id job) s))) m1)"

definition failCrashedProcessing :: "time \<Rightarrow> int64 set \<Rightarrow> manager_state \<Rightarrow> manager_state" where
  "failCrashedProcessing now live m =
     foldl (\<lambda>m job. fail_crashed now job m) m
       (filter (\<lambda>j. j_kind j = JobKindReprocess \<and> j_status j = JobProcessing \<and> j_id j \<notin> live) (rows (q_jobs (m_queue m))))"

definition back_to_queue :: "time \<Rightarrow> download_job \<Rightarrow> download_job" where
  "back_to_queue now j = j\<lparr>j_status := JobQueued, j_not_before := now, j_updated_at := now\<rparr>"

text \<open>\<open>Start\<close>: \<open>live\<close> are the jobs a worker still holds (\<open>openJobs\<close>).\<close>

definition Start :: "time \<Rightarrow> int64 set \<Rightarrow> manager_state \<Rightarrow> manager_state" where
  "Start now live m =
     on_queue (\<lambda>s. s\<lparr>q_jobs := upd_where (\<lambda>j. j_status j \<in> runningStatuses \<and> j_id j \<notin> live) (back_to_queue now) (q_jobs s)\<rparr>)
       (failCrashedProcessing now live m)"

definition Release :: "time \<Rightarrow> manager_state \<Rightarrow> manager_state" where
  "Release now m =
     (let ids = map fst (m_running m) in
      if ids = [] then m
      else on_queue (\<lambda>s. s\<lparr>q_jobs := upd_where (\<lambda>j. j_id j \<in> set ids \<and> j_status j \<in> runningStatuses) (back_to_queue now) (q_jobs s)\<rparr>) m)"

section \<open>Screening pages\<close>

record page_file =
  pf_name :: string
  pf_format :: string
  pf_width :: int
  pf_height :: int

definition medianPageWidth :: "page_file list \<Rightarrow> int" where
  "medianPageWidth pages =
     (if pages = [] then 0
      else (let w = stable_sort (<) (map (\<lambda>p. PageWidth (pf_width p) (pf_height p)) pages) in w ! (length w div 2)))"

datatype screen_error = OnlyJunk | TooFewPages | LowResRejected | LowResElsewhere

text \<open>\<open>other\<close> is \<open>HasAlternative\<close> for the job's release; every screening error is permanent.\<close>

definition screenPages :: "profile_config \<Rightarrow> bool \<Rightarrow> bool \<Rightarrow> page_file list \<Rightarrow> screen_error + page_file list" where
  "screenPages cfg has_release other pages =
     (let junk = JunkSize (pc_pages cfg);
          real = filter (\<lambda>p. \<not> IsJunk (pf_width p) (pf_height p) junk) pages;
          want = MinWidth (pc_low_res cfg);
          w = medianPageWidth real
      in
      if pages \<noteq> [] \<and> real = [] then Inl OnlyJunk
      else if pc_min_pages cfg > 0 \<and> int (length real) < pc_min_pages cfg then Inl TooFewPages
      else if want > 0 \<and> w > 0 \<and> w < want \<and> lr_action (pc_low_res cfg) = LowResReject then Inl LowResRejected
      else if want > 0 \<and> w > 0 \<and> w < want \<and> has_release \<and> other then Inl LowResElsewhere
      else Inr (if p_remove_junk (pc_pages cfg) then real else pages))"

text \<open>\<open>remapPage\<close>: where a reader's page goes when pages were split.\<close>

fun first_from :: "int \<Rightarrow> int list \<Rightarrow> int \<Rightarrow> int option" where
  "first_from source [] i = None"
| "first_from source (x # xs) i = (if x \<ge> source then Some i else first_from source xs (i + 1))"

definition remapPage :: "int \<Rightarrow> bool \<Rightarrow> int list \<Rightarrow> int" where
  "remapPage page completed sourcePages =
     (if page \<le> 0 \<or> sourcePages = [] then page
      else if completed then int (length sourcePages)
      else
        case first_from (page - 1) sourcePages 0 of
          Some i \<Rightarrow> i + 1
        | None \<Rightarrow> int (length sourcePages))"

section \<open>The invariant\<close>

lemma queue_ok_sameI:
  "queue_ok s \<Longrightarrow> ranks_ok (q_jobs s') \<Longrightarrow> one_active (q_jobs s') \<Longrightarrow> q_chapters s' = q_chapters s \<Longrightarrow>
   q_blocklist s' = q_blocklist s \<Longrightarrow> q_history s' = q_history s \<Longrightarrow> queue_ok s'"
  by (simp add: queue_ok_def)

lemma after_reorder_frames [simp]:
  "q_chapters (after_reorder n s) = q_chapters s" "q_blocklist (after_reorder n s) = q_blocklist s"
  "q_history (after_reorder n s) = q_history s" "q_releases (after_reorder n s) = q_releases s"
  "q_jobs (after_reorder n s) = q_jobs s"
  by (simp_all add: after_reorder_def)

lemma Move_frames:
  "Move now s ids action anchor = Inr (s', k) \<Longrightarrow>
   q_chapters s' = q_chapters s \<and> q_blocklist s' = q_blocklist s \<and> q_history s' = q_history s"
  by (auto simp: Move_def Let_def split: option.splits if_splits sum.splits)

lemma Move_ok:
  assumes "queue_ok s" and "small_queue (q_jobs s) 0" and "Move now s ids action anchor = Inr (s', k)"
  shows "queue_ok s'"
proof -
  have ok: "ranks_ok (q_jobs s)" "one_active (q_jobs s)" using assms(1) by (auto simp: queue_ok_def)
  have r: "ranks_ok (q_jobs s')" using Move_order [OF ok(1) assms(2,3)] by simp
  from ok(1) assms(3) show ?thesis
  proof (cases rule: Move_cases)
    case none
    with assms(1) show ?thesis by simp
  next
    case (moved vals t)
    have "same_jobs (q_jobs s) t" using ranks_spec [OF moved(3) ok(1) assms(2)] by blast
    then have "one_active (q_jobs s')"
      unfolding moved(5) using ok(2) one_active_same_jobs one_active_set_ranks by blast
    then show ?thesis using Move_frames [OF assms(3)] r by (intro queue_ok_sameI [OF assms(1)]) auto
  qed
qed


lemma SortByChapter_ok:
  assumes "queue_ok s" shows "queue_ok (fst (SortByChapter now s ids))"
proof -
  obtain s' k where S: "SortByChapter now s ids = (s', k)" by fastforce
  have ok: "ranks_ok (q_jobs s)" "one_active (q_jobs s)" using assms by (auto simp: queue_ok_def)
  have "ranks_ok (q_jobs s')" using SortByChapter_order [OF ok(1) S refl refl] by blast
  moreover have "one_active (q_jobs s')"
    using S ok(2) by (auto simp: SortByChapter_def Let_def intro: one_active_set_ranks split: if_splits)
  moreover have "q_chapters s' = q_chapters s \<and> q_blocklist s' = q_blocklist s \<and> q_history s' = q_history s"
    using S by (auto simp: SortByChapter_def Let_def split: if_splits)
  ultimately show ?thesis using S by (auto intro: queue_ok_sameI [OF assms])
qed

definition keeps_place :: "(download_job \<Rightarrow> download_job) \<Rightarrow> bool" where
  "keeps_place f \<longleftrightarrow> (\<forall>j. j_id (f j) = j_id j \<and> j_rank (f j) = j_rank j)"

lemma update_jobs_ok:
  assumes "queue_ok s" and "keeps_place f" and "update_jobs P f (q_jobs s) = Some (t, n)"
  shows "queue_ok (s\<lparr>q_jobs := t\<rparr>)"
proof -
  have t: "t = upd_where P f (q_jobs s)" "one_active t" using assms(3) by (auto simp: update_jobs_Some)
  then have "ranks_ok t" using assms(1,2) by (auto simp: queue_ok_def keeps_place_def intro: ranks_ok_upd)
  with t show ?thesis by (intro queue_ok_jobs [OF assms(1)])
qed

lemma write_job_ok: "queue_ok s \<Longrightarrow> keeps_place f \<Longrightarrow> queue_ok (fst (write_job g f i s))"
  by (auto simp: write_job_def intro: update_jobs_ok split: option.splits)

lemma write_job_frames [simp]:
  "q_chapters (fst (write_job g f i s)) = q_chapters s" "q_blocklist (fst (write_job g f i s)) = q_blocklist s"
  "q_releases (fst (write_job g f i s)) = q_releases s"
  by (simp_all add: write_job_def split: option.splits)

lemma publish_ok [simp]: "queue_ok (publish e i s) = queue_ok s"
  by (simp add: publish_def)

lemma setStatus_ok:
  assumes "queue_ok s" shows "queue_ok (fst (setStatus now job st cst s))"
proof -
  let ?cols = "\<lambda>j. if st = JobDownloading \<and> j_started_at job = None
      then j\<lparr>j_status := st, j_updated_at := now, j_started_at := (if st = JobDownloading \<and> j_started_at job = None then Some now else j_started_at job)\<rparr>
      else j\<lparr>j_status := st, j_updated_at := now\<rparr>"
  have "queue_ok (fst (write_job True ?cols (j_id job) s))"
    by (rule write_job_ok [OF assms]) (simp add: keeps_place_def)
  then show ?thesis
    by (auto simp: setStatus_def Let_def intro!: set_chapter_state_ok split: prod.splits option.splits)
qed

lemma claim_ok:
  assumes "queue_ok s" shows "queue_ok (fst (claim now job s))"
proof -
  have k: "keeps_place (\<lambda>j. j\<lparr>j_status := JobDownloading, j_updated_at := now\<rparr>)" by (simp add: keeps_place_def)
  show ?thesis using assms by (auto simp: claim_def dest: update_jobs_ok [OF assms k] split: option.splits)
qed

lemma requeue_ok: "queue_ok s \<Longrightarrow> queue_ok (requeue now job d s)"
  by (auto simp: requeue_def Let_def keeps_place_def intro!: write_job_ok)

lemma completeUnchanged_ok: "queue_ok s \<Longrightarrow> queue_ok (completeUnchanged now job s)"
  by (auto simp: completeUnchanged_def keeps_place_def intro!: write_job_ok)

lemma chapter_update_ok:
  assumes "queue_ok s" and "\<And>c. P c \<Longrightarrow> c_id (f c) = c_id c"
  shows "queue_ok (s\<lparr>q_chapters := upd_where P f (q_chapters s)\<rparr>)"
  using assms chapters_table.wf_update [of P f "q_chapters s"] by (simp add: queue_ok_def)

lemma reset_ok: "queue_ok s \<Longrightarrow> queue_ok (case resetChapterState now c s of Inl _ \<Rightarrow> s | Inr x \<Rightarrow> x)"
  using resetChapterState_set set_chapter_state_ok by (fastforce split: sum.split)

lemma give_up_ok:
  assumes "queue_ok s" shows "queue_ok (give_up now job jc err s)"
proof -
  let ?s1 = "fst (write_job True (\<lambda>j. j\<lparr>j_status := JobFailed, j_attempt := j_attempt job, j_error := j_error job,
      j_updated_at := j_updated_at job\<rparr>) (j_id job) s)"
  have s1: "queue_ok ?s1" by (rule write_job_ok [OF assms]) (simp add: keeps_place_def)
  note s2 = reset_ok [OF this, of now "j_chapter_id job"]
  have fl: "queue_ok s' \<Longrightarrow> queue_ok (s'\<lparr>q_chapters := upd_where (\<lambda>c. c_id c = i) (\<lambda>c. c\<lparr>c_state := ChapterFailed\<rparr>) (q_chapters s')\<rparr>)"
    for s' i by (rule chapter_update_ok) simp_all
  from s1 s2 show ?thesis
    unfolding give_up_def Let_def by (auto intro!: Record_ok fl split: option.splits)
qed

lemma blocklist_ok: "queue_ok s \<Longrightarrow> queue_ok (case BlocklistRelease now r reason s of Inl _ \<Rightarrow> s | Inr x \<Rightarrow> x)"
  using BlocklistRelease_ok by (auto split: sum.split)

lemma exhausted_ok:
  assumes "queue_ok s" shows "queue_ok (exhausted env now job jc err s)"
  unfolding exhausted_def Let_def
  by (auto simp: keeps_place_def intro!: give_up_ok requeue_ok write_job_ok blocklist_ok assms split: option.splits)

lemma fail_ok: "queue_ok s \<Longrightarrow> queue_ok (fail env now cancelled job jc err s)"
  by (auto simp: fail_def Let_def keeps_place_def intro!: write_job_ok requeue_ok exhausted_ok)


lemma Cancel_queue [simp]: "m_queue (Cancel i m) = m_queue m" "m_running (Cancel i m) = m_running m" "m_files (Cancel i m) = m_files m"
  by (simp_all add: Cancel_def Let_def)

lemma Cancels_queue [simp]: "m_queue (foldl (\<lambda>m i. Cancel i m) m ids) = m_queue m"
  by (induction ids arbitrary: m) auto

lemma bulk_update_ok: "queue_ok (m_queue m) \<Longrightarrow> keeps_place f \<Longrightarrow> queue_ok (m_queue (fst (bulk_update P f ids m)))"
  by (auto simp: bulk_update_def dest: update_jobs_ok split: option.splits)

lemma bulk_remove_ok: "queue_ok (m_queue m) \<Longrightarrow> queue_ok (m_queue (fst (bulk_remove now b ids m n e)))"
  by (induction now b ids m n e rule: bulk_remove.induct) (auto simp: Let_def Remove_ok split: sum.split)

lemma bulk_done_ok [simp]: "queue_ok (m_queue (fst (bulk_done m n e))) = queue_ok (m_queue m)"
  by (simp add: bulk_done_def)

lemma Bulk_ok:
  assumes "queue_ok (m_queue m)" and "small_queue (q_jobs (m_queue m)) 0"
  shows "queue_ok (m_queue (fst (Bulk now ids action m)))"
proof (cases action)
  case BulkPause
  let ?u = "bulk_update (\<lambda>j. j_status j \<in> {JobQueued, JobDownloading, JobProcessing}) (\<lambda>j. j\<lparr>j_status := JobPaused, j_updated_at := now\<rparr>) ids m"
  have "queue_ok (m_queue (fst ?u))" by (rule bulk_update_ok [OF assms(1)]) (simp add: keeps_place_def)
  then show ?thesis using BulkPause assms(1)
    by (auto simp: Bulk_def Let_def intro!: chapter_update_ok split: prod.splits)
next
  case BulkResume
  let ?u = "bulk_update (\<lambda>j. j_status j = JobPaused) (\<lambda>j. j\<lparr>j_status := JobQueued, j_not_before := now, j_updated_at := now\<rparr>) ids m"
  have "queue_ok (m_queue (fst ?u))" by (rule bulk_update_ok [OF assms(1)]) (simp add: keeps_place_def)
  then show ?thesis using BulkResume assms(1) by (auto simp: Bulk_def Let_def split: prod.splits)
next
  case BulkRetry
  have "queue_ok (m_queue (fst (bulk_update (\<lambda>j. j_status j = JobFailed) (requeued now) ids m)))"
    by (rule bulk_update_ok [OF assms(1)]) (simp add: keeps_place_def requeued_def)
  then show ?thesis using BulkRetry assms(1) by (auto simp: Bulk_def Let_def split: prod.splits)
next
  case BulkRemove
  then show ?thesis using bulk_remove_ok [OF assms(1), of now False ids 0 None] assms(1)
    by (auto simp: Bulk_def Let_def split: prod.splits)
next
  case BulkBlocklist
  then show ?thesis using bulk_remove_ok [OF assms(1), of now True ids 0 None] assms(1)
    by (auto simp: Bulk_def Let_def split: prod.splits)
qed (use assms Move_ok in \<open>auto simp: Bulk_def split: sum.splits\<close>)

lemma job_progress_ok: "queue_ok (m_queue m) \<Longrightarrow> queue_ok (m_queue (fst (job_progress now job d t m)))"
  by (auto simp: job_progress_def Let_def keeps_place_def intro!: write_job_ok)

lemma mark_queue [simp]:
  "queue_ok (m_queue (markProcessed now f p sec m)) = queue_ok (m_queue m)"
  "queue_ok (m_queue (markProcessRetry now f msg m)) = queue_ok (m_queue m)"
  "queue_ok (m_queue (markProcessFailed now f msg m)) = queue_ok (m_queue m)"
  by (simp_all add: markProcessed_def markProcessRetry_def markProcessFailed_def split: option.split)

lemma fail_crashed_ok: "queue_ok (m_queue m) \<Longrightarrow> queue_ok (m_queue (fail_crashed now job m))"
  by (auto simp: fail_crashed_def Let_def keeps_place_def intro!: Record_ok write_job_ok)

lemma failCrashedProcessing_ok: "queue_ok (m_queue m) \<Longrightarrow> queue_ok (m_queue (failCrashedProcessing now live m))"
proof -
  have "queue_ok (m_queue m) \<Longrightarrow> queue_ok (m_queue (foldl (\<lambda>m job. fail_crashed now job m) m js))" for js m
    by (induction js arbitrary: m) (auto intro: fail_crashed_ok)
  then show "queue_ok (m_queue m) \<Longrightarrow> ?thesis" by (simp add: failCrashedProcessing_def)
qed

lemma back_to_queue_ok:
  assumes "queue_ok s" and "\<And>j. P j \<Longrightarrow> j_status j \<in> runningStatuses"
  shows "queue_ok (s\<lparr>q_jobs := upd_where P (back_to_queue now) (q_jobs s)\<rparr>)"
proof (rule queue_ok_jobs [OF assms(1)])
  show "ranks_ok (upd_where P (back_to_queue now) (q_jobs s))"
    by (rule ranks_ok_upd) (use assms(1) in \<open>auto simp: back_to_queue_def queue_ok_def\<close>)
  show "one_active (upd_where P (back_to_queue now) (q_jobs s))"
    by (rule one_active_upd)
       (use assms in \<open>auto simp: back_to_queue_def queue_ok_def runningStatuses_def activeStatuses_def\<close>)
qed

lemma Start_ok: "queue_ok (m_queue m) \<Longrightarrow> queue_ok (m_queue (Start now live m))"
  by (auto simp: Start_def intro!: back_to_queue_ok failCrashedProcessing_ok)

lemma Release_ok: "queue_ok (m_queue m) \<Longrightarrow> queue_ok (m_queue (Release now m))"
  by (auto simp: Release_def Let_def intro!: back_to_queue_ok)

section \<open>Steps\<close>

text \<open>
  Every operation of the queue, the searcher and the manager as a step of the manager's state;
  each runs on the state the ones before it left, in any order.  \<open>room\<close> keeps the table below
  the \<open>2 ^ 32\<close> rows ranks can be renumbered for.
\<close>

abbreviation room :: "manager_state \<Rightarrow> nat \<Rightarrow> bool" where
  "room m n \<equiv> small_queue (q_jobs (m_queue m)) n"

inductive mstep :: "manager_state \<Rightarrow> manager_state \<Rightarrow> bool" where
  enqueue: "room m 1 \<Longrightarrow> EnqueuePriority now (m_queue m) sid c r k u p = Inr (s, j, created) \<Longrightarrow> mstep m (m\<lparr>m_queue := s\<rparr>)"
| enqueue_late: "room m 1 \<Longrightarrow> enqueue_tx now (m_queue m) sid c r k u p = Inr (s, j, created) \<Longrightarrow> mstep m (m\<lparr>m_queue := s\<rparr>)"
| reprocess: "room m (length files + 1) \<Longrightarrow> EnqueueReprocessFiles now (m_queue m) files p = (s, n, e) \<Longrightarrow> mstep m (m\<lparr>m_queue := s\<rparr>)"
| raise: "room m 1 \<Longrightarrow> Raise now (m_queue m) c p = Inr s \<Longrightarrow> mstep m (m\<lparr>m_queue := s\<rparr>)"
| move: "room m 0 \<Longrightarrow> Move now (m_queue m) ids action anchor = Inr (s, n) \<Longrightarrow> mstep m (m\<lparr>m_queue := s\<rparr>)"
| sort: "SortByChapter now (m_queue m) ids = (s, n) \<Longrightarrow> mstep m (m\<lparr>m_queue := s\<rparr>)"
| remove: "Remove now (m_queue m) i b = Inr s \<Longrightarrow> mstep m (m\<lparr>m_queue := s\<rparr>)"
| retry: "Retry now (m_queue m) i = (s, ok) \<Longrightarrow> mstep m (m\<lparr>m_queue := s\<rparr>)"
| clear: "mstep m (on_queue (\<lambda>s. ClearFinished now s d) m)"
| search: "room m (length (rows (q_chapters (m_queue m))) + 1) \<Longrightarrow> cache_ok compile cache \<Longrightarrow>
    EvaluateAt compile now db cache (m_queue m) sid ids explicit p = (s, cache', n, e) \<Longrightarrow> mstep m (m\<lparr>m_queue := s\<rparr>)"
| bulk: "room m 0 \<Longrightarrow> Bulk now ids act m = (m', n, e) \<Longrightarrow> mstep m m'"
| claim_job: "claim now job (m_queue m) = (s, ok) \<Longrightarrow> mstep m (m\<lparr>m_queue := s\<rparr>)"
| set_status: "setStatus now job st cst (m_queue m) = (s, job') \<Longrightarrow> mstep m (m\<lparr>m_queue := s\<rparr>)"
| progress: "job_progress now job done_pages tot m = (m', job') \<Longrightarrow> mstep m m'"
| fail_job: "mstep m (on_queue (fail env now cancelled job jc err) m)"
| complete: "mstep m (on_queue (completeUnchanged now job) m)"
| marks: "m' \<in> {markProcessed now f ps sec m, markProcessRetry now f msg m, markProcessFailed now f msg m} \<Longrightarrow> mstep m m'"
| control: "m' \<in> {Hold on m, CancelAll m, Cancel i m} \<Longrightarrow> mstep m m'"
| start: "mstep m (Start now live m)"
| release: "mstep m (Release now m)"

lemma reprocess_ok:
  assumes "queue_ok s" and "small_queue (q_jobs s) (length files + 1)" and "EnqueueReprocessFiles now s files p = (s', n, e)"
  shows "queue_ok s'"
proof -
  obtain s1 where b: "reprocess_batches now files p s 0 = (s1, n, e)"
    and s': "s' = (if e = None \<and> n > 0 then signal (changed ''queue'' ''sync'' 0 s1) else s1)"
    using assms(3) by (auto simp: EnqueueReprocessFiles_def Let_def split: prod.splits)
  from reprocess_batches_spec [OF assms(1,2) b] show ?thesis by (simp add: s')
qed

lemma search_ok:
  assumes "queue_ok s" and "small_queue (q_jobs s) (length (rows (q_chapters s)) + 1)" and "cache_ok compile cache"
    and "EvaluateAt compile now db cache s sid ids explicit p = (s', cache', n, e)"
  shows "queue_ok s'"
proof (cases "load db s sid ids")
  case None
  with assms show ?thesis by (simp add: EvaluateAt_def)
next
  case (Some st)
  have "small_queue (q_jobs s) (length (st_chapters st) + 1)"
    using assms(2) load_chapters [OF Some] by (simp add: small_queue_def)
  with Some assms evaluate_chapters_spec [of compile now st sid explicit p "st_chapters st" s cache 0 s' cache' n e]
  show ?thesis by (simp add: EvaluateAt_def search_step_def)
qed

lemma mstep_ok:
  assumes "mstep m m'" and "queue_ok (m_queue m)" shows "queue_ok (m_queue m')"
  using assms
proof (cases rule: mstep.cases)
  case (bulk now ids act n e)
  then show ?thesis using Bulk_ok [OF assms(2) bulk(1), of now ids act] by simp
next
  case (progress now job d t job')
  then show ?thesis using job_progress_ok [OF assms(2), of now job d t] by simp
next
  case (sort now ids s n)
  then show ?thesis using SortByChapter_ok [OF assms(2), of now ids] by simp
next
  case (retry now i s ok)
  then show ?thesis using Retry_ok [OF assms(2), of now i] by simp
next
  case (claim_job now job s ok)
  then show ?thesis using claim_ok [OF assms(2), of now job] by simp
next
  case (set_status now job st cst s job')
  then show ?thesis using setStatus_ok [OF assms(2), of now job st cst] by simp
next
  case (enqueue now sid c r k u p s j created)
  then show ?thesis using EnqueuePriority_ok [OF assms(2) enqueue(2,3)] by simp
next
  case (enqueue_late now sid c r k u p s j created)
  then show ?thesis using enqueue_tx_ok [OF assms(2) enqueue_late(2,3)] by simp
next
  case (reprocess files now p s n e)
  then show ?thesis using reprocess_ok [OF assms(2) reprocess(2,3)] by simp
next
  case (raise now c p s)
  then show ?thesis using Raise_ok [OF assms(2) raise(2,3)] by simp
next
  case (move now ids action anchor s n)
  then show ?thesis using Move_ok [OF assms(2) move(2,3)] by simp
next
  case (remove now i b s)
  then show ?thesis using Remove_ok [OF assms(2) remove(2)] by simp
next
  case (search compile cache now db sid ids explicit p s cache' n e)
  then show ?thesis using search_ok [OF assms(2) search(2-4)] by simp
next
  case (marks now f ps sec msg)
  then show ?thesis using assms(2) by auto
next
  case (control on i)
  then show ?thesis using assms(2) by (auto simp: Hold_def CancelAll_def)
qed (simp_all add: ClearFinished_ok fail_ok completeUnchanged_ok Start_ok Release_ok assms(2))

interpretation manager: step_invariant mstep "\<lambda>m. queue_ok (m_queue m)"
  by unfold_locales (rule mstep_ok)

section \<open>Writes to one job\<close>

lemma write_job_Some:
  assumes "one_active (q_jobs s)" and "\<And>j. j_chapter_id (f j) = j_chapter_id j"
    and "\<And>j. j \<in> set (rows (q_jobs s)) \<Longrightarrow> j_id j = i \<Longrightarrow> active (f j) \<Longrightarrow> active j"
  shows "write_job g f i s =
    (s\<lparr>q_jobs := upd_where (\<lambda>j. j_id j = i \<and> (g \<longrightarrow> j_status j \<noteq> JobPaused)) f (q_jobs s)\<rparr>,
     n_where (\<lambda>j. j_id j = i \<and> (g \<longrightarrow> j_status j \<noteq> JobPaused)) (q_jobs s))"
proof -
  let ?P = "\<lambda>j. j_id j = i \<and> (g \<longrightarrow> j_status j \<noteq> JobPaused)"
  have "one_active (upd_where ?P f (q_jobs s))"
    by (rule one_active_map [OF _ assms(1), of "\<lambda>j. if ?P j then f j else j"]) (use assms(2,3) in \<open>auto simp: upd_where_def\<close>)
  then show ?thesis by (simp add: write_job_def update_jobs_def Let_def)
qed

lemma write_job_row:
  assumes "queue_ok s" and "j \<in> set (rows (q_jobs s))" and "j_status j \<noteq> JobPaused" and "active j"
    and "\<And>j. j_chapter_id (f j) = j_chapter_id j"
  shows "f j \<in> set (rows (q_jobs (fst (write_job g f (j_id j) s))))"
proof -
  have "twf j_id (q_jobs s)" and o: "one_active (q_jobs s)" using assms(1) by (auto simp: queue_ok_def ranks_ok_def)
  then have "k \<in> set (rows (q_jobs s)) \<Longrightarrow> j_id k = j_id j \<Longrightarrow> k = j" for k
    using jobs_table.unique assms(2) by blast
  with assms(4) have "write_job g f (j_id j) s =
    (s\<lparr>q_jobs := upd_where (\<lambda>k. j_id k = j_id j \<and> (g \<longrightarrow> j_status k \<noteq> JobPaused)) f (q_jobs s)\<rparr>,
     n_where (\<lambda>k. j_id k = j_id j \<and> (g \<longrightarrow> j_status k \<noteq> JobPaused)) (q_jobs s))"
    by (intro write_job_Some [OF o assms(5)]) blast
  with assms(2,3) show ?thesis by (force simp: set_upd_where)
qed

lemma write_job_other:
  assumes "j \<in> set (rows (q_jobs s))" and "j_id j \<noteq> i \<or> g \<and> j_status j = JobPaused"
  shows "j \<in> set (rows (q_jobs (fst (write_job g f i s))))"
  using assms by (force simp: write_job_def update_jobs_Some set_upd_where split: option.split)

text \<open>A row with this id that is paused; kept by every write of an attempt.\<close>

definition paused_row :: "int64 \<Rightarrow> queue_state \<Rightarrow> bool" where
  "paused_row i s \<longleftrightarrow> (\<exists>j \<in> set (rows (q_jobs s)). j_id j = i \<and> j_status j = JobPaused)"

lemma paused_write: "paused_row i s \<Longrightarrow> paused_row i (fst (write_job True f k s))"
  by (auto simp: paused_row_def dest: write_job_other [where g = True])

lemma paused_write_column:
  assumes "paused_row i s" and "\<And>j. j_id (f j) = j_id j \<and> j_status (f j) = j_status j"
  shows "paused_row i (fst (write_job g f k s))"
proof (cases "update_jobs (\<lambda>j. j_id j = k \<and> (g \<longrightarrow> j_status j \<noteq> JobPaused)) f (q_jobs s)")
  case None
  with assms(1) show ?thesis by (simp add: write_job_def)
next
  case (Some r)
  let ?h = "\<lambda>j. if j_id j = k \<and> (g \<longrightarrow> j_status j \<noteq> JobPaused) then f j else j"
  have "q_jobs (fst (write_job g f k s)) = upd_where (\<lambda>j. j_id j = k \<and> (g \<longrightarrow> j_status j \<noteq> JobPaused)) f (q_jobs s)"
  proof -
    obtain t n where r: "r = (t, n)" by fastforce
    then have "t = upd_where (\<lambda>j. j_id j = k \<and> (g \<longrightarrow> j_status j \<noteq> JobPaused)) f (q_jobs s)"
      using Some by (simp add: update_jobs_Some)
    then show ?thesis using Some r by (simp add: write_job_def)
  qed
  note q = this
  obtain j where j: "j \<in> set (rows (q_jobs s))" "j_id j = i" "j_status j = JobPaused"
    using assms(1) by (auto simp: paused_row_def)
  have "?h j \<in> set (rows (q_jobs (fst (write_job g f k s))))" unfolding q by (rule upd_where_member [OF j(1)])
  then show ?thesis unfolding paused_row_def using assms(2) j(2,3) by (intro bexI [of _ "?h j"]) auto
qed

lemma paused_frames [simp]:
  "paused_row i (changed r a k s) = paused_row i s" "paused_row i (signal s) = paused_row i s"
  "paused_row i (publish ev k s) = paused_row i s" "paused_row i (Record now sid c e t d s) = paused_row i s"
  "paused_row i (set_chapter_state now ch st s) = paused_row i s"
  "paused_row i (s\<lparr>q_chapters := t'\<rparr>) = paused_row i s"
  by (simp_all add: paused_row_def publish_def)

lemma paused_reset [simp]: "paused_row i (case resetChapterState now c s of Inl _ \<Rightarrow> s | Inr x \<Rightarrow> x) = paused_row i s"
  by (cases "resetChapterState now c s") (auto dest: resetChapterState_set)

lemma paused_blocklist [simp]: "paused_row i (case BlocklistRelease now r m s of Inl _ \<Rightarrow> s | Inr x \<Rightarrow> x) = paused_row i s"
proof (cases "BlocklistRelease now r m s")
  case (Inr x)
  from BlocklistRelease_frames [OF Inr] Inr show ?thesis by (simp add: paused_row_def)
qed simp

lemma paused_give_up: "paused_row i s \<Longrightarrow> paused_row i (give_up now job jc err s)"
  unfolding give_up_def Let_def by (auto intro!: paused_write split: option.splits)

lemma paused_requeue: "paused_row i s \<Longrightarrow> paused_row i (requeue now job d s)"
  by (simp add: requeue_def Let_def paused_write)

lemma paused_fail: "paused_row i s \<Longrightarrow> paused_row i (fail env now cancelled job jc err s)"
  unfolding fail_def exhausted_def Let_def
  by (auto intro!: paused_write paused_requeue paused_give_up paused_write_column split: option.splits)

section \<open>Properties\<close>

definition ex_manager :: manager_state where
  "ex_manager = \<lparr>m_queue = ex_queue, m_files = \<lparr>rows = [], seq = 0\<rparr>, m_running = [], m_running_src = (\<lambda>_. 0), m_local = 0,
     m_last_maint = 0, m_was_busy = False, m_held = False, m_last_persist = (\<lambda>_. 0), m_cancelled = [],
     m_has_tasks = False, m_task_cancels = []\<rparr>"

text \<open>
  C5: The queue's invariant holds in every reachable state, whatever the order of operations: at most
  one unfinished job per chapter, distinct ranks inside the limit, unique ids, and every release
  on the blocklist at most once.
\<close>

theorem queue_invariant:
  assumes "mstep\<^sup>*\<^sup>* m m'" and "queue_ok (m_queue m)"
  shows "queue_ok (m_queue m')"
  using assms by (rule manager.reachable)

theorem queue_invariant_witness: "queue_ok (m_queue (Release 9 (Start 8 {} ex_manager)))"
proof (rule queue_invariant)
  show "mstep\<^sup>*\<^sup>* ex_manager (Release 9 (Start 8 {} ex_manager))"
    by (rule rtranclp.rtrancl_into_rtrancl [OF r_into_rtranclp]) (rule mstep.start mstep.release)+
  show "queue_ok (m_queue ex_manager)" by (simp add: ex_manager_def ex_queue_inv)
qed



text \<open>
  C8: A job is claimed by exactly one attempt: a claim succeeds exactly when the job is queued at that
  moment, and after a successful claim no other claim of the job succeeds, even from an older
  snapshot of the queue.
\<close>

theorem claim_exclusive:
  assumes "queue_ok s"
  shows "(snd (claim now job s) \<longleftrightarrow> (\<exists>j \<in> set (rows (q_jobs s)). j_id j = j_id job \<and> j_status j = JobQueued))
    \<and> \<not> snd (claim now' job (fst (claim now job s)))"
proof -
  let ?P = "\<lambda>j. j_id j = j_id job \<and> j_status j = JobQueued"
  let ?f = "\<lambda>j. j\<lparr>j_status := JobDownloading, j_updated_at := now\<rparr>"
  have o: "one_active (q_jobs s)" and d: "distinct (map j_id (rows (q_jobs s)))"
    using assms by (auto simp: queue_ok_def ranks_ok_def twf_def)
  have "one_active (upd_where ?P ?f (q_jobs s))" by (rule one_active_upd [OF _ o]) (auto simp: activeStatuses_def)
  then have c: "claim now job s = (s\<lparr>q_jobs := upd_where ?P ?f (q_jobs s)\<rparr>, n_where ?P (q_jobs s) = 1)"
    by (simp add: claim_def update_jobs_def Let_def)
  have "length (filter ?P js) \<le> 1" if "distinct (map j_id js)" for js
    using that by (induction js) (auto simp: filter_empty_conv image_iff split: if_splits)
  from this [OF d] have "n_where ?P (q_jobs s) \<le> 1" by (simp add: n_where_def)
  then have n1: "n_where ?P (q_jobs s) = 1 \<longleftrightarrow> n_where ?P (q_jobs s) \<noteq> 0" by linarith
  have "snd (claim now' job s1) \<Longrightarrow> n_where ?P (q_jobs s1) = 1" for s1
    by (auto simp: claim_def update_jobs_Some split: option.splits)
  moreover have "n_where ?P (upd_where ?P ?f (q_jobs s)) = 0" by (auto simp: n_where_0_iff set_upd_where)
  ultimately have "\<not> snd (claim now' job (s\<lparr>q_jobs := upd_where ?P ?f (q_jobs s)\<rparr>))" by fastforce
  with n1 show ?thesis unfolding c by (auto simp: n_where_0_iff)
qed

theorem claim_exclusive_witness:
  "snd (claim 9 sample_job ex_queue) \<and> \<not> snd (claim 10 sample_job (fst (claim 9 sample_job ex_queue)))"
  using claim_exclusive [OF ex_queue_inv(1), of 9 sample_job 10] by (simp add: ex_queue_def samples)

section \<open>After a failure\<close>

lemma reset_frames [simp]:
  "q_jobs (case resetChapterState now c s of Inl _ \<Rightarrow> s | Inr x \<Rightarrow> x) = q_jobs s"
  "q_blocklist (case resetChapterState now c s of Inl _ \<Rightarrow> s | Inr x \<Rightarrow> x) = q_blocklist s"
  "q_releases (case resetChapterState now c s of Inl _ \<Rightarrow> s | Inr x \<Rightarrow> x) = q_releases s"
  by (cases "resetChapterState now c s"; auto dest: resetChapterState_set)+

lemma publish_frames [simp]:
  "q_jobs (publish e i s) = q_jobs s" "q_blocklist (publish e i s) = q_blocklist s" "q_releases (publish e i s) = q_releases s"
  by (simp_all add: publish_def)

lemma give_up_frames:
  "q_jobs (give_up now job jc err s) = q_jobs (fst (write_job True (\<lambda>j. j\<lparr>j_status := JobFailed, j_attempt := j_attempt job,
      j_error := j_error job, j_updated_at := j_updated_at job\<rparr>) (j_id job) s))"
  "q_blocklist (give_up now job jc err s) = q_blocklist s" "q_releases (give_up now job jc err s) = q_releases s"
  by (simp_all add: give_up_def Let_def split: option.split)

lemma requeue_frames [simp]:
  "q_blocklist (requeue now job d s) = q_blocklist s" "q_releases (requeue now job d s) = q_releases s"
  by (simp_all add: requeue_def Let_def)

lemma untried_cong: "q_blocklist s' = q_blocklist s \<Longrightarrow> q_releases s' = q_releases s \<Longrightarrow> untried s' c = untried s c"
  by (simp add: untried_def blocked_release_def)

text \<open>The row of a job that an attempt is working on.\<close>

definition running_row :: "download_job \<Rightarrow> queue_state \<Rightarrow> bool" where
  "running_row j s \<longleftrightarrow> j \<in> set (rows (q_jobs s)) \<and> j_status j \<in> runningStatuses"

lemma running_row_active: "running_row j s \<Longrightarrow> active j \<and> j_status j \<noteq> JobPaused"
  by (auto simp: running_row_def runningStatuses_def activeStatuses_def)

lemma requeue_row:
  assumes "queue_ok s" and "running_row j s" and "j_id job = j_id j"
  shows "\<exists>j' \<in> set (rows (q_jobs (requeue now job d s))). j_id j' = j_id j \<and> j_status j' = JobQueued
    \<and> j_attempt j' = j_attempt job \<and> j_not_before j' = now + d \<and> j_release_id j' = j_release_id job"
proof -
  let ?f = "\<lambda>j. j\<lparr>j_status := JobQueued, j_attempt := j_attempt job, j_error := j_error job,
      j_not_before := now + d, j_updated_at := j_updated_at job, j_release_id := j_release_id job\<rparr>"
  have "?f j \<in> set (rows (q_jobs (fst (write_job True ?f (j_id j) s))))"
    by (rule write_job_row [OF assms(1)]) (use assms(2) running_row_active [OF assms(2)] in \<open>auto simp: running_row_def\<close>)
  then show ?thesis using assms(3) by (intro bexI [of _ "?f j"]) (auto simp: requeue_def Let_def)
qed

lemma give_up_row:
  assumes "queue_ok s" and "running_row j s" and "j_id job = j_id j"
  shows "\<exists>j' \<in> set (rows (q_jobs (give_up now job jc err s))). j_id j' = j_id j \<and> j_status j' = JobFailed"
proof -
  let ?f = "\<lambda>j. j\<lparr>j_status := JobFailed, j_attempt := j_attempt job, j_error := j_error job, j_updated_at := j_updated_at job\<rparr>"
  have "?f j \<in> set (rows (q_jobs (fst (write_job True ?f (j_id j) s))))"
    by (rule write_job_row [OF assms(1)]) (use assms(2) running_row_active [OF assms(2)] in \<open>auto simp: running_row_def\<close>)
  then show ?thesis unfolding give_up_frames(1) assms(3) by (intro bexI [of _ "?f j"]) auto
qed

lemma fail_exhausted:
  assumes "cooldownUntil (fe_gov env) err jc = 0" and "\<not> re_infra err"
    and "re_permanent err \<or> (if fe_max_attempts env \<le> 0 then 3 else fe_max_attempts env) \<le> j_attempt job + 1"
  shows "fail env now False job jc err s =
    exhausted env now (job\<lparr>j_error := re_msg err, j_updated_at := now, j_attempt := j_attempt job + 1\<rparr>) jc err s"
  using assms by (auto simp: fail_def Let_def)

lemma exhausted_progress:
  assumes ok: "queue_ok s" and cache: "cache_ok (fe_compile env) (fe_cache env)" and row: "running_row j s" and id: "j_id job = j_id j"
    and job: "j_kind job = JobKindDownload" "j_release_id job = Some rid" and r: "tget r_id rid (q_releases s) = Some r"
    and u: "r \<in> set (untried s (c_id (jc_chapter x)))"
    and src: "\<And>b. b \<in> set (rows (q_blocklist s)) \<Longrightarrow> b_series_source_id b = r_series_source_id r \<Longrightarrow> b_series_id b = r_series_id r"
    and s': "s' = exhausted env now job (Some x) err s"
  shows "length (untried s' (c_id (jc_chapter x))) < length (untried s (c_id (jc_chapter x)))
    \<and> (\<exists>j' \<in> set (rows (q_jobs s')). j_id j' = j_id j \<and>
          (j_status j' = JobFailed \<or> j_status j' = JobQueued \<and> j_attempt j' = 0 \<and>
             (\<exists>r' \<in> set (untried s' (c_id (jc_chapter x))). j_release_id j' = Some (r_id r'))))"
proof -
  let ?c = "c_id (jc_chapter x)"
  obtain s1 where b: "BlocklistRelease now rid (re_msg err) s = Inr s1" using r by (simp add: BlocklistRelease_def Let_def)
  have ok1: "queue_ok s1" by (rule BlocklistRelease_ok [OF ok b])
  have row1: "running_row j s1" using row BlocklistRelease_frames [OF b] by (simp add: running_row_def)
  note P = BlocklistRelease_untried [OF r b src]
  have less: "length (untried s1 ?c) < length (untried s ?c)" by (rule untried_decreases [OF u]) (use P in auto)
  show ?thesis
  proof (cases "NextCandidate (fe_compile env) now (fe_db env) (fe_cache env) s1 (s_id (jc_series x)) ?c")
    case None
    then have e: "s' = give_up now job (Some x) err s1" using job b by (simp add: s' exhausted_def)
    have "untried s' ?c = untried s1 ?c" unfolding e by (rule untried_cong) (simp_all add: give_up_frames)
    with less give_up_row [OF ok1 row1 id, of now "Some x" err] show ?thesis unfolding e by auto
  next
    case (Some p)
    obtain cand upgrade where p: "p = (cand, upgrade)" by fastforce
    let ?f = "\<lambda>j. j\<lparr>j_is_upgrade := upgrade\<rparr>"
    let ?job = "job\<lparr>j_release_id := Some (r_id (cand_release cand)), j_is_upgrade := upgrade, j_attempt := 0\<rparr>"
    let ?s2 = "fst (write_job False ?f (j_id j) s1)"
    have e: "s' = requeue now ?job (5 * second) ?s2" using job b Some p id by (simp add: s' exhausted_def)
    have ok2: "queue_ok ?s2" by (rule write_job_ok [OF ok1]) (simp add: keeps_place_def)
    have "?f j \<in> set (rows (q_jobs ?s2))"
      by (rule write_job_row [OF ok1]) (use row1 running_row_active [OF row1] in \<open>auto simp: running_row_def\<close>)
    then have row2: "running_row (?f j) ?s2" using row1 by (simp add: running_row_def)
    have "untried s' ?c = untried s1 ?c" unfolding e by (rule untried_cong) simp_all
    moreover have "cand_release cand \<in> set (untried s1 ?c)" using next_candidate_untried [OF cache Some [unfolded p]] by simp
    moreover from requeue_row [OF ok2 row2, of ?job now "5 * second"] id
    have "\<exists>j' \<in> set (rows (q_jobs s')). j_id j' = j_id j \<and> j_status j' = JobQueued \<and> j_attempt j' = 0
        \<and> j_release_id j' = Some (r_id (cand_release cand))" unfolding e by auto
    ultimately show ?thesis using less by auto
  qed
qed

text \<open>
  C6: A download cannot keep failing for ever: when an attempt fails for good (a permanent error, or no
  attempts left), the release is blocklisted, so fewer releases of the chapter are left to try, and
  the job either ends as failed or is queued again, with its attempts reset, for one of those left.
\<close>

theorem fail_progress:
  assumes "queue_ok s" and "cache_ok (fe_compile env) (fe_cache env)"
    and "running_row j s" and "j_id job = j_id j" and "j_kind job = JobKindDownload" and "j_release_id job = Some rid"
    and "tget r_id rid (q_releases s) = Some r" and "r \<in> set (untried s (c_id (jc_chapter x)))"
    and "\<And>b. b \<in> set (rows (q_blocklist s)) \<Longrightarrow> b_series_source_id b = r_series_source_id r \<Longrightarrow> b_series_id b = r_series_id r"
    and "cooldownUntil (fe_gov env) err (Some x) = 0" and "\<not> re_infra err"
    and "re_permanent err \<or> (if fe_max_attempts env \<le> 0 then 3 else fe_max_attempts env) \<le> j_attempt job + 1"
    and "s' = fail env now False job (Some x) err s"
  shows "length (untried s' (c_id (jc_chapter x))) < length (untried s (c_id (jc_chapter x)))
    \<and> (\<exists>j' \<in> set (rows (q_jobs s')). j_id j' = j_id j \<and>
          (j_status j' = JobFailed \<or> j_status j' = JobQueued \<and> j_attempt j' = 0 \<and>
             (\<exists>r' \<in> set (untried s' (c_id (jc_chapter x))). j_release_id j' = Some (r_id r'))))"
proof -
  have e: "s' = exhausted env now (job\<lparr>j_error := re_msg err, j_updated_at := now, j_attempt := j_attempt job + 1\<rparr>) (Some x) err s"
    unfolding assms(13) by (rule fail_exhausted [OF assms(10-12)])
  show ?thesis by (rule exhausted_progress [OF assms(1-3) _ _ _ assms(7-9) e]) (use assms(4-6) in simp_all)
qed

definition ex_failing :: queue_state where
  "ex_failing = ex_idle\<lparr>q_jobs := \<lparr>rows = [sample_job\<lparr>j_status := JobDownloading\<rparr>], seq = 1\<rparr>,
     q_releases := \<lparr>rows = [sample_release, sample_release\<lparr>r_id := 2, r_chapter_url := ''/c/1b''\<rparr>], seq = 2\<rparr>\<rparr>"

definition ex_env :: fail_env where
  "ex_env = \<lparr>fe_compile = ex_compile, fe_db = ex_db, fe_cache = Map.empty, fe_gov = None, fe_max_attempts = 3\<rparr>"

definition ex_ctx :: job_ctx where
  "ex_ctx = \<lparr>jc_series = sample_series, jc_profile = sample_profile, jc_chapter = sample_chapter, jc_release = Some sample_release,
     jc_link = Some sample_source, jc_file = None\<rparr>"

definition ex_error :: run_error where
  "ex_error = \<lparr>re_msg = ''404'', re_net = False, re_permanent = True, re_infra = False, re_cooling = None, re_throttled = False\<rparr>"

lemma ex_failing_ok: "queue_ok ex_failing" "running_row (sample_job\<lparr>j_status := JobDownloading\<rparr>) ex_failing"
  by (auto simp: queue_ok_def ranks_ok_def one_active_def twf_def ex_failing_def ex_idle_def ex_queue_def samples
      rankLimit_def running_row_def runningStatuses_def)

theorem fail_progress_witness:
  "length (untried (fail ex_env 9 False sample_job (Some ex_ctx) ex_error ex_failing) 1) < length (untried ex_failing 1)"
proof -
  have u: "sample_release \<in> set (untried ex_failing (c_id (jc_chapter ex_ctx)))"
    by (simp add: untried_def ex_failing_def ex_idle_def ex_queue_def ex_ctx_def samples blocked_release_def)
  have c: "cache_ok (fe_compile ex_env) (fe_cache ex_env)" using ex_cache by (simp add: ex_env_def)
  have g: "tget r_id 1 (q_releases ex_failing) = Some sample_release" by (simp add: tget_def ex_failing_def samples)
  from fail_progress [OF ex_failing_ok(1) c ex_failing_ok(2) _ _ _ g u, of sample_job ex_error]
  show ?thesis
    by (simp add: ex_env_def ex_error_def cooldownUntil_def ex_failing_def ex_idle_def ex_queue_def ex_ctx_def samples)
qed

text \<open>
  Trouble on this side never costs a release: a throttled catalog postpones the job to the end of the
  cooldown without counting an attempt, and an infrastructure error requeues it with a delay of at most
  an hour; in both cases the blocklist is unchanged.
\<close>

theorem fail_postpones:
  assumes "queue_ok s" and "running_row j s" and "j_id job = j_id j" and "0 \<le> j_attempt job"
    and "cooldownUntil (fe_gov env) err jc \<noteq> 0 \<or> re_infra err"
    and "s' = fail env now False job jc err s"
  shows "q_blocklist s' = q_blocklist s
    \<and> (\<exists>j' \<in> set (rows (q_jobs s')). j_id j' = j_id j \<and> j_status j' = JobQueued \<and> j_release_id j' = j_release_id job
         \<and> (if cooldownUntil (fe_gov env) err jc \<noteq> 0
             then j_not_before j' = cooldownUntil (fe_gov env) err jc \<and> j_attempt j' = j_attempt j
             else now < j_not_before j' \<and> j_not_before j' \<le> now + hour \<and> j_attempt j' = j_attempt job + 1))"
proof (cases "cooldownUntil (fe_gov env) err jc \<noteq> 0")
  case True
  let ?u = "cooldownUntil (fe_gov env) err jc"
  let ?f = "\<lambda>j. j\<lparr>j_status := JobQueued, j_error := re_msg err, j_not_before := ?u, j_updated_at := now, j_release_id := j_release_id job\<rparr>"
  have e: "s' = changed ''queue'' ''updated'' (j_id job) (fst (write_job True ?f (j_id job) s))"
    using True by (simp add: assms(6) fail_def Let_def)
  have "?f j \<in> set (rows (q_jobs (fst (write_job True ?f (j_id j) s))))"
    by (rule write_job_row [OF assms(1)]) (use assms(2) running_row_active [OF assms(2)] in \<open>auto simp: running_row_def\<close>)
  then show ?thesis unfolding e assms(3) using True by (auto intro!: bexI [of _ "?f j"])
next
  case False
  let ?job = "job\<lparr>j_error := re_msg err, j_updated_at := now, j_attempt := j_attempt job + 1\<rparr>"
  let ?d = "infra_delay (j_attempt job + 1)"
  have e: "s' = requeue now ?job ?d s" using False assms(5) by (simp add: assms(6) fail_def Let_def)
  have d: "0 < ?d" "?d \<le> hour" using assms(4) by (auto simp: infra_delay_def go_defs)
  obtain j' where "j' \<in> set (rows (q_jobs s'))" "j_id j' = j_id j" "j_status j' = JobQueued"
    "j_attempt j' = j_attempt job + 1" "j_not_before j' = now + ?d" "j_release_id j' = j_release_id job"
    using requeue_row [OF assms(1,2), of ?job now ?d] assms(3) unfolding e by auto
  with d False show ?thesis unfolding e by auto
qed

theorem fail_postpones_witness:
  "q_blocklist (fail ex_env 9 False sample_job (Some ex_ctx) (ex_error\<lparr>re_infra := True\<rparr>) ex_failing) = q_blocklist ex_failing"
proof -
  have a: "j_id sample_job = j_id (sample_job\<lparr>j_status := JobDownloading\<rparr>)" "0 \<le> j_attempt sample_job" by (simp_all add: samples)
  have i: "cooldownUntil (fe_gov ex_env) (ex_error\<lparr>re_infra := True\<rparr>) (Some ex_ctx) \<noteq> 0 \<or> re_infra (ex_error\<lparr>re_infra := True\<rparr>)"
    by simp
  show ?thesis by (rule conjunct1 [OF fail_postpones [OF ex_failing_ok a i refl]])
qed

section \<open>Recovery\<close>

lemma fail_crashed_jobs:
  assumes "queue_ok (m_queue m)" and "job \<in> set (rows (q_jobs (m_queue m)))"
  shows "q_jobs (m_queue (fail_crashed now job m)) = upd_where (\<lambda>j. j_id j = j_id job)
    (\<lambda>j. j\<lparr>j_status := JobFailed, j_attempt := j_attempt job + 1, j_error := ErrStoppedWhileProcessing, j_updated_at := now\<rparr>)
    (q_jobs (m_queue m))"
proof -
  have m: "q_jobs (m_queue (markProcessFailed now f msg m)) = q_jobs (m_queue m)" for f msg
    by (simp add: markProcessFailed_def split: option.split)
  let ?F = "\<lambda>j. j\<lparr>j_status := JobFailed, j_attempt := j_attempt job + 1, j_error := ErrStoppedWhileProcessing, j_updated_at := now\<rparr>"
  have "q_jobs (fst (write_job False ?F (j_id job) s)) = upd_where (\<lambda>j. j_id j = j_id job) ?F (q_jobs (m_queue m))"
    if "q_jobs s = q_jobs (m_queue m)" for s
    by (subst write_job_Some) (use assms(1) that in \<open>auto simp: queue_ok_def activeStatuses_def\<close>)
  then show ?thesis unfolding fail_crashed_def Let_def by (simp add: m)
qed

text \<open>What a row becomes while crashed processing jobs are failed.\<close>

definition crashed_to :: "download_job set \<Rightarrow> download_job \<Rightarrow> download_job \<Rightarrow> bool" where
  "crashed_to js j j' \<longleftrightarrow> (if j \<in> js then j_id j' = j_id j \<and> j_status j' = JobFailed else j' = j)"

lemma fail_all_crashed:
  assumes "queue_ok (m_queue m)" and "set js \<subseteq> set (rows (q_jobs (m_queue m)))" and "distinct (map j_id js)"
  shows "list_all2 (crashed_to (set js)) (rows (q_jobs (m_queue m)))
    (rows (q_jobs (m_queue (foldl (\<lambda>m job. fail_crashed now job m) m js))))"
  using assms
proof (induction js arbitrary: m)
  case Nil
  then show ?case by (simp add: crashed_to_def list.rel_refl)
next
  case (Cons x js)
  let ?m = "fail_crashed now x m"
  let ?f = "\<lambda>j. if j_id j = j_id x then j\<lparr>j_status := JobFailed, j_attempt := j_attempt x + 1,
      j_error := ErrStoppedWhileProcessing, j_updated_at := now\<rparr> else j"
  have x: "x \<in> set (rows (q_jobs (m_queue m)))" using Cons.prems(2) by simp
  have rw: "rows (q_jobs (m_queue ?m)) = map ?f (rows (q_jobs (m_queue m)))"
    by (simp add: fail_crashed_jobs [OF Cons.prems(1) x] upd_where_def)
  have u: "k \<in> set (rows (q_jobs (m_queue m))) \<Longrightarrow> j_id k = j_id x \<Longrightarrow> k = x" for k
    using jobs_table.unique [of "q_jobs (m_queue m)"] Cons.prems(1) x by (auto simp: queue_ok_def ranks_ok_def)
  have nx: "k \<in> set js \<Longrightarrow> j_id k \<noteq> j_id x" for k using Cons.prems(3) by (auto simp: image_iff)
  then have fx: "k \<in> set js \<Longrightarrow> ?f k = k" for k by simp
  have "set js \<subseteq> set (rows (q_jobs (m_queue ?m)))"
  proof
    fix k assume k: "k \<in> set js"
    then have "?f k \<in> set (map ?f (rows (q_jobs (m_queue m))))" using Cons.prems(2) by auto
    then show "k \<in> set (rows (q_jobs (m_queue ?m)))" unfolding rw fx [OF k] .
  qed
  moreover have "distinct (map j_id js)" using Cons.prems(3) by simp
  ultimately have "list_all2 (crashed_to (set js)) (rows (q_jobs (m_queue ?m)))
      (rows (q_jobs (m_queue (foldl (\<lambda>m job. fail_crashed now job m) ?m js))))"
    by (rule Cons.IH [OF fail_crashed_ok [OF Cons.prems(1)]])
  then have IH: "list_all2 (crashed_to (set js)) (map ?f (rows (q_jobs (m_queue m))))
      (rows (q_jobs (m_queue (foldl (\<lambda>m job. fail_crashed now job m) ?m js))))" by (simp only: rw)
  have "crashed_to (set (x # js)) j j'"
    if j: "j \<in> set (rows (q_jobs (m_queue m)))" and c: "crashed_to (set js) (?f j) j'" for j j'
  proof (cases "j = x")
    case True
    have "?f x \<notin> set js" using nx [of "?f x"] by auto
    with True c show ?thesis by (simp add: crashed_to_def)
  next
    case False
    with u [OF j] have "?f j = j" by auto
    with False c show ?thesis by (auto simp: crashed_to_def)
  qed
  with IH show ?case by (auto simp: list_all2_conv_all_nth)
qed


text \<open>
  Recovery at start: of the jobs no worker holds none is left in a running state; those that were
  processing an existing file when the program died are failed, the other running ones are queued
  again, and every other job, in particular those a worker holds, is as it was.
\<close>

theorem start_recovers:
  assumes "queue_ok (m_queue m)"
  shows "list_all2 (\<lambda>j j'. j_id j' = j_id j \<and>
      (if j_status j \<in> runningStatuses \<and> j_id j \<notin> live
       then (if j_kind j = JobKindReprocess \<and> j_status j = JobProcessing then j_status j' = JobFailed else j' = back_to_queue now j)
       else j' = j))
    (rows (q_jobs (m_queue m))) (rows (q_jobs (m_queue (Start now live m))))"
proof -
  let ?js = "filter (\<lambda>j. j_kind j = JobKindReprocess \<and> j_status j = JobProcessing \<and> j_id j \<notin> live) (rows (q_jobs (m_queue m)))"
  have d: "distinct (map j_id (rows (q_jobs (m_queue m))))" using assms by (simp add: queue_ok_def ranks_ok_def twf_def)
  have "list_all2 (crashed_to (set ?js)) (rows (q_jobs (m_queue m))) (rows (q_jobs (m_queue (failCrashedProcessing now live m))))"
    unfolding failCrashedProcessing_def by (rule fail_all_crashed [OF assms]) (use d in \<open>auto simp: distinct_map_filter\<close>)
  then show ?thesis
    by (auto simp: list_all2_conv_all_nth Start_def upd_where_def crashed_to_def runningStatuses_def back_to_queue_def split: if_splits)
qed

theorem start_recovers_witness:
  "map j_status (rows (q_jobs (m_queue (Start 9 {} (ex_manager\<lparr>m_queue := ex_failing\<rparr>))))) = [JobQueued]"
proof -
  have ok: "queue_ok (m_queue (ex_manager\<lparr>m_queue := ex_failing\<rparr>))" by (simp add: ex_failing_ok)
  have r: "rows (q_jobs ex_failing) = [sample_job\<lparr>j_status := JobDownloading\<rparr>]" by (simp add: ex_failing_def)
  from start_recovers [OF ok, of "{}" 9] show ?thesis
    by (auto simp: r list_all2_Cons1 runningStatuses_def back_to_queue_def samples)
qed

end
