(* ===== verification/Fetch.thy ===== *)
theory Fetch
  imports JobControl
begin

text \<open>
  Fetching the pages of a chapter (\<open>internal/downloads/fetch.go\<close>): the retries of one page and
  the goroutines that fetch the pages of a chapter, at most \<open>PageConcurrency\<close> at a time, which
  stop starting work after the first error.  The source module's answers are parameters.
\<close>

section \<open>One page\<close>

text \<open>\<open>imagecheck.Ext\<close> and \<open>cbz.PageName\<close> with the \<open>%04d\<close> it formats.\<close>

definition Ext :: "string \<Rightarrow> string" where
  "Ext format = (if format = ''jpeg'' then ''.jpg'' else if format = [] then ''.bin'' else ''.'' @ format)"

definition pad4 :: "nat \<Rightarrow> string" where
  "pad4 n = replicate (4 - length (nat_digits n)) (CHR ''0'') @ nat_digits n"

definition PageName :: "nat \<Rightarrow> string \<Rightarrow> string" where
  "PageName i ext = pad4 (i + 1) @ ext"

text \<open>How one try of a page ends, and the error of a context that ends while waiting for a try.\<close>

datatype page_try = FetchFailed run_error | BodyFailed run_error | NotImage run_error | WriteFailed run_error
  | GotImage string int int

record page_source =
  src_try :: "nat \<Rightarrow> page_try"
  src_wait :: "nat \<Rightarrow> run_error option"

definition infra :: "run_error \<Rightarrow> run_error" where
  "infra e = e\<lparr>re_infra := True\<rparr>"

definition zero_page :: page_file where
  "zero_page = \<lparr>pf_name = [], pf_format = [], pf_width = 0, pf_height = 0\<rparr>"

definition wait_before :: "page_source \<Rightarrow> nat \<Rightarrow> run_error option" where
  "wait_before p a = (if a > 0 then src_wait p a else None)"

text \<open>The loop from attempt \<open>a\<close> with \<open>k\<close> tries left and the last error.\<close>

fun fetch_tries :: "nat \<Rightarrow> page_source \<Rightarrow> nat \<Rightarrow> nat \<Rightarrow> run_error option \<Rightarrow> run_error + page_file" where
  "fetch_tries i p a 0 lastErr = (case lastErr of None \<Rightarrow> Inr zero_page | Some e \<Rightarrow> Inl e)"
| "fetch_tries i p a (Suc k) lastErr =
     (case wait_before p a of
        Some e \<Rightarrow> Inl e
      | None \<Rightarrow>
          (case src_try p a of
             FetchFailed e \<Rightarrow> fetch_tries i p (a + 1) k (Some (classify e))
           | BodyFailed e \<Rightarrow> fetch_tries i p (a + 1) k (Some e)
           | NotImage e \<Rightarrow> fetch_tries i p (a + 1) k (Some e)
           | WriteFailed e \<Rightarrow> Inl (infra e)
           | GotImage fmt w h \<Rightarrow> Inr \<lparr>pf_name = PageName i (Ext fmt), pf_format = fmt, pf_width = w, pf_height = h\<rparr>))"

definition fetchPage :: "nat \<Rightarrow> page_source \<Rightarrow> nat \<Rightarrow> run_error + page_file" where
  "fetchPage i p retries = fetch_tries i p 0 retries None"

definition retry_wait :: "nat \<Rightarrow> duration" where
  "retry_wait attempt = 2 ^ (2 * attempt) * second"

section \<open>The pages of a chapter\<close>

text \<open>
  What \<open>fetchPages\<close> settles before any page is fetched: the module may be gone, listing the
  pages may fail, the chapter may be too short.
\<close>

record fetch_setup =
  fu_module :: "run_error option"
  fu_list :: "(run_error \<times> bool) + page_source list"
  fu_concurrency :: int
  fu_retries :: int

definition too_short :: "int \<Rightarrow> int \<Rightarrow> run_error" where
  "too_short n want = \<lparr>re_msg = ''chapter has '' @ format_int n @ '' pages, profile requires at least '' @ format_int want,
     re_net = False, re_permanent = True, re_infra = False, re_cooling = None, re_throttled = False\<rparr>"

definition list_pages :: "fetch_setup \<Rightarrow> profile_config \<Rightarrow> run_error + page_source list" where
  "list_pages u cfg =
     (case fu_module u of
        Some e \<Rightarrow> Inl (infra e)
      | None \<Rightarrow>
          (case fu_list u of
             Inl (e, notFound) \<Rightarrow> Inl (if notFound then permanent e else classify e)
           | Inr pages \<Rightarrow>
               if pc_min_pages cfg > 0 \<and> int (length pages) < pc_min_pages cfg
               then Inl (too_short (int (length pages)) (pc_min_pages cfg)) else Inr pages))"

definition page_concurrency :: "fetch_setup \<Rightarrow> nat" where
  "page_concurrency u = nat (if fu_concurrency u \<le> 0 then 2 else fu_concurrency u)"

definition page_retries :: "fetch_setup \<Rightarrow> nat" where
  "page_retries u = nat (if fu_retries u \<le> 0 then 3 else fu_retries u)"

text \<open>A page's goroutine: waiting for the semaphore, fetching, and how it ended.\<close>

datatype page_state = Waiting | Fetching | Fetched page_file | Broken | Skipped

record fetch_state =
  ft_pages :: "page_state list"
  ft_error :: "run_error option"
  ft_done :: nat

definition page_error :: "nat \<Rightarrow> run_error \<Rightarrow> run_error" where
  "page_error i e = e\<lparr>re_msg := ''page '' @ format_int (int i + 1) @ '': '' @ re_msg e\<rparr>"

definition fetch_start :: "nat \<Rightarrow> fetch_state" where
  "fetch_start n = \<lparr>ft_pages = replicate n Waiting, ft_error = None, ft_done = 0\<rparr>"

definition in_flight :: "fetch_state \<Rightarrow> nat" where
  "in_flight x = length (filter (\<lambda>p. p = Fetching) (ft_pages x))"

definition page_ended :: "nat \<Rightarrow> run_error + page_file \<Rightarrow> fetch_state \<Rightarrow> fetch_state" where
  "page_ended i r x =
     (case r of
        Inl e \<Rightarrow> x\<lparr>ft_pages := (ft_pages x)[i := Broken],
                 ft_error := (if ft_error x = None then Some (page_error i e) else ft_error x)\<rparr>
      | Inr pf \<Rightarrow> x\<lparr>ft_pages := (ft_pages x)[i := Fetched pf], ft_done := ft_done x + 1\<rparr>)"

text \<open>
  The goroutines' steps, for the concurrency limit and the result of each page: one passes the
  semaphore and finds no error yet or stops, or one that fetches ends.
\<close>

inductive fstep :: "nat \<Rightarrow> (nat \<Rightarrow> run_error + page_file) \<Rightarrow> fetch_state \<Rightarrow> fetch_state \<Rightarrow> bool" for conc res where
  page_begins: "i < length (ft_pages x) \<Longrightarrow> ft_pages x ! i = Waiting \<Longrightarrow> in_flight x < conc \<Longrightarrow> ft_error x = None \<Longrightarrow>
    fstep conc res x (x\<lparr>ft_pages := (ft_pages x)[i := Fetching]\<rparr>)"
| page_stops: "i < length (ft_pages x) \<Longrightarrow> ft_pages x ! i = Waiting \<Longrightarrow> in_flight x < conc \<Longrightarrow> ft_error x \<noteq> None \<Longrightarrow>
    fstep conc res x (x\<lparr>ft_pages := (ft_pages x)[i := Skipped]\<rparr>)"
| page_ends: "i < length (ft_pages x) \<Longrightarrow> ft_pages x ! i = Fetching \<Longrightarrow> fstep conc res x (page_ended i (res i) x)"

inductive_cases fstep_cases: "fstep conc res x y"

text \<open>After \<open>wg.Wait\<close>.\<close>

definition all_ended :: "fetch_state \<Rightarrow> bool" where
  "all_ended x \<longleftrightarrow> (\<forall>p \<in> set (ft_pages x). p \<noteq> Waiting \<and> p \<noteq> Fetching)"

definition page_of :: "page_state \<Rightarrow> page_file" where
  "page_of p = (case p of Fetched pf \<Rightarrow> pf | _ \<Rightarrow> zero_page)"

definition fetch_result :: "fetch_state \<Rightarrow> run_error + page_file list" where
  "fetch_result x = (case ft_error x of Some e \<Rightarrow> Inl e | None \<Rightarrow> Inr (map page_of (ft_pages x)))"

section \<open>Retries\<close>

lemma fetch_tries_image:
  assumes "fetch_tries i p a k last_err = Inr pf" and "last_err \<noteq> None \<or> k > 0"
  shows "\<exists>m fmt w h. a \<le> m \<and> m < a + k \<and> src_try p m = GotImage fmt w h \<and>
    pf = \<lparr>pf_name = PageName i (Ext fmt), pf_format = fmt, pf_width = w, pf_height = h\<rparr>"
  using assms
proof (induction i p a k last_err rule: fetch_tries.induct)
  case (1 i p a e)
  then show ?case by (simp split: option.splits)
next
  case (2 i p a k e)
  from 2(4) have w: "wait_before p a = None" by (simp split: option.splits)
  have more: ?case if "fetch_tries i p (a + 1) k e' = Inr pf" "e' \<noteq> None"
      "\<lbrakk>fetch_tries i p (a + 1) k e' = Inr pf; e' \<noteq> None \<or> 0 < k\<rbrakk> \<Longrightarrow> \<exists>m fmt w h. a + 1 \<le> m \<and> m < a + 1 + k \<and>
        src_try p m = GotImage fmt w h \<and> pf = \<lparr>pf_name = PageName i (Ext fmt), pf_format = fmt, pf_width = w, pf_height = h\<rparr>" for e'
  proof -
    from that obtain m fmt w h where "a + 1 \<le> m" "m < a + 1 + k" "src_try p m = GotImage fmt w h"
      "pf = \<lparr>pf_name = PageName i (Ext fmt), pf_format = fmt, pf_width = w, pf_height = h\<rparr>" by blast
    then show ?thesis by (intro exI [of _ m] exI conjI) auto
  qed
  show ?case
  proof (cases "src_try p a")
    case (FetchFailed e')
    with 2(4) w show ?thesis by (intro more [OF _ _ 2(1) [OF w FetchFailed]]) auto
  next
    case (BodyFailed e')
    with 2(4) w show ?thesis by (intro more [OF _ _ 2(2) [OF w BodyFailed]]) auto
  next
    case (NotImage e')
    with 2(4) w show ?thesis by (intro more [OF _ _ 2(3) [OF w NotImage]]) auto
  next
    case (GotImage fmt w h)
    with 2(4) w show ?thesis by (intro exI [of _ a]) simp
  qed (use 2(4) w in simp)
qed

section \<open>Invariant and progress\<close>

definition fetch_ok :: "nat \<Rightarrow> (nat \<Rightarrow> run_error + page_file) \<Rightarrow> nat \<Rightarrow> fetch_state \<Rightarrow> bool" where
  "fetch_ok conc res n x \<longleftrightarrow>
     length (ft_pages x) = n \<and> in_flight x \<le> conc \<and>
     ft_done x = length (filter (\<lambda>p. \<exists>pf. p = Fetched pf) (ft_pages x)) \<and>
     (\<forall>i < n. \<forall>pf. ft_pages x ! i = Fetched pf \<longrightarrow> res i = Inr pf) \<and>
     (\<forall>i < n. ft_pages x ! i \<in> {Broken, Skipped} \<longrightarrow> ft_error x \<noteq> None) \<and>
     (\<forall>e. ft_error x = Some e \<longrightarrow> (\<exists>i < n. \<exists>e'. res i = Inl e' \<and> e = page_error i e'))"

lemma n_filter_update:
  assumes "i < length xs" and "\<not> P (xs ! i)"
  shows "length (filter P (xs[i := y])) = length (filter P xs) + (if P y then 1 else 0)"
proof -
  have "filter P xs = filter P (take i xs) @ filter P (drop (Suc i) xs)"
    using assms id_take_nth_drop [OF assms(1)] by (metis filter.simps(2) filter_append)
  moreover have "filter P (xs[i := y]) = filter P (take i xs) @ filter P (y # drop (Suc i) xs)"
    using assms(1) by (simp add: upd_conv_take_nth_drop)
  ultimately show ?thesis by simp
qed

lemma n_filter_drop:
  assumes "i < length xs" and "P (xs ! i)" and "\<not> P y"
  shows "Suc (length (filter P (xs[i := y]))) = length (filter P xs)"
proof -
  have "filter P xs = filter P (take i xs) @ xs ! i # filter P (drop (Suc i) xs)"
    using assms id_take_nth_drop [OF assms(1)] by (metis filter.simps(2) filter_append)
  moreover have "filter P (xs[i := y]) = filter P (take i xs) @ filter P (drop (Suc i) xs)"
    using assms(1,3) by (simp add: upd_conv_take_nth_drop)
  ultimately show ?thesis by simp
qed

lemma page_update_ok:
  assumes ok: "fetch_ok conc res n x" and i: "i < n" and f: "\<not> (\<exists>pf. ft_pages x ! i = Fetched pf)"
    and p: "\<And>pf. p = Fetched pf \<Longrightarrow> res i = Inr pf" and e: "p \<in> {Broken, Skipped} \<Longrightarrow> e' \<noteq> None"
    and e': "ft_error x \<noteq> None \<Longrightarrow> e' = ft_error x" "\<And>e. e' = Some e \<Longrightarrow> ft_error x = None \<Longrightarrow> \<exists>d. res i = Inl d \<and> e = page_error i d"
    and c: "in_flight (x\<lparr>ft_pages := (ft_pages x)[i := p]\<rparr>) \<le> conc"
    and d: "d = ft_done x + (if \<exists>pf. p = Fetched pf then 1 else 0)"
  shows "fetch_ok conc res n \<lparr>ft_pages = (ft_pages x)[i := p], ft_error = e', ft_done = d\<rparr>"
proof -
  have l: "length (ft_pages x) = n" using ok by (simp add: fetch_ok_def)
  have n: "length (filter (\<lambda>p. \<exists>pf. p = Fetched pf) ((ft_pages x)[i := p])) = d"
    using ok i f d l by (simp add: fetch_ok_def n_filter_update)
  have c': "in_flight \<lparr>ft_pages = (ft_pages x)[i := p], ft_error = e', ft_done = d\<rparr> \<le> conc" using c by (simp add: in_flight_def)
  have r: "(ft_pages x)[i := p] ! j = Fetched pf \<longrightarrow> res j = Inr pf" if "j < n" for j pf
    using ok that l p by (cases "j = i") (auto simp: fetch_ok_def nth_list_update)
  have b: "(ft_pages x)[i := p] ! j \<in> {Broken, Skipped} \<longrightarrow> e' \<noteq> None" if "j < n" for j
  proof (cases "j = i")
    case False
    have "ft_pages x ! j \<in> {Broken, Skipped} \<Longrightarrow> ft_error x \<noteq> None" using ok that unfolding fetch_ok_def by blast
    with False e'(1) show ?thesis by auto
  qed (use e i l in auto)
  have er: "\<exists>j < n. \<exists>d. res j = Inl d \<and> e = page_error j d" if "e' = Some e" for e
  proof (cases "ft_error x")
    case None
    with e'(2) [OF that] i show ?thesis by blast
  next
    case (Some a)
    with e'(1) that ok show ?thesis by (auto simp: fetch_ok_def)
  qed
  show ?thesis unfolding fetch_ok_def using l n c' r b er by simp
qed

lemma ft_pages_update: "x\<lparr>ft_pages := ps\<rparr> = \<lparr>ft_pages = ps, ft_error = ft_error x, ft_done = ft_done x\<rparr>"
  by (cases x) simp

lemma in_flight_update:
  assumes "i < length (ft_pages x)" and "ft_pages x ! i \<noteq> Fetching"
  shows "in_flight (x\<lparr>ft_pages := (ft_pages x)[i := p]\<rparr>) = in_flight x + (if p = Fetching then 1 else 0)"
  using assms by (simp add: in_flight_def n_filter_update)

lemma in_flight_end:
  assumes "i < length (ft_pages x)" and "ft_pages x ! i = Fetching" and "p \<noteq> Fetching"
  shows "Suc (in_flight (x\<lparr>ft_pages := (ft_pages x)[i := p]\<rparr>)) = in_flight x"
  using assms by (simp add: in_flight_def n_filter_drop)

lemma fstep_ok:
  assumes "fstep conc res x y" and ok: "fetch_ok conc res n x"
  shows "fetch_ok conc res n y"
proof -
  have l: "length (ft_pages x) = n" using ok by (simp add: fetch_ok_def)
  from assms(1) show ?thesis
  proof cases
    case (page_begins i)
    with page_update_ok [OF ok, of i Fetching "ft_error x" "ft_done x"] l in_flight_update [of i x Fetching]
    show ?thesis by (simp add: ft_pages_update)
  next
    case (page_stops i)
    with page_update_ok [OF ok, of i Skipped "ft_error x" "ft_done x"] l in_flight_update [of i x Skipped]
    show ?thesis by (simp add: ft_pages_update)
  next
    case (page_ends i)
    have c: "in_flight (x\<lparr>ft_pages := (ft_pages x)[i := p]\<rparr>) \<le> conc" if "p \<noteq> Fetching" for p
      using in_flight_end [OF page_ends(2,3) that] ok by (simp add: fetch_ok_def)
    show ?thesis
    proof (cases "res i")
      case (Inl e)
      let ?e = "if ft_error x = None then Some (page_error i e) else ft_error x"
      have "y = \<lparr>ft_pages = (ft_pages x)[i := Broken], ft_error = ?e, ft_done = ft_done x\<rparr>"
        using page_ends(1) Inl by (simp add: page_ended_def)
      then show ?thesis
        using page_update_ok [OF ok, of i Broken ?e "ft_done x"] c [of Broken] page_ends(2,3) l Inl by (simp split: if_splits)
    next
      case (Inr pf)
      then have "y = \<lparr>ft_pages = (ft_pages x)[i := Fetched pf], ft_error = ft_error x, ft_done = ft_done x + 1\<rparr>"
        using page_ends(1) by (simp add: page_ended_def)
      then show ?thesis
        using page_update_ok [OF ok, of i "Fetched pf" "ft_error x" "ft_done x + 1"] c [of "Fetched pf"] page_ends(2,3) l Inr by simp
    qed
  qed
qed

text \<open>What is left to do: every page waits, then is fetched.\<close>

definition left :: "fetch_state \<Rightarrow> nat" where
  "left x = 2 * length (filter (\<lambda>p. p = Waiting) (ft_pages x)) + in_flight x"

lemma fstep_left:
  assumes "fstep conc res x y" shows "left y < left x"
proof -
  have w: "Suc (length (filter (\<lambda>p. p = Waiting) ((ft_pages x)[i := p]))) = length (filter (\<lambda>p. p = Waiting) (ft_pages x))"
    if "i < length (ft_pages x)" "ft_pages x ! i = Waiting" "p \<noteq> Waiting" for i p
    using n_filter_drop [of i "ft_pages x" "\<lambda>p. p = Waiting" p] that by simp
  from assms show ?thesis
  proof cases
    case (page_begins i)
    with w [of i Fetching] show ?thesis by (simp add: left_def in_flight_update)
  next
    case (page_stops i)
    with w [of i Skipped] show ?thesis by (simp add: left_def in_flight_update)
  next
    case (page_ends i)
    have u: "left (x\<lparr>ft_pages := (ft_pages x)[i := p]\<rparr>) < left x" if "p \<noteq> Fetching" "p \<noteq> Waiting" for p
      using in_flight_end [OF page_ends(2,3) that(1)] page_ends(2,3) that(2) by (simp add: left_def n_filter_update)
    have e: "left y = left (x\<lparr>ft_pages := ft_pages y\<rparr>)" by (simp add: left_def in_flight_def)
    show ?thesis using u page_ends(1) unfolding e by (auto simp: page_ended_def split: sum.split)
  qed
qed

lemma fetch_goes_on:
  assumes "\<not> all_ended x" and "0 < conc" shows "\<exists>y. fstep conc res x y"
proof (cases "in_flight x = 0")
  case True
  with assms(1) obtain i where i: "i < length (ft_pages x)" "ft_pages x ! i = Waiting"
    by (auto simp: all_ended_def in_flight_def filter_empty_conv in_set_conv_nth)
  then show ?thesis using page_begins [OF i] page_stops [OF i] True assms(2) by (cases "ft_error x") auto
next
  case False
  then obtain i where "i < length (ft_pages x)" "ft_pages x ! i = Fetching"
    by (auto simp: in_flight_def filter_empty_conv in_set_conv_nth)
  then show ?thesis using page_ends by blast
qed

interpretation fetching: measured_steps "fstep conc res" "fetch_ok conc res n" left for conc res n
  by unfold_locales (auto intro: fstep_ok fstep_left)

section \<open>Properties\<close>

text \<open>
  C19: Fetching a chapter's pages always ends, with the right answer, whatever order the goroutines run
  in: never more pages than allowed are fetched at once, as long as pages are left some
  goroutine can go on, there are at most two steps per page, and in the end the answer is either
  all pages, each in its place, or an error some page really had.
\<close>

theorem fetch_complete:
  assumes "(fstep conc res)\<^sup>*\<^sup>* (fetch_start n) x" and "0 < conc"
  shows "in_flight x \<le> conc \<and> (all_ended x \<or> (\<exists>y. fstep conc res x y)) \<and> (\<forall>k y. (fstep conc res ^^ k) (fetch_start n) y \<longrightarrow> k \<le> 2 * n) \<and>
    (all_ended x \<longrightarrow>
       (case fetch_result x of
          Inr pages \<Rightarrow> length pages = n \<and> (\<forall>i < n. res i = Inr (pages ! i))
        | Inl e \<Rightarrow> \<exists>i < n. \<exists>e'. res i = Inl e' \<and> e = page_error i e'))"
proof -
  have start: "fetch_ok conc res n (fetch_start n)" by (simp add: fetch_ok_def fetch_start_def in_flight_def)
  with assms(1) have ok: "fetch_ok conc res n x" by (rule fetching.reachable)
  have r: "case fetch_result x of Inr pages \<Rightarrow> length pages = n \<and> (\<forall>i < n. res i = Inr (pages ! i))
      | Inl e \<Rightarrow> \<exists>i < n. \<exists>e'. res i = Inl e' \<and> e = page_error i e'" if a: "all_ended x"
  proof (cases "ft_error x")
    case None
    have "res i = Inr (page_of (ft_pages x ! i))" if "i < n" for i
    proof -
      have "ft_pages x ! i \<in> set (ft_pages x)" "ft_pages x ! i \<notin> {Broken, Skipped}" using ok that None by (auto simp: fetch_ok_def)
      with a obtain pf where "ft_pages x ! i = Fetched pf" by (cases "ft_pages x ! i") (auto simp: all_ended_def)
      with ok that show ?thesis by (auto simp: fetch_ok_def page_of_def)
    qed
    then show ?thesis using ok None by (simp add: fetch_result_def fetch_ok_def)
  qed (use ok in \<open>simp add: fetch_result_def fetch_ok_def\<close>)
  have "left (fetch_start n) = 2 * n" by (simp add: left_def fetch_start_def in_flight_def)
  then have b: "k \<le> 2 * n" if "(fstep conc res ^^ k) (fetch_start n) y" for k y
    using fetching.bounded [OF that start] by simp
  show ?thesis using ok r b fetch_goes_on [OF _ assms(2)] by (auto simp: fetch_ok_def)
qed

definition ex_page :: page_file where
  "ex_page = \<lparr>pf_name = PageName 0 (Ext ''jpeg''), pf_format = ''jpeg'', pf_width = 800, pf_height = 1200\<rparr>"

theorem fetch_complete_witness:
  "\<exists>x. (fstep 1 (\<lambda>_. Inr ex_page))\<^sup>*\<^sup>* (fetch_start 1) x \<and> all_ended x \<and> fetch_result x = Inr [ex_page] \<and> in_flight x \<le> 1"
proof -
  let ?res = "\<lambda>_. Inr ex_page" and ?x = "fetch_start 1"
  let ?y = "?x\<lparr>ft_pages := (ft_pages ?x)[0 := Fetching]\<rparr>" let ?z = "page_ended 0 (?res 0) ?y"
  have "fstep 1 ?res ?x ?y" by (rule page_begins) (simp_all add: fetch_start_def in_flight_def)
  moreover have "fstep 1 ?res ?y ?z" by (rule page_ends) (simp_all add: fetch_start_def)
  ultimately have r: "(fstep 1 ?res)\<^sup>*\<^sup>* ?x ?z" by (meson r_into_rtranclp rtranclp.rtrancl_into_rtrancl)
  from fetch_complete [OF r] have "in_flight ?z \<le> 1" by simp
  moreover have "all_ended ?z" "fetch_result ?z = Inr [ex_page]"
    by (simp_all add: all_ended_def fetch_result_def fetch_start_def page_ended_def page_of_def)
  ultimately show ?thesis using r by blast
qed

section \<open>Names in archive order\<close>

text \<open>
  Archives sort pages by name; up to 9999 pages the padded names keep the pages' order.
\<close>

lemma nat_digits_4:
  assumes "n < 10000"
  shows "pad4 n = map (\<lambda>d. char_of (48 + d)) [n div 1000, n div 100 mod 10, n div 10 mod 10, n mod 10]"
proof -
  have z: "CHR ''0'' = char_of (48 :: nat)" by code_simp
  have d: "nat_digits m = (if m < 10 then [char_of (48 + m)] else nat_digits (m div 10) @ [char_of (48 + m mod 10)])" for m
    by (rule nat_digits.simps)
  consider "n < 10" | "10 \<le> n" "n < 100" | "100 \<le> n" "n < 1000" | "1000 \<le> n" by linarith
  then show ?thesis
  proof cases
    case 1
    then show ?thesis by (simp add: pad4_def d [of n] z numeral_3_eq_3)
  next
    case 2
    then have "n div 10 < 10" by simp
    with 2 show ?thesis by (simp add: pad4_def d [of n] d [of "n div 10"] z numeral_2_eq_2)
  next
    case 3
    then have "n div 100 < 10" "\<not> n div 10 < 10" by simp_all
    with 3 show ?thesis by (simp add: pad4_def d [of n] d [of "n div 10"] d [of "n div 100"] z div_mult2_eq [symmetric])
  next
    case 4
    then have "n div 1000 < 10" "\<not> n div 100 < 10" "\<not> n div 10 < 10" using assms by simp_all
    with 4 show ?thesis
      by (simp add: pad4_def d [of n] d [of "n div 10"] d [of "n div 100"] d [of "n div 1000"] z div_mult2_eq [symmetric])
  qed
qed

lemma digits_less:
  fixes a3 a2 a1 a0 b3 b2 b1 b0 :: nat
  assumes "1000 * a3 + 100 * a2 + 10 * a1 + a0 < 1000 * b3 + 100 * b2 + 10 * b1 + b0"
    and "a2 < 10" "a1 < 10" "a0 < 10" "b2 < 10" "b1 < 10" "b0 < 10"
  shows "a3 < b3 \<or> a3 = b3 \<and> (a2 < b2 \<or> a2 = b2 \<and> (a1 < b1 \<or> a1 = b1 \<and> a0 < b0))"
proof -
  have "a3 \<le> b3" using assms by linarith
  moreover have "a2 \<le> b2" if "a3 = b3" using assms that by linarith
  moreover have "a1 \<le> b1" if "a3 = b3" "a2 = b2" using assms that by linarith
  moreover have "a0 < b0" if "a3 = b3" "a2 = b2" "a1 = b1" using assms that by linarith
  ultimately show ?thesis by (auto simp: le_less)
qed

lemma page_names_sorted:
  assumes "i < j" and "j < 9999"
  shows "PageName i e < PageName j e'"
proof -
  define a b where "a = i + 1" and "b = j + 1"
  have ab: "a < b" "b < 10000" using assms by (simp_all add: a_def b_def)
  have o: "of_char (char_of (48 + x)) = 48 + x" if "x < 10" for x :: nat using that by simp
  have c: "char_of (48 + x) < (char_of (48 + y) :: char) \<longleftrightarrow> x < y" "char_of (48 + x) = (char_of (48 + y) :: char) \<longleftrightarrow> x = y"
    if "x < 10" "y < 10" for x y :: nat
  proof -
    show "char_of (48 + x) < (char_of (48 + y) :: char) \<longleftrightarrow> x < y" unfolding less_char_def o [OF that(1)] o [OF that(2)] by simp
    show "char_of (48 + x) = (char_of (48 + y) :: char) \<longleftrightarrow> x = y"
    proof
      assume "char_of (48 + x) = (char_of (48 + y) :: char)"
      then have "of_char (char_of (48 + x) :: char) = (of_char (char_of (48 + y) :: char) :: nat)" by (rule arg_cong)
      then show "x = y" unfolding o [OF that(1)] o [OF that(2)] by simp
    qed simp
  qed
  have t: "a div 1000 < 10" "b div 1000 < 10" using ab by simp_all
  have n: "n = 1000 * (n div 1000) + 100 * (n div 100 mod 10) + 10 * (n div 10 mod 10) + n mod 10" for n :: nat
  proof -
    have e: "n div 100 = n div 10 div 10" "n div 1000 = n div 10 div 10 div 10" by (simp_all flip: div_mult2_eq)
    have "n = 10 * (n div 10) + n mod 10" "n div 10 = 10 * (n div 10 div 10) + n div 10 mod 10"
      "n div 10 div 10 = 10 * (n div 10 div 10 div 10) + n div 10 div 10 mod 10" by (simp_all only: mult_div_mod_eq)
    then show ?thesis unfolding e by linarith
  qed
  have l: "a div 1000 < b div 1000 \<or> a div 1000 = b div 1000 \<and> (a div 100 mod 10 < b div 100 mod 10 \<or>
      a div 100 mod 10 = b div 100 mod 10 \<and> (a div 10 mod 10 < b div 10 mod 10 \<or>
        a div 10 mod 10 = b div 10 mod 10 \<and> a mod 10 < b mod 10))"
  proof (rule digits_less)
    show "1000 * (a div 1000) + 100 * (a div 100 mod 10) + 10 * (a div 10 mod 10) + a mod 10
        < 1000 * (b div 1000) + 100 * (b div 100 mod 10) + 10 * (b div 10 mod 10) + b mod 10"
      using ab(1) by (simp only: n [of a, symmetric] n [of b, symmetric])
  qed simp_all
  show ?thesis
    using l ab t unfolding PageName_def a_def [symmetric] b_def [symmetric] by (auto simp: nat_digits_4 c)
qed

end
