(* ===== verification/Live.thy ===== *)
theory Live
  imports Model
begin

text \<open>
  The progress of running jobs (\<open>internal/downloads/live.go\<close>, \<open>internal/progress\<close>): a table in
  memory of one snapshot per job, published to the event bus at most about once a second.
\<close>

record progress_event =
  ev_stage :: string
  ev_done :: int
  ev_total :: int
  ev_bytes_in :: int64
  ev_bytes_out :: int64

record live_progress =
  lp_job_id :: int64
  lp_kind :: string
  lp_stage :: string
  lp_done :: int
  lp_total :: int
  lp_bytes_in :: int64
  lp_bytes_out :: int64
  lp_rate :: float64
  lp_eta :: float64
  lp_stage_started :: time
  lp_job_started :: time

record live_job =
  lj_p :: live_progress
  lj_published :: time

record live =
  lv_jobs :: "int64 \<Rightarrow> live_job option"
  lv_bus :: "(time \<times> live_progress) list"

definition NewLive :: live where
  "NewLive = \<lparr>lv_jobs = (\<lambda>_. None), lv_bus = []\<rparr>"

definition new_progress :: "int64 \<Rightarrow> string \<Rightarrow> time \<Rightarrow> live_progress" where
  "new_progress i kind now = \<lparr>lp_job_id = i, lp_kind = kind, lp_stage = [], lp_done = 0, lp_total = 0, lp_bytes_in = 0,
     lp_bytes_out = 0, lp_rate = 0, lp_eta = 0, lp_stage_started = now, lp_job_started = now\<rparr>"

definition Live_start :: "time \<Rightarrow> int64 \<Rightarrow> string \<Rightarrow> live \<Rightarrow> live" where
  "Live_start now i kind l =
     l\<lparr>lv_jobs := (lv_jobs l)(i \<mapsto> \<lparr>lj_p = new_progress i kind now, lj_published = 0\<rparr>)\<rparr>"

definition seconds :: "duration \<Rightarrow> float64" where
  "seconds d = of_int d / of_int second"

text \<open>The snapshot after an event.\<close>

definition live_snap :: "time \<Rightarrow> progress_event \<Rightarrow> live_progress \<Rightarrow> live_progress" where
  "live_snap now ev p =
     (let started = (if lp_stage p \<noteq> ev_stage ev then now else lp_stage_started p);
          el = seconds (now - started);
          rate = (if el > 1 / 2 \<and> ev_done ev > 0 then of_int (ev_done ev) / el else 0)
      in p\<lparr>lp_stage_started := started, lp_stage := ev_stage ev, lp_done := ev_done ev, lp_total := ev_total ev,
           lp_bytes_in := ev_bytes_in ev, lp_bytes_out := ev_bytes_out ev, lp_rate := rate,
           lp_eta := (if el > 1 / 2 \<and> ev_done ev > 0 then of_int (ev_total ev - ev_done ev) / rate else 0)\<rparr>)"

definition publishes :: "time \<Rightarrow> progress_event \<Rightarrow> live_job \<Rightarrow> bool" where
  "publishes now ev j \<longleftrightarrow> lp_stage (lj_p j) \<noteq> ev_stage ev \<or> ev_done ev \<ge> ev_total ev \<or> now - lj_published j \<ge> second"

definition Live_update :: "time \<Rightarrow> int64 \<Rightarrow> progress_event \<Rightarrow> live \<Rightarrow> live" where
  "Live_update now i ev l =
     (case lv_jobs l i of
        None \<Rightarrow> l
      | Some j \<Rightarrow>
          (let snap = live_snap now ev (lj_p j); pub = publishes now ev j;
               j' = \<lparr>lj_p = snap, lj_published = (if pub then now else lj_published j)\<rparr>
           in l\<lparr>lv_jobs := (lv_jobs l)(i \<mapsto> j'), lv_bus := (if pub then lv_bus l @ [(now, snap)] else lv_bus l)\<rparr>))"

definition Live_finish :: "time \<Rightarrow> int64 \<Rightarrow> live \<Rightarrow> live" where
  "Live_finish now i l =
     (if lv_jobs l i = None then l
      else l\<lparr>lv_jobs := (lv_jobs l)(i := None),
             lv_bus := lv_bus l @ [(now, (new_progress i [] 0)\<lparr>lp_stage := ''done''\<rparr>)]\<rparr>)"

definition Live_get :: "int64 \<Rightarrow> live \<Rightarrow> live_progress option" where
  "Live_get i l = map_option lj_p (lv_jobs l i)"

section \<open>Sequences of reports\<close>

text \<open>A job's reports, each with its time.\<close>

primrec reports :: "int64 \<Rightarrow> (time \<times> progress_event) list \<Rightarrow> live \<Rightarrow> live" where
  "reports i [] l = l"
| "reports i (e # es) l = reports i es (Live_update (fst e) i (snd e) l)"

lemma reports_append: "reports i (es @ fs) l = reports i fs (reports i es l)"
  by (induction es arbitrary: l) auto

lemma Live_update_get:
  "Live_get i (Live_update now i ev l) = map_option (live_snap now ev) (Live_get i l)"
  "j \<noteq> i \<Longrightarrow> Live_get j (Live_update now i ev l) = Live_get j l"
  by (auto simp: Live_get_def Live_update_def Let_def split: option.splits)

text \<open>
  While a job reports one unfinished stage, its reports are published at least a second apart:
  the times published are ordered with gaps of a second.
\<close>

definition spaced :: "time list \<Rightarrow> bool" where
  "spaced ts \<longleftrightarrow> (\<forall>k. Suc k < length ts \<longrightarrow> ts ! Suc k - ts ! k \<ge> second)"

lemma spaced_snoc: "spaced (ts @ [t]) \<longleftrightarrow> spaced ts \<and> (ts \<noteq> [] \<longrightarrow> t - last ts \<ge> second)"
proof (cases "ts = []")
  case False
  then have "spaced (ts @ [t]) \<longleftrightarrow> (\<forall>k. Suc k \<le> length ts \<longrightarrow> (ts @ [t]) ! Suc k - ts ! k \<ge> second)"
    by (auto simp: spaced_def nth_append)
  also have "\<dots> \<longleftrightarrow> spaced ts \<and> (ts @ [t]) ! length ts - ts ! (length ts - 1) \<ge> second"
  proof -
    have "(\<forall>k. Suc k \<le> length ts \<longrightarrow> P k) \<longleftrightarrow> (\<forall>k. Suc k < length ts \<longrightarrow> P k) \<and> P (length ts - 1)" for P
    proof -
      obtain m where "length ts = Suc m" using False by (cases ts) auto
      then show ?thesis by (auto simp: le_less)
    qed
    then show ?thesis using False by (auto simp: spaced_def nth_append)
  qed
  finally show ?thesis using False by (simp add: last_conv_nth)
qed (simp add: spaced_def)

lemma reports_spaced:
  assumes "lv_jobs l i = Some j" and "lp_stage (lj_p j) = st" and "\<forall>e \<in> set es. ev_stage (snd e) = st \<and> ev_done (snd e) < ev_total (snd e)"
    and "spaced ts" and "ts \<noteq> [] \<longrightarrow> lj_published j = last ts"
  shows "\<exists>us. map fst (lv_bus (reports i es l)) = map fst (lv_bus l) @ us \<and> spaced (ts @ us)"
  using assms
proof (induction es arbitrary: l j ts)
  case Nil
  then show ?case by simp
next
  case (Cons e es)
  let ?l = "Live_update (fst e) i (snd e) l"
  let ?p = "publishes (fst e) (snd e) j"
  have p: "?p \<longleftrightarrow> fst e - lj_published j \<ge> second" using Cons.prems by (auto simp: publishes_def)
  define ts' where "ts' = (if ?p then ts @ [fst e] else ts)"
  obtain j' where j': "lv_jobs ?l i = Some j'" "lp_stage (lj_p j') = st" "lj_published j' = (if ?p then fst e else lj_published j)"
    "map fst (lv_bus ?l) = map fst (lv_bus l) @ (if ?p then [fst e] else [])"
    using Cons.prems by (auto simp: Live_update_def Let_def live_snap_def)
  have s: "spaced ts'" "ts' \<noteq> [] \<longrightarrow> lj_published j' = last ts'"
    using Cons.prems(4,5) p by (auto simp: ts'_def spaced_snoc j'(3))
  have es: "\<forall>e \<in> set es. ev_stage (snd e) = st \<and> ev_done (snd e) < ev_total (snd e)" using Cons.prems(3) by simp
  from Cons.IH [OF j'(1,2) es s] obtain us where us: "map fst (lv_bus (reports i es ?l)) = map fst (lv_bus ?l) @ us" "spaced (ts' @ us)"
    by blast
  then show ?case unfolding j'(4)
    by (intro exI [of _ "(if ?p then [fst e] else []) @ us"]) (auto simp: ts'_def)
qed

section \<open>Properties\<close>

text \<open>
  Progress is published at a bounded rate: the reports of a running job within one unfinished stage
  that reach the event bus are at least a second apart, however fast they come, while the
  snapshot a reader gets is always the latest report.
\<close>

theorem live_throttled:
  assumes "lv_jobs l i = Some j" and "\<forall>e \<in> set (es @ [e]). ev_stage (snd e) = lp_stage (lj_p j) \<and> ev_done (snd e) < ev_total (snd e)"
  shows "\<exists>us. map fst (lv_bus (reports i (es @ [e]) l)) = map fst (lv_bus l) @ us \<and> spaced us \<and>
    (\<exists>p. Live_get i (reports i (es @ [e]) l) = Some p \<and> lp_done p = ev_done (snd e) \<and> lp_total p = ev_total (snd e))"
proof -
  obtain us where us: "map fst (lv_bus (reports i (es @ [e]) l)) = map fst (lv_bus l) @ us" "spaced ([] @ us)"
    using reports_spaced [OF assms(1) refl assms(2), of "[]"] by (auto simp: spaced_def)
  have "Live_get i (reports i fs l) \<noteq> None" for fs
    using assms(1) by (induction fs rule: rev_induct) (auto simp: reports_append Live_update_get Live_get_def [of _ l])
  then obtain q where "Live_get i (reports i es l) = Some q" by blast
  then have "Live_get i (reports i (es @ [e]) l) = Some (live_snap (fst e) (snd e) q)"
    by (simp add: reports_append Live_update_get)
  then show ?thesis using us by (intro exI [of _ us]) (simp add: live_snap_def Let_def)
qed

theorem live_throttled_witness:
  "length (lv_bus (reports 7 (map (\<lambda>n. (n * (second div 2), \<lparr>ev_stage = [], ev_done = n, ev_total = 9, ev_bytes_in = 0, ev_bytes_out = 0\<rparr>)) [1, 2, 3, 4])
     (Live_start 0 7 ''download'' NewLive))) = 2 \<and>
   (\<exists>us. map fst (lv_bus (reports 7 ([] @ [(5, \<lparr>ev_stage = [], ev_done = 1, ev_total = 9, ev_bytes_in = 0, ev_bytes_out = 0\<rparr>)])
     (Live_start 0 7 ''download'' NewLive))) = us \<and> spaced us)"
proof
  show "length (lv_bus (reports 7 (map (\<lambda>n. (n * (second div 2), \<lparr>ev_stage = [], ev_done = n, ev_total = 9, ev_bytes_in = 0, ev_bytes_out = 0\<rparr>)) [1, 2, 3, 4])
     (Live_start 0 7 ''download'' NewLive))) = 2" by code_simp
  have "lv_jobs (Live_start 0 7 ''download'' NewLive) 7 = Some \<lparr>lj_p = new_progress 7 ''download'' 0, lj_published = 0\<rparr>"
    by (simp add: Live_start_def)
  from live_throttled [OF this, of "[]" "(5, \<lparr>ev_stage = [], ev_done = 1, ev_total = 9, ev_bytes_in = 0, ev_bytes_out = 0\<rparr>)"]
  show "\<exists>us. map fst (lv_bus (reports 7 ([] @ [(5, \<lparr>ev_stage = [], ev_done = 1, ev_total = 9, ev_bytes_in = 0, ev_bytes_out = 0\<rparr>)])
     (Live_start 0 7 ''download'' NewLive))) = us \<and> spaced us"
    by (simp add: new_progress_def) (simp add: Live_start_def NewLive_def)
qed

end
