(* ===== verification/Throttle.thy ===== *)
theory Throttle
  imports Model
begin

text \<open>
  The governor that throttles requests to catalogs: \<open>internal/sourcegov/sourcegov.go\<close> and the
  slot handling of \<open>wrap.go\<close>.  \<open>Acquire\<close> is split where other goroutines can run in between:
  \<open>acquire_enter\<close> is one round of its concurrency loop, \<open>acquire_rate\<close> one round of its rate
  loop; \<open>gstep\<close> interleaves the calls.  The draw of \<open>rand.Int64N\<close> is the argument \<open>rnd\<close>, tokens
  are rationals (float64 rounding is not modelled), and the configuration is the one that
  holds between two changes of the settings.
\<close>

section \<open>Configuration\<close>

record key =
  k_module :: int64
  k_source :: string

definition key_string :: "key \<Rightarrow> string" where
  "key_string k = format_int (k_module k) @ '':'' @ k_source k"

definition no_throttle :: throttle_config where
  "no_throttle = \<lparr>t_preset = PresetUnset, t_requests_per_minute = 0, t_burst = 0, t_min_delay_ms = 0, t_jitter_ms = 0,
     t_max_concurrent = 0, t_chapter_gap_min = 0, t_chapter_gap_max = 0, t_refresh_gap_min = 0, t_refresh_gap_max = 0\<rparr>"

fun Presets :: "preset \<Rightarrow> throttle_config option" where
  "Presets Fast = Some (no_throttle\<lparr>t_preset := Fast, t_max_concurrent := 5\<rparr>)"
| "Presets Normal = Some \<lparr>t_preset = Normal, t_requests_per_minute = 120, t_burst = 10, t_min_delay_ms = 0,
     t_jitter_ms = 250, t_max_concurrent = 3, t_chapter_gap_min = 2, t_chapter_gap_max = 6,
     t_refresh_gap_min = 1, t_refresh_gap_max = 4\<rparr>"
| "Presets Gentle = Some \<lparr>t_preset = Gentle, t_requests_per_minute = 30, t_burst = 3, t_min_delay_ms = 500,
     t_jitter_ms = 1500, t_max_concurrent = 1, t_chapter_gap_min = 10, t_chapter_gap_max = 30,
     t_refresh_gap_min = 5, t_refresh_gap_max = 15\<rparr>"
| "Presets _ = None"

definition over :: "int \<Rightarrow> int \<Rightarrow> int" where
  "over v dst = (if v \<noteq> 0 then v else dst)"

definition overlay :: "preset \<Rightarrow> throttle_config \<Rightarrow> throttle_config \<Rightarrow> throttle_config" where
  "overlay p l out =
     (if t_preset l \<noteq> PresetUnset \<and> t_preset l \<noteq> p then out
      else out\<lparr>
        t_requests_per_minute := over (t_requests_per_minute l) (t_requests_per_minute out),
        t_burst := over (t_burst l) (t_burst out),
        t_min_delay_ms := over (t_min_delay_ms l) (t_min_delay_ms out),
        t_jitter_ms := over (t_jitter_ms l) (t_jitter_ms out),
        t_max_concurrent := over (t_max_concurrent l) (t_max_concurrent out),
        t_chapter_gap_min := over (t_chapter_gap_min l) (t_chapter_gap_min out),
        t_chapter_gap_max := over (t_chapter_gap_max l) (t_chapter_gap_max out),
        t_refresh_gap_min := over (t_refresh_gap_min l) (t_refresh_gap_min out),
        t_refresh_gap_max := over (t_refresh_gap_max l) (t_refresh_gap_max out)\<rparr>)"

definition chosen_preset :: "throttle_config list \<Rightarrow> preset" where
  "chosen_preset layers = foldl (\<lambda>p l. if Presets (t_preset l) \<noteq> None then t_preset l else p) Normal layers"

definition Resolve :: "throttle_config list \<Rightarrow> throttle_config" where
  "Resolve layers =
     (let p = chosen_preset layers;
          base = (case Presets p of Some c \<Rightarrow> c | None \<Rightarrow> no_throttle);
          out = foldl (\<lambda>out l. overlay p l out) base layers
      in if t_max_concurrent out \<le> 0 then out\<lparr>t_max_concurrent := 1\<rparr> else out)"

section \<open>Errors\<close>

text \<open>
  An error as \<open>Classify\<close> sees it: a cooldown, a text, or a wrapper with its full text.  The
  text of a cooldown error is never read.
\<close>

datatype gov_error = ErrCoolingDown key time string | ErrText string | ErrWrapped string gov_error

fun CoolingDown :: "gov_error \<Rightarrow> (key \<times> time \<times> string) option" where
  "CoolingDown (ErrCoolingDown k until reason) = Some (k, until, reason)"
| "CoolingDown (ErrText msg) = None"
| "CoolingDown (ErrWrapped msg e) = CoolingDown e"

fun err_text :: "gov_error \<Rightarrow> string" where
  "err_text (ErrText msg) = msg"
| "err_text (ErrWrapped msg e) = msg"
| "err_text (ErrCoolingDown k until reason) = []"

definition Classify :: "gov_error option \<Rightarrow> string \<times> bool" where
  "Classify err =
     (case err of
        None \<Rightarrow> ([], False)
      | Some e \<Rightarrow>
          if CoolingDown e \<noteq> None then ([], False)
          else
            let msg = to_lower (err_text e) in
            if str_contains msg ''http error 429'' \<or> str_contains msg ''too many requests'' \<or> str_contains msg ''rate limit''
            then (''rate limited (429)'', True)
            else if str_contains msg ''cloudflare'' \<or> str_contains msg ''just a moment'' \<or> str_contains msg ''cf-chl''
            then (''Cloudflare challenge'', True)
            else if str_contains msg ''http error 403'' then (''blocked (403)'', True)
            else if str_contains msg ''http error 503'' then (''unavailable (503)'', True)
            else ([], False))"

text \<open>The loop of \<open>cooldownFor\<close>, \<open>n\<close> rounds at most.\<close>

fun double_until :: "nat \<Rightarrow> duration \<Rightarrow> duration" where
  "double_until 0 d = d"
| "double_until (Suc n) d = (if d < 2 * hour then double_until n (d * 2) else d)"

definition cooldownFor :: "int \<Rightarrow> duration" where
  "cooldownFor strikes = min (double_until (nat (strikes - 1)) (5 * minute)) (2 * hour)"

section \<open>State\<close>

record cooldown_event =
  ce_key :: key
  ce_until :: "time option"
  ce_strikes :: int
  ce_reason :: string

record gstate =
  gs_inflight :: int
  gs_tokens :: float64
  gs_refilled :: time
  gs_next_at :: time
  gs_pace :: "string \<Rightarrow> time option"
  gs_cooldown_until :: time
  gs_strikes :: int
  gs_reason :: string

text \<open>\<open>g_notify\<close>: an \<open>onCooldown\<close> callback is set; its calls are collected in \<open>g_events\<close>.\<close>

record governor =
  g_st :: "key \<Rightarrow> gstate option"
  g_notify :: bool
  g_events :: "cooldown_event list"

definition new_state :: gstate where
  "new_state = \<lparr>gs_inflight = 0, gs_tokens = 0, gs_refilled = 0, gs_next_at = 0, gs_pace = (\<lambda>_. None),
     gs_cooldown_until = 0, gs_strikes = 0, gs_reason = []\<rparr>"

definition New :: "bool \<Rightarrow> governor" where
  "New notify = \<lparr>g_st = (\<lambda>_. None), g_notify = notify, g_events = []\<rparr>"

definition gstate_of :: "governor \<Rightarrow> key \<Rightarrow> gstate" where
  "gstate_of g k = (case g_st g k of Some s \<Rightarrow> s | None \<Rightarrow> new_state)"

definition put :: "key \<Rightarrow> gstate \<Rightarrow> governor \<Rightarrow> governor" where
  "put k s g = g\<lparr>g_st := (g_st g)(k := Some s)\<rparr>"

definition notify :: "cooldown_event \<Rightarrow> governor \<Rightarrow> governor" where
  "notify ev g = (if g_notify g then g\<lparr>g_events := g_events g @ [ev]\<rparr> else g)"

definition randDur :: "(int \<Rightarrow> int) \<Rightarrow> int \<Rightarrow> duration" where
  "randDur rnd maxMs = (if maxMs \<le> 0 then 0 else rnd (maxMs + 1) * millisecond)"

section \<open>Cooldowns\<close>

definition Restore :: "key \<Rightarrow> time \<Rightarrow> int \<Rightarrow> string \<Rightarrow> governor \<Rightarrow> governor" where
  "Restore k until strikes reason g =
     put k ((gstate_of g k)\<lparr>gs_cooldown_until := until, gs_strikes := strikes, gs_reason := reason\<rparr>) g"

definition Cooldown :: "time \<Rightarrow> governor \<Rightarrow> key \<Rightarrow> time \<times> string" where
  "Cooldown now g k =
     (case g_st g k of
        None \<Rightarrow> (0, [])
      | Some s \<Rightarrow> if \<not> now < gs_cooldown_until s then (0, []) else (gs_cooldown_until s, gs_reason s))"

definition ClearCooldown :: "key \<Rightarrow> governor \<Rightarrow> governor" where
  "ClearCooldown k g =
     (let s = gstate_of g k;
          had = (gs_strikes s > 0 \<or> gs_cooldown_until s \<noteq> 0);
          g = put k (s\<lparr>gs_cooldown_until := 0, gs_strikes := 0, gs_reason := []\<rparr>) g
      in if had then notify \<lparr>ce_key = k, ce_until = None, ce_strikes = 0, ce_reason = []\<rparr> g else g)"

definition Report :: "time \<Rightarrow> key \<Rightarrow> gov_error option \<Rightarrow> governor \<Rightarrow> governor" where
  "Report now k err g =
     (let (reason, throttled) = Classify err;
          s = gstate_of g k
      in
      if throttled then
        (let strikes = gs_strikes s + 1;
             until = now + cooldownFor strikes
         in notify \<lparr>ce_key = k, ce_until = Some until, ce_strikes = strikes, ce_reason = reason\<rparr>
              (put k (s\<lparr>gs_strikes := strikes, gs_cooldown_until := until, gs_reason := reason\<rparr>) g))
      else if err = None \<and> gs_strikes s > 0 \<and> \<not> now < gs_cooldown_until s then
        notify \<lparr>ce_key = k, ce_until = None, ce_strikes = 0, ce_reason = []\<rparr>
          (put k (s\<lparr>gs_strikes := 0, gs_reason := [], gs_cooldown_until := 0\<rparr>) g)
      else put k s g)"

section \<open>Requests\<close>

datatype enter_result = Refused gov_error | Entered | Blocked

definition acquire_enter :: "time \<Rightarrow> throttle_config \<Rightarrow> key \<Rightarrow> governor \<Rightarrow> governor \<times> enter_result" where
  "acquire_enter now cfg k g =
     (let s = gstate_of g k; g = put k s g in
      if now < gs_cooldown_until s then (g, Refused (ErrCoolingDown k (gs_cooldown_until s) (gs_reason s)))
      else if gs_inflight s < t_max_concurrent cfg then (put k (s\<lparr>gs_inflight := gs_inflight s + 1\<rparr>) g, Entered)
      else (g, Blocked))"

definition release :: "key \<Rightarrow> governor \<Rightarrow> governor" where
  "release k g = (let s = gstate_of g k in put k (s\<lparr>gs_inflight := gs_inflight s - 1\<rparr>) g)"

datatype rate_result = Granted | Sleep duration

definition burst :: "throttle_config \<Rightarrow> float64" where
  "burst cfg = of_int (max (t_burst cfg) 1)"

text \<open>Tokens per second.\<close>

definition rate :: "throttle_config \<Rightarrow> float64" where
  "rate cfg = of_int (t_requests_per_minute cfg) / 60"

definition seconds :: "duration \<Rightarrow> float64" where
  "seconds d = of_int d / of_int second"

definition refill :: "time \<Rightarrow> throttle_config \<Rightarrow> gstate \<Rightarrow> gstate" where
  "refill now cfg s =
     (let s = (if gs_refilled s = 0 then s\<lparr>gs_tokens := burst cfg, gs_refilled := now\<rparr> else s)
      in s\<lparr>gs_tokens := min (burst cfg) (gs_tokens s + seconds (now - gs_refilled s) * rate cfg), gs_refilled := now\<rparr>)"

text \<open>The conversion of a positive float to \<open>time.Duration\<close> drops its fraction.\<close>

definition token_wait :: "throttle_config \<Rightarrow> float64 \<Rightarrow> duration" where
  "token_wait cfg tokens = \<lfloor>(1 - tokens) / rate cfg * of_int second\<rfloor>"

definition acquire_rate ::
  "(int \<Rightarrow> int) \<Rightarrow> time \<Rightarrow> throttle_config \<Rightarrow> key \<Rightarrow> governor \<Rightarrow> governor \<times> rate_result" where
  "acquire_rate rnd now cfg k g =
     (let s = gstate_of g k;
          limited = (t_requests_per_minute cfg > 0);
          wait = gs_next_at s - now;
          s = (if limited then refill now cfg s else s);
          wait = (if limited \<and> gs_tokens s < 1 then max wait (token_wait cfg (gs_tokens s)) else wait)
      in
      if wait \<le> 0 then
        (let s = (if limited then s\<lparr>gs_tokens := gs_tokens s - 1\<rparr> else s)
         in (put k (s\<lparr>gs_next_at := now + (t_min_delay_ms cfg * millisecond + randDur rnd (t_jitter_ms cfg))\<rparr>) g, Granted))
      else (put k s g, Sleep wait))"

definition Pace :: "(int \<Rightarrow> int) \<Rightarrow> time \<Rightarrow> throttle_config \<Rightarrow> key \<Rightarrow> string \<Rightarrow> governor \<Rightarrow> governor \<times> duration" where
  "Pace rnd now cfg k kind g =
     (let (lo, hi) = (if kind = ''refresh'' then (t_refresh_gap_min cfg, t_refresh_gap_max cfg)
                      else (t_chapter_gap_min cfg, t_chapter_gap_max cfg));
          hi = max hi lo
      in
      if hi \<le> 0 then (g, 0)
      else
        let s = gstate_of g k;
            slot = (case gs_pace s kind of
                      None \<Rightarrow> now
                    | Some prev \<Rightarrow>
                        (let t = prev + (lo * second + randDur rnd ((hi - lo) * 1000)) in if t > now then t else now))
        in (put k (s\<lparr>gs_pace := (gs_pace s)(kind := Some slot)\<rparr>) g, slot - now))"

text \<open>The end of \<open>Do\<close>: the outcome is reported unless the context ended, then the slot is released.\<close>

definition do_finish :: "time \<Rightarrow> bool \<Rightarrow> key \<Rightarrow> gov_error option \<Rightarrow> governor \<Rightarrow> governor" where
  "do_finish now ctx_ended k err g = release k (if ctx_ended then g else Report now k err g)"

text \<open>
  \<open>FetchPage\<close> after its request: a page body keeps the slot until it is closed.  The result
  says whether a body was returned.
\<close>

definition fetch_finish :: "time \<Rightarrow> bool \<Rightarrow> key \<Rightarrow> gov_error option \<Rightarrow> governor \<Rightarrow> governor \<times> bool" where
  "fetch_finish now ctx_ended k err g =
     (let g = (if ctx_ended then g else Report now k err g)
      in if err \<noteq> None then (release k g, False) else (g, True))"

text \<open>\<open>releasingBody.Close\<close>: \<open>released\<close> is the state of its \<open>sync.Once\<close>.\<close>

definition close_body :: "key \<Rightarrow> bool \<Rightarrow> governor \<Rightarrow> governor \<times> bool" where
  "close_body k released g = (if released then (g, True) else (release k g, True))"

section \<open>Calls that interleave\<close>

text \<open>What \<open>rand.Int64N\<close> documents: a number in \<open>[0, n)\<close>.\<close>

definition rnd_ok :: "(int \<Rightarrow> int) \<Rightarrow> bool" where
  "rnd_ok rnd \<longleftrightarrow> (\<forall>n > 0. 0 \<le> rnd n \<and> rnd n < n)"

text \<open>
  A goroutine inside \<open>Acquire\<close>'s concurrency loop, inside its rate loop, making its request,
  reading a page body, or done.  \<open>gw_grants\<close> is the ghost log of granted requests, newest first.
\<close>

datatype call = Entering key | Pacing key | Holding key | OpenBody key | Gone

record gworld =
  gw_now :: time
  gw_gov :: governor
  gw_calls :: "call list"
  gw_grants :: "(key \<times> time) list"

definition gstart :: "time \<Rightarrow> bool \<Rightarrow> gworld" where
  "gstart now b = \<lparr>gw_now = now, gw_gov = New b, gw_calls = [], gw_grants = []\<rparr>"

definition after_enter :: "key \<Rightarrow> enter_result \<Rightarrow> call" where
  "after_enter k r = (case r of Refused _ \<Rightarrow> Gone | Entered \<Rightarrow> Pacing k | Blocked \<Rightarrow> Entering k)"

inductive gstep :: "(key \<Rightarrow> throttle_config) \<Rightarrow> gworld \<Rightarrow> gworld \<Rightarrow> bool" for cfg where
  tick: "0 \<le> d \<Longrightarrow> gstep cfg w (w\<lparr>gw_now := gw_now w + d\<rparr>)"
| call: "gstep cfg w (w\<lparr>gw_calls := gw_calls w @ [Entering k]\<rparr>)"
| enter: "i < length (gw_calls w) \<Longrightarrow> gw_calls w ! i = Entering k \<Longrightarrow>
    acquire_enter (gw_now w) (cfg k) k (gw_gov w) = (g, r) \<Longrightarrow>
    gstep cfg w (w\<lparr>gw_gov := g, gw_calls := (gw_calls w)[i := after_enter k r]\<rparr>)"
| quit_enter: "i < length (gw_calls w) \<Longrightarrow> gw_calls w ! i = Entering k \<Longrightarrow>
    gstep cfg w (w\<lparr>gw_calls := (gw_calls w)[i := Gone]\<rparr>)"
| grant: "i < length (gw_calls w) \<Longrightarrow> gw_calls w ! i = Pacing k \<Longrightarrow> rnd_ok rnd \<Longrightarrow>
    acquire_rate rnd (gw_now w) (cfg k) k (gw_gov w) = (g, Granted) \<Longrightarrow>
    gstep cfg w (w\<lparr>gw_gov := g, gw_calls := (gw_calls w)[i := Holding k], gw_grants := (k, gw_now w) # gw_grants w\<rparr>)"
| sleep: "i < length (gw_calls w) \<Longrightarrow> gw_calls w ! i = Pacing k \<Longrightarrow> rnd_ok rnd \<Longrightarrow>
    acquire_rate rnd (gw_now w) (cfg k) k (gw_gov w) = (g, Sleep d) \<Longrightarrow> gstep cfg w (w\<lparr>gw_gov := g\<rparr>)"
| quit_rate: "i < length (gw_calls w) \<Longrightarrow> gw_calls w ! i = Pacing k \<Longrightarrow>
    gstep cfg w (w\<lparr>gw_gov := release k (gw_gov w), gw_calls := (gw_calls w)[i := Gone]\<rparr>)"
| finish: "i < length (gw_calls w) \<Longrightarrow> gw_calls w ! i = Holding k \<Longrightarrow>
    gstep cfg w (w\<lparr>gw_gov := do_finish (gw_now w) b k err (gw_gov w), gw_calls := (gw_calls w)[i := Gone]\<rparr>)"
| fetch: "i < length (gw_calls w) \<Longrightarrow> gw_calls w ! i = Holding k \<Longrightarrow>
    fetch_finish (gw_now w) b k err (gw_gov w) = (g, body) \<Longrightarrow>
    gstep cfg w (w\<lparr>gw_gov := g, gw_calls := (gw_calls w)[i := (if body then OpenBody k else Gone)]\<rparr>)"
| close: "i < length (gw_calls w) \<Longrightarrow> gw_calls w ! i = OpenBody k \<Longrightarrow>
    gstep cfg w (w\<lparr>gw_gov := fst (close_body k False (gw_gov w)), gw_calls := (gw_calls w)[i := Gone]\<rparr>)"
| pace: "rnd_ok rnd \<Longrightarrow> gstep cfg w (w\<lparr>gw_gov := fst (Pace rnd (gw_now w) (cfg k) k kind (gw_gov w))\<rparr>)"
| clear: "gstep cfg w (w\<lparr>gw_gov := ClearCooldown k (gw_gov w)\<rparr>)"
| restore: "gstep cfg w (w\<lparr>gw_gov := Restore k until strikes reason (gw_gov w)\<rparr>)"

abbreviation greach :: "(key \<Rightarrow> throttle_config) \<Rightarrow> gworld \<Rightarrow> gworld \<Rightarrow> bool" where
  "greach cfg \<equiv> (gstep cfg)\<^sup>*\<^sup>*"

section \<open>Reading and writing the state of a catalog\<close>

named_theorems gov_defs \<open>operations of the governor\<close>

lemma gstate_put [simp]: "gstate_of (put k s g) k' = (if k' = k then s else gstate_of g k')"
  by (simp add: gstate_of_def put_def)

lemma gstate_notify [simp]: "gstate_of (notify ev g) k = gstate_of g k"
  by (simp add: gstate_of_def notify_def)

lemma gstate_release [simp]:
  "gstate_of (release k g) k' =
     (if k' = k then (gstate_of g k)\<lparr>gs_inflight := gs_inflight (gstate_of g k) - 1\<rparr> else gstate_of g k')"
  by (simp add: release_def Let_def)

lemma gstate_New [simp]: "gstate_of (New b) k = new_state"
  by (simp add: gstate_of_def New_def)

text \<open>The parts of a catalog's state that belong to its slots and its request rate.\<close>

definition rate_part :: "gstate \<Rightarrow> float64 \<times> time \<times> time" where
  "rate_part s = (gs_tokens s, gs_refilled s, gs_next_at s)"

lemma rate_part_inflight [simp]: "rate_part (s\<lparr>gs_inflight := n\<rparr>) = rate_part s"
  by (simp add: rate_part_def)

lemma Report_parts [simp]:
  "gs_inflight (gstate_of (Report now k err g) k') = gs_inflight (gstate_of g k')"
  "rate_part (gstate_of (Report now k err g) k') = rate_part (gstate_of g k')"
  "gs_pace (gstate_of (Report now k err g) k') = gs_pace (gstate_of g k')"
  by (simp_all add: Report_def rate_part_def Let_def split: prod.split)

lemma ClearCooldown_parts [simp]:
  "gs_inflight (gstate_of (ClearCooldown k g) k') = gs_inflight (gstate_of g k')"
  "rate_part (gstate_of (ClearCooldown k g) k') = rate_part (gstate_of g k')"
  by (simp_all add: ClearCooldown_def rate_part_def Let_def)

lemma Restore_parts [simp]:
  "gs_inflight (gstate_of (Restore k u n r g) k') = gs_inflight (gstate_of g k')"
  "rate_part (gstate_of (Restore k u n r g) k') = rate_part (gstate_of g k')"
  by (simp_all add: Restore_def rate_part_def)

lemma Pace_parts [simp]:
  "gs_inflight (gstate_of (fst (Pace rnd now cfg k kind g)) k') = gs_inflight (gstate_of g k')"
  "rate_part (gstate_of (fst (Pace rnd now cfg k kind g)) k') = rate_part (gstate_of g k')"
  by (simp_all add: Pace_def rate_part_def Let_def split: prod.split)

lemma release_rate [simp]: "rate_part (gstate_of (release k g) k') = rate_part (gstate_of g k')"
  by (simp add: rate_part_def)

lemma enter_parts:
  assumes "acquire_enter now cfg k g = (g', r)"
  shows "rate_part (gstate_of g' k') = rate_part (gstate_of g k')"
    and "gs_inflight (gstate_of g' k') = gs_inflight (gstate_of g k') + (if k' = k \<and> r = Entered then 1 else 0)"
    and "r = Entered \<Longrightarrow> gs_inflight (gstate_of g k) < t_max_concurrent cfg"
  using assms by (auto simp: acquire_enter_def rate_part_def Let_def split: if_splits)

lemma rate_parts:
  assumes "acquire_rate rnd now cfg k g = (g', r)"
  shows "gs_inflight (gstate_of g' k') = gs_inflight (gstate_of g k')"
    and "k' \<noteq> k \<Longrightarrow> gstate_of g' k' = gstate_of g k'"
  using assms by (auto simp: acquire_rate_def refill_def Let_def split: if_splits)

section \<open>Slots\<close>

definition occupies :: "key \<Rightarrow> call \<Rightarrow> bool" where
  "occupies k c \<longleftrightarrow> c = Pacing k \<or> c = Holding k \<or> c = OpenBody k"

definition taken :: "key \<Rightarrow> call list \<Rightarrow> nat" where
  "taken k cs = length (filter (occupies k) cs)"

lemma taken_update:
  "i < length cs \<Longrightarrow>
   taken k (cs[i := c]) + (if occupies k (cs ! i) then 1 else 0) = taken k cs + (if occupies k c then 1 else 0)"
proof (induction cs arbitrary: i)
  case (Cons x cs)
  then show ?case by (cases i) (auto simp: taken_def)
qed simp

lemma taken_move:
  assumes "i < length cs" and "cs ! i = a"
  shows "int (taken k (cs[i := c])) = int (taken k cs) + (if occupies k c then 1 else 0) - (if occupies k a then 1 else 0)"
  using taken_update [OF assms(1), of k c] unfolding assms(2)
  by (cases "occupies k a"; cases "occupies k c"; simp only: if_True if_False; linarith)

lemmas occupies_simps [simp] =
  occupies_def [of k "Pacing j" for k j] occupies_def [of k "Holding j" for k j]
  occupies_def [of k "OpenBody j" for k j] occupies_def [of k "Entering j" for k j] occupies_def [of k Gone for k]

definition slots_ok :: "(key \<Rightarrow> throttle_config) \<Rightarrow> gworld \<Rightarrow> bool" where
  "slots_ok cfg w \<longleftrightarrow>
     (\<forall>k. gs_inflight (gstate_of (gw_gov w) k) = int (taken k (gw_calls w)) \<and>
          int (taken k (gw_calls w)) \<le> max 0 (t_max_concurrent (cfg k)))"

lemma le_minus_1: "\<forall>k. f k = (x k :: int) \<and> x k \<le> m k \<Longrightarrow> x j - 1 \<le> m j"
  by (drule spec [of _ j]) linarith

lemma slots_step: "gstep cfg w w' \<Longrightarrow> slots_ok cfg w \<Longrightarrow> slots_ok cfg w'"
proof (induction rule: gstep.induct)
  case (call w k)
  then show ?case by (simp add: slots_ok_def taken_def)
next
  case (enter i w k g r)
  note p = enter_parts [OF enter(3)] and m = taken_move [OF enter(1,2)]
  have "gs_inflight (gstate_of g j) = int (taken j ((gw_calls w)[i := after_enter k r]))
      \<and> int (taken j ((gw_calls w)[i := after_enter k r])) \<le> max 0 (t_max_concurrent (cfg j))" for j
    using enter(4) p(2) [of j] p(3) m [of j "after_enter k r"]
    by (cases r) (auto simp: slots_ok_def after_enter_def split: if_splits)
  then show ?case by (simp add: slots_ok_def)
next
  case (quit_enter i w k)
  then show ?case by (simp add: slots_ok_def taken_move)
next
  case (grant i w k rnd g)
  from grant(5) show ?case
    by (simp add: slots_ok_def taken_move [OF grant(1,2)] rate_parts(1) [OF grant(4)])
next
  case (sleep i w k rnd g d)
  from sleep(5) show ?case by (simp add: slots_ok_def rate_parts(1) [OF sleep(4)])
next
  case (fetch i w k b err g body)
  have "gs_inflight (gstate_of g j) = int (taken j ((gw_calls w)[i := (if body then OpenBody k else Gone)]))
      \<and> int (taken j ((gw_calls w)[i := (if body then OpenBody k else Gone)])) \<le> max 0 (t_max_concurrent (cfg j))" for j
    using fetch(3) fetch(4) [unfolded slots_ok_def, THEN spec, of j] taken_move [OF fetch(1,2), of j]
    by (auto simp: fetch_finish_def Let_def split: if_splits)
  then show ?case by (simp add: slots_ok_def)
qed (auto simp: slots_ok_def taken_move do_finish_def close_body_def intro: le_minus_1)

lemma slots_reach: "greach cfg (gstart t b) w \<Longrightarrow> slots_ok cfg w"
proof (induction rule: rtranclp_induct)
  case base
  show ?case by (simp add: slots_ok_def gstart_def taken_def new_state_def)
qed (rule slots_step)

section \<open>The token bucket\<close>

definition from_to :: "time \<Rightarrow> time \<Rightarrow> time list \<Rightarrow> nat" where
  "from_to a b ts = length (filter (\<lambda>t. a \<le> t \<and> t \<le> b) ts)"

text \<open>
  The accounting of a bucket of size \<open>B\<close> that gains \<open>r\<close> tokens per nanosecond, refilled at
  \<open>ref\<close> after the grants \<open>ts\<close>.
\<close>

definition bucket :: "rat \<Rightarrow> rat \<Rightarrow> rat \<Rightarrow> time \<Rightarrow> time list \<Rightarrow> bool" where
  "bucket B r toks ref ts \<longleftrightarrow>
     toks \<le> B \<and> - r \<le> toks \<and> (\<forall>t \<in> set ts. t \<le> ref) \<and>
     (\<forall>a \<le> ref. of_nat (from_to a ref ts) + toks \<le> B + of_int (ref - a) * r) \<and>
     (\<forall>a b. a \<le> b \<longrightarrow> of_nat (from_to a b ts) \<le> B + of_int (b - a) * r + r)"

lemma from_to_late: "\<forall>t \<in> set ts. t \<le> ref \<Longrightarrow> ref \<le> b \<Longrightarrow> from_to a b ts = from_to a ref ts"
  unfolding from_to_def by (rule arg_cong [where f = length], rule filter_cong) force+

lemma from_to_none: "\<forall>t \<in> set ts. t \<le> ref \<Longrightarrow> ref < a \<Longrightarrow> from_to a b ts = 0"
  by (force simp: from_to_def filter_empty_conv)

lemma from_to_Cons: "from_to a b (t # ts) = (if a \<le> t \<and> t \<le> b then 1 else 0) + from_to a b ts"
  by (simp add: from_to_def)

lemma bucket_start: "1 \<le> B \<Longrightarrow> 0 \<le> r \<Longrightarrow> bucket B r B now []"
  by (auto simp: bucket_def from_to_def)

lemma bucket_refill:
  assumes b: "bucket B r toks ref ts" and "ref \<le> now" and B: "1 \<le> B" and r: "0 \<le> r"
  shows "bucket B r (min B (toks + of_int (now - ref) * r)) now ts"
proof -
  let ?t = "min B (toks + of_int (now - ref) * r)"
  have late: "\<forall>t \<in> set ts. t \<le> ref" using b by (simp add: bucket_def)
  have gain: "0 \<le> of_int (now - ref) * r" using assms(2) r by simp
  have "of_nat (from_to a now ts) + ?t \<le> B + of_int (now - a) * r" if a: "a \<le> now" for a
  proof (cases "a \<le> ref")
    case True
    with b have "of_nat (from_to a ref ts) + toks \<le> B + of_int (ref - a) * r" by (simp add: bucket_def)
    moreover have "(of_int (now - a) :: rat) * r = of_int (ref - a) * r + of_int (now - ref) * r"
      by (simp add: algebra_simps)
    ultimately show ?thesis unfolding from_to_late [OF late assms(2)] by linarith
  next
    case False
    have "0 \<le> of_int (now - a) * r" using a r by simp
    then show ?thesis using from_to_none [OF late] False by simp
  qed
  then have acc: "\<forall>a \<le> now. of_nat (from_to a now ts) + ?t \<le> B + of_int (now - a) * r" by simp
  have "- r \<le> toks" and win: "\<forall>a c. a \<le> c \<longrightarrow> of_nat (from_to a c ts) \<le> B + of_int (c - a) * r + r"
    using b unfolding bucket_def by blast+
  then have low: "- r \<le> ?t" using B r gain by simp
  from late assms(2) have "\<forall>t \<in> set ts. t \<le> now" by auto
  with acc win low show ?thesis unfolding bucket_def by simp
qed

lemma bucket_take:
  assumes b: "bucket B r toks now ts" and t: "- r \<le> toks - 1" and r: "0 \<le> r"
  shows "bucket B r (toks - 1) now (now # ts)"
proof -
  have late: "\<forall>t \<in> set ts. t \<le> now" using b by (simp add: bucket_def)
  have one: "of_nat (from_to a now (now # ts)) + (toks - 1) \<le> B + of_int (now - a) * r" if "a \<le> now" for a
    using b that by (simp add: bucket_def from_to_Cons)
  have "of_nat (from_to a c (now # ts)) \<le> B + of_int (c - a) * r + r" if ac: "a \<le> c" for a c
  proof (cases "a \<le> now \<and> now \<le> c")
    case True
    then have "(of_int (now - a) :: rat) * r \<le> of_int (c - a) * r" using r by (simp add: mult_right_mono)
    moreover have "from_to a c (now # ts) = from_to a now (now # ts)"
      using True late by (intro from_to_late) auto
    ultimately show ?thesis using one [of a] True t by linarith
  next
    case False
    then have "from_to a c (now # ts) = from_to a c ts" by (auto simp: from_to_Cons)
    then show ?thesis using b ac by (simp add: bucket_def)
  qed
  moreover have "toks - 1 \<le> B" using b unfolding bucket_def by auto
  ultimately show ?thesis using one t late unfolding bucket_def by simp
qed

definition per_ns :: "throttle_config \<Rightarrow> rat" where
  "per_ns cfg = rate cfg / of_int second"

definition grants_of :: "key \<Rightarrow> gworld \<Rightarrow> time list" where
  "grants_of k w = map snd (filter (\<lambda>x. fst x = k) (gw_grants w))"

definition rate_ok :: "throttle_config \<Rightarrow> key \<Rightarrow> gworld \<Rightarrow> bool" where
  "rate_ok cfg k w \<longleftrightarrow>
     (let s = gstate_of (gw_gov w) k in
      0 < gw_now w \<and>
      (if gs_refilled s = 0 then grants_of k w = []
       else gs_refilled s \<le> gw_now w \<and> bucket (burst cfg) (per_ns cfg) (gs_tokens s) (gs_refilled s) (grants_of k w)))"

lemma burst_ge_1: "1 \<le> burst cfg"
  by (simp add: burst_def)

lemma per_ns_pos: "t_requests_per_minute cfg > 0 \<Longrightarrow> 0 < per_ns cfg"
  by (simp add: per_ns_def rate_def go_defs)

lemma refill_bucket:
  assumes "rate_ok cfg k w" and "t_requests_per_minute cfg > 0"
  shows "bucket (burst cfg) (per_ns cfg) (gs_tokens (refill (gw_now w) cfg (gstate_of (gw_gov w) k))) (gw_now w) (grants_of k w)"
proof -
  have sec: "seconds d * rate cfg = of_int d * per_ns cfg" for d
    by (simp add: seconds_def per_ns_def)
  show ?thesis
  proof (cases "gs_refilled (gstate_of (gw_gov w) k) = 0")
    case True
    with assms show ?thesis
      using bucket_start [OF burst_ge_1 less_imp_le [OF per_ns_pos]] by (simp add: rate_ok_def refill_def seconds_def)
  next
    case False
    with assms have "bucket (burst cfg) (per_ns cfg) (gs_tokens (gstate_of (gw_gov w) k)) (gs_refilled (gstate_of (gw_gov w) k)) (grants_of k w)"
      and "gs_refilled (gstate_of (gw_gov w) k) \<le> gw_now w" by (simp_all add: rate_ok_def Let_def)
    from bucket_refill [OF this burst_ge_1 less_imp_le [OF per_ns_pos [OF assms(2)]]] False
    show ?thesis by (simp add: refill_def Let_def sec)
  qed
qed

lemma token_wait_le_0:
  assumes "token_wait cfg t \<le> 0" and "t_requests_per_minute cfg > 0"
  shows "- per_ns cfg \<le> t - 1"
proof -
  have pos: "0 < per_ns cfg" by (rule per_ns_pos [OF assms(2)])
  have "(1 - t) / rate cfg * of_int second = (1 - t) / per_ns cfg" by (simp add: per_ns_def)
  then have "\<lfloor>(1 - t) / per_ns cfg\<rfloor> \<le> 0" using assms(1) by (simp add: token_wait_def)
  then have "(1 - t) / per_ns cfg < 1" by linarith
  then show ?thesis using pos by (simp add: divide_less_eq)
qed

lemma rate_tokens:
  assumes "acquire_rate rnd now cfg k g = (g', r)" and "t_requests_per_minute cfg > 0"
  shows "gs_refilled (gstate_of g' k) = now"
    and "r \<noteq> Granted \<Longrightarrow> gs_tokens (gstate_of g' k) = gs_tokens (refill now cfg (gstate_of g k))"
    and "r = Granted \<Longrightarrow> gs_tokens (gstate_of g' k) = gs_tokens (refill now cfg (gstate_of g k)) - 1 \<and>
           - per_ns cfg \<le> gs_tokens (refill now cfg (gstate_of g k)) - 1"
proof -
  have ref: "gs_refilled (refill now cfg s) = now" for s by (simp add: refill_def Let_def)
  show "gs_refilled (gstate_of g' k) = now"
    and "r \<noteq> Granted \<Longrightarrow> gs_tokens (gstate_of g' k) = gs_tokens (refill now cfg (gstate_of g k))"
    using assms ref by (auto simp: acquire_rate_def Let_def split: if_splits)
  have neg: "- per_ns cfg \<le> 0" using per_ns_pos [OF assms(2)] by simp
  show "gs_tokens (gstate_of g' k) = gs_tokens (refill now cfg (gstate_of g k)) - 1 \<and>
      - per_ns cfg \<le> gs_tokens (refill now cfg (gstate_of g k)) - 1" if "r = Granted"
  proof (cases "gs_tokens (refill now cfg (gstate_of g k)) < 1")
    case True
    with assms that have "token_wait cfg (gs_tokens (refill now cfg (gstate_of g k))) \<le> 0"
      by (simp add: acquire_rate_def Let_def split: if_splits)
    from token_wait_le_0 [OF this assms(2)] assms that show ?thesis
      by (auto simp: acquire_rate_def Let_def split: if_splits)
  next
    case False
    then have "- per_ns cfg \<le> gs_tokens (refill now cfg (gstate_of g k)) - 1" using neg by linarith
    with assms that show ?thesis by (auto simp: acquire_rate_def Let_def split: if_splits)
  qed
qed

lemma rate_ok_cong:
  assumes "rate_ok cfg k w" and "rate_part (gstate_of (gw_gov w') k) = rate_part (gstate_of (gw_gov w) k)"
    and "gw_now w \<le> gw_now w'" and "grants_of k w' = grants_of k w"
  shows "rate_ok cfg k w'"
  using assms by (auto simp: rate_ok_def rate_part_def Let_def split: if_splits)

lemma grants_of_simps [simp]:
  "grants_of k (w\<lparr>gw_grants := (k', t) # gw_grants w\<rparr>) = (if k' = k then t # grants_of k w else grants_of k w)"
  "grants_of k (w\<lparr>gw_gov := g\<rparr>) = grants_of k w"
  "grants_of k (w\<lparr>gw_calls := c\<rparr>) = grants_of k w"
  "grants_of k (w\<lparr>gw_now := n\<rparr>) = grants_of k w"
  by (simp_all add: grants_of_def)

text \<open>
  A step either leaves a catalog's rate part and grants alone, or is a round of the rate loop
  for it.
\<close>

lemma gstep_rate_cases:
  assumes "gstep cfg w w'"
  obtains (other) "rate_part (gstate_of (gw_gov w') k) = rate_part (gstate_of (gw_gov w) k)"
      "gw_now w \<le> gw_now w'" "grants_of k w' = grants_of k w"
    | (round) rnd g r where "rnd_ok rnd" "acquire_rate rnd (gw_now w) (cfg k) k (gw_gov w) = (g, r)"
      "gw_gov w' = g" "gw_now w' = gw_now w" "grants_of k w' = (if r = Granted then gw_now w # grants_of k w else grants_of k w)"
  using assms
proof (cases rule: gstep.cases)
  case (enter i k' g r)
  then show thesis by (intro other) (simp_all add: enter_parts(1))
next
  case (grant i k' rnd g)
  show thesis
  proof (cases "k' = k")
    case True
    with grant show thesis by (intro round [of rnd g Granted]) (simp_all add: grants_of_def)
  next
    case False
    with grant show thesis by (intro other) (simp_all add: grants_of_def rate_parts(2))
  qed
next
  case (sleep i k' rnd g d)
  show thesis
  proof (cases "k' = k")
    case True
    with sleep show thesis by (intro round [of rnd g "Sleep d"]) simp_all
  next
    case False
    with sleep show thesis by (intro other) (simp_all add: rate_parts(2))
  qed
next
  case (finish i k' b err)
  then show thesis by (intro other) (simp_all add: do_finish_def)
next
  case (fetch i k' b err g body)
  then show thesis by (intro other) (auto simp: fetch_finish_def Let_def split: if_splits)
next
  case (close i k')
  then show thesis by (intro other) (simp_all add: close_body_def)
qed (use other in simp_all)

lemma rate_step:
  assumes step: "gstep cfg w w'" and ok: "rate_ok (cfg k) k w" and lim: "t_requests_per_minute (cfg k) > 0"
  shows "rate_ok (cfg k) k w'"
  using step
proof (cases rule: gstep_rate_cases [where k = k])
  case other
  then show ?thesis by (rule rate_ok_cong [OF ok])
next
  case (round rnd g r)
  note t = rate_tokens [OF round(2) lim] and b = refill_bucket [OF ok lim]
  have pos: "0 < gw_now w" using ok by (simp add: rate_ok_def Let_def)
  show ?thesis
  proof (cases "r = Granted")
    case True
    from bucket_take [OF b] t(1,3) True less_imp_le [OF per_ns_pos [OF lim]] show ?thesis
      using round pos by (simp add: rate_ok_def)
  next
    case False
    with b t(1,2) show ?thesis using round pos by (simp add: rate_ok_def)
  qed
qed

lemma rate_reach:
  assumes "greach cfg (gstart t b) w" and "0 < t" and "t_requests_per_minute (cfg k) > 0"
  shows "rate_ok (cfg k) k w"
  using assms(1)
proof (induction rule: rtranclp_induct)
  case base
  show ?case using assms(2) by (simp add: rate_ok_def gstart_def grants_of_def new_state_def)
next
  case (step v w)
  then show ?case by (intro rate_step [OF step(2)] assms(3))
qed

section \<open>The minimum gap\<close>

definition gap_ok :: "throttle_config \<Rightarrow> key \<Rightarrow> gworld \<Rightarrow> bool" where
  "gap_ok cfg k w \<longleftrightarrow>
     (\<forall>t \<in> set (grants_of k w). t + t_min_delay_ms cfg * millisecond \<le> gs_next_at (gstate_of (gw_gov w) k)) \<and>
     sorted_wrt (\<lambda>t u. u + t_min_delay_ms cfg * millisecond \<le> t) (grants_of k w)"

lemma randDur_nonneg: "rnd_ok rnd \<Longrightarrow> 0 \<le> randDur rnd ms"
  by (simp add: randDur_def rnd_ok_def go_defs)

lemma randDur_le: "rnd_ok rnd \<Longrightarrow> randDur rnd ms \<le> max 0 ms * millisecond"
proof -
  assume "rnd_ok rnd"
  then have "rnd (ms + 1) < ms + 1" if "0 < ms" using that unfolding rnd_ok_def by (elim allE [of _ "ms + 1"]) simp
  then show ?thesis by (auto simp: randDur_def millisecond_def)
qed

lemma refill_next [simp]: "gs_next_at (refill now cfg s) = gs_next_at s"
  by (simp add: refill_def Let_def)

lemma rate_next:
  assumes "acquire_rate rnd now cfg k g = (g', r)"
  shows "r \<noteq> Granted \<Longrightarrow> gs_next_at (gstate_of g' k) = gs_next_at (gstate_of g k)"
    and "r = Granted \<Longrightarrow> gs_next_at (gstate_of g k) \<le> now \<and>
           gs_next_at (gstate_of g' k) = now + (t_min_delay_ms cfg * millisecond + randDur rnd (t_jitter_ms cfg))"
  using assms by (auto simp: acquire_rate_def Let_def split: if_splits)

lemma gap_step:
  assumes step: "gstep cfg w w'" and ok: "gap_ok (cfg k) k w" and nn: "0 \<le> t_min_delay_ms (cfg k)"
  shows "gap_ok (cfg k) k w'"
  using step
proof (cases rule: gstep_rate_cases [where k = k])
  case other
  then show ?thesis using ok by (simp add: gap_ok_def rate_part_def)
next
  case (round rnd g r)
  note n = rate_next [OF round(2)]
  let ?D = "t_min_delay_ms (cfg k) * millisecond"
  have D: "0 \<le> ?D" using nn by (simp add: millisecond_def)
  show ?thesis
  proof (cases "r = Granted")
    case True
    have old: "t + ?D \<le> gw_now w" if "t \<in> set (grants_of k w)" for t
      using ok n(2) True that unfolding gap_ok_def by fastforce
    have j: "0 \<le> randDur rnd (t_jitter_ms (cfg k))" by (rule randDur_nonneg [OF round(1)])
    have "t + ?D \<le> gs_next_at (gstate_of g k)" if "t \<in> set (grants_of k w')" for t
      using that round(5) True old [of t] n(2) j D by auto
    then show ?thesis using ok old round(3,5) True by (simp add: gap_ok_def)
  next
    case False
    then show ?thesis using ok n(1) round by (simp add: gap_ok_def)
  qed
qed

lemma gap_reach:
  assumes "greach cfg (gstart t b) w" and "0 \<le> t_min_delay_ms (cfg k)"
  shows "gap_ok (cfg k) k w"
  using assms(1)
proof (induction rule: rtranclp_induct)
  case base
  show ?case by (simp add: gap_ok_def gstart_def grants_of_def)
next
  case (step v w)
  then show ?case by (intro gap_step [OF step(2)] assms(2))
qed

section \<open>Cooldowns\<close>

lemma double_until_min: "min (double_until n d) (2 * hour) = min (d * 2 ^ n) (2 * hour)" if "0 \<le> d"
  using that
proof (induction n arbitrary: d)
  case (Suc n)
  show ?case
  proof (cases "d < 2 * hour")
    case True
    with Suc.IH [of "d * 2"] Suc.prems show ?thesis by (simp add: mult.assoc)
  next
    case False
    have "d * 1 \<le> d * 2 ^ Suc n" using Suc.prems by (intro mult_left_mono one_le_power) auto
    then have "min (d * 2 ^ Suc n) (2 * hour) = 2 * hour" using False by linarith
    with False show ?thesis by simp
  qed
qed simp

lemma cooldownFor_eq: "cooldownFor n = min (5 * minute * 2 ^ nat (n - 1)) (2 * hour)"
  unfolding cooldownFor_def by (rule double_until_min) (simp add: go_defs)

lemma cooldownFor_bounds: "5 * minute \<le> cooldownFor n" "cooldownFor n \<le> 2 * hour"
proof -
  have "5 * minute * 1 \<le> 5 * minute * (2 ^ nat (n - 1) :: int)" by (intro mult_left_mono) (simp_all add: go_defs)
  then show "5 * minute \<le> cooldownFor n" by (simp add: cooldownFor_eq go_defs)
qed (simp add: cooldownFor_eq)

lemma cooldownFor_mono: "m \<le> n \<Longrightarrow> cooldownFor m \<le> cooldownFor n"
proof -
  assume "m \<le> n"
  then have "(2 :: int) ^ nat (m - 1) \<le> 2 ^ nat (n - 1)" by (intro power_increasing) auto
  then have "5 * minute * (2 :: int) ^ nat (m - 1) \<le> 5 * minute * 2 ^ nat (n - 1)"
    by (intro mult_left_mono) (simp_all add: go_defs)
  then show ?thesis unfolding cooldownFor_eq by linarith
qed

lemma Report_throttled:
  assumes "Classify err = (reason, True)"
  shows "gstate_of (Report now k err g) k = (gstate_of g k)\<lparr>gs_strikes := gs_strikes (gstate_of g k) + 1,
     gs_cooldown_until := now + cooldownFor (gs_strikes (gstate_of g k) + 1), gs_reason := reason\<rparr>"
    and "g_st (Report now k err g) k \<noteq> None"
  using assms by (simp_all add: Report_def Let_def) (simp add: put_def notify_def)

lemma Report_other: "j \<noteq> k \<Longrightarrow> gstate_of (Report now k err g) j = gstate_of g j"
  by (simp add: Report_def Let_def split: prod.split)

lemma Cooldown_eq: "Cooldown now g k = (if now < gs_cooldown_until (gstate_of g k) \<and> g_st g k \<noteq> None
    then (gs_cooldown_until (gstate_of g k), gs_reason (gstate_of g k)) else (0, []))"
  by (simp add: Cooldown_def gstate_of_def split: option.splits)

definition ex_key :: key where "ex_key = \<lparr>k_module = 1, k_source = ''mangadex''\<rparr>"
definition ex_429 :: gov_error where "ex_429 = ErrText ''HTTP error 429''"

lemma ex_429_throttled: "Classify (Some ex_429) = (''rate limited (429)'', True)"
  by code_simp

text \<open>
  C12: A throttling error starts a cooldown whose length grows with the consecutive strikes
  (five minutes doubled per strike, two hours at most).  Until its end every attempt to
  acquire a slot of that catalog is refused with the cooldown's end and reason, and
  \<open>Cooldown\<close> reports it; from its end on none is refused.  No other catalog is affected.
\<close>

theorem throttled_cools_down:
  assumes "Classify err = (reason, True)"
    and "n = gs_strikes (gstate_of g k) + 1" and "until = now + cooldownFor n" and "g' = Report now k err g"
  shows "cooldownFor n = min (5 * minute * 2 ^ nat (n - 1)) (2 * hour) \<and>
    (\<forall>t. now \<le> t \<longrightarrow>
       (if t < until
        then snd (acquire_enter t cfg k g') = Refused (ErrCoolingDown k until reason) \<and> Cooldown t g' k = (until, reason)
        else snd (acquire_enter t cfg k g') \<in> {Entered, Blocked} \<and> Cooldown t g' k = (0, []))) \<and>
    (\<forall>j. j \<noteq> k \<longrightarrow> gstate_of g' j = gstate_of g j)"
  using Report_throttled [OF assms(1), of now k g]
  by (simp add: assms(2-) cooldownFor_eq acquire_enter_def Cooldown_eq Report_other Let_def)

theorem throttled_cools_down_witness:
  "snd (acquire_enter 7 no_throttle ex_key (Report 5 ex_key (Some ex_429) (New True)))
     = Refused (ErrCoolingDown ex_key (5 + 5 * minute) ''rate limited (429)'')"
proof -
  note c = throttled_cools_down [OF ex_429_throttled refl refl refl, where k = ex_key and now = 5 and g = "New True" and cfg = no_throttle]
  from c [THEN conjunct2, THEN conjunct1, THEN spec [of _ 7]] show ?thesis
    by (simp add: new_state_def cooldownFor_def go_defs)
qed

text \<open>
  C11: In every interleaving of calls the number of occupied slots of a catalog is the number of
  calls that hold one, and never exceeds the configured concurrency: no slot leaks, whichever
  way a call ends.
\<close>

theorem slots_bounded:
  assumes "greach cfg (gstart t b) w" and "0 \<le> t_max_concurrent (cfg k)"
  shows "gs_inflight (gstate_of (gw_gov w) k) = int (taken k (gw_calls w)) \<and>
    int (taken k (gw_calls w)) \<le> t_max_concurrent (cfg k)"
  using slots_reach [OF assms(1)] assms(2) unfolding slots_ok_def by (metis max_absorb2)

text \<open>A call that finds a free slot and a token at once.\<close>

lemma request_run:
  assumes e: "acquire_enter (gw_now w) (cfg k) k (gw_gov w) = (ga, Entered)" and "rnd_ok rnd"
    and r: "acquire_rate rnd (gw_now w) (cfg k) k ga = (gb, Granted)"
  shows "greach cfg w (w\<lparr>gw_gov := gb, gw_calls := gw_calls w @ [Holding k], gw_grants := (k, gw_now w) # gw_grants w\<rparr>)"
proof -
  let ?n = "length (gw_calls w)"
  let ?w1 = "w\<lparr>gw_calls := gw_calls w @ [Entering k]\<rparr>"
  let ?w2 = "w\<lparr>gw_gov := ga, gw_calls := gw_calls w @ [Pacing k]\<rparr>"
  have "gstep cfg w ?w1" by (rule gstep.call)
  moreover have "gstep cfg ?w1 ?w2"
    using gstep.enter [where w = ?w1 and i = ?n and k = k and cfg = cfg and g = ga and r = Entered] e
    by (simp add: after_enter_def)
  moreover have "gstep cfg ?w2 (w\<lparr>gw_gov := gb, gw_calls := gw_calls w @ [Holding k], gw_grants := (k, gw_now w) # gw_grants w\<rparr>)"
    using gstep.grant [where w = ?w2 and i = ?n and k = k and cfg = cfg and g = gb and rnd = rnd] assms(2) r
    by simp
  ultimately show ?thesis by (meson r_into_rtranclp rtranclp_trans)
qed

definition ex_cfg :: "key \<Rightarrow> throttle_config" where
  "ex_cfg k = no_throttle\<lparr>t_requests_per_minute := 60, t_burst := 2, t_min_delay_ms := 5, t_max_concurrent := 2\<rparr>"

text \<open>Two requests, five milliseconds apart.\<close>

definition ex_granted :: gworld where
  "ex_granted = \<lparr>gw_now = 5000009,
     gw_gov = put ex_key (new_state\<lparr>gs_inflight := 2, gs_tokens := 1 / 200, gs_refilled := 5000009, gs_next_at := 10000009\<rparr>)
       (put ex_key (new_state\<lparr>gs_inflight := 1, gs_tokens := 1, gs_refilled := 9, gs_next_at := 5000009\<rparr>) (New True)),
     gw_calls = [Holding ex_key, Holding ex_key], gw_grants = [(ex_key, 5000009), (ex_key, 9)]\<rparr>"

lemma ex_granted_reach: "greach ex_cfg (gstart 9 True) ex_granted"
proof -
  note defs = acquire_enter_def acquire_rate_def ex_cfg_def no_throttle_def new_state_def refill_def burst_def
    rate_def seconds_def randDur_def go_defs put_def gstate_of_def New_def
  have rnd: "rnd_ok (\<lambda>_. 0)" by (simp add: rnd_ok_def)
  let ?g = "put ex_key (new_state\<lparr>gs_inflight := 1, gs_tokens := 1, gs_refilled := 9, gs_next_at := 5000009\<rparr>) (New True)"
  let ?w = "\<lparr>gw_now = 9, gw_gov = ?g, gw_calls = [Holding ex_key], gw_grants = [(ex_key, 9)]\<rparr>"
  have "greach ex_cfg (gstart 9 True) ?w"
    using request_run [where w = "gstart 9 True" and cfg = ex_cfg and k = ex_key
        and ga = "put ex_key (new_state\<lparr>gs_inflight := 1\<rparr>) (New True)" and gb = ?g, OF _ rnd]
    by (simp add: gstart_def defs)
  moreover have "gstep ex_cfg ?w (?w\<lparr>gw_now := 5000009\<rparr>)"
    using gstep.tick [of 5000000 ex_cfg ?w] by simp
  moreover have "greach ex_cfg (?w\<lparr>gw_now := 5000009\<rparr>) ex_granted"
    using request_run [where w = "?w\<lparr>gw_now := 5000009\<rparr>" and cfg = ex_cfg and k = ex_key and gb = "gw_gov ex_granted"
        and ga = "put ex_key (new_state\<lparr>gs_inflight := 2, gs_tokens := 1, gs_refilled := 9, gs_next_at := 5000009\<rparr>) ?g", OF _ rnd]
    by (simp add: ex_granted_def defs)
  ultimately show ?thesis by (meson r_into_rtranclp rtranclp_trans)
qed

theorem slots_bounded_witness: "gs_inflight (gstate_of (gw_gov ex_granted) ex_key) = 2"
  using slots_bounded [OF ex_granted_reach, of ex_key]
  by (simp add: ex_granted_def ex_cfg_def taken_def)

text \<open>
  C10: A catalog with a request budget is never asked faster than that: in every interleaving
  of calls, any window of time holds at most a burst, plus the configured rate over the
  window's length, plus what one nanosecond of the rate is worth (waits are whole nanoseconds).
\<close>

theorem request_rate:
  assumes "greach cfg (gstart t b) w" and "0 < t" and "t_requests_per_minute (cfg k) > 0" and "x \<le> y"
  shows "of_nat (from_to x y (grants_of k w))
    \<le> burst (cfg k) + seconds (y - x) * rate (cfg k) + rate (cfg k) / of_int second"
proof -
  from rate_reach [where k = k, OF assms(1-3)]
  have "grants_of k w = [] \<or> bucket (burst (cfg k)) (per_ns (cfg k)) (gs_tokens (gstate_of (gw_gov w) k))
      (gs_refilled (gstate_of (gw_gov w) k)) (grants_of k w)"
    by (auto simp: rate_ok_def Let_def split: if_splits)
  then have "of_nat (from_to x y (grants_of k w)) \<le> burst (cfg k) + of_int (y - x) * per_ns (cfg k) + per_ns (cfg k)"
  proof
    assume "grants_of k w = []"
    moreover have "0 \<le> of_int (y - x) * per_ns (cfg k)" "0 < per_ns (cfg k)"
      using assms(3,4) by (simp_all add: per_ns_pos less_imp_le)
    moreover have "1 \<le> burst (cfg k)" by (rule burst_ge_1)
    ultimately show ?thesis by (simp add: from_to_def)
  qed (use assms(4) in \<open>simp add: bucket_def\<close>)
  then show ?thesis by (simp add: per_ns_def seconds_def)
qed

theorem request_rate_witness:
  "of_nat (from_to 9 5000009 (grants_of ex_key ex_granted)) \<le> (2 + 5 / 1000 + 1 / 1000000000 :: rat)"
  using request_rate [OF ex_granted_reach, of ex_key 9 5000009]
  by (simp add: ex_cfg_def no_throttle_def burst_def seconds_def rate_def go_defs)

text \<open>
  Requests to a catalog keep the configured minimum delay: in every interleaving, an
  earlier request lies at least that long before each later one.
\<close>

theorem request_gap:
  assumes "greach cfg (gstart t b) w" and "0 \<le> t_min_delay_ms (cfg k)" and "i < j" and "j < length (grants_of k w)"
  shows "grants_of k w ! j + t_min_delay_ms (cfg k) * millisecond \<le> grants_of k w ! i"
  using gap_reach [where k = k, OF assms(1,2)] assms(3,4) unfolding gap_ok_def
  by (meson sorted_wrt_nth_less)

theorem request_gap_witness: "(9 :: time) + 5 * millisecond \<le> 5000009"
  using request_gap [OF ex_granted_reach, of ex_key 0 1] by (simp add: ex_granted_def ex_cfg_def grants_of_def)

lemma token_wait_eq: "token_wait cfg t = \<lfloor>(1 - t) / per_ns cfg\<rfloor>"
  by (simp add: token_wait_def per_ns_def)

lemma enough_wait:
  assumes "u < 1" and "u = min B (t + of_int d * per_ns cfg)" and "1 \<le> B" and "t < 1 \<Longrightarrow> token_wait cfg t \<le> d"
    and "0 < per_ns cfg" and "0 < d"
  shows "token_wait cfg u \<le> 0"
proof -
  have pos: "0 < of_int d * per_ns cfg" using assms(5,6) by simp
  have u: "u = t + of_int d * per_ns cfg" using assms(1,2,3) by linarith
  with pos assms(1) have "t < 1" by linarith
  then have "\<lfloor>(1 - t) / per_ns cfg\<rfloor> \<le> d" using assms(4) by (simp add: token_wait_eq)
  then have "(1 - t) / per_ns cfg < of_int d + 1" by linarith
  moreover have "(1 - u) / per_ns cfg = (1 - t) / per_ns cfg - of_int d"
    using assms(5) by (simp add: u field_simps)
  ultimately have "(1 - u) / per_ns cfg < 1" by linarith
  then show ?thesis by (simp add: token_wait_eq floor_less_iff [symmetric])
qed

text \<open>
  A round of the rate loop asks for a wait that is long enough: when nobody else takes a
  slot in between, the next round after that wait grants the request.
\<close>

theorem one_sleep_suffices:
  assumes "acquire_rate rnd now cfg k g = (g', Sleep d)" and "0 < now"
  shows "0 < d \<and> (\<exists>g''. acquire_rate rnd' (now + d) cfg k g' = (g'', Granted))"
proof -
  let ?s = "gstate_of g' k"
  have d: "0 < d" using assms(1) by (auto simp: acquire_rate_def Let_def split: if_splits)
  have nx: "gs_next_at ?s \<le> now + d"
    using assms(1) by (auto simp: acquire_rate_def Let_def split: if_splits)
  show ?thesis
  proof (cases "t_requests_per_minute cfg > 0")
    case False
    with d nx show ?thesis by (simp add: acquire_rate_def)
  next
    case True
    let ?t = "gs_tokens (refill (now + d) cfg ?s)"
    have ref: "gs_refilled ?s = now" by (rule rate_tokens(1) [OF assms(1) True])
    have "?t = min (burst cfg) (gs_tokens ?s + of_int d * per_ns cfg)"
      using assms(2) ref by (simp add: refill_def Let_def seconds_def per_ns_def)
    moreover have "token_wait cfg (gs_tokens ?s) \<le> d" if "gs_tokens ?s < 1"
      using assms(1) True that by (auto simp: acquire_rate_def Let_def split: if_splits)
    ultimately have "token_wait cfg ?t \<le> 0" if "?t < 1"
      using that burst_ge_1 [of cfg] per_ns_pos [OF True] d by (intro enough_wait) auto
    then show ?thesis using nx d True by (auto simp: acquire_rate_def Let_def)
  qed
qed

theorem one_sleep_suffices_witness:
  "\<exists>g. acquire_rate (\<lambda>_. 0) (9 + 5 * millisecond) (ex_cfg ex_key) ex_key
     (put ex_key (new_state\<lparr>gs_tokens := 1, gs_refilled := 9, gs_next_at := 5000009\<rparr>) (New True)) = (g, Granted)"
proof -
  let ?g = "put ex_key (new_state\<lparr>gs_tokens := 1, gs_refilled := 9, gs_next_at := 5000009\<rparr>) (New True)"
  have "acquire_rate (\<lambda>_. 0) 9 (ex_cfg ex_key) ex_key ?g = (?g, Sleep (5 * millisecond))"
    by (simp add: acquire_rate_def ex_cfg_def no_throttle_def new_state_def refill_def burst_def
        rate_def seconds_def go_defs put_def gstate_of_def)
  from one_sleep_suffices [OF this, of "\<lambda>_. 0"] show ?thesis by simp
qed

section \<open>Pacing\<close>

text \<open>The slots given to successive calls of \<open>Pace\<close> for one kind of work, each with its clock and draw.\<close>

fun pace_slots ::
  "throttle_config \<Rightarrow> key \<Rightarrow> string \<Rightarrow> governor \<Rightarrow> ((int \<Rightarrow> int) \<times> time) list \<Rightarrow> time list" where
  "pace_slots cfg k kind g [] = []"
| "pace_slots cfg k kind g ((rnd, now) # calls) =
     (let (g', d) = Pace rnd now cfg k kind g in (now + d) # pace_slots cfg k kind g' calls)"

definition gaps :: "throttle_config \<Rightarrow> string \<Rightarrow> int \<times> int" where
  "gaps cfg kind = (if kind = ''refresh'' then (t_refresh_gap_min cfg, t_refresh_gap_max cfg)
     else (t_chapter_gap_min cfg, t_chapter_gap_max cfg))"

lemma Pace_slot:
  assumes "Pace rnd now cfg k kind g = (g', d)" and "gaps cfg kind = (lo, hi)" and "0 < max hi lo"
  shows "gs_pace (gstate_of g' k) kind = Some (now + d)" and "0 \<le> d"
    and "gs_pace (gstate_of g k) kind = Some u \<Longrightarrow> rnd_ok rnd \<Longrightarrow>
      u + lo * second \<le> now + d \<and> now + d \<le> max now (u + max hi lo * second)"
proof -
  have e: "Pace rnd now cfg k kind g =
     (let s = gstate_of g k;
          slot = (case gs_pace s kind of None \<Rightarrow> now
                  | Some prev \<Rightarrow> max now (prev + (lo * second + randDur rnd ((max hi lo - lo) * 1000))))
      in (put k (s\<lparr>gs_pace := (gs_pace s)(kind := Some slot)\<rparr>) g, slot - now))"
    using assms(2,3) unfolding Pace_def gaps_def Let_def
    by (auto split: option.splits if_splits)
  from e assms(1) show "gs_pace (gstate_of g' k) kind = Some (now + d)" "0 \<le> d"
    by (auto simp: Let_def split: option.splits)
  assume u: "gs_pace (gstate_of g k) kind = Some u" and r: "rnd_ok rnd"
  let ?r = "randDur rnd ((max hi lo - lo) * 1000)"
  have "0 \<le> ?r" by (rule randDur_nonneg [OF r])
  moreover have "?r \<le> (max hi lo - lo) * second"
    using randDur_le [OF r, of "(max hi lo - lo) * 1000"] by (simp add: go_defs)
  moreover have "now + d = max now (u + (lo * second + ?r))"
    using e assms(1) u by (auto simp: Let_def)
  ultimately show "u + lo * second \<le> now + d \<and> now + d \<le> max now (u + max hi lo * second)"
    by (simp add: algebra_simps max_def split: if_splits)
qed

lemma pace_slots_spaced:
  assumes c: "gaps cfg kind = (lo, hi)" "0 \<le> lo" "0 < max hi lo"
  shows "list_all (\<lambda>c. rnd_ok (fst c)) calls \<Longrightarrow>
    sorted_wrt (\<lambda>a b. a + lo * second \<le> b) (pace_slots cfg k kind g calls) \<and>
    (\<forall>u. gs_pace (gstate_of g k) kind = Some u \<longrightarrow> (\<forall>x \<in> set (pace_slots cfg k kind g calls). u + lo * second \<le> x))"
proof (induction calls arbitrary: g)
  case (Cons call calls)
  obtain rnd now where call: "call = (rnd, now)" by force
  obtain g' d where p: "Pace rnd now cfg k kind g = (g', d)" by force
  note slot = Pace_slot [OF p c(1,3)]
  have r: "rnd_ok rnd" using Cons.prems call by simp
  have ih: "sorted_wrt (\<lambda>a b. a + lo * second \<le> b) (pace_slots cfg k kind g' calls)"
    "\<forall>x \<in> set (pace_slots cfg k kind g' calls). (now + d) + lo * second \<le> x"
    using Cons.IH [of g'] Cons.prems slot(1) by auto
  have lo: "0 \<le> lo * second" using c(2) by (simp add: go_defs)
  have "u + lo * second \<le> x" if u: "gs_pace (gstate_of g k) kind = Some u"
    and x: "x \<in> set (pace_slots cfg k kind g (call # calls))" for u x
  proof -
    have "u + lo * second \<le> now + d" using slot(3) [OF u r] by simp
    moreover have "now + d \<le> x" using x call p ih(2) lo by fastforce
    ultimately show ?thesis by linarith
  qed
  then show ?case using ih call p by simp
qed simp

text \<open>
  C25: Concurrent callers of \<open>Pace\<close> get successive slots: each later slot for the same kind of
  work on a catalog lies at least the configured minimum gap after each earlier one.
\<close>

theorem pace_spacing:
  assumes "gaps cfg kind = (lo, hi)" and "0 \<le> lo" and "0 < max hi lo" and "list_all (\<lambda>c. rnd_ok (fst c)) calls"
  shows "sorted_wrt (\<lambda>a b. a + lo * second \<le> b) (pace_slots cfg k kind g calls)"
  using pace_slots_spaced [OF assms] by blast

theorem pace_spacing_witness:
  "sorted_wrt (\<lambda>a b. a + 10 * second \<le> b)
     (pace_slots (the (Presets Gentle)) ex_key ''chapter'' (New True) [(\<lambda>_. 0, 5), (\<lambda>_. 0, 6), (\<lambda>_. 0, 9)])"
  by (rule pace_spacing [where hi = 30]) (simp_all add: gaps_def rnd_ok_def)

section \<open>Layered settings\<close>

text \<open>The last non-zero value.\<close>

definition last_set :: "int \<Rightarrow> int list \<Rightarrow> int" where
  "last_set d vs = (case filter (\<lambda>v. v \<noteq> 0) vs of [] \<Rightarrow> d | x # xs \<Rightarrow> last (x # xs))"

lemma last_set_simps [simp]: "last_set d [] = d" "last_set d (v # vs) = last_set (over v d) vs"
  by (auto simp: last_set_def over_def split: list.splits)

definition in_effect :: "preset \<Rightarrow> throttle_config \<Rightarrow> bool" where
  "in_effect p l \<longleftrightarrow> t_preset l = PresetUnset \<or> t_preset l = p"

lemma overlay_fields:
  fixes f :: "throttle_config \<Rightarrow> int"
  assumes "\<And>l out. in_effect p l \<Longrightarrow> f (overlay p l out) = over (f l) (f out)"
  shows "f (foldl (\<lambda>out l. overlay p l out) base layers) = last_set (f base) (map f (filter (in_effect p) layers))"
proof (induction layers arbitrary: base)
  case (Cons l layers)
  have "\<not> in_effect p l \<Longrightarrow> overlay p l base = base" by (simp add: overlay_def in_effect_def)
  with Cons assms show ?case by (cases "in_effect p l") simp_all
qed simp

lemma chosen_known: "Presets (chosen_preset layers) \<noteq> None"
proof -
  have "Presets p \<noteq> None \<Longrightarrow> Presets (foldl (\<lambda>p l. if Presets (t_preset l) \<noteq> None then t_preset l else p) p layers) \<noteq> None" for p
    by (induction layers arbitrary: p) auto
  then show ?thesis by (simp add: chosen_preset_def)
qed

lemma chosen_last:
  "chosen_preset layers = (case filter (\<lambda>p. Presets p \<noteq> None) (map t_preset layers) of [] \<Rightarrow> Normal | x # xs \<Rightarrow> last (x # xs))"
proof -
  have "foldl (\<lambda>p l. if Presets (t_preset l) \<noteq> None then t_preset l else p) p layers
      = (case filter (\<lambda>p. Presets p \<noteq> None) (map t_preset layers) of [] \<Rightarrow> p | x # xs \<Rightarrow> last (x # xs))" for p
    by (induction layers arbitrary: p) (auto split: list.splits)
  then show ?thesis by (simp add: chosen_preset_def)
qed

text \<open>
  C39: \<open>Resolve\<close> layers throttle settings: the preset is the last known one a layer names
  (normal without any), every limit is the last non-zero value among the layers that name that
  preset or none, or else the preset's own, and at least one request may always run.
\<close>

theorem resolve_layers:
  "\<exists>base. Presets (chosen_preset layers) = Some base \<and>
    chosen_preset layers = (case filter (\<lambda>p. Presets p \<noteq> None) (map t_preset layers) of [] \<Rightarrow> Normal | x # xs \<Rightarrow> last (x # xs)) \<and>
    1 \<le> t_max_concurrent (Resolve layers) \<and>
    (let eff = filter (in_effect (chosen_preset layers)) layers; pick = (\<lambda>f. last_set (f base) (map f eff)) in
     t_requests_per_minute (Resolve layers) = pick t_requests_per_minute \<and>
     t_burst (Resolve layers) = pick t_burst \<and>
     t_min_delay_ms (Resolve layers) = pick t_min_delay_ms \<and>
     t_jitter_ms (Resolve layers) = pick t_jitter_ms \<and>
     t_max_concurrent (Resolve layers) = (if pick t_max_concurrent \<le> 0 then 1 else pick t_max_concurrent) \<and>
     t_chapter_gap_min (Resolve layers) = pick t_chapter_gap_min \<and>
     t_chapter_gap_max (Resolve layers) = pick t_chapter_gap_max \<and>
     t_refresh_gap_min (Resolve layers) = pick t_refresh_gap_min \<and>
     t_refresh_gap_max (Resolve layers) = pick t_refresh_gap_max)"
proof -
  obtain base where base: "Presets (chosen_preset layers) = Some base" using chosen_known by blast
  have *: "f (foldl (\<lambda>out l. overlay (chosen_preset layers) l out) base layers) = last_set (f base) (map f (filter (in_effect (chosen_preset layers)) layers))"
    if "f \<in> {t_requests_per_minute, t_burst, t_min_delay_ms, t_jitter_ms, t_max_concurrent, t_chapter_gap_min,
              t_chapter_gap_max, t_refresh_gap_min, t_refresh_gap_max}" for f :: "throttle_config \<Rightarrow> int"
    by (rule overlay_fields) (use that in \<open>auto simp: overlay_def in_effect_def\<close>)
  let ?out = "foldl (\<lambda>out l. overlay (chosen_preset layers) l out) base layers"
  have eq: "Resolve layers = (if t_max_concurrent ?out \<le> 0 then ?out\<lparr>t_max_concurrent := 1\<rparr> else ?out)"
    by (simp add: Resolve_def Let_def base)
  show ?thesis
    by (intro exI [of _ base] conjI base chosen_last [of layers]) (simp_all add: eq * Let_def)
qed

end
