(* ===== verification/Import.thy ===== *)
theory Import
  imports Fetch Live Throttle
begin

text \<open>
  Importing a chapter (\<open>internal/downloads/import.go\<close>): writing the archive, then one transaction
  that replaces the chapter's file row, marks chapter and job as done, moves readers of a
  re-split chapter to the right page and records the history.  The file system and the archive
  writer are parameters; the pages and the database are not.
\<close>

section \<open>State and environment\<close>

text \<open>What a running job works on, around the manager's own state.\<close>

record pipeline =
  pl_m :: manager_state
  pl_gov :: "governor option"
  pl_reads :: "chapter_read_state table"
  pl_live :: live
  pl_dirs :: "int64 set"
  pl_recycled :: "string list"
  pl_written :: "string list"

abbreviation on_m :: "(manager_state \<Rightarrow> manager_state) \<Rightarrow> pipeline \<Rightarrow> pipeline" where
  "on_m f p \<equiv> p\<lparr>pl_m := f (pl_m p)\<rparr>"

abbreviation on_q :: "(queue_state \<Rightarrow> queue_state) \<Rightarrow> pipeline \<Rightarrow> pipeline" where
  "on_q f p \<equiv> on_m (on_queue f) p"

abbreviation pl_queue :: "pipeline \<Rightarrow> queue_state" where
  "pl_queue p \<equiv> m_queue (pl_m p)"

record process_result =
  res_pages :: "page_file list"
  res_source_pages :: "int list"
  res_changed :: bool
  res_processed_pages :: int
  res_upscaled :: bool
  res_upscale_model :: string
  res_encoded :: int
  res_encoder :: string
  res_seconds :: float64
  res_upscale_seconds :: float64
  res_encode_seconds :: float64
  res_shrunk :: int
  res_split :: int

text \<open>
  The library's answers: the series folder, free bytes on its disk, the name of a new file,
  whether a path exists, the ComicInfo document, the archive's size and checksum, the order in
  which Go visits the formats.
\<close>

record import_env =
  ie_min_free_mb :: int
  ie_dir :: "series \<Rightarrow> run_error + string"
  ie_free :: "string \<Rightarrow> int option"
  ie_name :: "series \<Rightarrow> chapter_row \<Rightarrow> chapter_release option \<Rightarrow> string \<Rightarrow> string"
  ie_exists :: "string \<Rightarrow> bool"
  ie_xml :: "job_ctx \<Rightarrow> int \<Rightarrow> run_error + string"
  ie_write :: "string \<Rightarrow> page_file list \<Rightarrow> string \<Rightarrow> run_error + (int64 \<times> string)"
  ie_order :: "string list \<Rightarrow> string list"

definition new_error :: "string \<Rightarrow> run_error" where
  "new_error msg = \<lparr>re_msg = msg, re_net = False, re_permanent = False, re_infra = False, re_cooling = None, re_throttled = False\<rparr>"

definition MiB :: int where "MiB = 1048576"

section \<open>The new file\<close>

text \<open>Series folder and file name as they are now.\<close>

definition relocated :: "catalog_db \<Rightarrow> manager_state \<Rightarrow> job_ctx \<Rightarrow> job_ctx" where
  "relocated db m jc =
     jc\<lparr>jc_series := (case tget s_id (s_id (jc_series jc)) (db_series db) of
             None \<Rightarrow> jc_series jc
           | Some loc \<Rightarrow> (jc_series jc)\<lparr>s_root_folder_id := s_root_folder_id loc, s_path := s_path loc\<rparr>),
        jc_file := (case jc_file jc of
             None \<Rightarrow> None
           | Some f \<Rightarrow> Some (case tget f_id (f_id f) (m_files m) of
                 None \<Rightarrow> f
               | Some g \<Rightarrow> f\<lparr>f_relative_path := f_relative_path g\<rparr>))\<rparr>"

definition chapter_path :: "import_env \<Rightarrow> job_ctx \<Rightarrow> string" where
  "chapter_path env jc =
     (case jc_file jc of
        Some f \<Rightarrow> f_relative_path f
      | None \<Rightarrow> ie_name env (jc_series jc) (jc_chapter jc) (jc_release jc)
          (case jc_link jc of None \<Rightarrow> [] | Some l \<Rightarrow> ss_source_name l))"

definition recycles :: "download_job \<Rightarrow> job_ctx \<Rightarrow> process_result \<Rightarrow> bool" where
  "recycles job jc proc \<longleftrightarrow>
     \<not> (j_kind job = JobKindReprocess \<and> res_encoded proc > 0 \<and> \<not> e_recycle_originals (pc_encode (pr_config (jc_profile jc))))"

definition n_format :: "page_file list \<Rightarrow> string \<Rightarrow> int" where
  "n_format pages f = int (length (filter (\<lambda>p. pf_format p = f) pages))"

fun top_format :: "page_file list \<Rightarrow> string list \<Rightarrow> string \<Rightarrow> string" where
  "top_format pages [] best = best"
| "top_format pages (f # fs) best = top_format pages fs (if n_format pages f > n_format pages best then f else best)"

definition page_format :: "import_env \<Rightarrow> page_file list \<Rightarrow> string" where
  "page_format env pages = top_format pages (ie_order env (remdups (map pf_format pages))) []"

definition avg_width :: "page_file list \<Rightarrow> int" where
  "avg_width pages = (if pages = [] then 0 else go_div (sum_list (map pf_width pages)) (int (length pages)))"

text \<open>The row: as a new file, then what a reprocessed one inherits, then its id if the bytes are the same.\<close>

definition base_file ::
  "import_env \<Rightarrow> time \<Rightarrow> job_ctx \<Rightarrow> process_result \<Rightarrow> string \<Rightarrow> int64 \<Rightarrow> string \<Rightarrow> int64 \<Rightarrow> string \<Rightarrow> chapter_file" where
  "base_file env now jc proc params sizeBefore rel sz sha =
     \<lparr>f_id = 0, f_chapter_id = c_id (jc_chapter jc), f_series_id = s_id (jc_series jc), f_relative_path = rel, f_size = sz,
      f_page_count = int (length (res_pages proc)), f_avg_width = avg_width (res_pages proc),
      f_format = page_format env (res_pages proc),
      f_release_id = (case jc_release jc of None \<Rightarrow> None | Some r \<Rightarrow> Some (r_id r)),
      f_scanlator = (case jc_release jc of None \<Rightarrow> [] | Some r \<Rightarrow> r_scanlator r),
      f_source_name = (case jc_link jc of None \<Rightarrow> [] | Some l \<Rightarrow> ss_source_name l),
      f_sha256 = sha, f_upscaled = res_upscaled proc, f_upscale_model = res_upscale_model proc,
      f_size_before = (if res_upscaled proc then sizeBefore else 0), f_imported_at = now,
      f_process_params = params, f_process_state = (if params \<noteq> [] then ProcessDone else ProcessUnset),
      f_process_attempts = 0, f_process_retry_at = None, f_process_error = [],
      f_processed_at = (if params \<noteq> [] then Some now else None),
      f_size_original = (if res_changed proc then sizeBefore else sz),
      f_process_seconds = (if params \<noteq> [] then res_seconds proc else 0),
      f_process_pages = (if params \<noteq> [] then res_processed_pages proc else 0)\<rparr>"

definition inherit :: "chapter_file \<Rightarrow> chapter_file \<Rightarrow> chapter_file" where
  "inherit old f =
     f\<lparr>f_size_original := (if f_size_original old = 0 then f_size old else f_size_original old),
       f_release_id := f_release_id old, f_scanlator := f_scanlator old, f_source_name := f_source_name old,
       f_upscaled := (if \<not> f_upscaled f then f_upscaled old else f_upscaled f),
       f_upscale_model := (if \<not> f_upscaled f then f_upscale_model old else f_upscale_model f)\<rparr>"

definition inherited :: "download_job \<Rightarrow> job_ctx \<Rightarrow> chapter_file \<Rightarrow> chapter_file" where
  "inherited job jc f =
     (case jc_file jc of None \<Rightarrow> f | Some old \<Rightarrow> if j_kind job = JobKindReprocess then inherit old f else f)"

definition keep_id :: "chapter_file option \<Rightarrow> chapter_file \<Rightarrow> chapter_file" where
  "keep_id old f =
     (case old of
        None \<Rightarrow> f
      | Some g \<Rightarrow> if f_relative_path g = f_relative_path f \<and> f_sha256 g = f_sha256 f
                  then f\<lparr>f_id := f_id g, f_imported_at := f_imported_at g\<rparr> else f)"

definition import_file ::
  "import_env \<Rightarrow> time \<Rightarrow> download_job \<Rightarrow> job_ctx \<Rightarrow> process_result \<Rightarrow> string \<Rightarrow> int64 \<Rightarrow> string \<Rightarrow> int64 \<Rightarrow> string \<Rightarrow> chapter_file" where
  "import_file env now job jc proc params sizeBefore rel sz sha =
     keep_id (jc_file jc) (inherited job jc (base_file env now jc proc params sizeBefore rel sz sha))"

definition import_event :: "download_job \<Rightarrow> job_ctx \<Rightarrow> history_event" where
  "import_event job jc =
     (case jc_file jc of
        None \<Rightarrow> HistoryImported
      | Some _ \<Rightarrow> if j_kind job = JobKindReprocess then HistoryProcessed else HistoryUpgraded)"

section \<open>The transaction\<close>

definition put_file :: "chapter_file \<Rightarrow> chapter_file table \<Rightarrow> chapter_file table \<times> int64" where
  "put_file f t =
     (if f_id f \<noteq> 0 then (upd_where (\<lambda>r. f_id r = f_id f) (\<lambda>_. f) t, f_id f)
      else (tinsert (\<lambda>i r. r\<lparr>f_id := i\<rparr>) f (del_where (\<lambda>r. f_chapter_id r = f_chapter_id f) t), seq t + 1))"

definition remap_reads :: "int64 \<Rightarrow> process_result \<Rightarrow> chapter_read_state table \<Rightarrow> chapter_read_state table" where
  "remap_reads ch proc t =
     (if res_split proc > 0
      then upd_where (\<lambda>r. rs_chapter_id r = ch) (\<lambda>r. r\<lparr>rs_page := remapPage (rs_page r) (rs_completed r) (res_source_pages proc)\<rparr>) t
      else t)"

definition import_data :: "process_result \<Rightarrow> chapter_file \<Rightarrow> (string \<times> string) list" where
  "import_data proc f =
     [(''path'', f_relative_path f), (''size'', format_int (f_size f)), (''pages'', format_int (int (length (res_pages proc)))),
      (''source'', f_source_name f), (''scanlator'', f_scanlator f), (''upscaled'', boolStr (res_upscaled proc)),
      (''encoded'', format_int (res_encoded proc)), (''sizeOriginal'', format_int (f_size_original f))]"

definition import_tx :: "time \<Rightarrow> download_job \<Rightarrow> job_ctx \<Rightarrow> process_result \<Rightarrow> chapter_file \<Rightarrow> pipeline \<Rightarrow> pipeline" where
  "import_tx now job jc proc f p =
     (let (files, fid) = put_file f (m_files (pl_m p));
          ch = c_id (jc_chapter jc);
          p = on_m (\<lambda>m. m\<lparr>m_files := files\<rparr>) p;
          p = on_q (\<lambda>s. s\<lparr>q_chapters := upd_where (\<lambda>c. c_id c = ch)
                (\<lambda>c. c\<lparr>c_file_id := Some fid, c_state := ChapterImported, c_cleaned_at := None, c_updated_at := now\<rparr>) (q_chapters s)\<rparr>) p;
          p = p\<lparr>pl_reads := remap_reads ch proc (pl_reads p)\<rparr>;
          p = on_q (\<lambda>s. fst (write_job False (\<lambda>j. j\<lparr>j_status := JobCompleted, j_progress := 100, j_error := [], j_updated_at := now\<rparr>)
                (j_id job) s)) p
      in on_q (Record now (s_id (jc_series jc)) (Some ch) (import_event job jc)
           (case jc_release jc of None \<Rightarrow> [] | Some r \<Rightarrow> r_name r) (import_data proc f)) p)"

definition import_events :: "download_job \<Rightarrow> job_ctx \<Rightarrow> process_result \<Rightarrow> queue_state \<Rightarrow> queue_state" where
  "import_events job jc proc s =
     (let ser = s_id (jc_series jc); ev = import_event job jc;
          s = (if ev \<noteq> HistoryProcessed
               then publish (if ev = HistoryUpgraded then ''chapter.upgraded'' else ''chapter.imported'') ser s else s);
          s = publish ''library.file'' ser s;
          s = (if res_encoded proc > 0 then publish ''library.encoded'' ser s else s)
      in changed ''queue'' ''updated'' (j_id job) (changed ''series'' ''updated'' ser
           (changed ''chapter'' ''updated'' (c_id (jc_chapter jc)) s)))"

section \<open>The operation\<close>

definition no_space :: "string \<Rightarrow> int \<Rightarrow> int \<Rightarrow> run_error" where
  "no_space dir free want = infra (new_error (''not enough free space in '' @ dir @ '' ('' @ format_int (free div MiB) @
     '' MB free, '' @ format_int want @ '' MB required)''))"

definition write_failed :: "string \<Rightarrow> run_error \<Rightarrow> run_error" where
  "write_failed target e = infra (e\<lparr>re_msg := ''write '' @ target @ '': '' @ re_msg e\<rparr>)"

definition importChapter ::
  "import_env \<Rightarrow> catalog_db \<Rightarrow> time \<Rightarrow> download_job \<Rightarrow> job_ctx \<Rightarrow> process_result \<Rightarrow> string \<Rightarrow> int64 \<Rightarrow> pipeline \<Rightarrow> pipeline \<times> run_error option" where
  "importChapter env db now job jc proc params sizeBefore p =
     (let jc = relocated db (pl_m p) jc in
      case ie_dir env (jc_series jc) of
        Inl e \<Rightarrow> (p, Some (infra e))
      | Inr dir \<Rightarrow>
          let short = (if ie_min_free_mb env > 0
                then (case ie_free env dir of
                        None \<Rightarrow> None
                      | Some free \<Rightarrow> if free < ie_min_free_mb env * MiB then Some (no_space dir free (ie_min_free_mb env)) else None)
                else None)
          in
          case short of
            Some e \<Rightarrow> (p, Some e)
          | None \<Rightarrow>
              let rel = chapter_path env jc; target = dir @ ''/'' @ rel;
                  p = (if ie_exists env target \<and> recycles job jc proc then p\<lparr>pl_recycled := pl_recycled p @ [target]\<rparr> else p)
              in
              case ie_xml env jc (int (length (res_pages proc))) of
                Inl e \<Rightarrow> (p, Some e)
              | Inr xml \<Rightarrow>
                  (case ie_write env target (res_pages proc) xml of
                     Inl e \<Rightarrow> (p, Some (write_failed target e))
                   | Inr (sz, sha) \<Rightarrow>
                       let p = p\<lparr>pl_written := pl_written p @ [target]\<rparr>;
                           f = import_file env now job jc proc params sizeBefore rel sz sha;
                           p = import_tx now job jc proc f p
                       in (on_q (import_events job jc proc) p, None)))"

section \<open>Facts on the file table\<close>

interpretation files_table: id_table f_id "\<lambda>i r. r\<lparr>f_id := i\<rparr>"
  by unfold_locales simp

text \<open>Every chapter has at most one file.\<close>

definition files_ok :: "chapter_file table \<Rightarrow> bool" where
  "files_ok t \<longleftrightarrow> twf f_id t \<and> distinct (map f_chapter_id (rows t))"

lemma filter_distinct_one:
  assumes "distinct (map k xs)" and "x \<in> set xs" shows "filter (\<lambda>y. k y = k x) xs = [x]"
  using assms
proof (induction xs)
  case (Cons y ys)
  have "filter (\<lambda>z. k z = k y) ys = []" using Cons.prems(1) by (auto simp: filter_empty_conv intro: rev_image_eqI)
  moreover have "k y \<noteq> k x" if "x \<in> set ys" using Cons.prems(1) imageI [OF that, of k] by auto
  ultimately show ?case using Cons by auto
qed simp

lemma put_file_spec:
  assumes ok: "files_ok t" and p: "put_file f t = (t', i)"
    and there: "f_id f \<noteq> 0 \<Longrightarrow> \<exists>g \<in> set (rows t). f_id g = f_id f \<and> f_chapter_id g = f_chapter_id f"
  shows "files_ok t'" and "filter (\<lambda>g. f_chapter_id g = f_chapter_id f) (rows t') = [f\<lparr>f_id := i\<rparr>]"
    and "f_chapter_id g \<noteq> f_chapter_id f \<Longrightarrow> g \<in> set (rows t') \<longleftrightarrow> g \<in> set (rows t)"
    and "f_id f \<noteq> 0 \<Longrightarrow> i = f_id f"
proof -
  have t: "twf f_id t" and d: "distinct (map f_chapter_id (rows t))" using ok by (simp_all add: files_ok_def)
  have "files_ok t' \<and> f\<lparr>f_id := i\<rparr> \<in> set (rows t') \<and> (f_chapter_id g \<noteq> f_chapter_id f \<longrightarrow> (g \<in> set (rows t') \<longleftrightarrow> g \<in> set (rows t)))
      \<and> (f_id f \<noteq> 0 \<longrightarrow> i = f_id f)"
  proof (cases "f_id f = 0")
    case True
    then have t': "t' = tinsert (\<lambda>i r. r\<lparr>f_id := i\<rparr>) f (del_where (\<lambda>r. f_chapter_id r = f_chapter_id f) t)" and i: "i = seq t + 1"
      using p by (simp_all add: put_file_def)
    have "twf f_id t'" unfolding t' by (intro files_table.wf_insert files_table.wf_delete t)
    moreover have "distinct (map f_chapter_id (rows t'))"
      using d by (auto simp: t' tinsert_def del_where_def distinct_map intro: inj_on_subset)
    ultimately show ?thesis using True by (auto simp: files_ok_def t' i tinsert_def del_where_def)
  next
    case False
    then have t': "t' = upd_where (\<lambda>r. f_id r = f_id f) (\<lambda>_. f) t" and i: "i = f_id f" using p by (auto simp: put_file_def)
    obtain g where g: "g \<in> set (rows t)" "f_id g = f_id f" "f_chapter_id g = f_chapter_id f" using there [OF False] by blast
    have only: "r = g" if "r \<in> set (rows t)" "f_id r = f_id f" for r using files_table.unique [OF t that(1) g(1)] that(2) g(2) by simp
    have "twf f_id t'" unfolding t' by (rule files_table.wf_update [OF _ t]) simp
    moreover have "map f_chapter_id (rows t') = map f_chapter_id (rows t)"
      unfolding t' upd_where_def using only g(3) by auto
    ultimately have "files_ok t'" using d by (simp add: files_ok_def)
    moreover have "set (rows t') = insert f (set (rows t) - {g})"
    proof -
      have "\<forall>r \<in> set (rows t). (f_id r = f_id f) = (r = g)" using only g(2) by blast
      then have "set (rows t') = (\<lambda>r. if r = g then f else r) ` set (rows t)" unfolding t' set_upd_where by simp
      also have "\<dots> = insert f (set (rows t) - {g})" using g(1) by auto
      finally show ?thesis .
    qed
    ultimately show ?thesis using g by (auto simp: i)
  qed
  moreover from this have "filter (\<lambda>x. f_chapter_id x = f_chapter_id (f\<lparr>f_id := i\<rparr>)) (rows t') = [f\<lparr>f_id := i\<rparr>]"
    by (intro filter_distinct_one) (simp_all add: files_ok_def)
  ultimately show "files_ok t'" "filter (\<lambda>g. f_chapter_id g = f_chapter_id f) (rows t') = [f\<lparr>f_id := i\<rparr>]"
    "f_chapter_id g \<noteq> f_chapter_id f \<Longrightarrow> g \<in> set (rows t') \<longleftrightarrow> g \<in> set (rows t)" "f_id f \<noteq> 0 \<Longrightarrow> i = f_id f"
    by simp_all
qed

lemma relocated_simps [simp]:
  "jc_chapter (relocated db m jc) = jc_chapter jc" "s_id (jc_series (relocated db m jc)) = s_id (jc_series jc)"
  "jc_release (relocated db m jc) = jc_release jc" "jc_link (relocated db m jc) = jc_link jc"
  "jc_profile (relocated db m jc) = jc_profile jc" "jc_file (relocated db m jc) = None \<longleftrightarrow> jc_file jc = None"
  by (simp_all add: relocated_def split: option.splits)

lemma relocated_file:
  "jc_file (relocated db m jc) = Some g \<Longrightarrow> \<exists>f. jc_file jc = Some f \<and> f_id g = f_id f \<and> f_sha256 g = f_sha256 f \<and>
    f_imported_at g = f_imported_at f \<and> f_size_original g = f_size_original f \<and> f_size g = f_size f"
  by (auto simp: relocated_def split: option.splits)

lemma keep_id_simps:
  "f_chapter_id (keep_id old f) = f_chapter_id f" "f_page_count (keep_id old f) = f_page_count f"
  "f_relative_path (keep_id old f) = f_relative_path f" "f_sha256 (keep_id old f) = f_sha256 f"
  "f_process_params (keep_id old f) = f_process_params f" "f_size_original (keep_id old f) = f_size_original f"
  by (simp_all add: keep_id_def split: option.split)

lemma inherited_simps:
  "f_chapter_id (inherited job jc f) = f_chapter_id f" "f_page_count (inherited job jc f) = f_page_count f"
  "f_relative_path (inherited job jc f) = f_relative_path f" "f_sha256 (inherited job jc f) = f_sha256 f"
  "f_process_params (inherited job jc f) = f_process_params f" "f_id (inherited job jc f) = f_id f"
  by (simp_all add: inherited_def inherit_def split: option.split)

lemma base_file_simps:
  "f_chapter_id (base_file env now jc proc params sb rel sz sha) = c_id (jc_chapter jc)"
  "f_page_count (base_file env now jc proc params sb rel sz sha) = int (length (res_pages proc))"
  "f_relative_path (base_file env now jc proc params sb rel sz sha) = rel"
  "f_sha256 (base_file env now jc proc params sb rel sz sha) = sha"
  "f_process_params (base_file env now jc proc params sb rel sz sha) = params"
  "f_id (base_file env now jc proc params sb rel sz sha) = 0"
  by (simp_all add: base_file_def)

lemmas import_file_simps [simp] =
  keep_id_simps [of "jc_file jc" "inherited job jc (base_file env now jc proc params sb rel sz sha)",
    folded import_file_def, unfolded inherited_simps base_file_simps] for jc job env now proc params sb rel sz sha

lemma import_file_id:
  "f_id (import_file env now job jc proc params sb rel sz sha) =
     (case jc_file jc of Some g \<Rightarrow> if f_relative_path g = rel \<and> f_sha256 g = sha then f_id g else 0 | None \<Rightarrow> 0)"
  by (simp add: import_file_def keep_id_def inherited_simps base_file_simps split: option.split)

lemma import_tx_frames:
  "m_files (pl_m (import_tx now job jc proc f p)) = fst (put_file f (m_files (pl_m p)))"
  "pl_reads (import_tx now job jc proc f p) = remap_reads (c_id (jc_chapter jc)) proc (pl_reads p)"
  "q_chapters (pl_queue (import_tx now job jc proc f p)) = upd_where (\<lambda>c. c_id c = c_id (jc_chapter jc))
     (\<lambda>c. c\<lparr>c_file_id := Some (snd (put_file f (m_files (pl_m p)))), c_state := ChapterImported, c_cleaned_at := None, c_updated_at := now\<rparr>)
     (q_chapters (pl_queue p))"
  "pl_live (import_tx now job jc proc f p) = pl_live p" "pl_dirs (import_tx now job jc proc f p) = pl_dirs p"
  "pl_gov (import_tx now job jc proc f p) = pl_gov p"
  by (simp_all add: import_tx_def Let_def case_prod_beta Record_def)

lemma write_job_same_jobs: "q_jobs s = q_jobs s' \<Longrightarrow> q_jobs (fst (write_job g f i s)) = q_jobs (fst (write_job g f i s'))"
  by (simp add: write_job_def split: option.split)

lemma import_tx_jobs:
  "q_jobs (pl_queue (import_tx now job jc proc f p)) =
     q_jobs (fst (write_job False (\<lambda>j. j\<lparr>j_status := JobCompleted, j_progress := 100, j_error := [], j_updated_at := now\<rparr>)
       (j_id job) (pl_queue p)))"
  by (simp add: import_tx_def Let_def case_prod_beta Record_def) (rule write_job_same_jobs, simp)

lemma import_tx_ok:
  assumes "queue_ok (pl_queue p)" shows "queue_ok (pl_queue (import_tx now job jc proc f p))"
  using assms by (auto simp: import_tx_def Let_def case_prod_beta keeps_place_def intro!: Record_ok write_job_ok chapter_update_ok)

lemma import_events_frames [simp]:
  "q_jobs (import_events job jc proc s) = q_jobs s" "q_chapters (import_events job jc proc s) = q_chapters s"
  "queue_ok (import_events job jc proc s) = queue_ok s"
  by (simp_all add: import_events_def Let_def publish_def)

text \<open>An import either fails and leaves the database alone, or runs the transaction.\<close>

lemma importChapter_cases:
  assumes "importChapter env db now job jc proc params sb p = (p', err)"
  obtains (failed) e where "err = Some e" "pl_m p' = pl_m p" "pl_reads p' = pl_reads p" "pl_live p' = pl_live p"
      "pl_dirs p' = pl_dirs p" "pl_gov p' = pl_gov p"
    | (imported) q rel sz sha where "err = None" "pl_m q = pl_m p" "pl_reads q = pl_reads p" "pl_live q = pl_live p"
      "pl_dirs q = pl_dirs p" "pl_gov q = pl_gov p"
      "p' = on_q (import_events job (relocated db (pl_m p) jc) proc)
         (import_tx now job (relocated db (pl_m p) jc) proc
           (import_file env now job (relocated db (pl_m p) jc) proc params sb rel sz sha) q)"
      "rel = chapter_path env (relocated db (pl_m p) jc)"
proof -
  let ?jc = "relocated db (pl_m p) jc"
  show ?thesis
  proof (cases "err")
    case (Some e)
    with assms show ?thesis
      by (intro failed) (auto simp: importChapter_def Let_def split: sum.splits option.splits if_splits)
  next
    case None
    with assms obtain q sz sha where "p' = on_q (import_events job ?jc proc)
        (import_tx now job ?jc proc (import_file env now job ?jc proc params sb (chapter_path env ?jc) sz sha) q)"
      "pl_m q = pl_m p" "pl_reads q = pl_reads p" "pl_live q = pl_live p" "pl_dirs q = pl_dirs p" "pl_gov q = pl_gov p"
      by (auto simp: importChapter_def Let_def split: sum.splits option.splits if_splits)
    with None show ?thesis by (intro imported) auto
  qed
qed

lemma import_tx_job:
  assumes ok: "queue_ok (pl_queue p)" and row: "j \<in> set (rows (q_jobs (pl_queue p)))" "j_id j = j_id job"
  shows "\<exists>j' \<in> set (rows (q_jobs (pl_queue (import_tx now job jc proc f p)))). j_id j' = j_id job \<and> j_status j' = JobCompleted"
proof -
  let ?f = "\<lambda>j :: download_job. j\<lparr>j_status := JobCompleted, j_progress := 100, j_error := [], j_updated_at := now\<rparr>"
  have "write_job False ?f (j_id job) (pl_queue p) =
    ((pl_queue p)\<lparr>q_jobs := upd_where (\<lambda>j. j_id j = j_id job \<and> (False \<longrightarrow> j_status j \<noteq> JobPaused)) ?f (q_jobs (pl_queue p))\<rparr>,
     n_where (\<lambda>j. j_id j = j_id job \<and> (False \<longrightarrow> j_status j \<noteq> JobPaused)) (q_jobs (pl_queue p)))"
    by (rule write_job_Some) (use ok in \<open>auto simp: queue_ok_def activeStatuses_def\<close>)
  then have "?f j \<in> set (rows (q_jobs (pl_queue (import_tx now job jc proc f p))))"
    unfolding import_tx_jobs using row by (force simp: set_upd_where)
  then show ?thesis using row(2) by (intro bexI [of _ "?f j"]) simp_all
qed

section \<open>Properties\<close>

text \<open>
  C20: A successful import leaves the chapter with exactly one file, the one just written, and the chapter
  imported with that file and its job completed; an archive with the same bytes at the same path
  keeps the row's id (reader servers hang progress on it), every other chapter's file is
  untouched, and the queue's invariant and the one-file-per-chapter invariant are kept.
\<close>

theorem import_replaces:
  assumes "importChapter env db now job jc proc params sb p = (p', None)" and "queue_ok (pl_queue p)" and "files_ok (m_files (pl_m p))"
    and "\<And>f. jc_file jc = Some f \<Longrightarrow> \<exists>g \<in> set (rows (m_files (pl_m p))). f_id g = f_id f \<and> f_chapter_id g = c_id (jc_chapter jc)"
    and "j \<in> set (rows (q_jobs (pl_queue p)))" and "j_id j = j_id job"
  shows "queue_ok (pl_queue p') \<and> files_ok (m_files (pl_m p')) \<and>
    (\<exists>f. filter (\<lambda>g. f_chapter_id g = c_id (jc_chapter jc)) (rows (m_files (pl_m p'))) = [f] \<and>
      f_page_count f = int (length (res_pages proc)) \<and> f_process_params f = params \<and>
      (\<forall>c \<in> set (rows (q_chapters (pl_queue p'))). c_id c = c_id (jc_chapter jc) \<longrightarrow>
         c_file_id c = Some (f_id f) \<and> c_state c = ChapterImported) \<and>
      (\<forall>old. jc_file jc = Some old \<longrightarrow> f_sha256 f = f_sha256 old \<longrightarrow> f_id old \<noteq> 0 \<longrightarrow> f_id f = f_id old)) \<and>
    (\<forall>g. f_chapter_id g \<noteq> c_id (jc_chapter jc) \<longrightarrow> g \<in> set (rows (m_files (pl_m p'))) \<longleftrightarrow> g \<in> set (rows (m_files (pl_m p)))) \<and>
    (\<exists>j' \<in> set (rows (q_jobs (pl_queue p'))). j_id j' = j_id job \<and> j_status j' = JobCompleted)"
  using assms(1)
proof (cases rule: importChapter_cases)
  case (imported q rel sz sha)
  let ?jc = "relocated db (pl_m p) jc"
  let ?f = "import_file env now job ?jc proc params sb rel sz sha"
  obtain t i where pf: "put_file ?f (m_files (pl_m p)) = (t, i)" by fastforce
  have path: "f_relative_path g = rel" if "jc_file ?jc = Some g" for g using that imported(8) by (simp add: chapter_path_def)
  have there: "\<exists>g \<in> set (rows (m_files (pl_m p))). f_id g = f_id ?f \<and> f_chapter_id g = f_chapter_id ?f" if "f_id ?f \<noteq> 0"
  proof -
    from that obtain g where g: "jc_file ?jc = Some g" "f_id ?f = f_id g" by (auto simp: import_file_id split: option.splits if_splits)
    then obtain f where "jc_file jc = Some f" "f_id g = f_id f" using relocated_file by blast
    then show ?thesis using assms(4) g(2) by simp
  qed
  have t: "m_files (pl_m p') = t" "q_chapters (pl_queue p') = upd_where (\<lambda>c. c_id c = c_id (jc_chapter jc))
     (\<lambda>c. c\<lparr>c_file_id := Some i, c_state := ChapterImported, c_cleaned_at := None, c_updated_at := now\<rparr>) (q_chapters (pl_queue p))"
    using pf by (simp_all add: imported(2,7) import_tx_frames)
  have keep: "i = f_id old" if old: "jc_file jc = Some old" "sha = f_sha256 old" "f_id old \<noteq> 0" for old
  proof -
    obtain g where g: "jc_file ?jc = Some g" using old(1) relocated_simps(6) by (metis not_None_eq)
    then have "f_id g = f_id old" "f_sha256 g = sha" using relocated_file [OF g] old by auto
    then show ?thesis using put_file_spec(4) [OF assms(3) pf there] g path [OF g] old(3) by (simp add: import_file_id)
  qed
  have o: "queue_ok (pl_queue p')" using assms(2) by (simp add: imported(2,7) import_tx_ok)
  have jb: "\<exists>j' \<in> set (rows (q_jobs (pl_queue p'))). j_id j' = j_id job \<and> j_status j' = JobCompleted"
    using import_tx_job [of q j job now ?jc proc ?f] assms(2,5,6) by (simp add: imported(2,7))
  have one: "filter (\<lambda>g. f_chapter_id g = c_id (jc_chapter jc)) (rows t) = [?f\<lparr>f_id := i\<rparr>]"
    using put_file_spec(2) [OF assms(3) pf there] by simp
  have ch: "\<forall>c \<in> set (rows (q_chapters (pl_queue p'))). c_id c = c_id (jc_chapter jc) \<longrightarrow> c_file_id c = Some i \<and> c_state c = ChapterImported"
    by (auto simp: t(2) set_upd_where)
  show ?thesis unfolding t(1)
    using o put_file_spec(1) [OF assms(3) pf there] put_file_spec(3) [OF assms(3) pf there] one ch jb keep
    by (intro conjI exI [of _ "?f\<lparr>f_id := i\<rparr>"]) auto
qed simp

definition ex_import :: import_env where
  "ex_import = \<lparr>ie_min_free_mb = 0, ie_dir = (\<lambda>s. Inr (''/lib/'' @ s_path s)), ie_free = (\<lambda>_. None),
     ie_name = (\<lambda>s c r src. c_number_key c @ ''.cbz''), ie_exists = (\<lambda>_. False), ie_xml = (\<lambda>_ _. Inr ''<ComicInfo/>''),
     ie_write = (\<lambda>_ pages _. Inr (100 * int (length pages), ''ab12'')), ie_order = (\<lambda>fs. fs)\<rparr>"

definition ex_result :: process_result where
  "ex_result = \<lparr>res_pages = [ex_page], res_source_pages = [], res_changed = False, res_processed_pages = 0, res_upscaled = False,
     res_upscale_model = [], res_encoded = 0, res_encoder = [], res_seconds = 0, res_upscale_seconds = 0,
     res_encode_seconds = 0, res_shrunk = 0, res_split = 0\<rparr>"

definition ex_pipeline :: pipeline where
  "ex_pipeline = \<lparr>pl_m = ex_manager, pl_gov = None, pl_reads = \<lparr>rows = [], seq = 0\<rparr>, pl_live = NewLive, pl_dirs = {},
     pl_recycled = [], pl_written = []\<rparr>"

definition ex_job :: download_job where
  "ex_job = sample_job\<lparr>j_id := 3, j_rank := 21, j_chapter_id := 1\<rparr>"

theorem import_replaces_witness:
  "\<exists>f. filter (\<lambda>g. f_chapter_id g = 1) (rows (m_files (pl_m (fst (importChapter ex_import ex_db 9 ex_job ex_ctx ex_result [] 0 ex_pipeline))))) = [f] \<and>
     f_page_count f = 1"
proof -
  let ?r = "importChapter ex_import ex_db 9 ex_job ex_ctx ex_result [] 0 ex_pipeline"
  have n: "snd ?r = None" by code_simp
  have r: "?r = (fst ?r, None)" using n by (metis prod.collapse)
  have ok: "queue_ok (pl_queue ex_pipeline)" "files_ok (m_files (pl_m ex_pipeline))"
    by (simp_all add: ex_pipeline_def ex_manager_def ex_queue_inv files_ok_def twf_def)
  have job: "ex_job \<in> set (rows (q_jobs (pl_queue ex_pipeline)))" by (simp add: ex_pipeline_def ex_manager_def ex_queue_def ex_job_def)
  have there: "jc_file ex_ctx = Some f \<Longrightarrow> \<exists>g \<in> set (rows (m_files (pl_m ex_pipeline))). f_id g = f_id f \<and> f_chapter_id g = c_id (jc_chapter ex_ctx)" for f
    by (simp add: ex_ctx_def)
  have c: "c_id (jc_chapter ex_ctx) = 1" "length (res_pages ex_result) = 1" by (simp_all add: ex_ctx_def sample_chapter_def ex_result_def)
  from import_replaces [OF r ok there job refl] obtain f where
    "filter (\<lambda>g. f_chapter_id g = c_id (jc_chapter ex_ctx)) (rows (m_files (pl_m (fst ?r)))) = [f]" "f_page_count f = int (length (res_pages ex_result))"
    by blast
  then show ?thesis unfolding c by (intro exI [of _ f]) simp
qed

end
