(* ===== verification/Settings.thy ===== *)
theory Settings
  imports Model
begin

text \<open>
  \<open>internal/settings/settings.go\<close>: the settings documents the modelled components read, their
  validation, and the store with the fields that environment variables pin.  A stored document is
  a JSON tree; decoding one into a Go struct is the argument \<open>decode\<close> of the operations (it takes
  the struct's present value, as \<open>json.Unmarshal\<close> does), encoding is the caller's.  Time zones
  are the argument \<open>zones\<close>: the zone names \<open>time.LoadLocation\<close> knows, each with its local clock.
\<close>

section \<open>Documents\<close>

datatype placement = PlaceAuto | PlaceWorkers | PlaceLocal | PlaceOther string

record downloads_settings =
  dl_max_concurrent :: int
  dl_max_per_source :: int
  dl_page_concurrency :: int
  dl_page_retries :: int
  dl_max_attempts :: int
  dl_check_interval :: int
  dl_worker_placement :: placement
  dl_max_concurrent_per_worker :: int
  dl_max_worker_tasks :: int
  dl_max_concurrent_processing :: int
  dl_worker_prefetch :: int
  dl_max_local_tasks :: int

definition LocalOff :: "downloads_settings \<Rightarrow> bool" where
  "LocalOff d \<longleftrightarrow> dl_max_local_tasks d < 0"

definition DefaultDownloads :: downloads_settings where
  "DefaultDownloads = \<lparr>dl_max_concurrent = 3, dl_max_per_source = 1, dl_page_concurrency = 3, dl_page_retries = 3,
     dl_max_attempts = 3, dl_check_interval = 360, dl_worker_placement = PlaceAuto, dl_max_concurrent_per_worker = 2,
     dl_max_worker_tasks = 8, dl_max_concurrent_processing = 4, dl_worker_prefetch = 50, dl_max_local_tasks = 0\<rparr>"

record queue_pause =
  qp_paused :: bool
  qp_until :: "time option"

definition Active :: "time \<Rightarrow> queue_pause \<Rightarrow> bool" where
  "Active now q \<longleftrightarrow> qp_paused q \<and> (case qp_until q of None \<Rightarrow> True | Some u \<Rightarrow> now < u)"

record language_default =
  ld_language :: string
  ld_sources :: "string list"
  ld_root_folder :: int64
  ld_profile :: int64
  ld_direction :: string

definition ForLanguage :: "language_default list \<Rightarrow> string \<Rightarrow> language_default option" where
  "ForLanguage defaults language = find (\<lambda>p. equal_fold (trim_space (ld_language p)) (trim_space language)) defaults"

datatype sources_error = NoLanguage | DuplicateLanguage string | BadDirection string | EmptySource string

fun validate_sources :: "language_default list \<Rightarrow> string set \<Rightarrow> sources_error option" where
  "validate_sources [] seen = None"
| "validate_sources (p # ps) seen =
     (let language = to_lower (trim_space (ld_language p)) in
      if language = [] then Some NoLanguage
      else if language \<in> seen then Some (DuplicateLanguage (ld_language p))
      else if ld_direction p \<notin> {[], ''rtl'', ''ltr'', ''webtoon''} then Some (BadDirection (ld_language p))
      else if list_ex (\<lambda>k. trim_space k = []) (ld_sources p) then Some (EmptySource (ld_language p))
      else validate_sources ps (insert language seen))"

definition Validate_sources :: "language_default list \<Rightarrow> sources_error option" where
  "Validate_sources defaults = validate_sources defaults {}"

section \<open>Schedules\<close>

record schedule_window =
  sw_name :: string
  sw_days :: "string list"
  sw_start :: string
  sw_end :: string
  sw_pause_downloads :: bool
  sw_pause_processing :: bool
  sw_throttle :: preset

record schedule =
  sc_timezone :: string
  sc_windows :: "schedule_window list"

text \<open>
  \<open>fmt.Sscanf\<close>'s verb \<open>%d\<close>: skip blanks, an optional sign, at least one digit.  Input after the
  last verb is not looked at.
\<close>

definition scan_blank :: "char \<Rightarrow> bool" where
  "scan_blank c \<longleftrightarrow> is_space c \<and> c \<noteq> CHR 0x0A"

definition digits_value :: "string \<Rightarrow> int" where
  "digits_value ds = foldl (\<lambda>n c. n * 10 + (int (of_char c) - 48)) 0 ds"

definition scan_int :: "string \<Rightarrow> (int \<times> string) option" where
  "scan_int s =
     (let s = dropWhile scan_blank s;
          (neg, s) = (case s of c # r \<Rightarrow> if c = CHR ''-'' then (True, r) else if c = CHR ''+'' then (False, r) else (False, s)
                      | [] \<Rightarrow> (False, []));
          ds = takeWhile digit s
      in if ds = [] then None else Some (if neg then - digits_value ds else digits_value ds, dropWhile digit s))"

definition ParseClock :: "string \<Rightarrow> int option" where
  "ParseClock s =
     (case scan_int (trim_space s) of
        None \<Rightarrow> None
      | Some (h, rest) \<Rightarrow>
          (case rest of
             [] \<Rightarrow> None
           | c # r \<Rightarrow>
               if c \<noteq> CHR '':'' then None
               else
                 (case scan_int r of
                    None \<Rightarrow> None
                  | Some (m, _) \<Rightarrow>
                      if h < 0 \<or> h > 24 \<or> m < 0 \<or> m > 59 \<or> (h = 24 \<and> m \<noteq> 0) then None else Some (h * 60 + m))))"

definition weekdays :: "string list" where
  "weekdays = [''sun'', ''mon'', ''tue'', ''wed'', ''thu'', ''fri'', ''sat'']"

datatype schedule_error = UnknownZone string | BadTime nat string | UnknownDay nat string

fun validate_windows :: "nat \<Rightarrow> schedule_window list \<Rightarrow> schedule_error option" where
  "validate_windows i [] = None"
| "validate_windows i (w # ws) =
     (if ParseClock (sw_start w) = None then Some (BadTime (i + 1) (sw_start w))
      else if ParseClock (sw_end w) = None then Some (BadTime (i + 1) (sw_end w))
      else
        case find (\<lambda>d. to_lower d \<notin> set weekdays) (sw_days w) of
          Some d \<Rightarrow> Some (UnknownDay (i + 1) d)
        | None \<Rightarrow> validate_windows (i + 1) ws)"

definition Validate_schedule :: "(string \<Rightarrow> 'loc option) \<Rightarrow> schedule \<Rightarrow> schedule_error option" where
  "Validate_schedule zones s =
     (if sc_timezone s \<noteq> [] \<and> zones (sc_timezone s) = None then Some (UnknownZone (sc_timezone s))
      else validate_windows 0 (sc_windows s))"

section \<open>JSON documents\<close>

text \<open>\<open>map[string]any\<close> is an association list; only \<open>map_of\<close> of it is observed.\<close>

datatype json = JNull | JBool bool | JNum rat | JStr string | JArr "json list" | JObj "(string \<times> json) list"

type_synonym obj = "(string \<times> json) list"

definition jset :: "string \<Rightarrow> json \<Rightarrow> obj \<Rightarrow> obj" where
  "jset k v m = (k, v) # filter (\<lambda>e. fst e \<noteq> k) m"

definition jdel :: "string \<Rightarrow> obj \<Rightarrow> obj" where
  "jdel k m = filter (\<lambda>e. fst e \<noteq> k) m"

fun getPath :: "obj \<Rightarrow> string list \<Rightarrow> json option" where
  "getPath m [] = None"
| "getPath m [p] = map_of m p"
| "getPath m (p # q # ps) = (case map_of m p of Some (JObj n) \<Rightarrow> getPath n (q # ps) | _ \<Rightarrow> None)"

text \<open>\<open>strings.Split\<close> never gives an empty path, on which \<open>setPath\<close> and \<open>deletePath\<close> would panic.\<close>

fun setPath :: "obj \<Rightarrow> string list \<Rightarrow> json \<Rightarrow> obj" where
  "setPath m [] v = m"
| "setPath m [p] v = jset p v m"
| "setPath m (p # q # ps) v =
     jset p (JObj (setPath (case map_of m p of Some (JObj n) \<Rightarrow> n | _ \<Rightarrow> []) (q # ps) v)) m"

fun deletePath :: "obj \<Rightarrow> string list \<Rightarrow> obj" where
  "deletePath m [] = m"
| "deletePath m [p] = jdel p m"
| "deletePath m (p # q # ps) =
     (case map_of m p of Some (JObj n) \<Rightarrow> jset p (JObj (deletePath n (q # ps))) m | _ \<Rightarrow> m)"

text \<open>\<open>strings.Split(path, ".")\<close>.\<close>

fun split_dots :: "string \<Rightarrow> string \<Rightarrow> string list" where
  "split_dots acc [] = [rev acc]"
| "split_dots acc (c # s) = (if c = CHR ''.'' then rev acc # split_dots [] s else split_dots (c # acc) s)"

record lock =
  lk_path :: string
  lk_env :: string

definition lock_parts :: "lock \<Rightarrow> string list" where
  "lock_parts l = split_dots [] (lk_path l)"

definition keep_one :: "obj \<Rightarrow> obj \<Rightarrow> string list \<Rightarrow> obj" where
  "keep_one old d parts = (case getPath old parts of Some v \<Rightarrow> setPath d parts v | None \<Rightarrow> deletePath d parts)"

definition as_obj :: "json option \<Rightarrow> obj" where
  "as_obj j = (case j of Some (JObj o') \<Rightarrow> o' | _ \<Rightarrow> [])"

text \<open>A document that is no object does not unmarshal into a map.\<close>

definition keepLocked :: "json \<Rightarrow> json option \<Rightarrow> lock list \<Rightarrow> json option" where
  "keepLocked doc old locks =
     (case doc of
        JObj d \<Rightarrow> Some (JObj (foldl (\<lambda>d l. keep_one (as_obj old) d (lock_parts l)) d locks))
      | _ \<Rightarrow> None)"

section \<open>The store\<close>

record overlay_doc =
  ov_raw :: "json option"
  ov_locks :: "lock list"

record store =
  st_rows :: "string \<Rightarrow> json option"
  st_cache :: "string \<Rightarrow> json option"
  st_warmed :: bool
  st_overlays :: "string \<Rightarrow> overlay_doc option"

definition NewStore :: "(string \<Rightarrow> json option) \<Rightarrow> store" where
  "NewStore stored = \<lparr>st_rows = stored, st_cache = (\<lambda>_. None), st_warmed = False, st_overlays = (\<lambda>_. None)\<rparr>"

definition SetOverlay :: "string \<Rightarrow> json option \<Rightarrow> lock list \<Rightarrow> store \<Rightarrow> store" where
  "SetOverlay k raw locks s =
     (if locks = [] then s\<lparr>st_overlays := (st_overlays s)(k := None)\<rparr>
      else s\<lparr>st_overlays := (st_overlays s)(k := Some \<lparr>ov_raw = raw, ov_locks = locks\<rparr>)\<rparr>)"

definition Locks :: "string \<Rightarrow> store \<Rightarrow> lock list" where
  "Locks k s = (case st_overlays s k of None \<Rightarrow> [] | Some ov \<Rightarrow> ov_locks ov)"

definition Warm :: "store \<Rightarrow> store" where
  "Warm s = s\<lparr>st_cache := (\<lambda>k. case st_rows s k of Some v \<Rightarrow> Some v | None \<Rightarrow> st_cache s k), st_warmed := True\<rparr>"

definition applyOverlay :: "(json \<Rightarrow> 'd \<Rightarrow> 'd option) \<Rightarrow> overlay_doc option \<Rightarrow> 'd \<Rightarrow> 'd option" where
  "applyOverlay decode ov out =
     (case ov of None \<Rightarrow> Some out | Some ov \<Rightarrow> (case ov_raw ov of None \<Rightarrow> Some out | Some raw \<Rightarrow> decode raw out))"

text \<open>\<open>Get\<close> returns the decoded document, \<open>None\<close> for a document that does not decode.\<close>

definition Get :: "(json \<Rightarrow> 'd \<Rightarrow> 'd option) \<Rightarrow> string \<Rightarrow> 'd \<Rightarrow> store \<Rightarrow> store \<times> 'd option" where
  "Get decode k out s =
     (let ov = st_overlays s k; finish = (\<lambda>raw. case decode raw out of None \<Rightarrow> None | Some d \<Rightarrow> applyOverlay decode ov d) in
      case st_cache s k of
        Some raw \<Rightarrow> (s, finish raw)
      | None \<Rightarrow>
          if st_warmed s then (s, applyOverlay decode ov out)
          else
            case st_rows s k of
              None \<Rightarrow> (s\<lparr>st_cache := (st_cache s)(k := Some JNull)\<rparr>, Some out)
            | Some raw \<Rightarrow> (s\<lparr>st_cache := (st_cache s)(k := Some raw)\<rparr>, finish raw))"

text \<open>\<open>Set\<close> of an encoded document; \<open>None\<close> when \<open>keepLocked\<close> fails.\<close>

definition Set_doc :: "string \<Rightarrow> json \<Rightarrow> store \<Rightarrow> store option" where
  "Set_doc k doc s =
     (case (if Locks k s \<noteq> [] then keepLocked doc (st_cache s k) (Locks k s) else Some doc) of
        None \<Rightarrow> None
      | Some b \<Rightarrow> Some (s\<lparr>st_rows := (st_rows s)(k := Some b), st_cache := (st_cache s)(k := Some b)\<rparr>))"

record general_settings =
  gen_api_key :: string
  gen_session_secret :: string
  gen_instance_name :: string
  gen_public_url :: string
  gen_backup_retention :: int
  gen_image_cache_max_mb :: int

definition DefaultGeneral :: general_settings where
  "DefaultGeneral = \<lparr>gen_api_key = [], gen_session_secret = [], gen_instance_name = ''mangarr'', gen_public_url = [],
     gen_backup_retention = 7, gen_image_cache_max_mb = 512\<rparr>"

text \<open>
  The random texts are arguments, like JSON decoding and encoding of the document.  The answer
  is the document, \<open>None\<close> when it does not decode or cannot be stored.
\<close>

definition EnsureSecrets ::
  "(json \<Rightarrow> general_settings \<Rightarrow> general_settings option) \<Rightarrow> (general_settings \<Rightarrow> json) \<Rightarrow> string \<Rightarrow> string \<Rightarrow> store \<Rightarrow>
     store \<times> general_settings option" where
  "EnsureSecrets decode encode key secret s =
     (case Get decode ''general'' DefaultGeneral s of
        (s, None) \<Rightarrow> (s, None)
      | (s, Some g) \<Rightarrow>
          let g' = g\<lparr>gen_api_key := (if gen_api_key g = [] then key else gen_api_key g),
                gen_session_secret := (if gen_session_secret g = [] then secret else gen_session_secret g)\<rparr>
          in
          if gen_api_key g = [] \<or> gen_session_secret g = [] then
            (case Set_doc ''general'' (encode g') s of None \<Rightarrow> (s, None) | Some s' \<Rightarrow> (s', Some g'))
          else (s, Some g'))"

section \<open>Clock times\<close>

lemma ParseClock_bounds: "ParseClock s = Some n \<Longrightarrow> 0 \<le> n \<and> n \<le> 1440"
  by (auto simp: ParseClock_def split: option.splits prod.splits list.splits if_splits)

lemma digits_value_snoc: "digits_value (ds @ [c]) = digits_value ds * 10 + (int (of_char c) - 48)"
  by (simp add: digits_value_def)

lemma digits_value_nat: "digits_value (nat_digits n) = int n"
proof (induction n rule: nat_digits.induct)
  case (1 n)
  have small: "digits_value [char_of (48 + d)] = int d" if "d < 10" for d :: nat
    using that by (simp add: digits_value_def)
  show ?case
  proof (cases "n < 10")
    case True
    with small show ?thesis by (subst nat_digits.simps) simp
  next
    case False
    then have "nat_digits n = nat_digits (n div 10) @ [char_of (48 + n mod 10)]"
      by (subst nat_digits.simps) simp
    then have "digits_value (nat_digits n) = int (n div 10) * 10 + int (n mod 10)"
      using 1 [OF False] by (simp add: digits_value_snoc)
    also have "\<dots> = int n" by (simp add: zdiv_int zmod_int)
    finally show ?thesis .
  qed
qed

lemma not_digit_colon: "\<not> digit (CHR '':'')"
  by (simp add: digit_def)

lemma digit_not_sign: "digit c \<Longrightarrow> c \<noteq> CHR ''-'' \<and> c \<noteq> CHR ''+'' \<and> \<not> is_space c"
  by (auto simp: digit_def is_space_def)

lemma digits_value_zeros: "digits_value (replicate a (CHR ''0'') @ ds) = digits_value ds"
  by (induction a) (simp_all add: digits_value_def)

lemma scan_digits:
  assumes "\<forall>c \<in> set ds. digit c" and "ds \<noteq> []" and "rest = [] \<or> \<not> digit (hd rest)"
  shows "scan_int (ds @ rest) = Some (digits_value ds, rest)"
proof -
  obtain c r where ds: "ds = c # r" using assms(2) by (cases ds) auto
  then have c: "digit c" using assms(1) by simp
  have "takeWhile digit (ds @ rest) = ds" "dropWhile digit (ds @ rest) = rest"
    using assms(1,3) by (cases rest; auto simp: takeWhile_append dropWhile_append)+
  with c digit_not_sign [OF c] show ?thesis by (simp add: scan_int_def ds scan_blank_def)
qed

lemma trim_space_id: "s \<noteq> [] \<Longrightarrow> \<not> is_space (hd s) \<Longrightarrow> \<not> is_space (last s) \<Longrightarrow> trim_space s = s"
proof -
  assume a: "s \<noteq> []" "\<not> is_space (hd s)" "\<not> is_space (last s)"
  then have "dropWhile is_space s = s" by (cases s) auto
  moreover have "dropWhile is_space (rev s) = rev s" using a(1,3) by (cases s rule: rev_cases) auto
  ultimately show ?thesis by (simp add: trim_space_def)
qed

section \<open>Paths\<close>

lemma map_of_jset [simp]: "map_of (jset k v m) k' = (if k' = k then Some v else map_of m k')"
  by (simp add: jset_def map_of_filter_in) (induction m; auto)

lemma map_of_jdel [simp]: "map_of (jdel k m) k' = (if k' = k then None else map_of m k')"
  by (induction m) (auto simp: jdel_def)

text \<open>Paths that part ways: neither leads through the other.\<close>

fun diverges :: "string list \<Rightarrow> string list \<Rightarrow> bool" where
  "diverges (p # ps) (q # qs) = (p \<noteq> q \<or> diverges ps qs)"
| "diverges _ _ = False"

lemma diverges_sym: "diverges ps qs = diverges qs ps"
  by (induction ps qs rule: diverges.induct) auto

lemma get_set_same: "ps \<noteq> [] \<Longrightarrow> getPath (setPath m ps v) ps = Some v"
  by (induction m ps v rule: setPath.induct) auto

lemma get_delete_same: "getPath (deletePath m ps) ps = None"
  by (induction m ps rule: deletePath.induct) (auto split: option.splits json.splits)

lemma getPath_empty [simp]: "getPath [] ps = None"
  by (cases ps rule: remdups_adj.cases) auto

lemma get_set_other: "diverges ps qs \<Longrightarrow> getPath (setPath m ps v) qs = getPath m qs"
proof (induction m ps v arbitrary: qs rule: setPath.induct)
  case (2 m p v)
  then show ?case by (cases qs rule: remdups_adj.cases) auto
next
  case (3 m p q ps v)
  then show ?case by (cases qs rule: remdups_adj.cases) (auto split: option.splits json.splits)
qed auto

lemma get_delete_other: "diverges ps qs \<Longrightarrow> getPath (deletePath m ps) qs = getPath m qs"
proof (induction m ps arbitrary: qs rule: deletePath.induct)
  case (2 m p)
  then show ?case by (cases qs rule: remdups_adj.cases) auto
next
  case (3 m p q ps)
  then show ?case by (cases qs rule: remdups_adj.cases) (auto split: option.splits json.splits)
qed auto

lemma keep_one_same: "ps \<noteq> [] \<Longrightarrow> getPath (keep_one old d ps) ps = getPath old ps"
  by (simp add: keep_one_def get_set_same get_delete_same split: option.splits)

lemma keep_one_other: "diverges ps qs \<Longrightarrow> getPath (keep_one old d ps) qs = getPath d qs"
  by (simp add: keep_one_def get_set_other get_delete_other split: option.splits)

lemma split_dots_nonempty [simp]: "split_dots acc s \<noteq> []"
  by (induction acc s rule: split_dots.induct) auto

lemma lock_parts_nonempty [simp]: "lock_parts l \<noteq> []"
  by (simp add: lock_parts_def)

lemma keep_all:
  assumes "\<forall>a \<in> set locks. \<forall>b \<in> set locks. lock_parts a = lock_parts b \<or> diverges (lock_parts a) (lock_parts b)"
  shows "(\<forall>l \<in> set locks. getPath (foldl (\<lambda>d l. keep_one old d (lock_parts l)) d locks) (lock_parts l) = getPath old (lock_parts l)) \<and>
    (\<forall>q. (\<forall>l \<in> set locks. diverges (lock_parts l) q) \<longrightarrow> getPath (foldl (\<lambda>d l. keep_one old d (lock_parts l)) d locks) q = getPath d q)"
  using assms
proof (induction locks rule: rev_induct)
  case (snoc l locks)
  let ?d = "foldl (\<lambda>d l. keep_one old d (lock_parts l)) d locks"
  have ih: "\<forall>a \<in> set locks. getPath ?d (lock_parts a) = getPath old (lock_parts a)"
    "\<forall>q. (\<forall>l \<in> set locks. diverges (lock_parts l) q) \<longrightarrow> getPath ?d q = getPath d q"
    using snoc by auto
  have "getPath (keep_one old ?d (lock_parts l)) (lock_parts a) = getPath old (lock_parts a)" if a: "a \<in> set (locks @ [l])" for a
  proof (cases "lock_parts a = lock_parts l")
    case True
    then show ?thesis by (simp add: keep_one_same)
  next
    case False
    then have "diverges (lock_parts l) (lock_parts a)" using snoc.prems a by auto
    then show ?thesis using ih(1) a False by (auto simp: keep_one_other)
  qed
  moreover have "getPath (keep_one old ?d (lock_parts l)) q = getPath d q"
    if "\<forall>l \<in> set (locks @ [l]). diverges (lock_parts l) q" for q
    using ih(2) that by (simp add: keep_one_other)
  ultimately show ?case by simp
qed simp

section \<open>Properties\<close>

text \<open>\<open>HH:MM\<close> with any number of leading zeros.\<close>

definition clock_text :: "nat \<Rightarrow> nat \<Rightarrow> nat \<Rightarrow> nat \<Rightarrow> string" where
  "clock_text za h zb m = replicate za (CHR ''0'') @ nat_digits h @ '':'' @ replicate zb (CHR ''0'') @ nat_digits m"

text \<open>
  C37: Reading back a clock time gives the minutes that were written, up to 24:00, and whatever
  \<open>ParseClock\<close> accepts lies within a day.
\<close>

theorem clock_roundtrip:
  assumes "h < 24 \<and> m < 60 \<or> h = 24 \<and> m = 0"
  shows "ParseClock (clock_text za h zb m) = Some (int (60 * h + m)) \<and>
    (\<forall>s n. ParseClock s = Some n \<longrightarrow> 0 \<le> n \<and> n \<le> 1440)"
proof -
  let ?h = "replicate za (CHR ''0'') @ nat_digits h" and ?m = "replicate zb (CHR ''0'') @ nat_digits m"
  have z: "digit (CHR ''0'')" by (simp add: digit_def)
  have h: "\<forall>c \<in> set ?h. digit c" and m: "\<forall>c \<in> set ?m. digit c" using nat_digits_digit z by auto
  have ne: "?h \<noteq> []" "?m \<noteq> []" by simp_all
  have hd: "hd ?h \<in> set ?h" and la: "last ?m \<in> set ?m" using hd_in_set [OF ne(1)] last_in_set [OF ne(2)] .
  have t: "clock_text za h zb m = ?h @ CHR '':'' # ?m" by (simp add: clock_text_def)
  have "trim_space (clock_text za h zb m) = ?h @ CHR '':'' # ?m"
    unfolding t by (rule trim_space_id) (use hd la h m ne digit_not_sign in \<open>auto simp: hd_append\<close>)
  moreover have "scan_int (?h @ CHR '':'' # ?m) = Some (int h, CHR '':'' # ?m)"
    using scan_digits [OF h ne(1)] not_digit_colon by (simp add: digits_value_zeros digits_value_nat)
  moreover have "scan_int ?m = Some (int m, [])"
    using scan_digits [OF m ne(2), of "[]"] by (simp add: digits_value_zeros digits_value_nat)
  ultimately have "ParseClock (clock_text za h zb m) = Some (int (60 * h + m))"
    using assms by (auto simp: ParseClock_def)
  then show ?thesis using ParseClock_bounds by blast
qed

theorem clock_roundtrip_witness: "ParseClock ''07:30'' = Some 450"
proof -
  have "clock_text 1 7 0 30 = ''07:30''" by code_simp
  with clock_roundtrip [of 7 30 1 0] show ?thesis by simp
qed

text \<open>
  C33: Saving settings keeps what the environment pins: after a \<open>Set\<close>, every pinned field of the
  stored document has the value that was stored before (or none), and every field that no pin
  leads to or through has the new value, so dropping the variable restores the old value.
\<close>

theorem pinned_fields_kept:
  assumes "Set_doc k (JObj new) s = Some s'" and "st_cache s k = Some (JObj old)"
    and "\<forall>a \<in> set (Locks k s). \<forall>b \<in> set (Locks k s). lock_parts a = lock_parts b \<or> diverges (lock_parts a) (lock_parts b)"
  shows "\<exists>d. st_rows s' k = Some (JObj d) \<and> st_cache s' k = Some (JObj d) \<and>
    (\<forall>l \<in> set (Locks k s). getPath d (lock_parts l) = getPath old (lock_parts l)) \<and>
    (\<forall>q. (\<forall>l \<in> set (Locks k s). diverges (lock_parts l) q) \<longrightarrow> getPath d q = getPath new q) \<and>
    (\<forall>k'. k' \<noteq> k \<longrightarrow> st_rows s' k' = st_rows s k' \<and> st_cache s' k' = st_cache s k')"
proof (cases "Locks k s = []")
  case True
  with assms(1) show ?thesis by (auto simp: Set_doc_def)
next
  case False
  with assms(1,2) keep_all [OF assms(3), of old new] show ?thesis
    by (auto simp: Set_doc_def keepLocked_def as_obj_def)
qed

definition ex_store :: store where
  "ex_store = SetOverlay ''downloads'' (Some (JObj [(''maxConcurrent'', JNum 9)])) [\<lparr>lk_path = ''maxConcurrent'', lk_env = ''X''\<rparr>]
     (Warm (NewStore (\<lambda>k. if k = ''downloads'' then Some (JObj [(''maxConcurrent'', JNum 3), (''maxPerSource'', JNum 1)]) else None)))"

theorem pinned_fields_kept_witness:
  "\<exists>s' d. Set_doc ''downloads'' (JObj [(''maxConcurrent'', JNum 9), (''maxPerSource'', JNum 2)]) ex_store = Some s' \<and>
     st_rows s' ''downloads'' = Some (JObj d) \<and> getPath d [''maxConcurrent''] = Some (JNum 3) \<and> getPath d [''maxPerSource''] = Some (JNum 2)"
proof -
  let ?new = "[(''maxConcurrent'', JNum 9), (''maxPerSource'', JNum 2)]"
  have l: "Locks ''downloads'' ex_store = [\<lparr>lk_path = ''maxConcurrent'', lk_env = ''X''\<rparr>]" by (simp add: ex_store_def SetOverlay_def Locks_def)
  have p: "lock_parts \<lparr>lk_path = ''maxConcurrent'', lk_env = ''X''\<rparr> = [''maxConcurrent'']" by (simp add: lock_parts_def)
  have c: "st_cache ex_store ''downloads'' = Some (JObj [(''maxConcurrent'', JNum 3), (''maxPerSource'', JNum 1)])"
    by (simp add: ex_store_def SetOverlay_def Warm_def NewStore_def)
  obtain s' where s: "Set_doc ''downloads'' (JObj ?new) ex_store = Some s'" by (simp add: Set_doc_def keepLocked_def l)
  have one: "\<forall>a \<in> set (Locks ''downloads'' ex_store). \<forall>b \<in> set (Locks ''downloads'' ex_store).
      lock_parts a = lock_parts b \<or> diverges (lock_parts a) (lock_parts b)" by (simp add: l)
  from pinned_fields_kept [OF s c one] obtain d where "st_rows s' ''downloads'' = Some (JObj d)"
    "getPath d [''maxConcurrent''] = Some (JNum 3)" "getPath d [''maxPerSource''] = Some (JNum 2)"
    by (auto simp: l p dest: spec [of _ "[''maxPerSource'']"])
  with s show ?thesis by blast
qed

text \<open>
  Secrets are generated once: starting again, with whatever fresh random texts, finds the
  stored ones (when nothing of the document is pinned).
\<close>

lemma secrets_stable:
  assumes "EnsureSecrets decode encode key secret s = (s', Some g)" and "st_overlays s ''general'' = None"
    and "\<And>g. decode (encode g) DefaultGeneral = Some g" and "key \<noteq> []" and "secret \<noteq> []"
  shows "snd (EnsureSecrets decode encode key' secret' s') = Some g"
proof -
  obtain s1 g1 where 1: "Get decode ''general'' DefaultGeneral s = (s1, Some g1)"
    using assms(1) by (auto simp: EnsureSecrets_def split: prod.splits option.splits)
  have o: "st_overlays s1 ''general'' = None" "snd (Get decode ''general'' DefaultGeneral s1) = Some g1 \<or> g1 = DefaultGeneral"
    using 1 assms(2) by (auto simp: Get_def applyOverlay_def Let_def split: option.splits if_splits)
  have n: "gen_api_key DefaultGeneral = []" by (simp add: DefaultGeneral_def)
  show ?thesis
  proof (cases "gen_api_key g1 = [] \<or> gen_session_secret g1 = []")
    case True
    with assms(1) 1 o(1) have g: "gen_api_key g \<noteq> []" "gen_session_secret g \<noteq> []" "st_overlays s' ''general'' = None"
      "st_cache s' ''general'' = Some (encode g)"
      using assms(4,5) by (auto simp: EnsureSecrets_def Set_doc_def Locks_def Let_def split: if_splits)
    then have "Get decode ''general'' DefaultGeneral s' = (s', Some g)" using assms(3) by (simp add: Get_def applyOverlay_def)
    with g(1,2) show ?thesis by (simp add: EnsureSecrets_def)
  next
    case False
    with assms(1) 1 have "s' = s1" "g = g1" by (auto simp: EnsureSecrets_def)
    moreover from False o(2) n have "snd (Get decode ''general'' DefaultGeneral s1) = Some g1" by auto
    ultimately show ?thesis using False by (auto simp: EnsureSecrets_def split: prod.splits)
  qed
qed

text \<open>
  The first read of a document that is not stored, before the store is warmed, does not apply
  its pins; every later read does.
\<close>

lemma cold_read_ignores_pins:
  assumes "st_cache s k = None" and "\<not> st_warmed s" and "st_rows s k = None"
    and "st_overlays s k = Some \<lparr>ov_raw = Some raw, ov_locks = locks\<rparr>" and "\<And>d. decode JNull d = Some d"
  shows "snd (Get decode k out s) = Some out \<and> snd (Get decode k out (fst (Get decode k out s))) = decode raw out"
  using assms by (simp add: Get_def applyOverlay_def)

end
