(* ===== verification/Quiet.thy ===== *)
theory Quiet
  imports Settings
begin

text \<open>
  Quiet hours: \<open>internal/quiet/quiet.go\<close>.  \<open>zones\<close> gives, for each time zone the system knows, the
  weekday (0 is Sunday) and the minute of the day at an instant; \<open>here\<close> is the same for the
  server's own zone.
\<close>

record effects =
  ef_pause_downloads :: bool
  ef_pause_processing :: bool
  ef_throttle :: preset
  ef_windows :: "string list"

fun strength :: "preset \<Rightarrow> int" where
  "strength Fast = 1"
| "strength Normal = 2"
| "strength Gentle = 3"
| "strength _ = 0"

definition on_day :: "schedule_window \<Rightarrow> string \<Rightarrow> bool" where
  "on_day w day \<longleftrightarrow> sw_days w = [] \<or> list_ex (\<lambda>d. equal_fold d day) (sw_days w)"

text \<open>Whether a window is on at a weekday and minute.\<close>

definition window_active :: "nat \<Rightarrow> int \<Rightarrow> schedule_window \<Rightarrow> bool" where
  "window_active wd mi w =
     (case (ParseClock (sw_start w), ParseClock (sw_end w)) of
        (Some start, Some stop) \<Rightarrow>
          if start = stop then False
          else
            let today = weekdays ! wd; yesterday = weekdays ! ((wd + 6) mod 7) in
            if start < stop then on_day w today \<and> mi \<ge> start \<and> mi < stop
            else on_day w today \<and> mi \<ge> start \<or> on_day w yesterday \<and> mi < stop
      | _ \<Rightarrow> False)"

definition window_name :: "schedule_window \<Rightarrow> string" where
  "window_name w = (if sw_name w = [] then sw_start w @ [CHR 0xE2, CHR 0x80, CHR 0x93] @ sw_end w else sw_name w)"

definition add_window :: "effects \<Rightarrow> schedule_window \<Rightarrow> effects" where
  "add_window e w =
     e\<lparr>ef_pause_downloads := ef_pause_downloads e \<or> sw_pause_downloads w,
       ef_pause_processing := ef_pause_processing e \<or> sw_pause_processing w,
       ef_throttle := (if strength (sw_throttle w) > strength (ef_throttle e) then sw_throttle w else ef_throttle e),
       ef_windows := ef_windows e @ [window_name w]\<rparr>"

definition no_effects :: effects where
  "no_effects = \<lparr>ef_pause_downloads = False, ef_pause_processing = False, ef_throttle = PresetUnset, ef_windows = []\<rparr>"

definition local_clock ::
  "(string \<Rightarrow> (time \<Rightarrow> nat \<times> int) option) \<Rightarrow> (time \<Rightarrow> nat \<times> int) \<Rightarrow> string \<Rightarrow> time \<Rightarrow> nat \<times> int" where
  "local_clock zones here tz now =
     (if tz \<noteq> [] then (case zones tz of Some c \<Rightarrow> c now | None \<Rightarrow> here now) else here now)"

definition Evaluate ::
  "(string \<Rightarrow> (time \<Rightarrow> nat \<times> int) option) \<Rightarrow> (time \<Rightarrow> nat \<times> int) \<Rightarrow> schedule \<Rightarrow> time \<Rightarrow> effects" where
  "Evaluate zones here s now =
     (let (wd, mi) = local_clock zones here (sc_timezone s) now
      in foldl (\<lambda>e w. if window_active wd mi w then add_window e w else e) no_effects (sc_windows s))"

section \<open>Windows on the circle of the week\<close>

text \<open>
  What a window means: it lasts from its start to its end, past midnight if the end is not after
  the start, counted from each day it names.  Minutes are counted around the week.
\<close>

definition window_length :: "int \<Rightarrow> int \<Rightarrow> int" where
  "window_length start stop = (if start < stop then stop - start else stop + 1440 - start)"

definition week_active :: "nat \<Rightarrow> int \<Rightarrow> schedule_window \<Rightarrow> bool" where
  "week_active wd mi w \<longleftrightarrow>
     (\<exists>start stop k. ParseClock (sw_start w) = Some start \<and> ParseClock (sw_end w) = Some stop \<and> start \<noteq> stop \<and>
        k < 7 \<and> on_day w (weekdays ! k) \<and>
        (1440 * int wd + mi - (1440 * int k + start)) mod 10080 < window_length start stop)"

lemma seven: "(k::nat) < 7 \<longleftrightarrow> k = 0 \<or> k = 1 \<or> k = 2 \<or> k = 3 \<or> k = 4 \<or> k = 5 \<or> k = 6"
  by auto

lemma week_mod:
  assumes "- 10080 \<le> d" and "d < 10080"
  shows "(d::int) mod 10080 = (if d < 0 then d + 10080 else d)"
proof (cases "d < 0")
  case True
  have "(d + 10080) mod 10080 = d + 10080" using assms(1) True by (intro mod_pos_pos_trivial) auto
  with True show ?thesis by simp
next
  case False
  with assms(2) show ?thesis by (simp add: mod_pos_pos_trivial)
qed

text \<open>The days whose window can cover a minute: the same day's, and the day before's past midnight.\<close>

lemma covering_day:
  assumes "wd < 7" and "k < 7" and "0 \<le> mi" and "mi < 1440" and "0 \<le> start" and "start \<le> 1440"
    and "0 \<le> stop" and "stop \<le> 1440" and "start \<noteq> stop"
  shows "(1440 * int wd + mi - (1440 * int k + start)) mod 10080 < window_length start stop \<longleftrightarrow>
    (if start < stop then k = wd \<and> start \<le> mi \<and> mi < stop
     else k = wd \<and> start \<le> mi \<or> k = (wd + 6) mod 7 \<and> mi < stop)"
proof -
  let ?d = "1440 * int wd + mi - (1440 * int k + start)"
  have "- 10080 \<le> ?d" "?d < 10080" using assms by auto
  note m = week_mod [OF this]
  show ?thesis unfolding m window_length_def
    using assms(1,2) unfolding seven by (elim disjE; use assms(3-) in \<open>simp; linarith?\<close>)
qed

lemma window_week:
  assumes "wd < 7" and "0 \<le> mi" and "mi < 1440"
  shows "window_active wd mi w \<longleftrightarrow> week_active wd mi w"
proof (cases "\<exists>start stop. ParseClock (sw_start w) = Some start \<and> ParseClock (sw_end w) = Some stop \<and> start \<noteq> stop")
  case False
  then show ?thesis by (auto simp: window_active_def week_active_def split: option.splits)
next
  case True
  then obtain start stop where p: "ParseClock (sw_start w) = Some start" "ParseClock (sw_end w) = Some stop" "start \<noteq> stop"
    by blast
  note b = ParseClock_bounds [OF p(1)] ParseClock_bounds [OF p(2)]
  have y: "(wd + 6) mod 7 < 7" by simp
  have cd: "(1440 * int wd + mi - (1440 * int k + start)) mod 10080 < window_length start stop \<longleftrightarrow>
      (if start < stop then k = wd \<and> start \<le> mi \<and> mi < stop else k = wd \<and> start \<le> mi \<or> k = (wd + 6) mod 7 \<and> mi < stop)"
    if "k < 7" for k
    by (rule covering_day) (use assms b p(3) that in auto)
  have "week_active wd mi w \<longleftrightarrow>
      (\<exists>k < 7. on_day w (weekdays ! k) \<and> (1440 * int wd + mi - (1440 * int k + start)) mod 10080 < window_length start stop)"
    using p by (auto simp: week_active_def)
  also have "\<dots> \<longleftrightarrow> (\<exists>k < 7. on_day w (weekdays ! k) \<and> (if start < stop then k = wd \<and> start \<le> mi \<and> mi < stop
      else k = wd \<and> start \<le> mi \<or> k = (wd + 6) mod 7 \<and> mi < stop))"
    by (rule ex_cong1) (simp only: cd cong: conj_cong)
  also have "\<dots> \<longleftrightarrow> window_active wd mi w" using p assms(1) y by (auto simp: window_active_def Let_def)
  finally show ?thesis by blast
qed

lemma fold_effects:
  "foldl (\<lambda>e w. if P w then add_window e w else e) e ws =
     foldl add_window e (filter P ws)"
  by (induction ws arbitrary: e) auto

lemma fold_flags:
  "ef_pause_downloads (foldl add_window e ws) \<longleftrightarrow> ef_pause_downloads e \<or> (\<exists>w \<in> set ws. sw_pause_downloads w)"
  "ef_pause_processing (foldl add_window e ws) \<longleftrightarrow> ef_pause_processing e \<or> (\<exists>w \<in> set ws. sw_pause_processing w)"
  "ef_windows (foldl add_window e ws) = ef_windows e @ map window_name ws"
  by (induction ws arbitrary: e) (auto simp: add_window_def)

lemma fold_throttle:
  "(ef_throttle (foldl add_window e ws) = ef_throttle e \<or> ef_throttle (foldl add_window e ws) \<in> sw_throttle ` set ws) \<and>
   strength (ef_throttle e) \<le> strength (ef_throttle (foldl add_window e ws)) \<and>
   (\<forall>w \<in> set ws. strength (sw_throttle w) \<le> strength (ef_throttle (foldl add_window e ws)))"
proof (induction ws arbitrary: e)
  case (Cons w ws)
  from Cons.IH [of "add_window e w"] show ?case by (auto simp: add_window_def split: if_splits)
qed simp

section \<open>Properties\<close>

text \<open>
  C17: Quiet hours follow the windows around the week: downloads (processing) are paused exactly
  when some window that pauses them covers the moment, where a window that ends before it
  starts runs past midnight and belongs to the day it starts on; the throttle in effect is the
  gentlest any covering window asks for.
\<close>

theorem quiet_hours:
  assumes "local_clock zones here (sc_timezone s) now = (wd, mi)" and "wd < 7" and "0 \<le> mi" and "mi < 1440"
    and "covers = (\<lambda>w. w \<in> set (sc_windows s) \<and> week_active wd mi w)"
  shows "(ef_pause_downloads (Evaluate zones here s now) \<longleftrightarrow> (\<exists>w. covers w \<and> sw_pause_downloads w)) \<and>
    (ef_pause_processing (Evaluate zones here s now) \<longleftrightarrow> (\<exists>w. covers w \<and> sw_pause_processing w)) \<and>
    (\<forall>w. covers w \<longrightarrow> strength (sw_throttle w) \<le> strength (ef_throttle (Evaluate zones here s now))) \<and>
    (ef_throttle (Evaluate zones here s now) = PresetUnset \<or>
      (\<exists>w. covers w \<and> ef_throttle (Evaluate zones here s now) = sw_throttle w)) \<and>
    ef_windows (Evaluate zones here s now) = map window_name (filter (week_active wd mi) (sc_windows s))"
proof -
  let ?ws = "filter (week_active wd mi) (sc_windows s)"
  have e: "Evaluate zones here s now = foldl add_window no_effects ?ws"
    using assms(1) by (simp add: Evaluate_def fold_effects ext [OF window_week [OF assms(2-4)]])
  have c: "covers w \<longleftrightarrow> w \<in> set ?ws" for w by (simp add: assms(5))
  show ?thesis unfolding e c using fold_throttle [of no_effects ?ws]
    by (auto simp: fold_flags no_effects_def)
qed

definition ex_night :: schedule where
  "ex_night = \<lparr>sc_timezone = [], sc_windows = [\<lparr>sw_name = ''Night'', sw_days = [''Fri''], sw_start = ''22:00'', sw_end = ''06:00'',
     sw_pause_downloads = True, sw_pause_processing = False, sw_throttle = PresetUnset\<rparr>]\<rparr>"

text \<open>Saturday at 03:00 belongs to Friday's night.\<close>

theorem quiet_hours_witness: "ef_pause_downloads (Evaluate (\<lambda>_. None) (\<lambda>_. (6, 180)) ex_night 0)"
proof -
  have c: "local_clock (\<lambda>_. None) (\<lambda>_. (6, 180)) (sc_timezone ex_night) 0 = (6, 180)" by (simp add: local_clock_def ex_night_def)
  have "window_active 6 180 (hd (sc_windows ex_night))" by code_simp
  then have "week_active 6 180 (hd (sc_windows ex_night))" by (simp add: window_week)
  with quiet_hours [OF c _ _ _ refl] show ?thesis by (simp add: ex_night_def)
qed

text \<open>
  C36: A schedule that passes validation is applied in full: every window has times that parse and
  days that exist, so none of them is skipped by \<open>Evaluate\<close> for being malformed.
\<close>

theorem valid_schedule_parses:
  assumes "Validate_schedule zones s = None" and "w \<in> set (sc_windows s)"
  shows "(\<exists>start. ParseClock (sw_start w) = Some start) \<and> (\<exists>stop. ParseClock (sw_end w) = Some stop) \<and>
    (\<forall>d \<in> set (sw_days w). \<exists>day \<in> set weekdays. equal_fold d day) \<and>
    (sc_timezone s \<noteq> [] \<longrightarrow> zones (sc_timezone s) \<noteq> None)"
proof -
  have lower: "to_lower day = day" if "day \<in> set weekdays" for day
    using that by (auto simp: weekdays_def to_lower_def lower_char_def)
  have "validate_windows i ws = None \<Longrightarrow> w \<in> set ws \<Longrightarrow>
      ParseClock (sw_start w) \<noteq> None \<and> ParseClock (sw_end w) \<noteq> None \<and> (\<forall>d \<in> set (sw_days w). to_lower d \<in> set weekdays)" for i ws
    by (induction i ws rule: validate_windows.induct) (auto simp: find_None_iff split: if_splits option.splits)
  from this [of 0 "sc_windows s"] assms have "ParseClock (sw_start w) \<noteq> None" "ParseClock (sw_end w) \<noteq> None"
    "\<forall>d \<in> set (sw_days w). to_lower d \<in> set weekdays" "sc_timezone s \<noteq> [] \<longrightarrow> zones (sc_timezone s) \<noteq> None"
    by (auto simp: Validate_schedule_def split: if_splits)
  then show ?thesis using lower unfolding equal_fold_def by (metis not_None_eq)
qed

theorem valid_schedule_parses_witness: "\<exists>start. ParseClock (sw_start (hd (sc_windows ex_night))) = Some start"
proof -
  have "Validate_schedule (\<lambda>_. None :: (time \<Rightarrow> nat \<times> int) option) ex_night = None" by code_simp
  from valid_schedule_parses [OF this, of "hd (sc_windows ex_night)"] show ?thesis by (simp add: ex_night_def)
qed

end
