(* ===== verification/Pipeline.thy ===== *)
theory Pipeline
  imports Import Quiet
begin

text \<open>
  A local attempt of a job (\<open>internal/downloads/pipeline.go\<close>, \<open>process.go\<close>): claim, load, get the
  pages from the source or the file on disk, screen and process them, import.  The answers of
  the source, the processor and the file system are parameters; \<open>Fetch\<close> says which answers
  fetching can give.  A run's context ends, if it does, during one of those outside calls.
\<close>

section \<open>Processing parameters\<close>

text \<open>
  \<open>ProfileConfig.ProcessParams\<close>: the settings that change a file's pages, and their hash (SHA-1
  of the JSON, a parameter).  The split ratios are the pair the code prints as text.
\<close>

record process_parts =
  pp_upscale :: "upscale_config option"
  pp_encode :: "encode_config option"
  pp_junk :: int
  pp_max_width :: int
  pp_split :: "(float64 \<times> float64) option"

definition encodes :: "profile_config \<Rightarrow> bool" where
  "encodes c \<longleftrightarrow> e_format (pc_encode c) \<noteq> [] \<and> e_format (pc_encode c) \<noteq> ''keep''"

definition process_parts :: "profile_config \<Rightarrow> process_parts" where
  "process_parts c =
     (let rules = pc_pages c; (threshold, segment) = SplitRatios rules;
          split = (if threshold > 0 then Some (threshold, segment) else None);
          j = JunkSize rules; u = pc_upscale c; e = pc_encode c
      in \<lparr>pp_upscale = (if up_enabled u
             then Some (if encodes c then u\<lparr>up_upscaler_id := 0, up_format := [], up_quality := 0\<rparr> else u\<lparr>up_upscaler_id := 0\<rparr>)
             else None),
          pp_encode = (if encodes c then Some (e\<lparr>e_recycle_originals := False\<rparr>) else None),
          pp_junk = (if j \<noteq> DefaultJunkUnder \<and> (up_enabled u \<or> encodes c \<or> p_max_width rules > 0 \<or> split \<noteq> None)
             then (if j = 0 then -1 else j) else 0),
          pp_max_width = p_max_width rules, pp_split = split\<rparr>)"

definition ProcessParams :: "(process_parts \<Rightarrow> string) \<Rightarrow> profile_config \<Rightarrow> string" where
  "ProcessParams hash c =
     (let p = process_parts c in
      if pp_upscale p = None \<and> pp_encode p = None \<and> pp_max_width p = 0 \<and> pp_split p = None then [] else hash p)"

section \<open>The run's environment\<close>

record archive_page =
  ap_name :: string
  ap_info :: "run_error + (string \<times> int \<times> int)"
  ap_write :: "run_error option"

record run_env =
  rn_fail :: fail_env
  rn_cancelled :: bool
  rn_load_error :: run_error
  rn_mkdir :: "run_error option"
  rn_random :: "int \<Rightarrow> int"
  rn_limits :: "key \<Rightarrow> throttle_config"
  rn_pace_ended :: "run_error option"
  rn_fetch :: "job_ctx \<Rightarrow> run_error + page_file list"
  rn_dir :: "series \<Rightarrow> run_error + string"
  rn_archive :: "string \<Rightarrow> run_error + archive_page list"
  rn_page_size :: "page_file \<Rightarrow> int64 option"
  rn_hash :: "process_parts \<Rightarrow> string"
  rn_processor :: "(profile_config \<Rightarrow> page_file list \<Rightarrow> (run_error \<times> bool) + process_result) option"
  rn_elapsed :: float64
  rn_zones :: "string \<Rightarrow> (time \<Rightarrow> nat \<times> int) option"
  rn_here :: "time \<Rightarrow> nat \<times> int"
  rn_schedule :: schedule
  rn_import :: import_env

definition failed :: "run_env \<Rightarrow> time \<Rightarrow> download_job \<Rightarrow> job_ctx option \<Rightarrow> run_error \<Rightarrow> pipeline \<Rightarrow> pipeline" where
  "failed env now job jc e p = on_q (fail (rn_fail env) now (rn_cancelled env) job jc e) p"

section \<open>Pages of an existing file\<close>

fun extract_pages :: "nat \<Rightarrow> archive_page list \<Rightarrow> run_error + page_file list" where
  "extract_pages i [] = Inr []"
| "extract_pages i (p # ps) =
     (case ap_info p of
        Inl e \<Rightarrow> Inl (permanent (e\<lparr>re_msg := ''existing page '' @ ap_name p @ '': '' @ re_msg e\<rparr>))
      | Inr (fmt, w, h) \<Rightarrow>
          (case ap_write p of
             Some e \<Rightarrow> Inl (infra e)
           | None \<Rightarrow>
               (case extract_pages (i + 1) ps of
                  Inl e \<Rightarrow> Inl e
                | Inr out \<Rightarrow> Inr (\<lparr>pf_name = PageName i (Ext fmt), pf_format = fmt, pf_width = w, pf_height = h\<rparr> # out))))"

definition extractExisting :: "run_env \<Rightarrow> job_ctx \<Rightarrow> run_error + page_file list" where
  "extractExisting env jc =
     (case jc_file jc of
        None \<Rightarrow> Inl (permanent (new_error ''chapter has no file to re-process''))
      | Some f \<Rightarrow>
          (case rn_dir env (jc_series jc) of
             Inl e \<Rightarrow> Inl (infra e)
           | Inr dir \<Rightarrow>
               (case rn_archive env (dir @ ''/'' @ f_relative_path f) of
                  Inl e \<Rightarrow> Inl (permanent (e\<lparr>re_msg := ''read existing file: '' @ re_msg e\<rparr>))
                | Inr pages \<Rightarrow> extract_pages 0 pages)))"

section \<open>Screening and processing\<close>

definition screen_text :: "profile_config \<Rightarrow> page_file list \<Rightarrow> screen_error \<Rightarrow> string" where
  "screen_text cfg pages e =
     (let junk = JunkSize (pc_pages cfg); real = filter (\<lambda>p. \<not> IsJunk (pf_width p) (pf_height p) junk) pages;
          low = ''low resolution: most pages are '' @ format_int (medianPageWidth real) @ '' px wide, the profile wants ''
            @ format_int (MinWidth (pc_low_res cfg))
      in case e of
           OnlyJunk \<Rightarrow> ''only junk images: all '' @ format_int (int (length pages)) @ '' pages are under '' @ format_int junk @ '' px''
         | TooFewPages \<Rightarrow> ''chapter has '' @ format_int (int (length real)) @ '' real pages, profile requires at least ''
             @ format_int (pc_min_pages cfg)
         | LowResRejected \<Rightarrow> low
         | LowResElsewhere \<Rightarrow> low @ ''; trying another source'')"

definition screen :: "run_env \<Rightarrow> time \<Rightarrow> job_ctx \<Rightarrow> page_file list \<Rightarrow> pipeline \<Rightarrow> run_error + page_file list" where
  "screen env now jc pages p =
     (let cfg = pr_config (jc_profile jc); fe = rn_fail env;
          other = (case jc_release jc of
                None \<Rightarrow> False
              | Some r \<Rightarrow> HasAlternative (fe_compile fe) now (fe_db fe) (fe_cache fe) (pl_queue p) (s_id (jc_series jc))
                  (c_id (jc_chapter jc)) (r_id r))
      in case screenPages cfg (jc_release jc \<noteq> None) other pages of
           Inl e \<Rightarrow> Inl (permanent (new_error (screen_text cfg pages e)))
         | Inr kept \<Rightarrow> Inr kept)"

definition unprocessed :: "page_file list \<Rightarrow> process_result" where
  "unprocessed pages = \<lparr>res_pages = pages, res_source_pages = [], res_changed = False, res_processed_pages = 0,
     res_upscaled = False, res_upscale_model = [], res_encoded = 0, res_encoder = [], res_seconds = 0,
     res_upscale_seconds = 0, res_encode_seconds = 0, res_shrunk = 0, res_split = 0\<rparr>"

text \<open>How processing leaves the job: finished with it, or on to the import with a result, if there is one.\<close>

datatype processed = Stopped pipeline | Continue pipeline download_job process_result bool

definition process_inline ::
  "run_env \<Rightarrow> time \<Rightarrow> download_job \<Rightarrow> job_ctx \<Rightarrow> page_file list \<Rightarrow> string \<Rightarrow>
     (profile_config \<Rightarrow> page_file list \<Rightarrow> (run_error \<times> bool) + process_result) \<Rightarrow> pipeline \<Rightarrow> processed" where
  "process_inline env now job jc pages params proc p =
     (let (s, job) = setStatus now job JobProcessing (Some ChapterProcessing) (pl_queue p);
          p = on_q (\<lambda>_. s) p; reprocess = (j_kind job = JobKindReprocess)
      in case proc (pr_config (jc_profile jc)) pages of
           Inl (e, temporary) \<Rightarrow>
             if rn_cancelled env then Stopped (failed env now job (Some jc) e p)
             else if reprocess \<and> temporary then
               Stopped (failed env now job (Some jc) (infra e) (on_m (markProcessRetry now (jc_file jc) (re_msg e)) p))
             else if reprocess then
               Stopped (failed env now job (Some jc) (permanent e) (on_m (markProcessFailed now (jc_file jc) (re_msg e)) p))
             else Continue (on_q (publish ''health.issue'' (s_id (jc_series jc))) p) job (unprocessed pages) False
         | Inr res \<Rightarrow>
             let res = res\<lparr>res_seconds := (if res_processed_pages res = 0 then 0 else rn_elapsed env)\<rparr> in
             if reprocess \<and> \<not> res_changed res then
               Stopped (on_q (completeUnchanged now job) (on_m (markProcessed now (jc_file jc) params (res_seconds res)) p))
             else Continue p job res True)"

text \<open>Processing happens here for a reprocess job, and for a download when the profile says so and quiet hours do not forbid it.\<close>

definition processing_paused :: "run_env \<Rightarrow> time \<Rightarrow> download_job \<Rightarrow> bool" where
  "processing_paused env now job \<longleftrightarrow>
     j_kind job = JobKindDownload \<and> ef_pause_processing (Evaluate (rn_zones env) (rn_here env) (rn_schedule env) now)"

definition process_stage ::
  "run_env \<Rightarrow> time \<Rightarrow> download_job \<Rightarrow> job_ctx \<Rightarrow> page_file list \<Rightarrow> string \<Rightarrow> pipeline \<Rightarrow> processed" where
  "process_stage env now job jc pages params p =
     (let inline = (j_kind job = JobKindReprocess \<or> pc_process_timing (pr_config (jc_profile jc)) = ''inline'') in
      case rn_processor env of
        None \<Rightarrow> Continue p job (unprocessed pages) False
      | Some proc \<Rightarrow>
          if params \<noteq> [] \<and> inline \<and> \<not> processing_paused env now job then process_inline env now job jc pages params proc p
          else Continue p job (unprocessed pages) False)"

definition import_stage ::
  "run_env \<Rightarrow> time \<Rightarrow> download_job \<Rightarrow> job_ctx \<Rightarrow> process_result \<Rightarrow> string \<Rightarrow> int64 \<Rightarrow> pipeline \<Rightarrow> pipeline" where
  "import_stage env now job jc proc params sizeBefore p =
     (let (s, job) = setStatus now job JobImporting None (pl_queue p); p = on_q (\<lambda>_. s) p in
      case importChapter (rn_import env) (fe_db (rn_fail env)) now job jc proc params sizeBefore p of
        (p, None) \<Rightarrow> p
      | (p, Some e) \<Rightarrow> failed env now job (Some jc) e p)"

definition page_sizes :: "run_env \<Rightarrow> page_file list \<Rightarrow> int64" where
  "page_sizes env pages = sum_list (map (\<lambda>pf. case rn_page_size env pf of None \<Rightarrow> 0 | Some n \<Rightarrow> n) pages)"

definition finish :: "run_env \<Rightarrow> time \<Rightarrow> download_job \<Rightarrow> job_ctx \<Rightarrow> page_file list \<Rightarrow> pipeline \<Rightarrow> pipeline" where
  "finish env now job jc pages p =
     (case (if j_kind job = JobKindDownload then screen env now jc pages p else Inr pages) of
        Inl e \<Rightarrow> failed env now job (Some jc) e p
      | Inr pages \<Rightarrow>
          let params = ProcessParams (rn_hash env) (pr_config (jc_profile jc)) in
          if j_kind job = JobKindReprocess \<and> params = [] then
            on_q (completeUnchanged now job) (on_m (markProcessed now (jc_file jc) [] 0) p)
          else
            case process_stage env now job jc pages params p of
              Stopped p \<Rightarrow> p
            | Continue p job proc processed \<Rightarrow>
                import_stage env now job jc proc (if processed then params else []) (page_sizes env pages) p)"

section \<open>Running a job\<close>

text \<open>The release to take when the job has none: \<open>None\<close> when there is nothing left.\<close>

definition pick_release ::
  "run_env \<Rightarrow> time \<Rightarrow> download_job \<Rightarrow> job_ctx \<Rightarrow> pipeline \<Rightarrow> (pipeline \<times> download_job \<times> job_ctx) option" where
  "pick_release env now job jc p =
     (if jc_release jc = None \<or> jc_link jc = None then
        let fe = rn_fail env in
        case NextCandidate (fe_compile fe) now (fe_db fe) (fe_cache fe) (pl_queue p) (s_id (jc_series jc)) (c_id (jc_chapter jc)) of
          None \<Rightarrow> None
        | Some (cand, upgrade) \<Rightarrow>
            let rel = cand_release cand; job = job\<lparr>j_release_id := Some (r_id rel), j_is_upgrade := upgrade\<rparr> in
            Some (on_q (\<lambda>s. fst (write_job False (\<lambda>j. j\<lparr>j_release_id := Some (r_id rel), j_is_upgrade := upgrade\<rparr>) (j_id job) s)) p,
                  job, jc\<lparr>jc_release := Some rel, jc_link := Some (cand_source cand)\<rparr>)
      else Some (p, job, jc))"

definition no_release :: run_error where
  "no_release = permanent (new_error ''no downloadable release left for this chapter'')"

definition link_key :: "job_ctx \<Rightarrow> key" where
  "link_key jc = (case jc_link jc of None \<Rightarrow> \<lparr>k_module = 0, k_source = []\<rparr>
     | Some l \<Rightarrow> \<lparr>k_module = ss_module_id l, k_source = ss_source_id l\<rparr>)"

text \<open>The governor's pause between chapters; it fails when the context ends while waiting.\<close>

definition pace_chapter :: "run_env \<Rightarrow> time \<Rightarrow> job_ctx \<Rightarrow> pipeline \<Rightarrow> pipeline \<times> run_error option" where
  "pace_chapter env now jc p =
     (case pl_gov p of
        None \<Rightarrow> (p, None)
      | Some g \<Rightarrow>
          (let (g', wait) = Pace (rn_random env) now (rn_limits env (link_key jc)) (link_key jc) ''chapter'' g
           in (p\<lparr>pl_gov := Some g'\<rparr>, if wait > 0 then rn_pace_ended env else None)))"

definition get_pages ::
  "run_env \<Rightarrow> time \<Rightarrow> download_job \<Rightarrow> job_ctx \<Rightarrow> pipeline \<Rightarrow> pipeline \<times> download_job \<times> job_ctx \<times> (run_error + page_file list)" where
  "get_pages env now job jc p =
     (if j_kind job = JobKindReprocess then (p, job, jc, extractExisting env jc)
      else
        case pick_release env now job jc p of
          None \<Rightarrow> (p, job, jc, Inl no_release)
        | Some (p, job, jc) \<Rightarrow>
            let (s, job) = setStatus now job JobDownloading (Some ChapterDownloading) (pl_queue p);
                (p, ended) = pace_chapter env now jc (on_q (\<lambda>_. s) p)
            in (p, job, jc, case ended of Some e \<Rightarrow> Inl e | None \<Rightarrow> rn_fetch env jc))"

definition attempt :: "run_env \<Rightarrow> time \<Rightarrow> download_job \<Rightarrow> pipeline \<Rightarrow> pipeline" where
  "attempt env now job p =
     (case load_job (fe_db (rn_fail env)) (pl_m p) job of
        None \<Rightarrow> failed env now job None (rn_load_error env) p
      | Some jc \<Rightarrow>
          let p = p\<lparr>pl_dirs := insert (j_id job) (pl_dirs p)\<rparr>;
              p = (case rn_mkdir env of
                     Some e \<Rightarrow> failed env now job (Some jc) (infra e) p
                   | None \<Rightarrow>
                       (case get_pages env now job jc p of
                          (p, job, jc, Inl e) \<Rightarrow> failed env now job (Some jc) e p
                        | (p, job, jc, Inr pages) \<Rightarrow> finish env now job jc pages p))
          in p\<lparr>pl_dirs := pl_dirs p - {j_id job}\<rparr>)"

definition kind_text :: "job_kind \<Rightarrow> string" where
  "kind_text k = (case k of JobKindDownload \<Rightarrow> ''download'' | JobKindReprocess \<Rightarrow> ''reprocess'')"

definition run :: "run_env \<Rightarrow> time \<Rightarrow> download_job \<Rightarrow> pipeline \<Rightarrow> pipeline" where
  "run env now job p =
     (let (s, ok) = claim now job (pl_queue p); p = on_q (\<lambda>_. s) p in
      if \<not> ok then p
      else
        let p = attempt env now job (p\<lparr>pl_live := Live_start now (j_id job) (kind_text (j_kind job)) (pl_live p)\<rparr>)
        in p\<lparr>pl_live := Live_finish now (j_id job) (pl_live p)\<rparr>)"

section \<open>Where a job stands\<close>

definition job_in :: "job_status set \<Rightarrow> int64 \<Rightarrow> queue_state \<Rightarrow> bool" where
  "job_in S i s \<longleftrightarrow> (\<exists>j \<in> set (rows (q_jobs s)). j_id j = i \<and> j_status j \<in> S)"

lemma job_in_jobs: "q_jobs s' = q_jobs s \<Longrightarrow> job_in S i s' = job_in S i s"
  by (simp add: job_in_def)

lemma job_in_frames [simp]:
  "job_in S i (changed r a k s) = job_in S i s" "job_in S i (publish ev k s) = job_in S i s"
  "job_in S i (Record now sid c e t d s) = job_in S i s" "job_in S i (set_chapter_state now ch st s) = job_in S i s"
  "job_in S i (import_events job jc proc s) = job_in S i s"
  by (simp_all add: job_in_def publish_def)

lemma job_in_running: "job_in runningStatuses i s \<Longrightarrow> \<exists>j. running_row j s \<and> j_id j = i"
  by (auto simp: job_in_def running_row_def)

lemma write_running:
  assumes "queue_ok s" and "job_in runningStatuses i s" and "\<And>j. j_chapter_id (f j) = j_chapter_id j \<and> j_id (f j) = j_id j"
    and "\<And>j. j_status j \<in> runningStatuses \<Longrightarrow> j_status (f j) \<in> S"
  shows "job_in S i (fst (write_job g f i s))"
proof -
  obtain j where j: "running_row j s" "j_id j = i" using job_in_running [OF assms(2)] by blast
  have "f j \<in> set (rows (q_jobs (fst (write_job g f (j_id j) s))))"
    by (rule write_job_row [OF assms(1)]) (use j(1) running_row_active [OF j(1)] assms(3) in \<open>auto simp: running_row_def\<close>)
  then show ?thesis using j assms(3,4) by (auto simp: job_in_def running_row_def intro!: bexI [of _ "f j"])
qed

lemma fail_settles:
  assumes ok: "queue_ok s" and "job_in runningStatuses (j_id job) s"
  shows "job_in {JobQueued, JobFailed} (j_id job) (fail env now False job jc err s)"
proof -
  obtain j where j: "running_row j s" "j_id job = j_id j" using job_in_running [OF assms(2)] by metis
  have rq: "job_in {JobQueued, JobFailed} (j_id j) (requeue now job' d s')"
    if "queue_ok s'" "running_row k s'" "j_id job' = j_id k" "j_id k = j_id j" for job' d s' k
    using requeue_row [OF that(1,2,3), of now d] that(4) by (auto simp: job_in_def)
  have gu: "job_in {JobQueued, JobFailed} (j_id j) (give_up now job' jc' err s')"
    if "queue_ok s'" "running_row j s'" "j_id job' = j_id j" for job' jc' s'
    using give_up_row [OF that, of now jc' err] by (auto simp: job_in_def)
  have ex: "job_in {JobQueued, JobFailed} (j_id j) (exhausted env now job' jc err s)" if id: "j_id job' = j_id j" for job'
  proof -
    let ?s1 = "\<lambda>r. case BlocklistRelease now r (re_msg err) s of Inl _ \<Rightarrow> s | Inr x \<Rightarrow> x"
    have s1: "queue_ok (?s1 r)" "running_row j (?s1 r)" for r
    proof -
      show "queue_ok (?s1 r)" by (rule blocklist_ok [OF ok])
      show "running_row j (?s1 r)" using j(1) BlocklistRelease_frames by (auto simp: running_row_def split: sum.split)
    qed
    let ?f = "\<lambda>u (j :: download_job). j\<lparr>j_is_upgrade := u\<rparr>"
    have w: "queue_ok (fst (write_job False (?f u) (j_id j) (?s1 r)))"
      "running_row (?f u j) (fst (write_job False (?f u) (j_id j) (?s1 r)))" for u r
    proof -
      show "queue_ok (fst (write_job False (?f u) (j_id j) (?s1 r)))" by (rule write_job_ok [OF s1(1)]) (simp add: keeps_place_def)
      have "?f u j \<in> set (rows (q_jobs (fst (write_job False (?f u) (j_id j) (?s1 r)))))"
        by (rule write_job_row [OF s1(1)]) (use s1(2) [of r] running_row_active [OF s1(2)] in \<open>auto simp: running_row_def\<close>)
      then show "running_row (?f u j) (fst (write_job False (?f u) (j_id j) (?s1 r)))" using j(1) by (simp add: running_row_def)
    qed
    show ?thesis unfolding exhausted_def Let_def
      by (auto simp: id intro!: gu [OF ok j(1)] gu [OF s1] rq [OF w] split: option.splits)
  qed
  show ?thesis
    unfolding fail_def Let_def using ex j(2)
    by (auto simp: j(2) intro!: rq [OF ok j(1)] write_running [OF ok assms(2) [unfolded j(2)]])
qed

lemma setStatus_running:
  assumes "queue_ok s" and "job_in runningStatuses (j_id job) s" and "st \<in> runningStatuses"
  shows "job_in runningStatuses (j_id job) (fst (setStatus now job st cst s))"
proof -
  let ?cols = "\<lambda>j. if st = JobDownloading \<and> j_started_at job = None
      then j\<lparr>j_status := st, j_updated_at := now, j_started_at := (if st = JobDownloading \<and> j_started_at job = None then Some now else j_started_at job)\<rparr>
      else j\<lparr>j_status := st, j_updated_at := now\<rparr>"
  have "job_in runningStatuses (j_id job) (fst (write_job True ?cols (j_id job) s))"
    by (rule write_running [OF assms(1,2)]) (use assms(3) in auto)
  then show ?thesis by (auto simp: setStatus_def Let_def split: prod.splits option.splits)
qed

lemma setStatus_job: "j_id (snd (setStatus now job st cst s)) = j_id job" "j_kind (snd (setStatus now job st cst s)) = j_kind job"
  by (simp_all add: setStatus_def Let_def case_prod_beta)

lemma completes:
  assumes "queue_ok s" and "job_in runningStatuses (j_id job) s"
  shows "job_in {JobCompleted} (j_id job) (completeUnchanged now job s)"
  unfolding completeUnchanged_def by simp (rule write_running [OF assms], simp_all)

lemma runningStatuses_members [simp]:
  "JobDownloading \<in> runningStatuses" "JobProcessing \<in> runningStatuses" "JobImporting \<in> runningStatuses"
  by (simp_all add: runningStatuses_def)

lemma claim_runs:
  assumes "queue_ok s" and "snd (claim now job s)"
  shows "job_in runningStatuses (j_id job) (fst (claim now job s))"
proof -
  obtain t n where u: "update_jobs (\<lambda>j. j_id j = j_id job \<and> j_status j = JobQueued)
      (\<lambda>j. j\<lparr>j_status := JobDownloading, j_updated_at := now\<rparr>) (q_jobs s) = Some (t, n)" "n = 1"
    using assms(2) by (auto simp: claim_def split: option.splits)
  then have t: "t = upd_where (\<lambda>j. j_id j = j_id job \<and> j_status j = JobQueued) (\<lambda>j. j\<lparr>j_status := JobDownloading, j_updated_at := now\<rparr>) (q_jobs s)"
    and n: "n_where (\<lambda>j. j_id j = j_id job \<and> j_status j = JobQueued) (q_jobs s) = 1" by (simp_all add: update_jobs_Some)
  have "filter (\<lambda>j. j_id j = j_id job \<and> j_status j = JobQueued) (rows (q_jobs s)) \<noteq> []" using n by (auto simp: n_where_def)
  then obtain j where j: "j \<in> set (rows (q_jobs s))" "j_id j = j_id job \<and> j_status j = JobQueued"
    by (auto simp: filter_empty_conv)
  have "(if j_id j = j_id job \<and> j_status j = JobQueued then j\<lparr>j_status := JobDownloading, j_updated_at := now\<rparr> else j) \<in> set (rows t)"
    unfolding t by (rule upd_where_member [OF j(1)])
  then have "j\<lparr>j_status := JobDownloading, j_updated_at := now\<rparr> \<in> set (rows t)" using j(2) by simp
  then show ?thesis using u j(2)
    by (auto simp: claim_def job_in_def intro!: bexI [of _ "j\<lparr>j_status := JobDownloading, j_updated_at := now\<rparr>"])
qed

text \<open>A job under way, and one whose attempt is over.\<close>

definition under_way :: "int64 \<Rightarrow> pipeline \<Rightarrow> bool" where
  "under_way i p \<longleftrightarrow> queue_ok (pl_queue p) \<and> job_in runningStatuses i (pl_queue p)"

definition settled_job :: "int64 \<Rightarrow> pipeline \<Rightarrow> bool" where
  "settled_job i p \<longleftrightarrow> queue_ok (pl_queue p) \<and> job_in {JobQueued, JobCompleted, JobFailed} i (pl_queue p)"

lemma job_in_mono: "job_in S i s \<Longrightarrow> S \<subseteq> T \<Longrightarrow> job_in T i s"
  by (auto simp: job_in_def)

lemma failed_settles:
  assumes "under_way (j_id job) p" and "\<not> rn_cancelled env"
  shows "settled_job (j_id job) (failed env now job jc e p)"
  using assms fail_settles [of "pl_queue p" job "rn_fail env" now jc e] fail_ok [of "pl_queue p" "rn_fail env" now False job jc e]
  by (auto simp: under_way_def settled_job_def failed_def intro: job_in_mono)

lemma completed_settles:
  assumes "queue_ok (m_queue m)" and "job_in runningStatuses (j_id job) (m_queue m)"
  shows "settled_job (j_id job) (p\<lparr>pl_m := on_queue (completeUnchanged now job) m\<rparr>)"
  using completes [OF assms, of now] completeUnchanged_ok [OF assms(1), of now job]
  by (auto simp: settled_job_def intro: job_in_mono)

lemma mark_jobs [simp]:
  "q_jobs (m_queue (markProcessed now f ps sec m)) = q_jobs (m_queue m)"
  "q_jobs (m_queue (markProcessRetry now f msg m)) = q_jobs (m_queue m)"
  "q_jobs (m_queue (markProcessFailed now f msg m)) = q_jobs (m_queue m)"
  by (simp_all add: markProcessed_def markProcessRetry_def markProcessFailed_def split: option.split)

lemma marks_job_in [simp]:
  "job_in S i (m_queue (markProcessed now f ps sec m)) = job_in S i (m_queue m)"
  "job_in S i (m_queue (markProcessRetry now f msg m)) = job_in S i (m_queue m)"
  "job_in S i (m_queue (markProcessFailed now f msg m)) = job_in S i (m_queue m)"
  by (simp_all add: job_in_def)

lemma marks_under_way [simp]:
  "under_way i (on_m (markProcessed now f ps sec) p) = under_way i p"
  "under_way i (on_m (markProcessRetry now f msg) p) = under_way i p"
  "under_way i (on_m (markProcessFailed now f msg) p) = under_way i p"
  by (simp_all add: under_way_def job_in_def)

lemma publish_under_way [simp]: "under_way i (on_q (publish ev k) p) = under_way i p"
  by (simp add: under_way_def)

lemma status_under_way:
  assumes "under_way (j_id job) p" and "st \<in> runningStatuses"
  shows "under_way (j_id job) (on_q (\<lambda>_. fst (setStatus now job st cst (pl_queue p))) p)"
  using assms setStatus_running setStatus_ok by (auto simp: under_way_def)

lemma process_inline_cases:
  assumes "under_way (j_id job) p" and "\<not> rn_cancelled env"
  shows "case process_inline env now job jc pages params proc p of
      Stopped p' \<Rightarrow> settled_job (j_id job) p'
    | Continue p' job' r d \<Rightarrow> under_way (j_id job) p' \<and> j_id job' = j_id job"
proof -
  obtain s job' where st: "setStatus now job JobProcessing (Some ChapterProcessing) (pl_queue p) = (s, job')" by fastforce
  then have id: "j_id job' = j_id job" using setStatus_job(1) by (metis snd_conv)
  have w: "under_way (j_id job') (on_q (\<lambda>_. s) p)" using status_under_way [OF assms(1), of JobProcessing] st id by (metis fst_conv runningStatuses_members(2))
  note f = failed_settles [OF _ assms(2), of job'] note c = completed_settles [where job = job']
  show ?thesis
  proof (cases "proc (pr_config (jc_profile jc)) pages")
    case (Inl x)
    then show ?thesis using assms(2) st w id by (cases x) (auto simp: process_inline_def Let_def under_way_def intro!: f [unfolded id])
  next
    case (Inr res)
    then show ?thesis using st w id by (auto simp: process_inline_def Let_def under_way_def intro!: c [unfolded id])
  qed
qed

lemma importing_settles:
  assumes "under_way (j_id job) p" and "\<not> rn_cancelled env"
    and "importChapter ie db now job jc proc params sb p = (p', e)"
  shows "settled_job (j_id job) (case e of None \<Rightarrow> p' | Some e \<Rightarrow> failed env now job (Some jc') e p')"
  using assms(3)
proof (cases rule: importChapter_cases)
  case (failed e')
  then have "under_way (j_id job) p'" using assms(1) by (simp add: under_way_def)
  from failed_settles [OF this assms(2)] failed(1) show ?thesis by simp
next
  case (imported q rel sz sha)
  obtain j where j: "j \<in> set (rows (q_jobs (pl_queue q)))" "j_id j = j_id job"
    using assms(1) imported(2) by (auto simp: under_way_def job_in_def)
  let ?jc = "relocated db (pl_m p) jc"
  have ok: "queue_ok (pl_queue q)" using assms(1) imported(2) by (simp add: under_way_def)
  have "job_in {JobCompleted} (j_id job) (pl_queue (import_tx now job ?jc proc f q))" for f
    using import_tx_job [OF ok j, of now ?jc proc f] by (auto simp: job_in_def)
  then have "job_in {JobQueued, JobCompleted, JobFailed} (j_id job) (pl_queue (import_tx now job ?jc proc f q))" for f
    by (rule job_in_mono) simp
  with import_tx_ok [OF ok] imported(1) show ?thesis unfolding imported(7) settled_job_def by simp
qed

lemma import_stage_settles:
  assumes "under_way i p" and i0: "j_id job = i" and c: "\<not> rn_cancelled env"
  shows "settled_job i (import_stage env now job jc proc params sb p)"
proof -
  have w: "under_way (j_id job) p" using assms(1,2) by simp
  obtain s job' where st: "setStatus now job JobImporting None (pl_queue p) = (s, job')" by fastforce
  then have id: "j_id job' = j_id job" using setStatus_job(1) by (metis snd_conv)
  have w': "under_way (j_id job') (on_q (\<lambda>_. s) p)"
    using status_under_way [OF w, of JobImporting] st id by (metis fst_conv runningStatuses_members(3))
  obtain p' e where i: "importChapter (rn_import env) (fe_db (rn_fail env)) now job' jc proc params sb (on_q (\<lambda>_. s) p) = (p', e)" by fastforce
  from importing_settles [OF w' c i, of jc] id show ?thesis by (cases e) (simp_all add: import_stage_def st i i0)
qed

lemma finish_settles:
  assumes w: "under_way (j_id job) p" and c: "\<not> rn_cancelled env"
  shows "settled_job (j_id job) (finish env now job jc pages p)"
proof (cases "if j_kind job = JobKindDownload then screen env now jc pages p else Inr pages")
  case (Inl e)
  then show ?thesis using failed_settles [OF assms] by (simp add: finish_def)
next
  case (Inr kept)
  let ?params = "ProcessParams (rn_hash env) (pr_config (jc_profile jc))"
  show ?thesis
  proof (cases "j_kind job = JobKindReprocess \<and> ?params = []")
    case True
    with w Inr show ?thesis by (auto simp: finish_def Let_def under_way_def intro!: completed_settles)
  next
    case False
    have "case process_stage env now job jc kept ?params p of
        Stopped p' \<Rightarrow> settled_job (j_id job) p'
      | Continue p' job' r d \<Rightarrow> under_way (j_id job) p' \<and> j_id job' = j_id job"
      using process_inline_cases [OF assms] w by (simp add: process_stage_def Let_def split: option.split)
    then show ?thesis using Inr False
      by (auto simp: finish_def Let_def intro!: import_stage_settles [OF _ _ c] split: processed.splits)
  qed
qed

section \<open>An attempt leaves nothing behind\<close>

abbreviation traces :: "pipeline \<Rightarrow> live \<times> int64 set" where
  "traces p \<equiv> (pl_live p, pl_dirs p)"

lemma traces_failed [simp]: "traces (failed env now job jc e p) = traces p"
  by (simp add: failed_def)

lemma traces_import: "traces (fst (importChapter ie db now job jc proc params sb p)) = traces p"
proof -
  obtain p' e where r: "importChapter ie db now job jc proc params sb p = (p', e)" by fastforce
  then show ?thesis
  proof (cases rule: importChapter_cases)
    case (imported q rel sz sha)
    show ?thesis unfolding r imported(7) by (simp add: import_tx_frames imported)
  qed (simp add: r)
qed

lemma traces_import_stage: "traces (import_stage env now job jc proc params sb p) = traces p"
proof -
  obtain s job' where st: "setStatus now job JobImporting None (pl_queue p) = (s, job')" by fastforce
  obtain p' e where r: "importChapter (rn_import env) (fe_db (rn_fail env)) now job' jc proc params sb (on_q (\<lambda>_. s) p) = (p', e)" by fastforce
  have "traces p' = traces p" using traces_import [of "rn_import env" "fe_db (rn_fail env)" now job' jc proc params sb "on_q (\<lambda>_. s) p"] r by simp
  then show ?thesis by (cases e) (simp_all add: import_stage_def st r)
qed

lemma traces_process:
  "case process_stage env now job jc pages params p of Stopped p' \<Rightarrow> traces p' = traces p | Continue p' job' r d \<Rightarrow> traces p' = traces p"
  by (simp add: process_stage_def process_inline_def Let_def case_prod_beta split: option.split sum.split)

lemma traces_finish: "traces (finish env now job jc pages p) = traces p"
proof (cases "if j_kind job = JobKindDownload then screen env now jc pages p else Inr pages")
  case (Inr kept)
  then show ?thesis
    using traces_process [where env = env and now = now and job = job and jc = jc and pages = kept
        and params = "ProcessParams (rn_hash env) (pr_config (jc_profile jc))" and p = p]
    by (simp add: finish_def Let_def traces_import_stage [unfolded prod.inject] split: processed.split_asm)
qed (simp add: finish_def)

lemma pick_release_under_way:
  assumes "pick_release env now job jc p = Some (p', job', jc')"
  shows "traces p' = traces p \<and> j_id job' = j_id job \<and> (under_way (j_id job) p \<longrightarrow> under_way (j_id job) p')"
proof (cases "jc_release jc = None \<or> jc_link jc = None")
  case True
  with assms obtain cand upgrade where n: "NextCandidate (fe_compile (rn_fail env)) now (fe_db (rn_fail env)) (fe_cache (rn_fail env))
      (pl_queue p) (s_id (jc_series jc)) (c_id (jc_chapter jc)) = Some (cand, upgrade)"
    by (auto simp: pick_release_def Let_def split: option.splits)
  with assms True have c: "job' = job\<lparr>j_release_id := Some (r_id (cand_release cand)), j_is_upgrade := upgrade\<rparr>"
    "p' = on_q (\<lambda>s. fst (write_job False (\<lambda>j. j\<lparr>j_release_id := Some (r_id (cand_release cand)), j_is_upgrade := upgrade\<rparr>) (j_id job) s)) p"
    by (auto simp: pick_release_def Let_def)
  have "under_way (j_id job) p'" if w: "under_way (j_id job) p"
  proof -
    have ok: "queue_ok (pl_queue p)" and j: "job_in runningStatuses (j_id job) (pl_queue p)" using w by (simp_all add: under_way_def)
    show ?thesis unfolding c(2) under_way_def
      by (simp add: write_job_ok [OF ok] keeps_place_def write_running [OF ok j])
  qed
  then show ?thesis by (simp add: c)
qed (use assms in \<open>auto simp: pick_release_def\<close>)

lemma get_pages_under_way:
  assumes "get_pages env now job jc p = (p', job', jc', r)"
  shows "traces p' = traces p \<and> j_id job' = j_id job \<and> (under_way (j_id job) p \<longrightarrow> under_way (j_id job) p')"
proof (cases "j_kind job = JobKindReprocess \<or> pick_release env now job jc p = None")
  case True
  with assms show ?thesis by (cases "j_kind job = JobKindReprocess") (auto simp: get_pages_def)
next
  case False
  then obtain pa ja jca where a: "pick_release env now job jc p = Some (pa, ja, jca)" by (cases "pick_release env now job jc p") auto
  obtain s jb where st: "setStatus now ja JobDownloading (Some ChapterDownloading) (pl_queue pa) = (s, jb)" by fastforce
  have id: "j_id jb = j_id job" using pick_release_under_way [OF a] setStatus_job(1) st by (metis snd_conv)
  have pace: "traces (fst (pace_chapter env now jca q)) = traces q" "pl_m (fst (pace_chapter env now jca q)) = pl_m q" for q
    by (simp_all add: pace_chapter_def case_prod_beta Let_def split: option.split)
  have p': "p' = fst (pace_chapter env now jca (on_q (\<lambda>_. s) pa))" "job' = jb"
    using assms False by (simp_all add: get_pages_def a st split: prod.splits)
  have "under_way (j_id ja) (on_q (\<lambda>_. s) pa)" if "under_way (j_id ja) pa"
    using status_under_way [OF that, where st = JobDownloading and now = now and cst = "Some ChapterDownloading"] st by simp
  then show ?thesis using pick_release_under_way [OF a] pace id unfolding p' by (auto simp: under_way_def)
qed

lemma attempt_spec:
  assumes "under_way (j_id job) p" and "\<not> rn_cancelled env"
  shows "settled_job (j_id job) (attempt env now job p) \<and> pl_live (attempt env now job p) = pl_live p \<and>
    pl_dirs (attempt env now job p) \<subseteq> pl_dirs p \<and> j_id job \<notin> pl_dirs (attempt env now job p) \<or>
    load_job (fe_db (rn_fail env)) (pl_m p) job = None \<and> settled_job (j_id job) (attempt env now job p) \<and> traces (attempt env now job p) = traces p"
proof (cases "load_job (fe_db (rn_fail env)) (pl_m p) job")
  case None
  with failed_settles [OF assms] show ?thesis by (simp add: attempt_def)
next
  case (Some jc)
  define q where "q = p\<lparr>pl_dirs := insert (j_id job) (pl_dirs p)\<rparr>"
  have w: "under_way (j_id job) q" using assms(1) by (simp add: q_def under_way_def)
  define r where "r = (case rn_mkdir env of
         Some e \<Rightarrow> failed env now job (Some jc) (infra e) q
       | None \<Rightarrow>
           (case get_pages env now job jc q of
              (p, job, jc, Inl e) \<Rightarrow> failed env now job (Some jc) e p
            | (p, job, jc, Inr pages) \<Rightarrow> finish env now job jc pages p))"
  have a: "attempt env now job p = r\<lparr>pl_dirs := pl_dirs r - {j_id job}\<rparr>"
    by (simp only: attempt_def Some option.case Let_def q_def r_def)
  have "settled_job (j_id job) r \<and> traces r = traces q"
  proof (cases "rn_mkdir env")
    case None
    obtain p' job' jc' x where g: "get_pages env now job jc q = (p', job', jc', x)" by (cases "get_pages env now job jc q") auto
    note G = get_pages_under_way [OF g]
    then have w': "under_way (j_id job') p'" using w by simp
    show ?thesis using G failed_settles [OF w' assms(2)] finish_settles [OF w' assms(2)] traces_finish [where env = env]
      by (cases x) (simp_all add: r_def None g)
  qed (use failed_settles [OF w assms(2)] in \<open>simp add: r_def\<close>)
  then show ?thesis unfolding a by (auto simp: settled_job_def q_def)
qed

section \<open>Properties\<close>

text \<open>
  C18: A job never gets stuck: when an attempt that was not cancelled returns, whatever the source, the
  processor, the file system or the archive writer answered, the job is queued again, completed
  or failed (not downloading, processing or importing), its working directory is gone, no
  progress is reported for it any more, and the queue's invariant holds.
\<close>

theorem run_settles:
  assumes "queue_ok (pl_queue p)" and "snd (claim now job (pl_queue p))" and "\<not> rn_cancelled env" and "j_id job \<notin> pl_dirs p"
  shows "queue_ok (pl_queue (run env now job p)) \<and>
    (\<exists>j \<in> set (rows (q_jobs (pl_queue (run env now job p)))). j_id j = j_id job \<and> j_status j \<in> {JobQueued, JobCompleted, JobFailed}) \<and>
    j_id job \<notin> pl_dirs (run env now job p) \<and> Live_get (j_id job) (pl_live (run env now job p)) = None"
proof -
  obtain s where c: "claim now job (pl_queue p) = (s, True)" using assms(2) by (cases "claim now job (pl_queue p)") auto
  define q where "q = (on_q (\<lambda>_. s) p)\<lparr>pl_live := Live_start now (j_id job) (kind_text (j_kind job)) (pl_live p)\<rparr>"
  have w: "under_way (j_id job) q"
    using claim_runs [OF assms(1,2)] claim_ok [OF assms(1), of now job] c by (simp add: under_way_def q_def)
  have r: "run env now job p = (attempt env now job q)\<lparr>pl_live := Live_finish now (j_id job) (pl_live (attempt env now job q))\<rparr>"
    by (simp add: run_def c Let_def q_def)
  have "settled_job (j_id job) (attempt env now job q)" "j_id job \<notin> pl_dirs (attempt env now job q)"
    using attempt_spec [OF w assms(3), of now] assms(4) by (auto simp: q_def)
  moreover have "Live_get i (Live_finish now i l) = None" for i l by (simp add: Live_get_def Live_finish_def)
  ultimately show ?thesis unfolding r by (simp add: settled_job_def job_in_def)
qed

text \<open>A source that gives one page, no processor, no quiet hours.\<close>

definition ex_run :: run_env where
  "ex_run = \<lparr>rn_fail = ex_env, rn_cancelled = False, rn_load_error = ex_error, rn_mkdir = None, rn_random = (\<lambda>_. 0),
     rn_limits = (\<lambda>_. no_throttle), rn_pace_ended = None, rn_fetch = (\<lambda>_. Inr [ex_page]),
     rn_dir = (\<lambda>s. Inr (''/lib/'' @ s_path s)), rn_archive = (\<lambda>_. Inr []), rn_page_size = (\<lambda>_. Some 100),
     rn_hash = (\<lambda>_. ''h''), rn_processor = None, rn_elapsed = 0, rn_zones = (\<lambda>_. None), rn_here = (\<lambda>_. (0, 0)),
     rn_schedule = ex_night, rn_import = ex_import\<rparr>"

theorem run_settles_witness:
  "(\<exists>j \<in> set (rows (q_jobs (pl_queue (run ex_run 9 ex_job ex_pipeline)))). j_id j = 3 \<and> j_status j \<in> {JobQueued, JobCompleted, JobFailed}) \<and>
   Live_get 3 (pl_live (run ex_run 9 ex_job ex_pipeline)) = None"
proof -
  have ok: "queue_ok (pl_queue ex_pipeline)" by (simp add: ex_pipeline_def ex_manager_def ex_queue_inv)
  have c: "snd (claim 9 ex_job (pl_queue ex_pipeline))" by code_simp
  have i: "j_id ex_job = 3" by (simp add: ex_job_def)
  have n: "\<not> rn_cancelled ex_run" "j_id ex_job \<notin> pl_dirs ex_pipeline" by (simp_all add: ex_run_def ex_pipeline_def)
  from run_settles [OF ok c n] show ?thesis unfolding i by blast
qed

end
