(* ===== verification/WorkTasks.thy ===== *)
theory WorkTasks
  imports Samples
begin

text \<open>
  The ledger of work handed to workers: \<open>internal/worktasks/worktasks.go\<close>.  A statement on the
  ledger is atomic; \<open>Claim\<close>, \<open>Reap\<close> and \<open>DropUnclaimed\<close> read a list of rows first and then
  change them one by one by compare-and-set, so their loops take that list as an argument and
  work for any list, however stale.  A NULL \<open>worker_id\<close> is 0, which is no worker's id.
  \<open>l_waiting\<close> are the tasks someone awaits, \<open>l_settled\<close> the outcomes sent to them, \<open>l_changed\<close> and
  \<open>l_given_up\<close> the calls of the ledger's two callbacks.
\<close>

section \<open>State\<close>

definition Lease :: duration where "Lease = 2 * minute"
definition MaxAttempts :: int where "MaxAttempts = 3"
definition Unclaimed :: duration where "Unclaimed = minute"
definition OnlineWithin :: duration where "OnlineWithin = 2 * minute"

datatype ledger_error = ErrNotYours | ErrNoRows

text \<open>What a waiting caller is sent: nil, or \<open>ErrGivenUp\<close> with the worker's reason if there is one.\<close>

datatype settled = Settled | GivenUp string

record ledger =
  l_tasks :: "worker_task table"
  l_workers :: "worker table"
  l_waiting :: "int64 list"
  l_settled :: "(int64 \<times> settled) list"
  l_changed :: "int64 list"
  l_given_up :: "worker_task list"

definition changed_job :: "int64 \<Rightarrow> ledger \<Rightarrow> ledger" where
  "changed_job jobID l = (if jobID \<noteq> 0 then l\<lparr>l_changed := l_changed l @ [jobID]\<rparr> else l)"

definition givenUp :: "worker_task \<Rightarrow> ledger \<Rightarrow> ledger" where
  "givenUp t l = l\<lparr>l_given_up := l_given_up l @ [t]\<rparr>"

definition settle :: "int64 \<Rightarrow> settled \<Rightarrow> ledger \<Rightarrow> ledger" where
  "settle taskID e l =
     (if taskID \<in> set (l_waiting l)
      then l\<lparr>l_waiting := removeAll taskID (l_waiting l), l_settled := l_settled l @ [(taskID, e)]\<rparr>
      else l)"

definition Await :: "int64 \<Rightarrow> ledger \<Rightarrow> ledger" where
  "Await taskID l = l\<lparr>l_waiting := taskID # removeAll taskID (l_waiting l)\<rparr>"

definition Forget :: "int64 \<Rightarrow> ledger \<Rightarrow> ledger" where
  "Forget taskID l = l\<lparr>l_waiting := removeAll taskID (l_waiting l)\<rparr>"

text \<open>UPDATE worker\_tasks: the changed ledger and the number of rows affected.\<close>

definition upd_tasks :: "(worker_task \<Rightarrow> bool) \<Rightarrow> (worker_task \<Rightarrow> worker_task) \<Rightarrow> ledger \<Rightarrow> ledger \<times> nat" where
  "upd_tasks P f l = (l\<lparr>l_tasks := upd_where P f (l_tasks l)\<rparr>, n_where P (l_tasks l))"

section \<open>Tasks in\<close>

definition Add :: "time \<Rightarrow> worker_task \<Rightarrow> ledger \<Rightarrow> ledger" where
  "Add now t l =
     (let t = t\<lparr>wt_state := TaskPending, wt_created_at := now,
            wt_not_before := (if wt_not_before t = 0 then now else wt_not_before t)\<rparr>
      in changed_job (wt_job_id t) (l\<lparr>l_tasks := tinsert (\<lambda>i r. r\<lparr>wt_id := i\<rparr>) t (l_tasks l)\<rparr>))"

definition OfJob :: "int64 \<Rightarrow> ledger \<Rightarrow> worker_task list" where
  "OfJob jobID l = sort_key wt_id (filter (\<lambda>t. wt_job_id t = jobID) (rows (l_tasks l)))"

definition OpenJobs :: "ledger \<Rightarrow> int64 set" where
  "OpenJobs l = wt_job_id ` {t \<in> set (rows (l_tasks l)). Open t}"

section \<open>What a worker can do\<close>

definition has_models :: "worker \<Rightarrow> bool" where
  "has_models w \<longleftrightarrow> wi_models (w_info w) \<noteq> []"

definition takes :: "worker \<Rightarrow> task_kind \<Rightarrow> bool" where
  "takes w kind \<longleftrightarrow>
     HasRole w kind \<and>
     (case kind of TaskUpscale \<Rightarrow> has_models w | TaskEncode \<Rightarrow> wi_process (w_info w) | TaskDownload \<Rightarrow> True)"

definition upscalesIfNeeded :: "worker \<Rightarrow> worker_task \<Rightarrow> bool" where
  "upscalesIfNeeded w t =
     (if wt_kind t \<noteq> TaskEncode then True
      else
        let need = (case sp_needs_upscale (wt_spec t) of Some b \<Rightarrow> b | None \<Rightarrow> sp_profile_upscale (wt_spec t))
        in if \<not> need then True else has_models w)"

definition online :: "time \<Rightarrow> worker \<Rightarrow> bool" where
  "online now w \<longleftrightarrow> (case w_last_seen_at w of None \<Rightarrow> False | Some t \<Rightarrow> now - t < OnlineWithin)"

definition someoneCanDo :: "time \<Rightarrow> worker_task \<Rightarrow> ledger \<Rightarrow> bool" where
  "someoneCanDo now t l =
     list_ex (\<lambda>w. takes w (wt_kind t) \<and> upscalesIfNeeded w t \<and> online now w)
       (filter w_enabled (rows (l_workers l)))"

text \<open>The zero value of a task.\<close>

definition zero_task :: worker_task where
  "zero_task = \<lparr>wt_id = 0, wt_job_id = 0, wt_worker_id = 0, wt_kind = TaskDownload, wt_seq = 0,
     wt_state = TaskPending, wt_spec = \<lparr>sp_needs_upscale = None, sp_profile_upscale = False, sp_gpu = []\<rparr>,
     wt_not_before = 0, wt_lease_until = None, wt_heartbeat_at = None, wt_cancel = False, wt_attempt = 0,
     wt_pages_total = 0, wt_pages_done = 0, wt_bytes_in = 0, wt_bytes_out = 0, wt_error = [], wt_created_at = 0,
     wt_started_at = None, wt_finished_at = None\<rparr>"

definition CanDo :: "time \<Rightarrow> task_kind \<Rightarrow> ledger \<Rightarrow> bool" where
  "CanDo now kind l = someoneCanDo now (zero_task\<lparr>wt_kind := kind\<rparr>) l"

definition CanTake :: "time \<Rightarrow> worker_task \<Rightarrow> ledger \<Rightarrow> bool" where
  "CanTake now t l = someoneCanDo now t l"

section \<open>Handing out\<close>

definition held :: "ledger \<Rightarrow> int64 \<Rightarrow> int" where
  "held l workerID = int (n_where (\<lambda>t. wt_state t = TaskLeased \<and> wt_worker_id t = workerID) (l_tasks l))"

definition leased_total :: "ledger \<Rightarrow> int" where
  "leased_total l = int (n_where (\<lambda>t. wt_state t = TaskLeased) (l_tasks l))"

definition worker_limit :: "int \<Rightarrow> worker \<Rightarrow> int" where
  "worker_limit perWorker w = max (if w_concurrent w \<le> 0 then perWorker else w_concurrent w) 1"

definition spare :: "int \<Rightarrow> ledger \<Rightarrow> worker \<Rightarrow> bool" where
  "spare perWorker l w \<longleftrightarrow> held l (w_id w) < worker_limit perWorker w"

text \<open>Whether a worker above \<open>current\<close> could take the kind right now.\<close>

definition yields_to :: "time \<Rightarrow> int \<Rightarrow> ledger \<Rightarrow> worker \<Rightarrow> task_kind \<Rightarrow> worker \<Rightarrow> bool" where
  "yields_to now perWorker l current kind w \<longleftrightarrow>
     \<not> (w_id w = w_id current \<or> w_priority w \<ge> w_priority current \<or> \<not> online now w) \<and>
     takes w kind \<and> spare perWorker l w"

definition claimableKinds :: "time \<Rightarrow> int64 \<Rightarrow> task_kind list \<Rightarrow> int \<Rightarrow> int \<Rightarrow> ledger \<Rightarrow> task_kind list" where
  "claimableKinds now workerID kinds limit perWorker l =
     (let workers = filter w_enabled (rows (l_workers l)) in
      case find (\<lambda>w. w_id w = workerID) workers of
        None \<Rightarrow> []
      | Some current \<Rightarrow>
          if limit > 0 \<and> leased_total l \<ge> limit then []
          else if \<not> spare perWorker l current then []
          else filter (\<lambda>kind. \<not> (kind = TaskEncode \<and> \<not> takes current kind)
                 \<and> \<not> list_ex (yields_to now perWorker l current kind) workers) kinds)"

definition lease_row :: "int64 \<Rightarrow> time \<Rightarrow> worker_task \<Rightarrow> worker_task" where
  "lease_row workerID now t =
     t\<lparr>wt_state := TaskLeased, wt_worker_id := workerID, wt_lease_until := Some (now + Lease),
       wt_heartbeat_at := Some now, wt_started_at := (case wt_started_at t of None \<Rightarrow> Some now | Some s \<Rightarrow> Some s),
       wt_attempt := wt_attempt t + 1, wt_cancel := False\<rparr>"

fun claim_from :: "worker \<Rightarrow> time \<Rightarrow> worker_task list \<Rightarrow> ledger \<Rightarrow> ledger \<times> worker_task option" where
  "claim_from w now [] l = (l, None)"
| "claim_from w now (t # waiting) l =
     (if \<not> upscalesIfNeeded w t then claim_from w now waiting l
      else
        let (l', n) = upd_tasks (\<lambda>r. wt_id r = wt_id t \<and> wt_state r = TaskPending) (lease_row (w_id w) now) l in
        if n \<noteq> 1 then claim_from w now waiting l'
        else
          (changed_job (wt_job_id t) l',
           Some (t\<lparr>wt_state := TaskLeased, wt_worker_id := w_id w, wt_lease_until := Some (now + Lease),
             wt_attempt := wt_attempt t + 1, wt_heartbeat_at := Some now, wt_cancel := False\<rparr>)))"

definition waiting_tasks :: "time \<Rightarrow> task_kind list \<Rightarrow> ledger \<Rightarrow> worker_task list" where
  "waiting_tasks now kinds l =
     take 20 (sort_key wt_id (filter (\<lambda>t. wt_state t = TaskPending \<and> wt_not_before t \<le> now \<and> wt_kind t \<in> set kinds)
       (rows (l_tasks l))))"

text \<open>\<open>limits\<close>: none, the installation's limit, or that and the limit per worker.\<close>

definition claim_kinds :: "time \<Rightarrow> int64 \<Rightarrow> task_kind list \<Rightarrow> int list \<Rightarrow> ledger \<Rightarrow> task_kind list" where
  "claim_kinds now workerID kinds limits l =
     (case limits of
        [] \<Rightarrow> kinds
      | limit # rest \<Rightarrow> claimableKinds now workerID kinds limit (case rest of [] \<Rightarrow> 1 | n # _ \<Rightarrow> max n 1) l)"

definition Claim ::
  "time \<Rightarrow> int64 \<Rightarrow> task_kind list \<Rightarrow> int list \<Rightarrow> ledger \<Rightarrow> ledger \<times> (ledger_error + worker_task option)" where
  "Claim now workerID kinds limits l =
     (if kinds = [] then (l, Inr None)
      else
        let kinds = claim_kinds now workerID kinds limits l in
        if kinds = [] then (l, Inr None)
        else
          case tget w_id workerID (l_workers l) of
            None \<Rightarrow> (l, Inl ErrNoRows)
          | Some w \<Rightarrow>
              (let (l', got) = claim_from w now (waiting_tasks now kinds l) l in (l', Inr got)))"

section \<open>A worker's calls\<close>

record progress =
  p_pages_done :: int
  p_pages_total :: int
  p_bytes_in :: int64
  p_bytes_out :: int64
  p_gpu :: string

text \<open>The WHERE of every statement a worker's call sends.\<close>

definition leased_to :: "int64 \<Rightarrow> int64 \<Rightarrow> worker_task \<Rightarrow> bool" where
  "leased_to taskID workerID t \<longleftrightarrow> wt_id t = taskID \<and> wt_worker_id t = workerID \<and> wt_state t = TaskLeased"

definition count_pages :: "progress \<Rightarrow> worker_task \<Rightarrow> worker_task" where
  "count_pages p t = t\<lparr>wt_pages_done := p_pages_done p, wt_pages_total := p_pages_total p,
     wt_bytes_in := p_bytes_in p, wt_bytes_out := p_bytes_out p\<rparr>"

definition Heartbeat :: "time \<Rightarrow> int64 \<Rightarrow> int64 \<Rightarrow> progress \<Rightarrow> ledger \<Rightarrow> ledger \<times> (ledger_error + bool)" where
  "Heartbeat now taskID workerID p l =
     (let (l', n) = upd_tasks (leased_to taskID workerID)
            (\<lambda>t. count_pages p (t\<lparr>wt_heartbeat_at := Some now, wt_lease_until := Some (now + Lease)\<rparr>)) l
      in
      if n \<noteq> 1 then (l', Inl ErrNotYours)
      else
        case tget wt_id taskID (l_tasks l') of
          None \<Rightarrow> (l', Inl ErrNoRows)
        | Some t \<Rightarrow> (changed_job (wt_job_id t) l', Inr (wt_cancel t)))"

definition Held :: "int64 \<Rightarrow> int64 \<Rightarrow> ledger \<Rightarrow> ledger_error + worker_task" where
  "Held taskID workerID l =
     (case find (leased_to taskID workerID) (rows (l_tasks l)) of None \<Rightarrow> Inl ErrNotYours | Some t \<Rightarrow> Inr t)"

text \<open>The statements of \<open>close\<close>'s transaction; \<open>Inl\<close> rolls it back.\<close>

definition close_row :: "time \<Rightarrow> task_state \<Rightarrow> string \<Rightarrow> progress \<Rightarrow> worker_task \<Rightarrow> worker_task" where
  "close_row now state reason p t =
     count_pages p (t\<lparr>wt_state := state, wt_error := reason, wt_finished_at := Some now, wt_lease_until := None\<rparr>)"

definition count_worker :: "time \<Rightarrow> task_state \<Rightarrow> progress \<Rightarrow> time option \<Rightarrow> worker \<Rightarrow> worker" where
  "count_worker now state p started w =
     w\<lparr>w_pages_done := w_pages_done w + p_pages_done p, w_bytes_in := w_bytes_in w + p_bytes_in p,
       w_bytes_out := w_bytes_out w + p_bytes_out p,
       w_tasks_done := (if state = TaskDone then w_tasks_done w + 1 else w_tasks_done w),
       w_tasks_failed := (if state = TaskDone then w_tasks_failed w else w_tasks_failed w + 1),
       w_busy_seconds := (case started of None \<Rightarrow> w_busy_seconds w
                          | Some s \<Rightarrow> w_busy_seconds w + of_int (now - s) / of_int second)\<rparr>"

definition close_tx ::
  "time \<Rightarrow> int64 \<Rightarrow> int64 \<Rightarrow> task_state \<Rightarrow> string \<Rightarrow> progress \<Rightarrow> worker_task \<Rightarrow> ledger \<Rightarrow> ledger_error + ledger" where
  "close_tx now taskID workerID state reason p t l =
     (let l = (if p_gpu p \<noteq> [] then fst (upd_tasks (\<lambda>r. wt_id r = taskID)
                 (\<lambda>r. r\<lparr>wt_spec := (wt_spec t)\<lparr>sp_gpu := p_gpu p\<rparr>\<rparr>) l) else l);
          (l, n) = upd_tasks (leased_to taskID workerID) (close_row now state reason p) l
      in
      if n \<noteq> 1 then Inl ErrNotYours
      else if workerID = 0 then Inr l
      else Inr (l\<lparr>l_workers := upd_where (\<lambda>w. w_id w = workerID) (count_worker now state p (wt_started_at t)) (l_workers l)\<rparr>))"

definition close_task ::
  "time \<Rightarrow> int64 \<Rightarrow> int64 \<Rightarrow> task_state \<Rightarrow> string \<Rightarrow> progress \<Rightarrow> ledger \<Rightarrow> ledger \<times> ledger_error option" where
  "close_task now taskID workerID state reason p l =
     (case tget wt_id taskID (l_tasks l) of
        None \<Rightarrow> (l, Some ErrNoRows)
      | Some t \<Rightarrow>
          (case close_tx now taskID workerID state reason p t l of
             Inl e \<Rightarrow> (l, Some e)
           | Inr l' \<Rightarrow>
               (changed_job (wt_job_id t) (settle taskID (if state = TaskDone then Settled else GivenUp reason) l'), None)))"

definition Finish :: "time \<Rightarrow> int64 \<Rightarrow> int64 \<Rightarrow> progress \<Rightarrow> ledger \<Rightarrow> ledger \<times> ledger_error option" where
  "Finish now taskID workerID p l = close_task now taskID workerID TaskDone [] p l"

definition Fail :: "time \<Rightarrow> int64 \<Rightarrow> int64 \<Rightarrow> string \<Rightarrow> progress \<Rightarrow> ledger \<Rightarrow> ledger \<times> ledger_error option" where
  "Fail now taskID workerID reason p l = close_task now taskID workerID TaskFailed reason p l"

definition HandBack :: "int64 \<Rightarrow> int64 list \<Rightarrow> ledger \<Rightarrow> ledger \<times> nat" where
  "HandBack workerID taskIDs l =
     upd_tasks (\<lambda>t. wt_worker_id t = workerID \<and> wt_state t = TaskLeased \<and> (taskIDs \<noteq> [] \<longrightarrow> wt_id t \<in> set taskIDs))
       (\<lambda>t. t\<lparr>wt_state := TaskPending, wt_lease_until := None, wt_worker_id := 0\<rparr>) l"

section \<open>Cancelling\<close>

definition drop_row :: "time \<Rightarrow> string \<Rightarrow> worker_task \<Rightarrow> worker_task" where
  "drop_row now reason t = t\<lparr>wt_state := TaskAbandoned, wt_finished_at := Some now, wt_error := reason\<rparr>"

definition Cancel_job :: "time \<Rightarrow> int64 \<Rightarrow> ledger \<Rightarrow> ledger" where
  "Cancel_job now jobID l =
     (let l = foldl (\<lambda>l t. if wt_state t = TaskPending then settle (wt_id t) (GivenUp []) l else l) l (OfJob jobID l);
          l = fst (upd_tasks (\<lambda>t. wt_job_id t = jobID \<and> wt_state t = TaskPending) (drop_row now ''cancelled'') l)
      in fst (upd_tasks (\<lambda>t. wt_job_id t = jobID \<and> wt_state t = TaskLeased) (\<lambda>t. t\<lparr>wt_cancel := True\<rparr>) l))"

definition CancelTask :: "time \<Rightarrow> int64 \<Rightarrow> ledger \<Rightarrow> ledger" where
  "CancelTask now taskID l =
     (let (l, n) = upd_tasks (\<lambda>t. wt_id t = taskID \<and> wt_state t = TaskPending) (drop_row now ''cancelled'') l in
      if n = 1 then settle taskID (GivenUp []) l
      else fst (upd_tasks (\<lambda>t. wt_id t = taskID \<and> wt_state t = TaskLeased) (\<lambda>t. t\<lparr>wt_cancel := True\<rparr>) l))"

section \<open>The reaper\<close>

definition expired :: "time \<Rightarrow> worker_task \<Rightarrow> bool" where
  "expired now t \<longleftrightarrow> wt_state t = TaskLeased \<and> (case wt_lease_until t of None \<Rightarrow> False | Some u \<Rightarrow> u < now)"

definition reap_reason :: "worker_task \<Rightarrow> string" where
  "reap_reason t = ''no worker finished it in '' @ format_int (wt_attempt t) @ '' tries''"

definition reap_row :: "time \<Rightarrow> worker_task \<Rightarrow> worker_task \<Rightarrow> worker_task" where
  "reap_row now t r =
     (if wt_attempt t \<ge> MaxAttempts
      then r\<lparr>wt_state := TaskAbandoned, wt_lease_until := None, wt_worker_id := 0, wt_error := reap_reason t,
             wt_finished_at := Some now\<rparr>
      else r\<lparr>wt_state := TaskPending, wt_lease_until := None, wt_worker_id := 0, wt_error := []\<rparr>)"

definition reap_one :: "time \<Rightarrow> worker_task \<Rightarrow> ledger \<Rightarrow> ledger \<times> nat \<times> nat" where
  "reap_one now t l =
     (let (l, n) = upd_tasks (\<lambda>r. wt_id r = wt_id t \<and> wt_state r = TaskLeased) (reap_row now t) l in
      if n \<noteq> 1 then (l, 0, 0)
      else if wt_attempt t \<ge> MaxAttempts then
        (changed_job (wt_job_id t)
           (givenUp (t\<lparr>wt_state := TaskAbandoned, wt_error := reap_reason t\<rparr>) (settle (wt_id t) (GivenUp []) l)), 0, 1)
      else (changed_job (wt_job_id t) l, 1, 0))"

fun reap_from :: "time \<Rightarrow> worker_task list \<Rightarrow> ledger \<Rightarrow> ledger \<times> nat \<times> nat" where
  "reap_from now [] l = (l, 0, 0)"
| "reap_from now (t # ts) l =
     (let (l1, q, a) = reap_one now t l; (l2, q', a') = reap_from now ts l1 in (l2, q + q', a + a'))"

definition Reap :: "time \<Rightarrow> ledger \<Rightarrow> ledger \<times> nat \<times> nat" where
  "Reap now l = reap_from now (take 100 (filter (expired now) (rows (l_tasks l)))) l"

definition no_worker_reason :: string where
  "no_worker_reason = ''no worker that can do this is online''"

fun drop_from :: "time \<Rightarrow> worker_task list \<Rightarrow> ledger \<Rightarrow> ledger \<times> nat" where
  "drop_from now [] l = (l, 0)"
| "drop_from now (t # ts) l =
     (if someoneCanDo now t l then drop_from now ts l
      else
        let (l1, n) = upd_tasks (\<lambda>r. wt_id r = wt_id t \<and> wt_state r = TaskPending) (drop_row now no_worker_reason) l in
        if n \<noteq> 1 then drop_from now ts l1
        else
          let (l2, d) = drop_from now ts
            (givenUp (t\<lparr>wt_state := TaskAbandoned, wt_error := no_worker_reason\<rparr>) (settle (wt_id t) (GivenUp []) l1))
          in (l2, d + 1))"

definition DropUnclaimed :: "time \<Rightarrow> ledger \<Rightarrow> ledger \<times> nat" where
  "DropUnclaimed now l =
     drop_from now (take 100 (filter (\<lambda>t. wt_state t = TaskPending \<and> wt_created_at t < now - Unclaimed) (rows (l_tasks l)))) l"

definition prunable :: "time \<Rightarrow> worker_task \<Rightarrow> bool" where
  "prunable cutoff t \<longleftrightarrow> \<not> Open t \<and> (case wt_finished_at t of None \<Rightarrow> False | Some f \<Rightarrow> f < cutoff)"

definition Prune :: "time \<Rightarrow> duration \<Rightarrow> ledger \<Rightarrow> ledger \<times> nat" where
  "Prune now keep l =
     (l\<lparr>l_tasks := del_where (prunable (now - keep)) (l_tasks l)\<rparr>, n_where (prunable (now - keep)) (l_tasks l))"

definition keepFinished :: duration where "keepFinished = 14 * 24 * hour"

text \<open>One tick of the reaper, and of its daily pruning.\<close>

definition reap_tick :: "time \<Rightarrow> ledger \<Rightarrow> ledger" where
  "reap_tick now l = fst (DropUnclaimed now (fst (Reap now l)))"

definition prune_tick :: "time \<Rightarrow> ledger \<Rightarrow> ledger" where
  "prune_tick now l = fst (Prune now keepFinished l)"

section \<open>Histories of the ledger\<close>

record lworld =
  lw_now :: time
  lw_ledger :: ledger

text \<open>Who acts: the worker of a call with the task it names, a caller that stops waiting for a task, or the server.\<close>

datatype lact = Server | Forgets int64 | Worker_claims int64 | Worker_beats int64 int64 | Worker_closes int64 int64
  | Worker_returns int64

inductive lstep :: "lworld \<Rightarrow> lact \<Rightarrow> lworld \<Rightarrow> bool" where
  ltick: "0 \<le> d \<Longrightarrow> lstep x Server (x\<lparr>lw_now := lw_now x + d\<rparr>)"
| ladd: "wt_lease_until t = None \<Longrightarrow> lstep x Server (x\<lparr>lw_ledger := Add (lw_now x) t (lw_ledger x)\<rparr>)"
| lclaim: "lstep x (Worker_claims w) (x\<lparr>lw_ledger := fst (Claim (lw_now x) w kinds limits (lw_ledger x))\<rparr>)"
| lbeat: "lstep x (Worker_beats w i) (x\<lparr>lw_ledger := fst (Heartbeat (lw_now x) i w p (lw_ledger x))\<rparr>)"
| lfinish: "lstep x (Worker_closes w i) (x\<lparr>lw_ledger := fst (Finish (lw_now x) i w p (lw_ledger x))\<rparr>)"
| lfail: "lstep x (Worker_closes w i) (x\<lparr>lw_ledger := fst (Fail (lw_now x) i w reason p (lw_ledger x))\<rparr>)"
| lreturn: "lstep x (Worker_returns w) (x\<lparr>lw_ledger := fst (HandBack w ids (lw_ledger x))\<rparr>)"
| lcancel: "lstep x Server (x\<lparr>lw_ledger := Cancel_job (lw_now x) j (lw_ledger x)\<rparr>)"
| lcancel_task: "lstep x Server (x\<lparr>lw_ledger := CancelTask (lw_now x) i (lw_ledger x)\<rparr>)"
| lreap: "lstep x Server (x\<lparr>lw_ledger := fst (Reap (lw_now x) (lw_ledger x))\<rparr>)"
| ldrop: "lstep x Server (x\<lparr>lw_ledger := fst (DropUnclaimed (lw_now x) (lw_ledger x))\<rparr>)"
| lprune: "lstep x Server (x\<lparr>lw_ledger := fst (Prune (lw_now x) keep (lw_ledger x))\<rparr>)"
| lawait: "lstep x Server (x\<lparr>lw_ledger := Await i (lw_ledger x)\<rparr>)"
| lforget: "lstep x (Forgets i) (x\<lparr>lw_ledger := Forget i (lw_ledger x)\<rparr>)"

section \<open>What happens to a row\<close>

definition row_is :: "(worker_task \<Rightarrow> bool) \<Rightarrow> int64 \<Rightarrow> ledger \<Rightarrow> bool" where
  "row_is Q i l \<longleftrightarrow> (\<exists>t. tget wt_id i (l_tasks l) = Some t \<and> Q t)"

lemma tasks_frames [simp]:
  "l_tasks (changed_job j l) = l_tasks l" "l_tasks (givenUp t l) = l_tasks l" "l_tasks (settle i e l) = l_tasks l"
  "l_tasks (Await i l) = l_tasks l" "l_tasks (Forget i l) = l_tasks l"
  by (simp_all add: changed_job_def givenUp_def settle_def Await_def Forget_def)

lemma row_is_cong: "l_tasks l' = l_tasks l \<Longrightarrow> row_is Q i l' = row_is Q i l"
  by (simp add: row_is_def)

lemma row_is_frames [simp]:
  "row_is Q i (changed_job j l) = row_is Q i l" "row_is Q i (givenUp t l) = row_is Q i l"
  "row_is Q i (settle k e l) = row_is Q i l" "row_is Q i (Await k l) = row_is Q i l" "row_is Q i (Forget k l) = row_is Q i l"
  by (simp_all add: row_is_def)

text \<open>An update that keeps ids acts on each row by itself.\<close>

lemma tget_upd:
  assumes "\<And>t. wt_id (f t) = wt_id t"
  shows "tget wt_id i (l_tasks (fst (upd_tasks P f l))) = map_option (\<lambda>t. if P t then f t else t) (tget wt_id i (l_tasks l))"
  by (simp add: upd_tasks_def tasks_table.get_update assms)

lemma row_is_upd:
  assumes "row_is Q i l" and "\<And>t. wt_id (f t) = wt_id t" and "\<And>t. Q t \<Longrightarrow> wt_id t = i \<Longrightarrow> P t \<Longrightarrow> Q' (f t)"
    and "\<And>t. Q t \<Longrightarrow> wt_id t = i \<Longrightarrow> \<not> P t \<Longrightarrow> Q' t"
  shows "row_is Q' i (fst (upd_tasks P f l))"
proof -
  obtain t where t: "tget wt_id i (l_tasks l) = Some t" "Q t" using assms(1) by (auto simp: row_is_def)
  then have "wt_id t = i" by (auto dest: tget_Some)
  with t assms(3,4) show ?thesis by (auto simp: row_is_def tget_upd assms(2))
qed

lemma row_is_upd_same:
  assumes "row_is Q i l" and "\<And>t. wt_id (f t) = wt_id t" and "\<And>t. Q t \<Longrightarrow> wt_id t = i \<Longrightarrow> P t \<Longrightarrow> Q (f t)"
  shows "row_is Q i (fst (upd_tasks P f l))"
  using assms by (rule row_is_upd)

lemma find_append_Some: "find P xs = Some x \<Longrightarrow> find P (xs @ ys) = Some x"
  by (induction xs) auto

lemma row_is_insert: "row_is Q i l \<Longrightarrow> row_is Q i (l\<lparr>l_tasks := tinsert g t (l_tasks l)\<rparr>)"
  by (auto simp: row_is_def tget_def tinsert_def intro: find_append_Some)

lemma find_filter_keep: "find P xs = Some x \<Longrightarrow> \<not> D x \<Longrightarrow> find P (filter (\<lambda>x. \<not> D x) xs) = Some x"
  by (induction xs) (auto split: if_splits)

lemma row_is_del: "row_is Q i l \<Longrightarrow> (\<And>t. Q t \<Longrightarrow> \<not> D t) \<Longrightarrow> row_is Q i (l\<lparr>l_tasks := del_where D (l_tasks l)\<rparr>)"
  by (auto simp: row_is_def tget_def del_where_def intro: find_filter_keep)

lemma row_ids [simp]:
  "wt_id (lease_row w now t) = wt_id t" "wt_id (count_pages p t) = wt_id t" "wt_id (close_row now st r p t) = wt_id t"
  "wt_id (drop_row now r t) = wt_id t" "wt_id (reap_row now u t) = wt_id t"
  by (simp_all add: lease_row_def count_pages_def close_row_def drop_row_def reap_row_def)

text \<open>The loops, for a predicate of the row that their compare-and-set keeps or that it cannot match.\<close>

lemma row_is_claim_from:
  assumes "\<And>t. Q t \<Longrightarrow> wt_state t = TaskPending \<Longrightarrow> Q (lease_row (w_id w) now t)"
  shows "row_is Q i l \<Longrightarrow> row_is Q i (fst (claim_from w now ts l))"
proof (induction ts arbitrary: l)
  case (Cons t ts)
  have "row_is Q i (fst (upd_tasks (\<lambda>r. wt_id r = wt_id t \<and> wt_state r = TaskPending) (lease_row (w_id w) now) l))"
    using Cons.prems by (rule row_is_upd_same) (auto simp: assms)
  with Cons show ?case by (auto simp: Let_def split: prod.splits)
qed simp

lemma row_is_reap_one:
  assumes "row_is Q i l" and "wt_id t = i \<Longrightarrow> (\<And>r. Q r \<Longrightarrow> wt_state r \<noteq> TaskLeased)"
  shows "row_is Q i (fst (reap_one now t l))"
proof -
  have "row_is Q i (fst (upd_tasks (\<lambda>r. wt_id r = wt_id t \<and> wt_state r = TaskLeased) (reap_row now t) l))"
    using assms(1) by (rule row_is_upd_same) (use assms(2) in auto)
  then show ?thesis by (auto simp: reap_one_def Let_def split: prod.splits)
qed

lemma row_is_reap_from:
  assumes "i \<in> wt_id ` set ts \<Longrightarrow> (\<And>r. Q r \<Longrightarrow> wt_state r \<noteq> TaskLeased)"
  shows "row_is Q i l \<Longrightarrow> row_is Q i (fst (reap_from now ts l))"
  using assms
proof (induction ts arbitrary: l)
  case (Cons t ts)
  have "row_is Q i (fst (reap_one now t l))" by (rule row_is_reap_one) (use Cons.prems in auto)
  with Cons show ?case by (fastforce split: prod.splits)
qed simp

lemma row_is_drop_from:
  assumes "\<And>r. Q r \<Longrightarrow> wt_state r \<noteq> TaskPending"
  shows "row_is Q i l \<Longrightarrow> row_is Q i (fst (drop_from now ts l))"
proof (induction ts arbitrary: l)
  case (Cons t ts)
  have "row_is Q i (fst (upd_tasks (\<lambda>r. wt_id r = wt_id t \<and> wt_state r = TaskPending) (drop_row now no_worker_reason) l))"
    using Cons.prems by (rule row_is_upd_same) (auto dest: assms)
  with Cons show ?case by (simp add: Let_def case_prod_beta)
qed simp

lemma Claim_cases:
  obtains (none) r where "Claim now w kinds limits l = (l, r)" "\<And>t. r \<noteq> Inr (Some t)"
    | (loop) v where "tget w_id w (l_workers l) = Some v" "w_id v = w"
      "Claim now w kinds limits l =
         (let (l', got) = claim_from v now (waiting_tasks now (claim_kinds now w kinds limits l) l) l in (l', Inr got))"
proof (cases "kinds = [] \<or> claim_kinds now w kinds limits l = []")
  case True
  then show ?thesis by (intro none [of "Inr None"]) (auto simp: Claim_def Let_def)
next
  case False
  show ?thesis
  proof (cases "tget w_id w (l_workers l)")
    case None
    with False show ?thesis by (intro none [of "Inl ErrNoRows"]) (auto simp: Claim_def Let_def)
  next
    case (Some v)
    with False show ?thesis by (intro loop [of v]) (auto simp: Claim_def Let_def dest: tget_Some)
  qed
qed

lemma row_is_Claim:
  assumes "row_is Q i l" and "\<And>t. Q t \<Longrightarrow> wt_state t = TaskPending \<Longrightarrow> Q (lease_row w now t)"
  shows "row_is Q i (fst (Claim now w kinds limits l))"
proof (cases rule: Claim_cases [of now w kinds limits l])
  case (none r)
  with assms(1) show ?thesis by simp
next
  case (loop v)
  then show ?thesis using assms by (simp add: case_prod_beta row_is_claim_from)
qed

lemma tasks_settles [simp]: "l_tasks (foldl (\<lambda>l t. if wt_state t = TaskPending then settle (wt_id t) e l else l) l ts) = l_tasks l"
  by (induction ts arbitrary: l) auto

lemma row_is_Cancel_job:
  assumes "row_is Q i l" and "\<And>r. Q r \<Longrightarrow> wt_state r \<noteq> TaskPending"
    and "\<And>r. Q r \<Longrightarrow> wt_state r = TaskLeased \<Longrightarrow> Q (r\<lparr>wt_cancel := True\<rparr>)"
  shows "row_is Q i (Cancel_job now j l)"
proof -
  have "row_is Q i (foldl (\<lambda>l t. if wt_state t = TaskPending then settle (wt_id t) (GivenUp []) l else l) l (OfJob j l))"
    using assms(1) by (simp add: row_is_def)
  then show ?thesis unfolding Cancel_job_def Let_def
    by (intro row_is_upd_same) (use assms(2,3) in auto)
qed

lemma row_is_CancelTask:
  assumes "row_is Q i l" and "\<And>r. Q r \<Longrightarrow> wt_state r \<noteq> TaskPending"
    and "\<And>r. Q r \<Longrightarrow> wt_state r = TaskLeased \<Longrightarrow> Q (r\<lparr>wt_cancel := True\<rparr>)"
  shows "row_is Q i (CancelTask now k l)"
proof -
  let ?l = "fst (upd_tasks (\<lambda>t. wt_id t = k \<and> wt_state t = TaskPending) (drop_row now ''cancelled'') l)"
  have "row_is Q i ?l" using assms(1) by (rule row_is_upd_same) (use assms(2) in auto)
  moreover from this have "row_is Q i (fst (upd_tasks (\<lambda>t. wt_id t = k \<and> wt_state t = TaskLeased) (\<lambda>t. t\<lparr>wt_cancel := True\<rparr>) ?l))"
    by (rule row_is_upd_same) (use assms(3) in auto)
  ultimately show ?thesis by (auto simp: CancelTask_def Let_def split: prod.splits)
qed

lemma row_is_Heartbeat:
  assumes "row_is Q i l"
    and "\<And>r. Q r \<Longrightarrow> wt_id r = i \<Longrightarrow> leased_to k w r \<Longrightarrow>
      Q (count_pages p (r\<lparr>wt_heartbeat_at := Some now, wt_lease_until := Some (now + Lease)\<rparr>))"
  shows "row_is Q i (fst (Heartbeat now k w p l))"
proof -
  have "row_is Q i (fst (upd_tasks (leased_to k w)
      (\<lambda>t. count_pages p (t\<lparr>wt_heartbeat_at := Some now, wt_lease_until := Some (now + Lease)\<rparr>)) l))"
    using assms(1) by (rule row_is_upd_same) (use assms(2) in auto)
  then show ?thesis by (auto simp: Heartbeat_def Let_def split: prod.splits option.splits)
qed

lemma row_is_workers [simp]: "row_is Q i (l\<lparr>l_workers := ws\<rparr>) = row_is Q i l"
  by (simp add: row_is_def)

text \<open>A \<open>close\<close> by a worker that does not hold the task changes nothing; otherwise it touches only that task's row.\<close>

lemma leased_to_gpu: "n_where (leased_to k w) (upd_where P (\<lambda>r. r\<lparr>wt_spec := sp\<rparr>) t) = n_where (leased_to k w) t"
  by (rule n_where_upd_same) (simp add: leased_to_def)

lemma close_not_held:
  assumes "n_where (leased_to k w) (l_tasks l) = 0"
  shows "\<exists>e. close_task now k w st reason p l = (l, Some e)"
proof -
  have "close_tx now k w st reason p t l = Inl ErrNotYours" for t
    using assms by (auto simp: close_tx_def upd_tasks_def Let_def leased_to_gpu)
  then show ?thesis by (cases "tget wt_id k (l_tasks l)") (simp_all add: close_task_def)
qed

lemma row_is_close_other:
  assumes q: "row_is Q i l" and "k \<noteq> i"
  shows "row_is Q i (fst (close_task now k w st reason p l))"
proof -
  have a: "row_is Q i (fst (upd_tasks (\<lambda>r. wt_id r = k) (\<lambda>r. r\<lparr>wt_spec := sp\<rparr>) l))" for sp
    using q by (rule row_is_upd_same) (use assms(2) in auto)
  have "row_is Q i (fst (upd_tasks (leased_to k w) (close_row now st reason p) l'))" if "row_is Q i l'" for l'
    using that by (rule row_is_upd_same) (use assms(2) in \<open>auto simp: leased_to_def\<close>)
  with a q have tx: "close_tx now k w st reason p t l = Inr l' \<Longrightarrow> row_is Q i l'" for t l'
    by (auto simp: close_tx_def Let_def case_prod_beta split: if_splits)
  show ?thesis
  proof (cases "tget wt_id k (l_tasks l)")
    case (Some t)
    then show ?thesis using q tx [of t] by (cases "close_tx now k w st reason p t l") (simp_all add: close_task_def)
  qed (use q in \<open>simp add: close_task_def\<close>)
qed

lemma row_is_HandBack:
  assumes "row_is Q i l" and "\<And>t. Q t \<Longrightarrow> wt_state t = TaskLeased \<Longrightarrow> wt_worker_id t \<noteq> w"
  shows "row_is Q i (fst (HandBack w ids l))"
  unfolding HandBack_def using assms(1) by (rule row_is_upd_same) (use assms(2) in auto)

section \<open>How the table evolves\<close>

text \<open>
  Whatever the ledger does to its table is a sequence of inserts, deletes and updates that
  keep ids.
\<close>

inductive evolves :: "worker_task table \<Rightarrow> worker_task table \<Rightarrow> bool" where
  evolves_refl: "evolves t t"
| evolves_upd: "evolves t u \<Longrightarrow> (\<And>r. wt_id (f r) = wt_id r) \<Longrightarrow> evolves t (upd_where P f u)"
| evolves_ins: "evolves t u \<Longrightarrow> evolves t (tinsert (\<lambda>i r. r\<lparr>wt_id := i\<rparr>) r u)"
| evolves_del: "evolves t u \<Longrightarrow> evolves t (del_where P u)"

lemma evolves_upd_tasks:
  "evolves t (l_tasks l) \<Longrightarrow> (\<And>r. wt_id (f r) = wt_id r) \<Longrightarrow> evolves t (l_tasks (fst (upd_tasks P f l)))"
  by (simp add: upd_tasks_def evolves_upd)

lemma evolves_claim_from: "evolves u (l_tasks l) \<Longrightarrow> evolves u (l_tasks (fst (claim_from w now ts l)))"
proof (induction ts arbitrary: l)
  case (Cons t ts)
  then show ?case by (simp add: Let_def case_prod_beta evolves_upd_tasks)
qed simp

lemma evolves_reap_from: "evolves u (l_tasks l) \<Longrightarrow> evolves u (l_tasks (fst (reap_from now ts l)))"
proof (induction ts arbitrary: l)
  case (Cons t ts)
  then have "evolves u (l_tasks (fst (reap_one now t l)))"
    by (simp add: reap_one_def Let_def case_prod_beta evolves_upd_tasks)
  with Cons show ?case by (simp add: Let_def case_prod_beta)
qed simp

lemma evolves_drop_from: "evolves u (l_tasks l) \<Longrightarrow> evolves u (l_tasks (fst (drop_from now ts l)))"
proof (induction ts arbitrary: l)
  case (Cons t ts)
  then show ?case by (simp add: Let_def case_prod_beta evolves_upd_tasks)
qed simp

lemma evolves_Claim: "evolves (l_tasks l) (l_tasks (fst (Claim now w kinds limits l)))"
  by (rule Claim_cases [of now w kinds limits l]) (simp_all add: case_prod_beta evolves_claim_from evolves_refl)

lemma evolves_close: "evolves (l_tasks l) (l_tasks (fst (close_task now k w st reason p l)))"
proof (cases "tget wt_id k (l_tasks l)")
  case (Some t)
  have "close_tx now k w st reason p t l = Inr l' \<Longrightarrow> evolves (l_tasks l) (l_tasks l')" for l'
    by (auto simp: close_tx_def Let_def case_prod_beta evolves_upd_tasks evolves_refl split: if_splits)
  with Some show ?thesis
    by (cases "close_tx now k w st reason p t l") (simp_all add: close_task_def evolves_refl)
qed (simp add: close_task_def evolves_refl)

lemma evolves_Cancel_job: "evolves (l_tasks l) (l_tasks (Cancel_job now j l))"
  unfolding Cancel_job_def Let_def by (intro evolves_upd_tasks) (auto intro: evolves_refl)

lemma evolves_step: "lstep x a y \<Longrightarrow> evolves (l_tasks (lw_ledger x)) (l_tasks (lw_ledger y))"
proof (induction rule: lstep.induct)
  case (ladd t x)
  then show ?case by (simp add: Add_def Let_def evolves_ins evolves_refl)
next
  case (lbeat x w i p)
  then show ?case by (simp add: Heartbeat_def Let_def case_prod_beta evolves_upd_tasks evolves_refl split: option.splits)
next
  case (lcancel_task x i)
  then show ?case by (simp add: CancelTask_def Let_def case_prod_beta evolves_upd_tasks evolves_refl)
qed (simp_all add: evolves_refl evolves_Claim Finish_def Fail_def evolves_close HandBack_def evolves_upd_tasks
    evolves_Cancel_job Reap_def evolves_reap_from DropUnclaimed_def evolves_drop_from Prune_def evolves_del)

abbreviation ids_ok :: "ledger \<Rightarrow> bool" where
  "ids_ok l \<equiv> twf wt_id (l_tasks l)"

lemma evolves_twf: "evolves t u \<Longrightarrow> twf wt_id t \<Longrightarrow> twf wt_id u"
  by (induction rule: evolves.induct) (auto intro: tasks_table.wf_update tasks_table.wf_insert tasks_table.wf_delete)

text \<open>Ids are never given out twice: a row that is gone stays gone.\<close>

lemma evolves_gone:
  "evolves t u \<Longrightarrow> tget wt_id i t = None \<Longrightarrow> i \<le> seq t \<Longrightarrow> tget wt_id i u = None \<and> i \<le> seq u"
  by (induction rule: evolves.induct) (auto simp: tasks_table.get_update tget_None set_del_where set_tinsert)

lemma evolves_seq: "evolves t u \<Longrightarrow> seq t \<le> seq u"
  by (induction rule: evolves.induct) auto

lemma ids_step: "lstep x a y \<Longrightarrow> ids_ok (lw_ledger x) \<Longrightarrow> ids_ok (lw_ledger y)"
  using evolves_twf [OF evolves_step] by blast

lemma row_unique: "ids_ok l \<Longrightarrow> tget wt_id i (l_tasks l) = Some t \<Longrightarrow> r \<in> set (rows (l_tasks l)) \<Longrightarrow> wt_id r = i \<Longrightarrow> r = t"
  using tasks_table.get_member by fastforce

lemma n_where_row:
  assumes "ids_ok l" and "row_is Q i l" and "\<And>t. P t \<Longrightarrow> wt_id t = i" and "\<And>t. Q t \<Longrightarrow> wt_id t = i \<Longrightarrow> P t = b"
  shows "n_where P (l_tasks l) = (if b then 1 else 0)"
proof -
  obtain t where t: "tget wt_id i (l_tasks l) = Some t" "Q t" using assms(2) by (auto simp: row_is_def)
  then have ti: "t \<in> set (rows (l_tasks l))" "wt_id t = i" by (auto dest: tget_Some)
  have P: "P r \<longleftrightarrow> b \<and> r = t" if "r \<in> set (rows (l_tasks l))" for r
    using row_unique [OF assms(1) t(1) that] assms(3,4) t(2) ti(2) by blast
  have "distinct (rows (l_tasks l))" using assms(1) by (auto simp: twf_def distinct_map)
  then have "length (filter (\<lambda>r. r = t) (rows (l_tasks l))) = 1"
    using ti(1) by (subst distinct_length_filter) (simp_all add: Int_def conj_commute Collect_conv_if)
  moreover have "filter P (rows (l_tasks l)) = filter (\<lambda>r. b \<and> r = t) (rows (l_tasks l))"
    by (rule filter_cong) (use P in auto)
  ultimately show ?thesis by (simp add: n_where_def)
qed

lemma row_is_close:
  assumes "ids_ok l" and q: "row_is Q i l" and n: "\<And>t. k = i \<Longrightarrow> Q t \<Longrightarrow> \<not> leased_to i w t"
  shows "row_is Q i (fst (close_task now k w st reason p l))"
proof (cases "k = i")
  case True
  have "n_where (leased_to i w) (l_tasks l) = (if False then 1 else 0)"
    by (rule n_where_row [OF assms(1) q]) (use n True in \<open>auto simp: leased_to_def\<close>)
  then show ?thesis using close_not_held [of i w l now st reason p] q True by auto
qed (rule row_is_close_other [OF q])

section \<open>Rows across a step\<close>

text \<open>
  A predicate that no statement of the step breaks is kept for its row.  Only pruning removes
  rows, and only closed ones.
\<close>

lemma row_step:
  assumes step: "lstep x a y" and ids: "ids_ok (lw_ledger x)" and q: "row_is Q i (lw_ledger x)"
    and pend: "\<And>t. Q t \<Longrightarrow> wt_state t \<noteq> TaskPending"
    and canc: "\<And>t. Q t \<Longrightarrow> wt_state t = TaskLeased \<Longrightarrow> Q (t\<lparr>wt_cancel := True\<rparr>)"
    and exp: "\<And>t. Q t \<Longrightarrow> \<not> expired (lw_now x) t"
    and beat: "\<And>t w p. a = Worker_beats w i \<Longrightarrow> Q t \<Longrightarrow> leased_to i w t \<Longrightarrow>
      Q (count_pages p (t\<lparr>wt_heartbeat_at := Some (lw_now x), wt_lease_until := Some (lw_now x + Lease)\<rparr>))"
    and clos: "\<And>t w. a = Worker_closes w i \<Longrightarrow> Q t \<Longrightarrow> \<not> leased_to i w t"
    and ret: "\<And>t w. a = Worker_returns w \<Longrightarrow> Q t \<Longrightarrow> wt_state t = TaskLeased \<Longrightarrow> wt_worker_id t \<noteq> w"
  shows "row_is Q i (lw_ledger y) \<or> (\<exists>t. Q t \<and> \<not> Open t) \<and> tget wt_id i (l_tasks (lw_ledger y)) = None"
  using step
proof (cases rule: lstep.cases)
  case (ladd t)
  then show ?thesis using row_is_insert [OF q] by (simp add: Add_def Let_def)
next
  case (lclaim w kinds limits)
  then show ?thesis using row_is_Claim [OF q] pend by simp
next
  case (lbeat w k p)
  have "row_is Q i (fst (Heartbeat (lw_now x) k w p (lw_ledger x)))"
    using q by (rule row_is_Heartbeat) (use lbeat beat in \<open>auto simp: leased_to_def\<close>)
  then show ?thesis using lbeat by simp
next
  case (lfinish w k p)
  then show ?thesis using row_is_close [OF ids q, of k w] clos by (simp add: Finish_def)
next
  case (lfail w k reason p)
  then show ?thesis using row_is_close [OF ids q, of k w] clos by (simp add: Fail_def)
next
  case (lreturn w ids')
  then show ?thesis using row_is_HandBack [OF q, of w] ret by simp
next
  case (lcancel j)
  then show ?thesis using row_is_Cancel_job [OF q] pend canc by simp
next
  case (lcancel_task k)
  then show ?thesis using row_is_CancelTask [OF q] pend canc by simp
next
  case lreap
  obtain t where t: "tget wt_id i (l_tasks (lw_ledger x)) = Some t" "Q t" using q by (auto simp: row_is_def)
  have "i \<notin> wt_id ` set (take n (filter (expired (lw_now x)) (rows (l_tasks (lw_ledger x)))))" for n
    using row_unique [OF ids t(1)] exp [OF t(2)] by (fastforce dest: in_set_takeD)
  then have "row_is Q i (fst (Reap (lw_now x) (lw_ledger x)))"
    unfolding Reap_def by (intro row_is_reap_from q) auto
  then show ?thesis using lreap by simp
next
  case ldrop
  then show ?thesis using q pend by (simp add: DropUnclaimed_def row_is_drop_from)
next
  case (lprune keep)
  obtain t where t: "tget wt_id i (l_tasks (lw_ledger x)) = Some t" "Q t" using q by (auto simp: row_is_def)
  show ?thesis
  proof (cases "prunable (lw_now x - keep) t")
    case True
    then have "\<not> Open t" by (simp add: prunable_def)
    moreover have "tget wt_id i (l_tasks (lw_ledger y)) = None"
      using row_unique [OF ids t(1)] True lprune by (auto simp: Prune_def tget_None set_del_where)
    ultimately show ?thesis using t(2) by blast
  next
    case False
    have "row_is (\<lambda>u. u = t) i (lw_ledger x)" using t by (simp add: row_is_def)
    from row_is_del [OF this, of "prunable (lw_now x - keep)"] False show ?thesis
      using lprune t(2) by (auto simp: Prune_def row_is_def)
  qed
qed (use q in simp_all)

abbreviation lreach :: "lworld \<Rightarrow> lworld \<Rightarrow> bool" where
  "lreach \<equiv> (\<lambda>x y. \<exists>a. lstep x a y)\<^sup>*\<^sup>*"

lemma step_now: "lstep x a y \<Longrightarrow> lw_now x \<le> lw_now y"
  by (induction rule: lstep.induct) auto

interpretation ledger_ids: step_invariant "\<lambda>x y. \<exists>a. lstep x a y" "\<lambda>x. ids_ok (lw_ledger x)"
  by unfold_locales (auto dest: ids_step)

lemma ids_reach: "lreach x y \<Longrightarrow> ids_ok (lw_ledger x) \<Longrightarrow> ids_ok (lw_ledger y)"
  by (rule ledger_ids.reachable)

lemma closed_step:
  assumes "lstep x a y" and "ids_ok (lw_ledger x)" and "tget wt_id i (l_tasks (lw_ledger x)) = Some t" and "\<not> Open t"
  shows "tget wt_id i (l_tasks (lw_ledger y)) \<in> {Some t, None}"
proof -
  have "row_is (\<lambda>u. u = t) i (lw_ledger x)" using assms(3) by (simp add: row_is_def)
  from row_step [OF assms(1,2) this] assms(4) show ?thesis
    by (auto simp: Open_def expired_def leased_to_def row_is_def)
qed

text \<open>
  A task that is done, failed or abandoned stays exactly as it is: no later claim,
  heartbeat, report, cancellation or reaping changes it; it can only be pruned, for good.
\<close>

theorem closed_tasks_final:
  assumes "lreach x y" and "ids_ok (lw_ledger x)"
    and "tget wt_id i (l_tasks (lw_ledger x)) = Some t" and "\<not> Open t"
  shows "tget wt_id i (l_tasks (lw_ledger y)) = Some t \<or> tget wt_id i (l_tasks (lw_ledger y)) = None"
proof -
  have "i \<le> seq (l_tasks (lw_ledger x))" using assms(2,3) by (auto simp: twf_def dest!: tget_Some)
  with assms(1) have "tget wt_id i (l_tasks (lw_ledger y)) \<in> {Some t, None} \<and> i \<le> seq (l_tasks (lw_ledger y))"
  proof (induction rule: rtranclp_induct)
    case base
    with assms(3) show ?case by simp
  next
    case (step y z)
    obtain a where a: "lstep y a z" using step.hyps(2) by blast
    have ids: "ids_ok (lw_ledger y)" using ids_reach [OF step.hyps(1) assms(2)] .
    from step.IH [OF step.prems] have ih: "tget wt_id i (l_tasks (lw_ledger y)) \<in> {Some t, None}" "i \<le> seq (l_tasks (lw_ledger y))"
      by auto
    have "i \<le> seq (l_tasks (lw_ledger z))" using evolves_seq [OF evolves_step [OF a]] ih(2) by simp
    then show ?case
      using ih closed_step [OF a ids _ assms(4), of i] evolves_gone [OF evolves_step [OF a], of i] by auto
  qed
  then show ?thesis by auto
qed

definition sample_task :: worker_task where
  "sample_task = \<lparr>wt_id = 1, wt_job_id = 7, wt_worker_id = 0, wt_kind = TaskDownload, wt_seq = 0,
     wt_state = TaskPending, wt_spec = \<lparr>sp_needs_upscale = None, sp_profile_upscale = False, sp_gpu = []\<rparr>,
     wt_not_before = 1, wt_lease_until = None, wt_heartbeat_at = None, wt_cancel = False, wt_attempt = 0,
     wt_pages_total = 3, wt_pages_done = 0, wt_bytes_in = 0, wt_bytes_out = 0, wt_error = [], wt_created_at = 1,
     wt_started_at = None, wt_finished_at = None\<rparr>"

definition sample_worker :: worker where
  "sample_worker = \<lparr>w_id = 4, w_name = ''gpu'', w_key_hash = [], w_prefix = [], w_roles = [TaskDownload, TaskEncode],
     w_enabled = True, w_priority = 10, w_concurrent = 0, w_page_concurrency = 0, w_upscale_model = [], w_version = [],
     w_platform = [], w_info = \<lparr>wi_models = [], wi_process = True\<rparr>, w_last_ip = [], w_created_by = 0,
     w_created_at = 1, w_last_seen_at = Some 90, w_tasks_done = 0, w_tasks_failed = 0, w_pages_done = 0, w_bytes_in = 0,
     w_bytes_out = 0, w_busy_seconds = 0\<rparr>"

definition sample_progress :: progress where
  "sample_progress = \<lparr>p_pages_done = 3, p_pages_total = 3, p_bytes_in = 100, p_bytes_out = 0, p_gpu = []\<rparr>"

definition ex_ledger :: ledger where
  "ex_ledger = \<lparr>l_tasks = \<lparr>rows = [sample_task, sample_task\<lparr>wt_id := 2, wt_state := TaskDone, wt_finished_at := Some 5\<rparr>], seq = 2\<rparr>,
     l_workers = \<lparr>rows = [sample_worker], seq = 4\<rparr>, l_waiting = [1], l_settled = [], l_changed = [], l_given_up = []\<rparr>"

abbreviation ex_lworld :: lworld where
  "ex_lworld \<equiv> \<lparr>lw_now = 100, lw_ledger = ex_ledger\<rparr>"

lemma ex_ids: "ids_ok ex_ledger"
  by (simp add: ex_ledger_def twf_def sample_task_def)

theorem closed_tasks_final_witness:
  "tget wt_id 2 (l_tasks (Cancel_job 100 7 ex_ledger)) \<in> {Some (sample_task\<lparr>wt_id := 2, wt_state := TaskDone, wt_finished_at := Some 5\<rparr>), None}"
proof -
  have "lreach ex_lworld \<lparr>lw_now = 100, lw_ledger = Cancel_job 100 7 ex_ledger\<rparr>"
    using lstep.lcancel [of ex_lworld 7] by (intro r_into_rtranclp exI) simp
  from closed_tasks_final [OF this, of 2] show ?thesis
    using ex_ids by (simp add: ex_ledger_def tget_def sample_task_def Open_def)
qed

section \<open>Leases\<close>

definition claimed_by :: "int64 \<Rightarrow> time \<Rightarrow> worker_task \<Rightarrow> bool" where
  "claimed_by w u t \<longleftrightarrow> wt_state t = TaskLeased \<and> wt_worker_id t = w \<and> (\<exists>v. wt_lease_until t = Some v \<and> u \<le> v)"

text \<open>The worker's own calls that end its hold of a task.\<close>

definition lets_go :: "int64 \<Rightarrow> int64 \<Rightarrow> lact \<Rightarrow> bool" where
  "lets_go w i a \<longleftrightarrow> a = Worker_closes w i \<or> a = Worker_returns w"

lemma claimed_step:
  assumes "lstep x a y" and "ids_ok (lw_ledger x)" and "row_is (claimed_by w u) i (lw_ledger x)"
    and "\<not> lets_go w i a" and "lw_now x \<le> u" and "u \<le> lw_now x + Lease"
  shows "row_is (claimed_by w u) i (lw_ledger y)"
proof -
  have "row_is (claimed_by w u) i (lw_ledger y) \<or>
      (\<exists>t. claimed_by w u t \<and> \<not> Open t) \<and> tget wt_id i (l_tasks (lw_ledger y)) = None"
    by (rule row_step [OF assms(1-3)])
      (use assms(4-) in \<open>auto simp: claimed_by_def expired_def lets_go_def count_pages_def leased_to_def\<close>)
  then show ?thesis by (auto simp: claimed_by_def Open_def)
qed

lemma claimed_run:
  assumes "(\<lambda>x y. \<exists>a. lstep x a y \<and> \<not> lets_go w i a)\<^sup>*\<^sup>* x y" and "ids_ok (lw_ledger x)"
    and "row_is (claimed_by w u) i (lw_ledger x)" and "lw_now y \<le> u" and "u \<le> lw_now x + Lease"
  shows "row_is (claimed_by w u) i (lw_ledger y) \<and> ids_ok (lw_ledger y) \<and> lw_now x \<le> lw_now y"
  using assms(1,4)
proof (induction rule: rtranclp_induct)
  case base
  show ?case using assms(2,3) by simp
next
  case (step y z)
  from step.hyps(2) obtain a where a: "lstep y a z" "\<not> lets_go w i a" by blast
  have now: "lw_now y \<le> lw_now z" by (rule step_now [OF a(1)])
  with step.IH step.prems have ih: "row_is (claimed_by w u) i (lw_ledger y)" "ids_ok (lw_ledger y)" "lw_now x \<le> lw_now y" by auto
  from claimed_step [OF a(1) ih(2,1) a(2)] ih(3) now step.prems assms(5) ids_step [OF a(1) ih(2)] show ?case by auto
qed

lemma n_where_id_le: "ids_ok l \<Longrightarrow> n_where (\<lambda>r. wt_id r = i \<and> P r) (l_tasks l) \<le> 1"
proof (cases "tget wt_id i (l_tasks l)")
  case None
  then have "n_where (\<lambda>r. wt_id r = i \<and> P r) (l_tasks l) = 0" by (auto simp: n_where_0_iff tget_None)
  then show ?thesis by simp
next
  case (Some t)
  assume "ids_ok l"
  then have "n_where (\<lambda>r. wt_id r = i \<and> P r) (l_tasks l) = (if P t then 1 else 0)"
    using Some by (intro n_where_row [where Q = "\<lambda>r. r = t"]) (auto simp: row_is_def)
  then show ?thesis by simp
qed

lemma upd_tasks_none: "n_where P (l_tasks l) = 0 \<Longrightarrow> upd_tasks P f l = (l, 0)"
  by (simp add: upd_tasks_def upd_where_none)

text \<open>
  What \<open>Claim\<close>'s loop does with any list of candidates: the first one the worker can do and that
  is still pending becomes its lease, and nothing else changes.
\<close>

abbreviation still_pending :: "worker_task \<Rightarrow> worker_task \<Rightarrow> bool" where
  "still_pending t r \<equiv> wt_id r = wt_id t \<and> wt_state r = TaskPending"

lemma claim_from_spec:
  assumes "claim_from w now ts l = (l', got)" and "ids_ok l"
  shows "case got of
      None \<Rightarrow> l' = l \<and> (\<forall>t \<in> set ts. \<not> upscalesIfNeeded w t \<or> n_where (still_pending t) (l_tasks l) = 0)
    | Some t \<Rightarrow> (\<exists>as t0 bs. ts = as @ t0 # bs \<and> upscalesIfNeeded w t0 \<and> n_where (still_pending t0) (l_tasks l) = 1
        \<and> l' = changed_job (wt_job_id t0) (fst (upd_tasks (still_pending t0) (lease_row (w_id w) now) l))
        \<and> wt_id t = wt_id t0 \<and> wt_kind t = wt_kind t0
        \<and> (\<forall>a \<in> set as. \<not> upscalesIfNeeded w a \<or> n_where (still_pending a) (l_tasks l) = 0))"
  using assms
proof (induction ts arbitrary: l)
  case (Cons t0 ts)
  show ?case
  proof (cases "upscalesIfNeeded w t0 \<and> n_where (still_pending t0) (l_tasks l) = 1")
    case True
    then show ?thesis using Cons.prems(1) by (auto simp: Let_def upd_tasks_def intro!: exI [of _ "[]"])
  next
    case False
    then have z: "\<not> upscalesIfNeeded w t0 \<or> n_where (still_pending t0) (l_tasks l) = 0"
      using n_where_id_le [OF Cons.prems(2), of "wt_id t0" "\<lambda>r. wt_state r = TaskPending"] by linarith
    then have "claim_from w now ts l = (l', got)"
      using Cons.prems(1) by (auto simp: Let_def upd_tasks_none split: if_splits)
    note ih = Cons.IH [OF this Cons.prems(2)]
    show ?thesis
    proof (cases got)
      case None
      with ih z show ?thesis by auto
    next
      case (Some t)
      with ih obtain as u bs where "ts = as @ u # bs" "upscalesIfNeeded w u" "n_where (still_pending u) (l_tasks l) = 1"
        "l' = changed_job (wt_job_id u) (fst (upd_tasks (still_pending u) (lease_row (w_id w) now) l))"
        "wt_id t = wt_id u" "wt_kind t = wt_kind u" "\<forall>a \<in> set as. \<not> upscalesIfNeeded w a \<or> n_where (still_pending a) (l_tasks l) = 0"
        by auto
      with Some z show ?thesis
        by (simp, intro exI [of _ "t0 # as"] exI [of _ u] conjI exI [of _ bs]) auto
    qed
  qed
qed auto

lemma Claim_got:
  assumes "Claim now w kinds limits l = (l', Inr (Some t))" and "ids_ok l"
  obtains v as t0 bs where "tget w_id w (l_workers l) = Some v" "w_id v = w"
    "waiting_tasks now (claim_kinds now w kinds limits l) l = as @ t0 # bs" "upscalesIfNeeded v t0"
    "n_where (still_pending t0) (l_tasks l) = 1"
    "l' = changed_job (wt_job_id t0) (fst (upd_tasks (still_pending t0) (lease_row w now) l))"
    "wt_id t = wt_id t0" "wt_kind t = wt_kind t0" "\<forall>a \<in> set as. \<not> upscalesIfNeeded v a \<or> n_where (still_pending a) (l_tasks l) = 0"
proof (cases rule: Claim_cases [of now w kinds limits l])
  case (none r)
  then show thesis using assms(1) by auto
next
  case (loop v)
  then have "claim_from v now (waiting_tasks now (claim_kinds now w kinds limits l) l) l = (l', Some t)"
    using assms(1) by (auto split: prod.splits)
  from claim_from_spec [OF this assms(2)] show thesis using that [OF loop(1,2)] loop(2) by auto
qed

lemma Claim_leases:
  assumes "Claim now w kinds limits l = (l', Inr (Some t))" and "ids_ok l"
  shows "row_is (claimed_by w (now + Lease)) (wt_id t) l' \<and> ids_ok l'"
proof -
  obtain t0 where g: "n_where (still_pending t0) (l_tasks l) = 1"
    "l' = changed_job (wt_job_id t0) (fst (upd_tasks (still_pending t0) (lease_row w now) l))" "wt_id t = wt_id t0"
    by (rule Claim_got [OF assms])
  then obtain r where r: "r \<in> set (rows (l_tasks l))" "still_pending t0 r"
    using n_where_0_iff [of "still_pending t0" "l_tasks l"] by auto
  then have "row_is (still_pending t0) (wt_id t0) l"
    using tasks_table.get_member [OF assms(2) r(1)] by (auto simp: row_is_def)
  then have "row_is (claimed_by w (now + Lease)) (wt_id t0) (fst (upd_tasks (still_pending t0) (lease_row w now) l))"
    by (rule row_is_upd) (auto simp: lease_row_def claimed_by_def)
  then show ?thesis using g evolves_twf [OF evolves_upd [OF evolves_refl] assms(2)] by (simp add: upd_tasks_def)
qed

lemma Finish_held:
  assumes "row_is (claimed_by w u) i l" and "ids_ok l"
  shows "snd (Finish now i w p l) = None" and "\<exists>c. snd (Heartbeat now i w p l) = Inr c"
proof -
  have n: "n_where (leased_to i w) (l_tasks l) = 1"
    using n_where_row [OF assms(2,1), of "leased_to i w" True] by (auto simp: leased_to_def claimed_by_def)
  obtain t where t: "tget wt_id i (l_tasks l) = Some t" using assms(1) by (auto simp: row_is_def)
  show "snd (Finish now i w p l) = None"
    using n t by (auto simp: Finish_def close_task_def close_tx_def upd_tasks_def Let_def leased_to_gpu split: sum.splits if_splits)
  show "\<exists>c. snd (Heartbeat now i w p l) = Inr c"
    using n t by (auto simp: Heartbeat_def upd_tasks_def Let_def tasks_table.get_update)
qed



section \<open>Capacity and priority\<close>

definition per_worker :: "int list \<Rightarrow> int" where
  "per_worker rest = (case rest of [] \<Rightarrow> 1 | n # _ \<Rightarrow> max n 1)"

lemma lease_counts:
  assumes "n_where (still_pending t0) (l_tasks l) = 1"
    and "l' = changed_job j (fst (upd_tasks (still_pending t0) (lease_row w now) l))"
  shows "leased_total l' = leased_total l + 1" and "held l' w = held l w + 1" and "u \<noteq> w \<Longrightarrow> held l' u = held l u"
proof -
  have l': "l_tasks l' = upd_where (still_pending t0) (lease_row w now) (l_tasks l)" by (simp add: assms(2) upd_tasks_def)
  show "leased_total l' = leased_total l + 1"
    unfolding leased_total_def l' by (subst n_where_upd_turn) (simp_all add: lease_row_def assms(1))
  show "held l' w = held l w + 1"
    unfolding held_def l' by (subst n_where_upd_turn) (simp_all add: lease_row_def assms(1))
  show "u \<noteq> w \<Longrightarrow> held l' u = held l u"
    unfolding held_def l' by (subst n_where_upd_same) (simp_all add: lease_row_def)
qed

lemma claimable:
  assumes "kind \<in> set (claimableKinds now w kinds limit per l)"
  obtains v where "v \<in> set (rows (l_workers l))" "w_enabled v" "w_id v = w" "kind \<in> set kinds"
    "\<not> (limit > 0 \<and> leased_total l \<ge> limit)" "spare per l v"
    "\<forall>u \<in> set (rows (l_workers l)). w_enabled u \<longrightarrow> \<not> yields_to now per l v kind u"
proof (cases "find (\<lambda>u. w_id u = w) (filter w_enabled (rows (l_workers l)))")
  case None
  then show thesis using assms by (simp add: claimableKinds_def)
next
  case (Some v)
  then have v: "v \<in> set (rows (l_workers l))" "w_enabled v" "w_id v = w" by (auto simp: find_Some_iff dest: nth_mem)
  show thesis
    by (rule that [OF v]) (use assms Some in \<open>auto simp: claimableKinds_def list_ex_iff split: if_splits\<close>)
qed

text \<open>
  C14: A claim under limits keeps them: the installation never has more tasks out than its limit
  and the worker no more than its own; nobody else's holdings change; and the worker got the
  task only because no online worker with a better priority could have taken that kind of work.
\<close>

theorem claim_within_limits:
  assumes "Claim now w kinds (limit # rest) l = (l', Inr (Some t))" and "ids_ok l"
  shows "(limit > 0 \<longrightarrow> leased_total l' \<le> limit) \<and> (\<forall>u. u \<noteq> w \<longrightarrow> held l' u = held l u) \<and> wt_kind t \<in> set kinds \<and>
    (\<exists>v \<in> set (rows (l_workers l)). w_enabled v \<and> w_id v = w \<and> held l' w \<le> worker_limit (per_worker rest) v \<and>
      (\<forall>u \<in> set (rows (l_workers l)). w_enabled u \<and> online now u \<and> w_priority u < w_priority v \<and> w_id u \<noteq> w
         \<and> takes u (wt_kind t) \<longrightarrow> \<not> spare (per_worker rest) l u))"
proof -
  obtain as t0 bs where g: "waiting_tasks now (claim_kinds now w kinds (limit # rest) l) l = as @ t0 # bs"
    "n_where (still_pending t0) (l_tasks l) = 1"
    "l' = changed_job (wt_job_id t0) (fst (upd_tasks (still_pending t0) (lease_row w now) l))" "wt_kind t = wt_kind t0"
    by (rule Claim_got [OF assms])
  have "t0 \<in> set (waiting_tasks now (claim_kinds now w kinds (limit # rest) l) l)" using g(1) by simp
  then have "wt_kind t0 \<in> set (claim_kinds now w kinds (limit # rest) l)"
    by (auto simp: waiting_tasks_def dest!: in_set_takeD)
  then have k: "wt_kind t \<in> set (claimableKinds now w kinds limit (per_worker rest) l)"
    by (simp add: claim_kinds_def per_worker_def g(4))
  note c = lease_counts [OF g(2,3)]
  obtain v where v: "v \<in> set (rows (l_workers l))" "w_enabled v" "w_id v = w" "wt_kind t \<in> set kinds"
    "\<not> (limit > 0 \<and> leased_total l \<ge> limit)" "spare (per_worker rest) l v"
    "\<forall>u \<in> set (rows (l_workers l)). w_enabled u \<longrightarrow> \<not> yields_to now (per_worker rest) l v (wt_kind t) u"
    by (rule claimable [OF k])
  have "\<not> spare (per_worker rest) l u" if "u \<in> set (rows (l_workers l))"
    "w_enabled u \<and> online now u \<and> w_priority u < w_priority v \<and> w_id u \<noteq> w \<and> takes u (wt_kind t)" for u
    using bspec [OF v(7) that(1)] that(2) v(3) by (auto simp: yields_to_def)
  moreover have "held l' w \<le> worker_limit (per_worker rest) v" using v(3,6) c(2) by (simp add: spare_def)
  moreover have "limit > 0 \<longrightarrow> leased_total l' \<le> limit" using v(5) c(1) by linarith
  ultimately show ?thesis using v(1-4) c(3) by blast
qed

theorem claim_within_limits_witness:
  "\<exists>l' t. Claim 100 4 [TaskDownload] [5, 2] ex_ledger = (l', Inr (Some t)) \<and> leased_total l' \<le> 5"
proof -
  obtain l' t where c: "Claim 100 4 [TaskDownload] [5, 2] ex_ledger = (l', Inr (Some t))"
    by (simp add: Claim_def claim_kinds_def claimableKinds_def ex_ledger_def tget_def sample_worker_def sample_task_def
        waiting_tasks_def upscalesIfNeeded_def upd_tasks_def n_where_def leased_total_def spare_def held_def
        worker_limit_def yields_to_def)
  from claim_within_limits [OF c ex_ids] c show ?thesis by auto
qed

section \<open>Waiting callers\<close>

text \<open>Someone waits for a task that is still open, or was told how it ended.\<close>

definition awaited :: "int64 \<Rightarrow> ledger \<Rightarrow> bool" where
  "awaited i l \<longleftrightarrow> i \<in> set (l_waiting l) \<and> row_is Open i l \<or> i \<in> fst ` set (l_settled l)"

lemma upd_frames [simp]:
  "l_waiting (fst (upd_tasks P f l)) = l_waiting l" "l_settled (fst (upd_tasks P f l)) = l_settled l"
  "l_waiting (changed_job j l) = l_waiting l" "l_settled (changed_job j l) = l_settled l"
  "l_waiting (givenUp t l) = l_waiting l" "l_settled (givenUp t l) = l_settled l"
  by (simp_all add: upd_tasks_def changed_job_def givenUp_def)

lemma awaited_frames [simp]: "awaited i (changed_job j l) = awaited i l" "awaited i (givenUp t l) = awaited i l"
  by (simp_all add: awaited_def)

lemma awaited_settle: "awaited i l \<Longrightarrow> awaited i (settle k e l)"
  by (auto simp: awaited_def settle_def row_is_def)

text \<open>A statement that closes the row is fine when its task is settled with it.\<close>

lemma awaited_told: "awaited i l \<Longrightarrow> l_waiting l' = l_waiting l \<Longrightarrow> l_settled l' = l_settled l \<Longrightarrow> awaited i (settle i e l')"
  by (auto simp: awaited_def settle_def)

lemma awaited_upd:
  assumes "awaited i l" and "\<And>t. wt_id (f t) = wt_id t" and "\<And>t. wt_id t = i \<Longrightarrow> P t \<Longrightarrow> Open (f t)"
  shows "awaited i (fst (upd_tasks P f l))"
  using assms(1) row_is_upd_same [of Open i l f P] assms(2,3) by (auto simp: awaited_def)

lemma awaited_close_row:
  assumes "awaited i l" and "\<And>t. wt_id (f t) = wt_id t" and "\<And>t. P t \<Longrightarrow> wt_id t = k"
  shows "awaited i (settle k e (fst (upd_tasks P f l)))"
proof (cases "k = i")
  case True
  with assms(1) show ?thesis by (auto intro: awaited_told [of i l])
next
  case False
  then show ?thesis by (intro awaited_settle awaited_upd assms(1,2)) (use assms(3) in blast)
qed

lemma awaited_claim_from: "awaited i l \<Longrightarrow> awaited i (fst (claim_from w now ts l))"
proof (induction ts arbitrary: l)
  case (Cons t ts)
  have "awaited i (fst (upd_tasks (still_pending t) (lease_row (w_id w) now) l))"
    using Cons.prems by (rule awaited_upd) (simp_all add: lease_row_def Open_def)
  with Cons show ?case by (simp add: Let_def case_prod_beta)
qed simp

lemma awaited_Claim: "awaited i l \<Longrightarrow> awaited i (fst (Claim now w kinds limits l))"
  by (rule Claim_cases [of now w kinds limits l]) (simp_all add: case_prod_beta awaited_claim_from)

lemma close_tx_frames: "close_tx now k w st reason p t l = Inr l' \<Longrightarrow> l_waiting l' = l_waiting l \<and> l_settled l' = l_settled l"
  by (auto simp: close_tx_def Let_def case_prod_beta split: if_splits)

lemma awaited_close: "awaited i l \<Longrightarrow> awaited i (fst (close_task now k w st reason p l))"
proof (cases "tget wt_id k (l_tasks l)")
  case (Some t)
  assume a: "awaited i l"
  show ?thesis
  proof (cases "close_tx now k w st reason p t l")
    case (Inl e)
    with a Some show ?thesis by (simp add: close_task_def)
  next
    case (Inr l')
    note f = close_tx_frames [OF Inr]
    show ?thesis
    proof (cases "k = i")
      case True
      with a f Some Inr show ?thesis by (simp add: close_task_def awaited_told [of i l])
    next
      case False
      have r: "row_is Open i l \<Longrightarrow> row_is Open i l'"
        using row_is_close_other [of Open i l k now w st reason p] False Some Inr by (simp add: close_task_def)
      then have "awaited i l'" using a f by (auto simp: awaited_def)
      with Some Inr show ?thesis by (simp add: close_task_def awaited_settle)
    qed
  qed
qed (simp add: close_task_def)

abbreviation settle_pending :: "worker_task list \<Rightarrow> ledger \<Rightarrow> ledger" where
  "settle_pending ts l \<equiv> foldl (\<lambda>l t. if wt_state t = TaskPending then settle (wt_id t) (GivenUp []) l else l) l ts"

lemma settle_pending_awaited: "awaited i l \<Longrightarrow> awaited i (settle_pending ts l)"
  by (induction ts arbitrary: l) (auto intro: awaited_settle)

lemma settle_pending_waiting:
  "i \<in> set (l_waiting (settle_pending ts l)) \<Longrightarrow> i \<in> set (l_waiting l) \<and> (\<forall>t \<in> set ts. wt_state t = TaskPending \<longrightarrow> wt_id t \<noteq> i)"
proof (induction ts arbitrary: l)
  case (Cons t ts)
  let ?l = "if wt_state t = TaskPending then settle (wt_id t) (GivenUp []) l else l"
  have "i \<in> set (l_waiting ?l) \<and> (\<forall>t \<in> set ts. wt_state t = TaskPending \<longrightarrow> wt_id t \<noteq> i)"
    by (rule Cons.IH) (use Cons.prems in simp)
  moreover from this have "i \<in> set (l_waiting l) \<and> (wt_state t = TaskPending \<longrightarrow> wt_id t \<noteq> i)"
    by (auto simp: settle_def split: if_splits)
  ultimately show ?case by simp
qed simp

lemma awaited_Cancel_job: "awaited i l \<Longrightarrow> awaited i (Cancel_job now j l)"
proof -
  assume a: "awaited i l"
  let ?l = "settle_pending (OfJob j l) l"
  let ?Q = "\<lambda>t. Open t \<and> \<not> (wt_job_id t = j \<and> wt_state t = TaskPending)"
  let ?u = "\<lambda>l. fst (upd_tasks (\<lambda>t. wt_job_id t = j \<and> wt_state t = TaskPending) (drop_row now ''cancelled'') l)"
  have eq: "Cancel_job now j l = fst (upd_tasks (\<lambda>t. wt_job_id t = j \<and> wt_state t = TaskLeased) (\<lambda>t. t\<lparr>wt_cancel := True\<rparr>) (?u ?l))"
    by (simp add: Cancel_job_def Let_def)
  from settle_pending_awaited [OF a, of "OfJob j l"]
  have "i \<in> fst ` set (l_settled ?l) \<or> i \<in> set (l_waiting ?l) \<and> row_is ?Q i ?l"
    using settle_pending_waiting [where ts = "OfJob j l" and l = l and i = i]
    by (auto simp: awaited_def row_is_def OfJob_def dest: tget_Some)
  then have "i \<in> fst ` set (l_settled (?u ?l)) \<or> i \<in> set (l_waiting (?u ?l)) \<and> row_is ?Q i (?u ?l)"
    using row_is_upd_same [of ?Q i ?l "drop_row now ''cancelled''" "\<lambda>t. wt_job_id t = j \<and> wt_state t = TaskPending"] by auto
  then have "awaited i (?u ?l)" by (auto simp: awaited_def row_is_def)
  then show ?thesis unfolding eq by (rule awaited_upd) (simp_all add: Open_def)
qed

lemma awaited_CancelTask: "awaited i l \<Longrightarrow> ids_ok l \<Longrightarrow> awaited i (CancelTask now k l)"
proof -
  assume a: "awaited i l" and ids: "ids_ok l"
  let ?P = "\<lambda>t. wt_id t = k \<and> wt_state t = TaskPending"
  show ?thesis
  proof (cases "n_where ?P (l_tasks l) = 1")
    case True
    have "awaited i (settle k (GivenUp []) (fst (upd_tasks ?P (drop_row now ''cancelled'') l)))"
      using a by (rule awaited_close_row) auto
    with True show ?thesis by (simp add: CancelTask_def Let_def case_prod_beta) (simp add: upd_tasks_def)
  next
    case False
    then have n: "upd_tasks ?P (drop_row now ''cancelled'') l = (l, 0)"
      using n_where_id_le [OF ids, of k "\<lambda>t. wt_state t = TaskPending"] by (intro upd_tasks_none) linarith
    show ?thesis unfolding CancelTask_def n using a by (simp, intro awaited_upd) (simp_all add: Open_def)
  qed
qed

lemma awaited_reap_one: "awaited i l \<Longrightarrow> ids_ok l \<Longrightarrow> awaited i (fst (reap_one now t l))"
proof -
  assume a: "awaited i l" and ids: "ids_ok l"
  let ?P = "\<lambda>r. wt_id r = wt_id t \<and> wt_state r = TaskLeased"
  show ?thesis
  proof (cases "n_where ?P (l_tasks l) = 1")
    case True
    have "awaited i (settle (wt_id t) (GivenUp []) (fst (upd_tasks ?P (reap_row now t) l)))"
      using a by (rule awaited_close_row) auto
    moreover have "awaited i (fst (upd_tasks ?P (reap_row now t) l))" if "\<not> MaxAttempts \<le> wt_attempt t"
      using a by (rule awaited_upd) (use that in \<open>simp_all add: reap_row_def Open_def\<close>)
    moreover have "snd (upd_tasks ?P (reap_row now t) l) = 1" using True by (simp add: upd_tasks_def)
    ultimately show ?thesis by (simp add: reap_one_def Let_def case_prod_beta)
  next
    case False
    then have n: "upd_tasks ?P (reap_row now t) l = (l, 0)"
      using n_where_id_le [OF ids, of "wt_id t" "\<lambda>t. wt_state t = TaskLeased"] by (intro upd_tasks_none) linarith
    show ?thesis unfolding reap_one_def n using a by simp
  qed
qed

lemma awaited_reap_from: "awaited i l \<Longrightarrow> ids_ok l \<Longrightarrow> awaited i (fst (reap_from now ts l))"
proof (induction ts arbitrary: l)
  case (Cons t ts)
  have "ids_ok (fst (reap_one now t l))"
    using evolves_twf [OF evolves_reap_from [OF evolves_refl, where now = now and ts = "[t]" and l = l]] Cons.prems(2) by (simp add: Let_def case_prod_beta)
  with Cons awaited_reap_one [OF Cons.prems, of now t] show ?case by (simp add: Let_def case_prod_beta)
qed simp

lemma awaited_drop_from: "awaited i l \<Longrightarrow> ids_ok l \<Longrightarrow> awaited i (fst (drop_from now ts l))"
proof (induction ts arbitrary: l)
  case (Cons t ts)
  let ?P = "still_pending t"
  let ?u = "upd_tasks ?P (drop_row now no_worker_reason) l"
  have ids: "ids_ok (fst ?u)" using evolves_twf [OF evolves_upd_tasks [OF evolves_refl]] Cons.prems(2) by simp
  show ?case
  proof (cases "n_where ?P (l_tasks l) = 1")
    case True
    have "awaited i (settle (wt_id t) (GivenUp []) (fst ?u))"
      using Cons.prems(1) by (rule awaited_close_row) auto
    moreover have "snd ?u = 1" using True by (simp add: upd_tasks_def)
    ultimately show ?thesis using Cons.IH Cons.prems ids by (simp add: Let_def case_prod_beta)
  next
    case False
    then have n: "?u = (l, 0)"
      using n_where_id_le [OF Cons.prems(2), of "wt_id t" "\<lambda>t. wt_state t = TaskPending"] by (intro upd_tasks_none) linarith
    show ?thesis using Cons.IH [OF Cons.prems] by (simp add: n)
  qed
qed simp

lemma awaited_Await: "awaited i l \<Longrightarrow> awaited i (Await k l)"
  unfolding awaited_def row_is_frames by (auto simp: Await_def)

lemma awaited_Forget: "awaited i l \<Longrightarrow> k \<noteq> i \<Longrightarrow> awaited i (Forget k l)"
  unfolding awaited_def row_is_frames by (auto simp: Forget_def)

lemma awaited_step:
  assumes "lstep x a y" and "awaited i (lw_ledger x)" and "ids_ok (lw_ledger x)" and "a \<noteq> Forgets i"
  shows "awaited i (lw_ledger y)"
  using assms
proof (induction rule: lstep.induct)
  case (ladd t x)
  then have "awaited i (lw_ledger x\<lparr>l_tasks := tinsert (\<lambda>i r. r\<lparr>wt_id := i\<rparr>) t' (l_tasks (lw_ledger x))\<rparr>)" for t'
    by (auto simp: awaited_def row_is_insert)
  then show ?case by (simp add: Add_def Let_def)
next
  case (lbeat x w k p)
  have "awaited i (fst (upd_tasks (leased_to k w)
      (\<lambda>t. count_pages p (t\<lparr>wt_heartbeat_at := Some now, wt_lease_until := Some v\<rparr>)) (lw_ledger x)))" for now v
    using lbeat(1) by (rule awaited_upd) (simp_all add: count_pages_def Open_def leased_to_def)
  then show ?case by (simp add: Heartbeat_def Let_def case_prod_beta split: option.splits)
next
  case (lreturn x w ids)
  then show ?case unfolding HandBack_def by (simp, intro awaited_upd) (simp_all add: Open_def)
next
  case (lprune x keep)
  then show ?case using row_is_del [of Open i "lw_ledger x" "prunable (lw_now x - keep)"]
    by (auto simp: Prune_def awaited_def prunable_def)
qed (auto simp: awaited_Claim Finish_def Fail_def awaited_close awaited_Cancel_job awaited_CancelTask Reap_def awaited_reap_from
    DropUnclaimed_def awaited_drop_from awaited_Await awaited_Forget)



section \<open>Expired leases\<close>

lemma reap_one_row:
  assumes "tget wt_id (wt_id t) (l_tasks l) = Some t" and "wt_state t = TaskLeased"
  shows "tget wt_id (wt_id t) (l_tasks (fst (reap_one now t l))) = Some (reap_row now t t)"
proof -
  have "l_tasks (fst (reap_one now t l)) =
      l_tasks (fst (upd_tasks (\<lambda>r. wt_id r = wt_id t \<and> wt_state r = TaskLeased) (reap_row now t) l))"
    by (simp add: reap_one_def Let_def case_prod_beta)
  then show ?thesis by (simp add: tget_upd assms)
qed

lemma reap_from_row:
  assumes "distinct (map wt_id ts)" and "t \<in> set ts" and "tget wt_id (wt_id t) (l_tasks l) = Some t" and "wt_state t = TaskLeased"
  shows "tget wt_id (wt_id t) (l_tasks (fst (reap_from now ts l))) = Some (reap_row now t t)"
  using assms(1-3)
proof (induction ts arbitrary: l)
  case (Cons u ts)
  show ?case
  proof (cases "t = u")
    case True
    then have "wt_id t \<notin> wt_id ` set ts" using Cons.prems(1) by auto
    moreover have "row_is (\<lambda>r. r = reap_row now t t) (wt_id t) (fst (reap_one now u l))"
      using reap_one_row [OF Cons.prems(3) assms(4)] True by (simp add: row_is_def)
    ultimately have "row_is (\<lambda>r. r = reap_row now t t) (wt_id t) (fst (reap_from now ts (fst (reap_one now u l))))"
      by (intro row_is_reap_from) auto
    then show ?thesis by (simp add: row_is_def Let_def case_prod_beta)
  next
    case False
    then have "t \<in> set ts" "wt_id u \<noteq> wt_id t" using Cons.prems(1,2) by auto
    have "row_is (\<lambda>r. r = t) (wt_id t) (fst (reap_one now u l))"
      using \<open>wt_id u \<noteq> wt_id t\<close> Cons.prems(3) by (intro row_is_reap_one) (auto simp: row_is_def)
    then show ?thesis using Cons.IH \<open>t \<in> set ts\<close> Cons.prems(1) by (simp add: row_is_def Let_def case_prod_beta)
  qed
qed simp

lemma reap_given_up:
  assumes "distinct (map wt_id ts)" and "t \<in> set ts" and "ids_ok l" and "tget wt_id (wt_id t) (l_tasks l) = Some t"
    and "wt_state t = TaskLeased" and "wt_attempt t \<ge> MaxAttempts"
  shows "t\<lparr>wt_state := TaskAbandoned, wt_error := reap_reason t\<rparr> \<in> set (l_given_up (fst (reap_from now ts l)))"
proof -
  have mono1: "set (l_given_up l) \<subseteq> set (l_given_up (fst (reap_one now u l)))" for u l
    by (auto simp: reap_one_def Let_def case_prod_beta upd_tasks_def changed_job_def givenUp_def settle_def)
  have mono: "set (l_given_up l) \<subseteq> set (l_given_up (fst (reap_from now us l)))" for us l
    by (induction us arbitrary: l) (use mono1 in \<open>fastforce simp: Let_def case_prod_beta\<close>)+
  show ?thesis using assms(1-4)
  proof (induction ts arbitrary: l)
    case (Cons u ts)
    show ?case
    proof (cases "t = u")
      case True
      have "n_where (\<lambda>r. wt_id r = wt_id t \<and> wt_state r = TaskLeased) (l_tasks l) = (if True then 1 else 0)"
        by (rule n_where_row [OF Cons.prems(3), where Q = "\<lambda>r. r = t"]) (use Cons.prems(4) assms(5) in \<open>auto simp: row_is_def\<close>)
      then have "t\<lparr>wt_state := TaskAbandoned, wt_error := reap_reason t\<rparr> \<in> set (l_given_up (fst (reap_one now t l)))"
        using assms(6) by (simp add: reap_one_def Let_def case_prod_beta upd_tasks_def changed_job_def givenUp_def)
      then show ?thesis using mono [of "fst (reap_one now t l)" ts] True by (auto simp: Let_def case_prod_beta)
    next
      case False
      then have t: "t \<in> set ts" "wt_id u \<noteq> wt_id t" using Cons.prems(1,2) by auto
      have "row_is (\<lambda>r. r = t) (wt_id t) (fst (reap_one now u l))"
        using t(2) Cons.prems(4) by (intro row_is_reap_one) (auto simp: row_is_def)
      moreover have "ids_ok (fst (reap_one now u l))"
        using evolves_twf [OF evolves_reap_from [OF evolves_refl, where now = now and ts = "[u]" and l = l]] Cons.prems(3)
        by (simp add: Let_def case_prod_beta)
      ultimately show ?thesis using Cons.IH [of "fst (reap_one now u l)"] t(1) Cons.prems(1)
        by (simp add: row_is_def Let_def case_prod_beta)
    qed
  qed simp
qed

text \<open>
  The reaper takes back every task whose worker went quiet (up to a hundred a round): one
  with attempts left is pending again and free for any worker, one that was tried too often is
  abandoned and its job's owner is told.  A task whose lease has not run out is left alone.
\<close>

theorem reap_takes_back:
  assumes "ids_ok l" and "t \<in> set (rows (l_tasks l))" and "n_where (expired now) (l_tasks l) \<le> 100"
  shows "\<exists>r. tget wt_id (wt_id t) (l_tasks (fst (Reap now l))) = Some r \<and>
    (if \<not> expired now t then r = t
     else if wt_attempt t < MaxAttempts then wt_state r = TaskPending \<and> wt_lease_until r = None \<and> wt_worker_id r = 0
     else wt_state r = TaskAbandoned \<and> wt_finished_at r = Some now \<and>
       t\<lparr>wt_state := TaskAbandoned, wt_error := reap_reason t\<rparr> \<in> set (l_given_up (fst (Reap now l))))"
proof -
  let ?ts = "filter (expired now) (rows (l_tasks l))"
  have ts: "take 100 ?ts = ?ts" using assms(3) by (simp add: n_where_def)
  have t: "tget wt_id (wt_id t) (l_tasks l) = Some t" by (rule tasks_table.get_member [OF assms(1,2)])
  have d: "distinct (map wt_id ?ts)" using assms(1) by (simp add: twf_def distinct_map_filter)
  show ?thesis
  proof (cases "expired now t")
    case True
    then have in_ts: "t \<in> set ?ts" and l: "wt_state t = TaskLeased" using assms(2) by (auto simp: expired_def)
    from reap_from_row [OF d in_ts t l] reap_given_up [OF d in_ts assms(1) t l] True show ?thesis
      unfolding Reap_def ts by (auto simp: reap_row_def)
  next
    case False
    have "wt_id t \<notin> wt_id ` set ?ts" using row_unique [OF assms(1) t] False by fastforce
    then have "row_is (\<lambda>r. r = t) (wt_id t) (fst (reap_from now ?ts l))"
      using t by (intro row_is_reap_from) (auto simp: row_is_def)
    with False show ?thesis unfolding Reap_def ts by (simp add: row_is_def)
  qed
qed

theorem reap_takes_back_witness:
  "\<exists>r. tget wt_id 1 (l_tasks (fst (Reap 200 (ex_ledger\<lparr>l_tasks := \<lparr>rows = [sample_task\<lparr>wt_state := TaskLeased, wt_lease_until := Some 150\<rparr>], seq = 1\<rparr>\<rparr>))))
     = Some r \<and> wt_state r = TaskPending"
proof -
  let ?t = "sample_task\<lparr>wt_state := TaskLeased, wt_lease_until := Some 150\<rparr>"
  let ?l = "ex_ledger\<lparr>l_tasks := \<lparr>rows = [?t], seq = 1\<rparr>\<rparr>"
  have "ids_ok ?l" "?t \<in> set (rows (l_tasks ?l))" "n_where (expired 200) (l_tasks ?l) \<le> 100"
    by (simp_all add: twf_def sample_task_def n_where_def)
  from reap_takes_back [OF this] show ?thesis
    by (auto simp: expired_def sample_task_def MaxAttempts_def)
qed

text \<open>
  A worker that does not hold a task can change nothing about it: its heartbeat, its report
  and its failure are answered with an error and leave the whole ledger as it was, the part of
  the transaction that already ran included.
\<close>

theorem not_yours:
  assumes "ids_ok l" and "\<not> row_is (\<lambda>t. wt_worker_id t = w \<and> wt_state t = TaskLeased) i l"
  shows "Heartbeat now i w p l = (l, Inl ErrNotYours) \<and> (\<exists>e. Finish now i w p l = (l, Some e)) \<and>
    (\<exists>e. Fail now i w reason p l = (l, Some e)) \<and> Held i w l = Inl ErrNotYours"
proof -
  have n: "n_where (leased_to i w) (l_tasks l) = 0"
    using assms tasks_table.get_member [OF assms(1)] by (fastforce simp: n_where_0_iff leased_to_def row_is_def)
  have "Heartbeat now i w p l = (l, Inl ErrNotYours)" by (simp add: Heartbeat_def upd_tasks_none [OF n])
  moreover have "Held i w l = Inl ErrNotYours"
    using n by (auto simp: Held_def n_where_0_iff find_None_iff split: option.splits dest: find_Some_iff [THEN iffD1])
  ultimately show ?thesis using close_not_held [OF n] by (simp add: Finish_def Fail_def)
qed

theorem not_yours_witness: "Heartbeat 100 1 4 sample_progress ex_ledger = (ex_ledger, Inl ErrNotYours)"
  using not_yours [OF ex_ids, of 4 1 100 sample_progress "[]"]
  by (auto simp: row_is_def ex_ledger_def tget_def sample_task_def)

section \<open>Two histories worth knowing\<close>

text \<open>
  A cancelled task comes back: the mark \<open>Cancel\<close> leaves on a leased task is lost when its worker
  hands the task back, and the next claim starts the cancelled work again.
\<close>

lemma cancelled_task_restarts:
  "let l = Cancel_job 101 7 (fst (Claim 100 4 [TaskDownload] [] ex_ledger)); l' = fst (HandBack 4 [] l) in
   map_option wt_cancel (tget wt_id 1 (l_tasks l)) = Some True \<and>
   map_option (\<lambda>t. (wt_state t, wt_cancel t)) (tget wt_id 1 (l_tasks (fst (Claim 102 4 [TaskDownload] [] l')))) = Some (TaskLeased, False)"
  by code_simp

text \<open>
  Twenty waiting tasks a worker cannot do hide the ones behind them: \<open>Claim\<close> looks at the
  first twenty rows before it asks whether the worker can upscale.
\<close>

definition ex_crowded :: ledger where
  "ex_crowded = ex_ledger\<lparr>l_tasks := \<lparr>rows = map (\<lambda>i. sample_task\<lparr>wt_id := i, wt_kind := TaskEncode,
     wt_spec := \<lparr>sp_needs_upscale = Some True, sp_profile_upscale = False, sp_gpu = []\<rparr>\<rparr>) [1..20] @ [sample_task\<lparr>wt_id := 21\<rparr>],
     seq = 21\<rparr>\<rparr>"

lemma claim_hidden: "snd (Claim 100 4 [TaskEncode, TaskDownload] [] ex_crowded) = Inr None"
  by code_simp

end
