(* ===== verification/Dispatch.thy ===== *)
theory Dispatch
  imports JobControl Throttle WorkTasks Quiet
begin

text \<open>
  The dispatcher of the download manager (\<open>internal/downloads/dispatch.go\<close>): which queued jobs
  start, and the limits that hold while they run.  A started job is a goroutine: it first
  offers itself to the workers and waits for one of the server's own task slots, then works.
  The calls of the other components are the ones modelled in their theories: the governor's
  \<open>Cooldown\<close>, the ledger's \<open>OpenJobs\<close>, the schedule's \<open>Evaluate\<close>.
\<close>

section \<open>One pass\<close>

record queued_job =
  qj_job :: download_job
  qj_module :: int64
  qj_source :: string

definition srcKey :: "int64 \<Rightarrow> string \<Rightarrow> string" where
  "srcKey moduleID sourceID = (if sourceID = [] then [] else format_int moduleID @ '':'' @ sourceID)"

text \<open>What a pass reads: settings, the schedule with the clock, the governor and the ledger (if in use).\<close>

record dispatch_env =
  de_downloads :: downloads_settings
  de_pause :: queue_pause
  de_schedule :: schedule
  de_zones :: "string \<Rightarrow> (time \<Rightarrow> nat \<times> int) option"
  de_here :: "time \<Rightarrow> nat \<times> int"
  de_gov :: "governor option"
  de_ledger :: "ledger option"
  de_db :: catalog_db

definition at_least_one :: "downloads_settings \<Rightarrow> downloads_settings" where
  "at_least_one dl = dl\<lparr>dl_max_concurrent := (if dl_max_concurrent dl \<le> 0 then 1 else dl_max_concurrent dl),
     dl_max_per_source := (if dl_max_per_source dl \<le> 0 then 1 else dl_max_per_source dl),
     dl_max_concurrent_processing := (if dl_max_concurrent_processing dl \<le> 0 then 1 else dl_max_concurrent_processing dl)\<rparr>"

definition with_source :: "catalog_db \<Rightarrow> queue_state \<Rightarrow> download_job \<Rightarrow> queued_job" where
  "with_source db s j =
     (let rel = (case j_release_id j of None \<Rightarrow> None | Some i \<Rightarrow> tget r_id i (q_releases s));
          link = (case rel of None \<Rightarrow> None | Some r \<Rightarrow> tget ss_id (r_series_source_id r) (db_sources db))
      in \<lparr>qj_job = j, qj_module = (case link of None \<Rightarrow> 0 | Some ss \<Rightarrow> ss_module_id ss),
          qj_source = (case link of None \<Rightarrow> [] | Some ss \<Rightarrow> ss_source_id ss)\<rparr>)"

definition due :: "time \<Rightarrow> download_job \<Rightarrow> bool" where
  "due now j \<longleftrightarrow> j_status j = JobQueued \<and> j_not_before j \<le> now"

definition due_jobs :: "time \<Rightarrow> catalog_db \<Rightarrow> queue_state \<Rightarrow> queued_job list" where
  "due_jobs now db s =
     map (with_source db s) (take 100 (sort_key (\<lambda>j. (j_rank j, j_id j)) (filter (due now) (rows (q_jobs s)))))"

definition openJobs :: "dispatch_env \<Rightarrow> int64 set" where
  "openJobs env = (case de_ledger env of None \<Rightarrow> {} | Some l \<Rightarrow> OpenJobs l)"

definition runningOfKind :: "job_kind \<Rightarrow> manager_state \<Rightarrow> int" where
  "runningOfKind kind m = int (length (filter (\<lambda>r. snd r = kind) (m_running m)))"

definition job_src :: "queued_job \<Rightarrow> string" where
  "job_src j = (if j_kind (qj_job j) = JobKindReprocess then [] else srcKey (qj_module j) (qj_source j))"

definition cooling :: "dispatch_env \<Rightarrow> time \<Rightarrow> queued_job \<Rightarrow> bool" where
  "cooling env now j =
     (case de_gov env of
        None \<Rightarrow> False
      | Some g \<Rightarrow> job_src j \<noteq> [] \<and> fst (Cooldown now g \<lparr>k_module = qj_module j, k_source = qj_source j\<rparr>) \<noteq> 0)"

text \<open>The guards of the loop body, in its order.\<close>

definition may_start ::
  "dispatch_env \<Rightarrow> downloads_settings \<Rightarrow> effects \<Rightarrow> time \<Rightarrow> manager_state \<Rightarrow> queued_job \<Rightarrow> bool" where
  "may_start env dl quietNow now m j =
     (let kind = j_kind (qj_job j); src = job_src j in
      if j_id (qj_job j) \<in> fst ` set (m_running m) then False
      else if j_id (qj_job j) \<in> openJobs env then False
      else if kind = JobKindDownload \<and> ef_pause_downloads quietNow \<or> kind = JobKindReprocess \<and> ef_pause_processing quietNow then False
      else if kind = JobKindDownload \<and> runningOfKind JobKindDownload m \<ge> dl_max_concurrent dl then False
      else if kind = JobKindReprocess \<and> runningOfKind JobKindReprocess m \<ge> dl_max_concurrent_processing dl then False
      else if src \<noteq> [] \<and> m_running_src m src \<ge> dl_max_per_source dl then False
      else if cooling env now j then False
      else True)"

definition start_job :: "queued_job \<Rightarrow> manager_state \<Rightarrow> manager_state" where
  "start_job j m =
     m\<lparr>m_running := m_running m @ [(j_id (qj_job j), j_kind (qj_job j))],
       m_running_src := (m_running_src m)(job_src j := m_running_src m (job_src j) + 1)\<rparr>"

text \<open>The loop: the manager after it and the jobs it started, in order.\<close>

fun dispatch_loop ::
  "dispatch_env \<Rightarrow> downloads_settings \<Rightarrow> effects \<Rightarrow> time \<Rightarrow> queued_job list \<Rightarrow> manager_state \<Rightarrow> manager_state \<times> queued_job list" where
  "dispatch_loop env dl quietNow now [] m = (m, [])"
| "dispatch_loop env dl quietNow now (j # js) m =
     (if may_start env dl quietNow now m j
      then (let (m', started) = dispatch_loop env dl quietNow now js (start_job j m) in (m', j # started))
      else dispatch_loop env dl quietNow now js m)"

definition maint_gap :: duration where "maint_gap = 10 * minute"

text \<open>The third component tells whether module housekeeping runs.\<close>

definition dispatch :: "dispatch_env \<Rightarrow> time \<Rightarrow> manager_state \<Rightarrow> manager_state \<times> queued_job list \<times> bool" where
  "dispatch env now m =
     (let dl = at_least_one (de_downloads env) in
      if Active now (de_pause env) then (m, [], False)
      else
        let quietNow = Evaluate (de_zones env) (de_here env) (de_schedule env) now;
            jobs = due_jobs now (de_db env) (m_queue m)
        in
        if m_held m then (m, [], False)
        else
          let (m', started) = dispatch_loop env dl quietNow now jobs m;
              busy = (m_running m \<noteq> [] \<or> started \<noteq> []);
              maint = (\<not> busy \<and> m_was_busy m \<and> now - m_last_maint m > maint_gap)
          in (m'\<lparr>m_last_maint := (if maint then now else m_last_maint m'), m_was_busy := busy\<rparr>, started, maint))"

section \<open>A started job\<close>

definition takeLocal :: "downloads_settings \<Rightarrow> job_kind \<Rightarrow> manager_state \<Rightarrow> manager_state \<times> bool" where
  "takeLocal dl kind m =
     (if LocalOff dl \<and> kind = JobKindDownload then (m, False)
      else if dl_max_local_tasks dl > 0 \<and> m_local m \<ge> dl_max_local_tasks dl then (m, False)
      else (m\<lparr>m_local := m_local m + 1\<rparr>, True))"

definition releaseLocal :: "manager_state \<Rightarrow> manager_state" where
  "releaseLocal m = on_queue signal (m\<lparr>m_local := m_local m - 1\<rparr>)"

text \<open>The deferred end of a job's goroutine.\<close>

definition end_job :: "int64 \<Rightarrow> string \<Rightarrow> manager_state \<Rightarrow> manager_state" where
  "end_job jobID src m =
     on_queue signal (m\<lparr>m_running := filter (\<lambda>r. fst r \<noteq> jobID) (m_running m),
       m_running_src := (m_running_src m)(src := m_running_src m src - 1),
       m_last_persist := (m_last_persist m)(jobID := 0)\<rparr>)"

section \<open>Passes and jobs that interleave\<close>

text \<open>
  A goroutine knows its job's id, kind and catalog, and whether it holds a slot of the server's
  own.  The limits are those of settings that do not change meanwhile.
\<close>

record running_job =
  go_id :: int64
  go_kind :: job_kind
  go_src :: string
  go_local :: bool

record dworld =
  dw_now :: time
  dw_m :: manager_state
  dw_jobs :: "running_job list"

definition goroutine :: "queued_job \<Rightarrow> running_job" where
  "goroutine j = \<lparr>go_id = j_id (qj_job j), go_kind = j_kind (qj_job j), go_src = job_src j, go_local = False\<rparr>"

text \<open>Everything the manager does besides dispatching leaves its running jobs alone.\<close>

definition same_running :: "manager_state \<Rightarrow> manager_state \<Rightarrow> bool" where
  "same_running m m' \<longleftrightarrow> m_running m' = m_running m \<and> m_running_src m' = m_running_src m \<and> m_local m' = m_local m"

inductive dstep :: "downloads_settings \<Rightarrow> dworld \<Rightarrow> dworld \<Rightarrow> bool" for dl where
  dtick: "0 \<le> d \<Longrightarrow> dstep dl x (x\<lparr>dw_now := dw_now x + d\<rparr>)"
| dpass: "de_downloads env = dl \<Longrightarrow> dispatch env (dw_now x) (dw_m x) = (m, started, maint) \<Longrightarrow>
    dstep dl x (x\<lparr>dw_m := m, dw_jobs := dw_jobs x @ map goroutine started\<rparr>)"
| dtake: "i < length (dw_jobs x) \<Longrightarrow> \<not> go_local (dw_jobs x ! i) \<Longrightarrow> takeLocal dl (go_kind (dw_jobs x ! i)) (dw_m x) = (m, True) \<Longrightarrow>
    dstep dl x (x\<lparr>dw_m := m, dw_jobs := (dw_jobs x)[i := (dw_jobs x ! i)\<lparr>go_local := True\<rparr>]\<rparr>)"
| dhanded: "dw_jobs x = as @ r # bs \<Longrightarrow> \<not> go_local r \<Longrightarrow>
    dstep dl x (x\<lparr>dw_m := end_job (go_id r) (go_src r) (dw_m x), dw_jobs := as @ bs\<rparr>)"
| ddone: "dw_jobs x = as @ r # bs \<Longrightarrow> go_local r \<Longrightarrow>
    dstep dl x (x\<lparr>dw_m := end_job (go_id r) (go_src r) (releaseLocal (dw_m x)), dw_jobs := as @ bs\<rparr>)"
| dqueue: "same_running (dw_m x) m \<Longrightarrow> dstep dl x (x\<lparr>dw_m := m\<rparr>)"

section \<open>The loop\<close>

definition kind_limit :: "downloads_settings \<Rightarrow> job_kind \<Rightarrow> int" where
  "kind_limit dl kind = (case kind of JobKindDownload \<Rightarrow> dl_max_concurrent dl | JobKindReprocess \<Rightarrow> dl_max_concurrent_processing dl)"

definition quiet_kind :: "effects \<Rightarrow> job_kind \<Rightarrow> bool" where
  "quiet_kind q kind = (case kind of JobKindDownload \<Rightarrow> ef_pause_downloads q | JobKindReprocess \<Rightarrow> ef_pause_processing q)"

text \<open>Why a job has to wait, whatever the other jobs of its kind do.\<close>

definition own_reason :: "dispatch_env \<Rightarrow> downloads_settings \<Rightarrow> time \<Rightarrow> manager_state \<Rightarrow> queued_job \<Rightarrow> bool" where
  "own_reason env dl now m j \<longleftrightarrow>
     j_id (qj_job j) \<in> fst ` set (m_running m) \<or> j_id (qj_job j) \<in> openJobs env \<or>
     (job_src j \<noteq> [] \<and> m_running_src m (job_src j) \<ge> dl_max_per_source dl) \<or> cooling env now j"

lemma may_start_iff:
  "may_start env dl q now m j \<longleftrightarrow>
     \<not> own_reason env dl now m j \<and> \<not> quiet_kind q (j_kind (qj_job j)) \<and>
     runningOfKind (j_kind (qj_job j)) m < kind_limit dl (j_kind (qj_job j))"
  by (cases "j_kind (qj_job j)") (auto simp: may_start_def own_reason_def quiet_kind_def kind_limit_def Let_def)

lemma start_job_simps [simp]:
  "m_running (start_job j m) = m_running m @ [(j_id (qj_job j), j_kind (qj_job j))]"
  "m_running_src (start_job j m) src = m_running_src m src + (if src = job_src j then 1 else 0)"
  "m_local (start_job j m) = m_local m" "m_queue (start_job j m) = m_queue m"
  by (simp_all add: start_job_def)

lemma runningOfKind_start [simp]:
  "runningOfKind k (start_job j m) = runningOfKind k m + (if j_kind (qj_job j) = k then 1 else 0)"
  by (simp add: runningOfKind_def)

lemma loop_append:
  "dispatch_loop env dl q now (xs @ ys) m =
     (let (ma, sa) = dispatch_loop env dl q now xs m; (mb, sb) = dispatch_loop env dl q now ys ma in (mb, sa @ sb))"
  by (induction xs arbitrary: m) (auto simp: Let_def split: prod.splits)

lemma loop_Cons_cases:
  assumes "dispatch_loop env dl q now (j # js) m = (m', started)"
  obtains (start) st where "may_start env dl q now m j" "dispatch_loop env dl q now js (start_job j m) = (m', st)" "started = j # st"
    | (skip) "\<not> may_start env dl q now m j" "dispatch_loop env dl q now js m = (m', started)"
  using assms by (cases "may_start env dl q now m j") (auto simp: Let_def split: prod.splits)

lemma loop_grows:
  assumes "dispatch_loop env dl q now js m = (m', started)"
  shows "set (m_running m) \<subseteq> set (m_running m') \<and> (\<forall>src. m_running_src m src \<le> m_running_src m' src) \<and> set started \<subseteq> set js"
  using assms
proof (induction js arbitrary: m started)
  case (Cons j js)
  from Cons.prems show ?case
  proof (cases rule: loop_Cons_cases)
    case (start st)
    have g: "m_running_src m src \<le> m_running_src (start_job j m) src" for src by simp
    from Cons.IH [OF start(2)] start(3) order_trans [OF g] show ?thesis by auto
  next
    case skip
    from Cons.IH [OF skip(2)] show ?thesis by auto
  qed
qed simp

lemma loop_full:
  assumes "dispatch_loop env dl q now js m = (m', started)" and "quiet_kind q k \<or> kind_limit dl k \<le> runningOfKind k m"
    and "j \<in> set started"
  shows "j_kind (qj_job j) \<noteq> k"
  using assms
proof (induction js arbitrary: m started)
  case (Cons i js)
  from Cons.prems(1) show ?case
  proof (cases rule: loop_Cons_cases)
    case (start st)
    then have k: "j_kind (qj_job i) \<noteq> k" using Cons.prems(2) by (auto simp: may_start_iff)
    then show ?thesis using Cons.IH [OF start(2)] Cons.prems(2,3) start(3) by auto
  next
    case skip
    then show ?thesis using Cons.IH [OF skip(2)] Cons.prems(2,3) by auto
  qed
qed simp

lemma own_reason_mono:
  assumes "own_reason env dl now m j" and "set (m_running m) \<subseteq> set (m_running m')"
    and "\<And>src. m_running_src m src \<le> m_running_src m' src"
  shows "own_reason env dl now m' j"
proof -
  have "fst ` set (m_running m) \<subseteq> fst ` set (m_running m')" using assms(2) by (rule image_mono)
  moreover have "dl_max_per_source dl \<le> m_running_src m (job_src j) \<Longrightarrow> dl_max_per_source dl \<le> m_running_src m' (job_src j)"
    using assms(3) by (rule order_trans [rotated])
  ultimately show ?thesis using assms(1) unfolding own_reason_def by blast
qed

lemma loop_order:
  assumes l: "dispatch_loop env dl q now (as @ j # bs) m = (m', started)" and "j \<notin> set started"
    and "distinct (as @ j # bs)" and "i \<in> set bs" and "i \<in> set started" and "j_kind (qj_job i) = j_kind (qj_job j)"
  shows "own_reason env dl now m' j"
proof -
  obtain ma sa where a: "dispatch_loop env dl q now as m = (ma, sa)" by force
  have no: "\<not> may_start env dl q now ma j" using l assms(2) a by (auto simp: loop_append Let_def split: prod.splits if_splits)
  then obtain sb where b: "dispatch_loop env dl q now bs ma = (m', sb)" "started = sa @ sb"
    using l a by (auto simp: loop_append Let_def split: prod.splits)
  have "i \<in> set sb" using assms(3,4,5) b(2) loop_grows [OF a] by auto
  then have "\<not> quiet_kind q (j_kind (qj_job j))" "runningOfKind (j_kind (qj_job j)) ma < kind_limit dl (j_kind (qj_job j))"
    using loop_full [OF b(1), of "j_kind (qj_job j)" i] assms(6) by force+
  with no have "own_reason env dl now ma j" by (simp add: may_start_iff)
  then show ?thesis by (rule own_reason_mono) (use loop_grows [OF b(1)] in auto)
qed

lemma loop_eligible:
  assumes "dispatch_loop env dl q now js m = (m', started)" and "j \<in> set started"
  shows "j \<in> set js \<and> j_id (qj_job j) \<notin> fst ` set (m_running m) \<and> j_id (qj_job j) \<notin> openJobs env \<and>
    \<not> quiet_kind q (j_kind (qj_job j)) \<and> \<not> cooling env now j"
  using assms
proof (induction js arbitrary: m started)
  case (Cons i js)
  from Cons.prems(1) show ?case
  proof (cases rule: loop_Cons_cases)
    case (start st)
    then have i: "\<not> own_reason env dl now m i" "\<not> quiet_kind q (j_kind (qj_job i))" by (simp_all add: may_start_iff)
    show ?thesis using Cons.IH [OF start(2)] Cons.prems(2) start(3) i by (auto simp: own_reason_def)
  next
    case skip
    then show ?thesis using Cons.IH [OF skip(2)] Cons.prems(2) by auto
  qed
qed simp

section \<open>Limits\<close>

abbreviation n_jobs :: "(running_job \<Rightarrow> bool) \<Rightarrow> running_job list \<Rightarrow> int" where
  "n_jobs P gos \<equiv> int (length (filter P gos))"

text \<open>The manager's books agree with its goroutines, and their numbers keep to the limits.\<close>

definition books_ok :: "manager_state \<Rightarrow> running_job list \<Rightarrow> bool" where
  "books_ok m gos \<longleftrightarrow>
     m_running m = map (\<lambda>r. (go_id r, go_kind r)) gos \<and> distinct (map go_id gos) \<and>
     (\<forall>src. m_running_src m src = n_jobs (\<lambda>r. go_src r = src) gos) \<and> m_local m = n_jobs go_local gos"

definition limits_ok :: "downloads_settings \<Rightarrow> running_job list \<Rightarrow> bool" where
  "limits_ok dl gos \<longleftrightarrow>
     (\<forall>k. n_jobs (\<lambda>r. go_kind r = k) gos \<le> kind_limit dl k) \<and>
     (\<forall>src. src \<noteq> [] \<longrightarrow> n_jobs (\<lambda>r. go_src r = src) gos \<le> dl_max_per_source dl) \<and>
     (dl_max_local_tasks dl > 0 \<longrightarrow> n_jobs go_local gos \<le> dl_max_local_tasks dl)"

definition running_ok :: "downloads_settings \<Rightarrow> manager_state \<Rightarrow> running_job list \<Rightarrow> bool" where
  "running_ok dl m gos \<longleftrightarrow> books_ok m gos \<and> limits_ok dl gos"

lemma books_kind: "books_ok m gos \<Longrightarrow> runningOfKind k m = n_jobs (\<lambda>r. go_kind r = k) gos"
  by (simp add: books_ok_def runningOfKind_def filter_map o_def)

lemma start_ok:
  assumes "running_ok dl m gos" and "may_start env dl q now m j"
  shows "running_ok dl (start_job j m) (gos @ [goroutine j])"
proof -
  have b: "books_ok m gos" and l: "limits_ok dl gos" using assms(1) by (simp_all add: running_ok_def)
  have s: "\<not> own_reason env dl now m j" "n_jobs (\<lambda>r. go_kind r = j_kind (qj_job j)) gos < kind_limit dl (j_kind (qj_job j))"
    using assms(2) books_kind [OF b] by (simp_all add: may_start_iff)
  have "books_ok (start_job j m) (gos @ [goroutine j])"
    using b s(1) by (auto simp: books_ok_def goroutine_def own_reason_def image_iff)
  moreover have "limits_ok dl (gos @ [goroutine j])"
    using l s b by (auto simp: limits_ok_def goroutine_def own_reason_def books_ok_def)
  ultimately show ?thesis by (simp add: running_ok_def)
qed

lemma loop_ok:
  assumes "dispatch_loop env dl q now js m = (m', started)" and "running_ok dl m gos"
  shows "running_ok dl m' (gos @ map goroutine started)"
  using assms
proof (induction js arbitrary: m started gos)
  case (Cons j js)
  from Cons.prems(1) show ?case
  proof (cases rule: loop_Cons_cases)
    case (start st)
    from Cons.IH [OF start(2) start_ok [OF Cons.prems(2) start(1)]] start(3) show ?thesis by simp
  next
    case skip
    from Cons.IH [OF skip(2) Cons.prems(2)] show ?thesis .
  qed
qed simp

lemma same_running_ok:
  assumes "running_ok dl m gos" and "same_running m m'"
  shows "running_ok dl m' gos"
  using assms by (simp add: running_ok_def books_ok_def same_running_def)

text \<open>A pass either does nothing or runs the loop over the due jobs.\<close>

lemma dispatch_cases:
  assumes "dispatch env now m = (m', started, maint)"
  obtains (idle) "m' = m" "started = []"
    | (pass) ma where "\<not> Active now (de_pause env)" "\<not> m_held m" "same_running ma m'"
      "dispatch_loop env (at_least_one (de_downloads env)) (Evaluate (de_zones env) (de_here env) (de_schedule env) now) now
         (due_jobs now (de_db env) (m_queue m)) m = (ma, started)"
proof (cases "Active now (de_pause env)")
  case True
  with assms idle show thesis by (simp add: dispatch_def Let_def)
next
  case False
  show thesis
  proof (cases "m_held m")
    case True
    with False assms idle show thesis by (simp add: dispatch_def Let_def)
  next
    case h: False
    obtain ma st where l: "dispatch_loop env (at_least_one (de_downloads env))
        (Evaluate (de_zones env) (de_here env) (de_schedule env) now) now (due_jobs now (de_db env) (m_queue m)) m = (ma, st)"
      by force
    have "started = st" "same_running ma m'" using False h assms l by (auto simp: dispatch_def Let_def same_running_def)
    then show thesis using pass [OF False h] l by blast
  qed
qed

lemma dispatch_ok:
  assumes "dispatch env now m = (m', started, maint)" and "running_ok (at_least_one (de_downloads env)) m gos"
  shows "running_ok (at_least_one (de_downloads env)) m' (gos @ map goroutine started)"
  using assms(1)
proof (cases rule: dispatch_cases)
  case idle
  with assms(2) show ?thesis by simp
next
  case (pass ma)
  from same_running_ok [OF loop_ok [OF pass(4) assms(2)] pass(3)] show ?thesis .
qed

lemma limits_drop: "limits_ok dl (as @ r # bs) \<Longrightarrow> limits_ok dl (as @ bs)"
proof -
  assume l: "limits_ok dl (as @ r # bs)"
  have le: "n_jobs P (as @ bs) \<le> n_jobs P (as @ r # bs)" for P by simp
  show ?thesis using l unfolding limits_ok_def by (meson le order_trans)
qed

lemma end_books:
  assumes "books_ok m (as @ r # bs)"
  shows "m_running (end_job (go_id r) (go_src r) m) = map (\<lambda>r. (go_id r, go_kind r)) (as @ bs)"
    and "m_running_src (end_job (go_id r) (go_src r) m) src = n_jobs (\<lambda>r. go_src r = src) (as @ bs)"
    and "m_local (end_job (go_id r) (go_src r) m) = m_local m" and "distinct (map go_id (as @ bs))"
proof -
  have "go_id r \<notin> go_id ` set as" "go_id r \<notin> go_id ` set bs" using assms by (simp_all add: books_ok_def)
  then have d: "\<forall>x \<in> set as. go_id x \<noteq> go_id r" "\<forall>x \<in> set bs. go_id x \<noteq> go_id r" using imageI by metis+
  have f: "filter (\<lambda>x. go_id x \<noteq> go_id r) as = as" "filter (\<lambda>x. go_id x \<noteq> go_id r) bs = bs"
    using d by (simp_all add: filter_id_conv)
  show "m_running (end_job (go_id r) (go_src r) m) = map (\<lambda>r. (go_id r, go_kind r)) (as @ bs)"
    using assms f by (simp add: end_job_def books_ok_def filter_map o_def)
  show "m_running_src (end_job (go_id r) (go_src r) m) src = n_jobs (\<lambda>r. go_src r = src) (as @ bs)"
    using assms by (simp add: end_job_def books_ok_def)
  show "m_local (end_job (go_id r) (go_src r) m) = m_local m" by (simp add: end_job_def)
  show "distinct (map go_id (as @ bs))" using assms by (simp add: books_ok_def)
qed

lemma end_ok:
  assumes "running_ok dl m (as @ r # bs)" and "\<not> go_local r"
  shows "running_ok dl (end_job (go_id r) (go_src r) m) (as @ bs)"
  using assms end_books [of m as r bs] limits_drop [of dl as r bs]
  by (simp add: running_ok_def) (simp add: books_ok_def)

lemma done_ok:
  assumes "running_ok dl m (as @ r # bs)" and "go_local r"
  shows "running_ok dl (end_job (go_id r) (go_src r) (releaseLocal m)) (as @ bs)"
proof -
  have "m_local (end_job (go_id r) (go_src r) (releaseLocal m)) = m_local m - 1"
    "m_running (end_job (go_id r) (go_src r) (releaseLocal m)) = m_running (end_job (go_id r) (go_src r) m)"
    "m_running_src (end_job (go_id r) (go_src r) (releaseLocal m)) = m_running_src (end_job (go_id r) (go_src r) m)"
    by (simp_all add: end_job_def releaseLocal_def)
  then show ?thesis using assms end_books [of m as r bs] limits_drop [of dl as r bs]
    by (simp add: running_ok_def) (simp add: books_ok_def)
qed

lemma take_ok:
  assumes ok: "running_ok dl m gos" and i: "i < length gos" and "\<not> go_local (gos ! i)"
    and t: "takeLocal dl' (go_kind (gos ! i)) m = (m', True)" and "dl_max_local_tasks dl' = dl_max_local_tasks dl"
  shows "running_ok dl m' (gos[i := (gos ! i)\<lparr>go_local := True\<rparr>])"
proof -
  let ?r = "(gos ! i)\<lparr>go_local := True\<rparr>"
  obtain as bs where s: "gos = as @ gos ! i # bs" "gos[i := ?r] = as @ ?r # bs"
    using id_take_nth_drop [OF i] upd_conv_take_nth_drop [OF i, of ?r] by (rule that)
  have m': "m_local m' = m_local m + 1" "m_running m' = m_running m" "m_running_src m' = m_running_src m"
    "dl_max_local_tasks dl > 0 \<Longrightarrow> m_local m < dl_max_local_tasks dl"
    using t assms(5) by (auto simp: takeLocal_def split: if_splits)
  obtain x where x: "gos = as @ x # bs" "gos ! i = x" using s(1) by blast
  have n: "n_jobs P (as @ x\<lparr>go_local := True\<rparr> # bs) = n_jobs P (as @ x # bs)"
    if "P (x\<lparr>go_local := True\<rparr>) = P x" for P using that by simp
  have l: "n_jobs go_local (as @ x\<lparr>go_local := True\<rparr> # bs) = n_jobs go_local (as @ x # bs) + 1"
    using assms(3) x(2) by simp
  have ok': "books_ok m (as @ x # bs)" "limits_ok dl (as @ x # bs)" using ok x(1) by (simp_all add: running_ok_def)
  have "books_ok m' (as @ x\<lparr>go_local := True\<rparr> # bs)"
    using ok'(1) m'(1-3) unfolding books_ok_def l by (subst n, simp) simp
  moreover have "m_local m = n_jobs go_local (as @ x # bs)" using ok'(1) by (simp add: books_ok_def)
  then have "dl_max_local_tasks dl > 0 \<Longrightarrow> n_jobs go_local (as @ x # bs) + 1 \<le> dl_max_local_tasks dl" using m'(4) by linarith
  then have "limits_ok dl (as @ x\<lparr>go_local := True\<rparr> # bs)"
    using ok'(2) unfolding limits_ok_def l by (subst n, simp) (subst n, simp, blast)
  ultimately show ?thesis using s(2) unfolding x(2) running_ok_def by simp
qed

lemma at_least_one_local [simp]: "dl_max_local_tasks (at_least_one dl) = dl_max_local_tasks dl"
  by (simp add: at_least_one_def)

lemma running_step: "dstep dl x y \<Longrightarrow> running_ok (at_least_one dl) (dw_m x) (dw_jobs x) \<Longrightarrow> running_ok (at_least_one dl) (dw_m y) (dw_jobs y)"
proof (induction rule: dstep.induct)
  case (dpass env x m started maint)
  then show ?case using dispatch_ok [OF dpass(2)] by simp
next
  case (dtake i x m)
  then show ?case using take_ok [OF dtake(4,1,2,3)] by simp
next
  case (dhanded x as r bs)
  then show ?case using end_ok [of "at_least_one dl" "dw_m x" as r bs] by simp
next
  case (ddone x as r bs)
  then show ?case using done_ok [of "at_least_one dl" "dw_m x" as r bs] by simp
next
  case (dqueue x m)
  then show ?case using same_running_ok by simp
qed simp

definition ex_env_dispatch :: dispatch_env where
  "ex_env_dispatch = \<lparr>de_downloads = DefaultDownloads, de_pause = \<lparr>qp_paused = False, qp_until = None\<rparr>,
     de_schedule = \<lparr>sc_timezone = [], sc_windows = []\<rparr>, de_zones = (\<lambda>_. None), de_here = (\<lambda>_. (0, 0)), de_gov = None,
     de_ledger = None, de_db = ex_db\<rparr>"

interpretation running: step_invariant "dstep dl" "\<lambda>w. running_ok (at_least_one dl) (dw_m w) (dw_jobs w)" for dl
  by unfold_locales (rule running_step)

section \<open>Properties\<close>

text \<open>
  C16: Whatever passes, jobs and slots do in whatever order, the manager never runs more downloads,
  more reprocessings, or more downloads from one catalog than the settings allow, never gives
  out more of the server's own slots than there are, and its counters agree with the jobs
  that are running: no job runs twice and no slot leaks.
\<close>

theorem dispatch_limits:
  assumes "(dstep dl)\<^sup>*\<^sup>* x y" and "dw_jobs x = []" and "m_running (dw_m x) = []"
    and "m_running_src (dw_m x) = (\<lambda>_. 0)" and "m_local (dw_m x) = 0" and "bound = at_least_one dl"
  shows "distinct (map fst (m_running (dw_m y))) \<and>
    runningOfKind JobKindDownload (dw_m y) \<le> dl_max_concurrent bound \<and>
    runningOfKind JobKindReprocess (dw_m y) \<le> dl_max_concurrent_processing bound \<and>
    (\<forall>src. m_running_src (dw_m y) src = n_jobs (\<lambda>r. go_src r = src) (dw_jobs y)) \<and>
    (\<forall>src. src \<noteq> [] \<longrightarrow> m_running_src (dw_m y) src \<le> dl_max_per_source bound) \<and>
    0 \<le> m_local (dw_m y) \<and> (dl_max_local_tasks dl > 0 \<longrightarrow> m_local (dw_m y) \<le> dl_max_local_tasks dl)"
proof -
  have "0 \<le> kind_limit bound k" for k by (cases k) (simp_all add: kind_limit_def assms(6) at_least_one_def)
  moreover have "0 \<le> dl_max_per_source bound" by (simp add: assms(6) at_least_one_def)
  ultimately have "running_ok bound (dw_m x) (dw_jobs x)"
    using assms(2-5) by (simp add: running_ok_def books_ok_def limits_ok_def)
  with assms(1) have "running_ok bound (dw_m y) (dw_jobs y)"
    unfolding assms(6) by (rule running.reachable)
  then have b: "books_ok (dw_m y) (dw_jobs y)" and l: "limits_ok bound (dw_jobs y)" by (simp_all add: running_ok_def)
  have "distinct (map fst (m_running (dw_m y)))" using b by (simp add: books_ok_def o_def)
  moreover have "runningOfKind k (dw_m y) \<le> kind_limit bound k" for k using l books_kind [OF b] by (simp add: limits_ok_def)
  from this [of JobKindDownload] this [of JobKindReprocess]
  have "runningOfKind JobKindDownload (dw_m y) \<le> dl_max_concurrent bound"
    "runningOfKind JobKindReprocess (dw_m y) \<le> dl_max_concurrent_processing bound" by (simp_all add: kind_limit_def)
  ultimately show ?thesis using b l assms(6) by (simp add: books_ok_def limits_ok_def)
qed

theorem dispatch_limits_witness:
  "runningOfKind JobKindDownload (fst (dispatch ex_env_dispatch 5 ex_manager)) \<le> 3"
proof -
  obtain m started maint where d: "dispatch ex_env_dispatch 5 ex_manager = (m, started, maint)" by (cases "dispatch ex_env_dispatch 5 ex_manager") auto
  let ?x = "\<lparr>dw_now = 5, dw_m = ex_manager, dw_jobs = []\<rparr>"
  have "de_downloads ex_env_dispatch = DefaultDownloads" by (simp add: ex_env_dispatch_def)
  moreover have "dispatch ex_env_dispatch (dw_now ?x) (dw_m ?x) = (m, started, maint)" using d by simp
  ultimately have "dstep DefaultDownloads ?x (?x\<lparr>dw_m := m, dw_jobs := dw_jobs ?x @ map goroutine started\<rparr>)" by (rule dpass)
  from dispatch_limits [OF r_into_rtranclp [of "dstep DefaultDownloads", OF this] _ _ _ _ refl]
  have "runningOfKind JobKindDownload m \<le> dl_max_concurrent (at_least_one DefaultDownloads)" by (simp add: ex_manager_def)
  moreover have "dl_max_concurrent (at_least_one DefaultDownloads) = 3" by code_simp
  ultimately show ?thesis using d by simp
qed

text \<open>
  A pass starts only jobs that are queued and due, and none that a worker has, that quiet
  hours hold back, or whose catalog is cooling down; a paused or held queue starts nothing.
\<close>

theorem dispatch_eligible:
  assumes "dispatch env now m = (m', started, maint)" and "j \<in> set started"
  shows "\<not> Active now (de_pause env) \<and> \<not> m_held m \<and>
    qj_job j \<in> set (rows (q_jobs (m_queue m))) \<and> j_status (qj_job j) = JobQueued \<and> j_not_before (qj_job j) \<le> now \<and>
    j_id (qj_job j) \<notin> fst ` set (m_running m) \<and> j_id (qj_job j) \<notin> openJobs env \<and>
    \<not> quiet_kind (Evaluate (de_zones env) (de_here env) (de_schedule env) now) (j_kind (qj_job j)) \<and>
    \<not> cooling env now j"
  using assms(1)
proof (cases rule: dispatch_cases)
  case idle
  with assms(2) show ?thesis by simp
next
  case (pass ma)
  have "qj_job (with_source db q i) = i" for db q i by (simp add: with_source_def Let_def)
  then have "j \<in> set (due_jobs now (de_db env) (m_queue m)) \<Longrightarrow> qj_job j \<in> set (rows (q_jobs (m_queue m))) \<and> due now (qj_job j)"
    by (auto simp: due_jobs_def dest!: in_set_takeD)
  with loop_eligible [OF pass(4) assms(2)] pass(1,2) show ?thesis by (simp add: due_def)
qed

theorem dispatch_eligible_witness:
  "\<exists>j \<in> set (fst (snd (dispatch ex_env_dispatch 5 ex_manager))). j_status (qj_job j) = JobQueued \<and> \<not> cooling ex_env_dispatch 5 j"
proof -
  have n: "fst (snd (dispatch ex_env_dispatch 5 ex_manager)) \<noteq> []" by code_simp
  let ?j = "hd (fst (snd (dispatch ex_env_dispatch 5 ex_manager)))"
  have "dispatch ex_env_dispatch 5 ex_manager = (fst (dispatch ex_env_dispatch 5 ex_manager),
    fst (snd (dispatch ex_env_dispatch 5 ex_manager)), snd (snd (dispatch ex_env_dispatch 5 ex_manager)))" by simp
  moreover have "?j \<in> set (fst (snd (dispatch ex_env_dispatch 5 ex_manager)))" using n by simp
  ultimately have "j_status (qj_job ?j) = JobQueued \<and> \<not> cooling ex_env_dispatch 5 ?j"
    using dispatch_eligible [of ex_env_dispatch 5 ex_manager _ _ _ ?j] by blast
  then show ?thesis using n by (intro bexI [of _ ?j]) simp_all
qed

text \<open>
  The queue's order is respected: among the jobs a pass looks at, a job is passed over in
  favour of one behind it of the same kind only for a reason of its own (it is running or with
  a worker, or its catalog is full or cooling down).
\<close>

theorem dispatch_order:
  assumes "dispatch env now m = (m', started, maint)" and "twf j_id (q_jobs (m_queue m))"
    and "due_jobs now (de_db env) (m_queue m) = as @ j # bs" and "i \<in> set bs" and "i \<in> set started" and "j \<notin> set started"
    and "j_kind (qj_job i) = j_kind (qj_job j)"
  shows "own_reason env (at_least_one (de_downloads env)) now m' j"
  using assms(1)
proof (cases rule: dispatch_cases)
  case idle
  with assms(5) show ?thesis by simp
next
  case (pass ma)
  have "distinct (rows (q_jobs (m_queue m)))" using assms(2) by (simp add: twf_def distinct_map)
  moreover have "inj (with_source (de_db env) (m_queue m))" by (rule injI) (simp add: with_source_def Let_def)
  ultimately have "distinct (due_jobs now (de_db env) (m_queue m))"
    unfolding due_jobs_def distinct_map by (blast intro: inj_on_subset distinct_take distinct_filter distinct_sort [THEN iffD2])
  from loop_order [OF pass(4) [unfolded assms(3)] assms(6)] this assms(3,4,5,7)
  have "own_reason env (at_least_one (de_downloads env)) now ma j" by simp
  then show ?thesis using pass(3) by (simp add: own_reason_def same_running_def)
qed

text \<open>The first job of the queue is still running from an earlier pass.\<close>

definition ex_busy :: manager_state where
  "ex_busy = ex_manager\<lparr>m_running := [(j_id (qj_job (hd (due_jobs 5 ex_db ex_queue))), JobKindDownload)]\<rparr>"

theorem dispatch_order_witness:
  "own_reason ex_env_dispatch (at_least_one DefaultDownloads) 5 (fst (dispatch ex_env_dispatch 5 ex_busy)) (hd (due_jobs 5 ex_db ex_queue))"
proof -
  let ?D = "due_jobs 5 ex_db ex_queue" and ?r = "dispatch ex_env_dispatch 5 ex_busy"
  have "?r = (fst ?r, fst (snd ?r), snd (snd ?r))" by simp
  moreover have "twf j_id (q_jobs (m_queue ex_busy))" by code_simp
  moreover have "due_jobs 5 (de_db ex_env_dispatch) (m_queue ex_busy) = [] @ hd ?D # tl ?D" by code_simp
  moreover have "hd (tl ?D) \<in> set (tl ?D)" "hd (tl ?D) \<in> set (fst (snd ?r))" "hd ?D \<notin> set (fst (snd ?r))"
    "j_kind (qj_job (hd (tl ?D))) = j_kind (qj_job (hd ?D))" by code_simp+
  ultimately have "own_reason ex_env_dispatch (at_least_one (de_downloads ex_env_dispatch)) 5 (fst ?r) (hd ?D)"
    by (rule dispatch_order)
  then show ?thesis by (simp add: ex_env_dispatch_def)
qed

end
