(* ===== verification/ImageCheck.thy ===== *)
theory ImageCheck
  imports Model "HOL-Library.Word"
begin

text \<open>
  The check of a downloaded page (\<open>internal/imagecheck\<close>): the format from its first bytes, the
  rejection of HTML answers, and the dimensions, with the JPEG XL box walker and bit reader
  byte by byte.  Decoding the header of the four formats the Go libraries know is a parameter.
  A slice expression out of range panics; that is the result \<open>None\<close> of the walker.
\<close>

unbundle bit_operations_syntax

type_synonym bytes = "8 word list"

section \<open>Reading numbers\<close>

definition be_value :: "bytes \<Rightarrow> int" where
  "be_value b = foldl (\<lambda>v x. v * 256 + uint x) 0 b"

definition be32 :: "bytes \<Rightarrow> nat \<Rightarrow> int" where "be32 b i = be_value (take 4 (drop i b))"
definition be64 :: "bytes \<Rightarrow> nat \<Rightarrow> int" where "be64 b i = be_value (take 8 (drop i b))"

text \<open>\<open>int(int32(binary.LittleEndian.Uint32(...)))\<close>, and the wrap-around of an \<open>int\<close>.\<close>

definition le32_signed :: "bytes \<Rightarrow> nat \<Rightarrow> int" where
  "le32_signed b i = signed_take_bit 31 (be_value (rev (take 4 (drop i b))))"

definition wrap64 :: "int \<Rightarrow> int" where
  "wrap64 x = signed_take_bit 63 x"

section \<open>Formats\<close>

definition ascii :: "string \<Rightarrow> bytes" where
  "ascii s = map (\<lambda>c. word_of_int (of_char c)) s"

definition starts_with :: "bytes \<Rightarrow> bytes \<Rightarrow> bool" where
  "starts_with b p \<longleftrightarrow> take (length p) b = p"

definition sniff :: "bytes \<Rightarrow> string" where
  "sniff b =
     (if starts_with b [0xFF, 0xD8, 0xFF] then ''jpeg''
      else if starts_with b ([0x89] @ ascii ''PNG'' @ [0x0D, 0x0A, 0x1A, 0x0A]) then ''png''
      else if starts_with b (ascii ''GIF87a'') \<or> starts_with b (ascii ''GIF89a'') then ''gif''
      else if starts_with b (ascii ''RIFF'') \<and> take 4 (drop 8 b) = ascii ''WEBP'' then ''webp''
      else if take 4 (drop 4 b) = ascii ''ftyp'' \<and> (take 4 (drop 8 b) = ascii ''avif'' \<or> take 4 (drop 8 b) = ascii ''avis'') then ''avif''
      else if starts_with b [0xFF, 0x0A] \<or> starts_with b ([0, 0, 0, 0x0C] @ ascii ''JXL '') then ''jxl''
      else if starts_with b (ascii ''BM'') then ''bmp''
      else [])"

text \<open>\<open>bytes.Index\<close>.\<close>

fun byte_index :: "bytes \<Rightarrow> bytes \<Rightarrow> nat option" where
  "byte_index [] p = (if p = [] then Some 0 else None)"
| "byte_index (x # xs) p = (if starts_with (x # xs) p then Some 0 else map_option Suc (byte_index xs p))"

definition avifSize :: "bytes \<Rightarrow> int \<times> int" where
  "avifSize b =
     (case byte_index b (ascii ''ispe'') of
        None \<Rightarrow> (0, 0)
      | Some i \<Rightarrow> if i + 16 > length b then (0, 0) else (be32 b (i + 8), be32 b (i + 12)))"

section \<open>JPEG XL\<close>

text \<open>The bit reader: its bytes are fixed, its state is the position; reading past the end stops.\<close>

fun reader_u :: "nat \<Rightarrow> nat \<Rightarrow> bytes \<Rightarrow> nat \<Rightarrow> 32 word \<Rightarrow> 32 word \<times> nat" where
  "reader_u i 0 b pos v = (v, pos)"
| "reader_u i (Suc n) b pos v =
     (if pos div 8 \<ge> length b then (v, pos)
      else let x = drop_bit (pos mod 8) (b ! (pos div 8)) AND 1
           in reader_u (i + 1) n b (pos + 1) (v OR push_bit i (ucast x)))"

definition read_bits :: "nat \<Rightarrow> bytes \<Rightarrow> nat \<Rightarrow> 32 word \<times> nat" where
  "read_bits n b pos = reader_u 0 n b pos 0"

definition sizeDim :: "bool \<Rightarrow> bytes \<Rightarrow> nat \<Rightarrow> 32 word \<times> nat" where
  "sizeDim small b pos =
     (if small then (let (x, pos) = read_bits 5 b pos in (8 * (1 + x), pos))
      else let (sel, pos) = read_bits 2 b pos;
               (x, pos) = read_bits (if sel = 0 then 9 else if sel = 1 then 13 else if sel = 2 then 18 else 30) b pos
           in (1 + x, pos))"

definition jxlRatios :: "(64 word \<times> 64 word) list" where
  "jxlRatios = [(0, 0), (1, 1), (12, 10), (4, 3), (3, 2), (16, 9), (5, 4), (2, 1)]"

definition ratio_width :: "32 word \<Rightarrow> 32 word \<Rightarrow> 32 word" where
  "ratio_width ratio h = (let (num, den) = jxlRatios ! unat ratio in ucast (ucast h * num div den))"

definition jxlCodestreamSize :: "bytes \<Rightarrow> int \<times> int" where
  "jxlCodestreamSize b =
     (let (s, pos) = read_bits 1 b 0; (h, pos) = sizeDim (s = 1) b pos; (ratio, pos) = read_bits 3 b pos;
          w = (if ratio = 0 then fst (sizeDim (s = 1) b pos) else ratio_width ratio h)
      in (uint w, uint h))"

text \<open>A box's length and header length from its two length fields.\<close>

definition box_sizes :: "bytes \<Rightarrow> nat \<Rightarrow> int \<times> int" where
  "box_sizes b off =
     (let n = be32 b off; left = int (length b) - int off;
          (n, hdr) = (if n = 1 \<and> off + 16 \<le> length b then (wrap64 (be64 b (off + 8)), 16) else (n, 8));
          n = (if n = 0 then left else n)
      in (if n < hdr \<or> wrap64 (int off + n) > int (length b) then left else n, hdr))"

lemma box_sizes_pos:
  assumes "off + 8 \<le> length b" and "(n, hdr) = box_sizes b off"
  shows "0 < hdr \<and> hdr \<le> n \<and> hdr \<le> 16"
proof -
  obtain m h where m: "(m, h) = (if be32 b off = 1 \<and> off + 16 \<le> length b then (wrap64 (be64 b (off + 8)), 16 :: int) else (be32 b off, 8 :: int))"
    by (metis surj_pair)
  then have h: "h = 8 \<or> h = 16 \<and> off + 16 \<le> length b" by (simp split: if_splits)
  from m have "hdr = h" "n = (let m = (if m = 0 then int (length b) - int off else m) in
      if m < h \<or> wrap64 (int off + m) > int (length b) then int (length b) - int off else m)"
    using assms(2) by (simp_all add: box_sizes_def Let_def flip: m split: if_splits)
  then show ?thesis using h assms(1) by (auto simp: Let_def split: if_splits)
qed

lemma box_sizes_forward:
  assumes "off + 8 \<le> length b" and "(n, hdr) = box_sizes b off"
  shows "length b - (off + nat n) < length b - off"
  using box_sizes_pos [OF assms] assms(1) by linarith

text \<open>
  The walk over the boxes.  \<open>b[off+hdr : off+size]\<close> panics when its bounds are out of order.
\<close>

function jxl_boxes :: "bytes \<Rightarrow> nat \<Rightarrow> (int \<times> int) option" where
  "jxl_boxes b off =
     (if off + 8 \<le> length b then
        (let (n, hdr) = box_sizes b off; typ = take 4 (drop (off + 4) b); stop = wrap64 (int off + n) in
         if stop < int off + hdr then None
         else let body = take (nat (n - hdr)) (drop (off + nat hdr) b) in
           if typ = ascii ''jxlc'' \<and> starts_with body [0xFF, 0x0A] then Some (jxlCodestreamSize (drop 2 body))
           else if typ = ascii ''jxlp'' \<and> length body > 4 \<and> starts_with (drop 4 body) [0xFF, 0x0A] then Some (jxlCodestreamSize (drop 6 body))
           else jxl_boxes b (off + nat n))
      else Some (0, 0))"
  by pat_completeness auto
termination
  by (relation "measure (\<lambda>(b, off). length b - off)") (auto intro: box_sizes_forward)

definition jxlSize :: "bytes \<Rightarrow> (int \<times> int) option" where
  "jxlSize b = (if starts_with b [0xFF, 0x0A] then Some (jxlCodestreamSize (drop 2 b)) else jxl_boxes b 0)"

section \<open>The check\<close>

datatype image_error = ErrEmpty | ErrHTML | ErrUnknown | Corrupt string string | BadDimensions string | Panicked

record image_info =
  i_format :: string
  i_width :: int
  i_height :: int

text \<open>\<open>bytes.TrimSpace\<close>: the encodings of the characters \<open>unicode.IsSpace\<close> accepts.\<close>

definition spaces :: "bytes list" where
  "spaces = map (\<lambda>x. [x]) [0x09, 0x0A, 0x0B, 0x0C, 0x0D, 0x20] @ [[0xC2, 0x85], [0xC2, 0xA0], [0xE1, 0x9A, 0x80],
     [0xE2, 0x80, 0xA8], [0xE2, 0x80, 0xA9], [0xE2, 0x80, 0xAF], [0xE2, 0x81, 0x9F], [0xE3, 0x80, 0x80]]
     @ map (\<lambda>x. [0xE2, 0x80, x]) [0x80, 0x81, 0x82, 0x83, 0x84, 0x85, 0x86, 0x87, 0x88, 0x89, 0x8A]"

lemma spaces_nonempty: "[] \<notin> set spaces"
  by (simp add: spaces_def)

function trim_left :: "bytes list \<Rightarrow> bytes \<Rightarrow> bytes" where
  "trim_left ws b =
     (case find (\<lambda>w. w \<noteq> [] \<and> b \<noteq> [] \<and> starts_with b w) ws of None \<Rightarrow> b | Some w \<Rightarrow> trim_left ws (drop (length w) b))"
  by pat_completeness auto
termination by (relation "measure (\<lambda>(ws, b). length b)") (auto simp: find_Some_iff)

definition TrimSpace :: "bytes \<Rightarrow> bytes" where
  "TrimSpace b = rev (trim_left (map rev spaces) (rev (trim_left spaces b)))"

definition lower_bytes :: "bytes \<Rightarrow> bytes" where
  "lower_bytes b = map (\<lambda>x. if 0x41 \<le> x \<and> x \<le> 0x5A then x + 0x20 else x) b"

definition looks_html :: "bytes \<Rightarrow> bool" where
  "looks_html data =
     (let trimmed = TrimSpace (take 512 data)
      in starts_with trimmed (ascii ''<'') \<or> byte_index (lower_bytes trimmed) (ascii ''<html'') \<noteq> None)"

text \<open>\<open>Detect\<close>, for \<open>image.DecodeConfig\<close>'s answer.\<close>

definition Detect :: "(bytes \<Rightarrow> string + int \<times> int) \<Rightarrow> bytes \<Rightarrow> image_error + image_info" where
  "Detect decode data =
     (if length data < 12 then Inl ErrEmpty
      else
        let format = sniff data; info = (\<lambda>(w, h). Inr \<lparr>i_format = format, i_width = w, i_height = h\<rparr>) in
        if format = [] then Inl (if looks_html data then ErrHTML else ErrUnknown)
        else if format \<in> {''jpeg'', ''png'', ''gif'', ''webp''} then
          (case decode data of
             Inl e \<Rightarrow> Inl (Corrupt format e)
           | Inr (w, h) \<Rightarrow> if w = 0 \<or> h = 0 then Inl (BadDimensions format) else info (w, h))
        else if format = ''avif'' then info (avifSize data)
        else if format = ''jxl'' then (case jxlSize data of None \<Rightarrow> Inl Panicked | Some x \<Rightarrow> info x)
        else if length data \<ge> 26 then info (le32_signed data 18, \<bar>le32_signed data 22\<bar>)
        else info (0, 0))"

lemma sniff_formats: "sniff data \<in> {[], ''jpeg'', ''png'', ''gif'', ''webp'', ''avif'', ''jxl'', ''bmp''}"
  by (simp add: sniff_def)

lemma Detect_Inr:
  assumes "Detect decode data = Inr info"
  shows "12 \<le> length data" "sniff data \<noteq> []" "i_format info = sniff data"
    "i_format info \<in> {''jpeg'', ''png'', ''gif'', ''webp'', ''avif'', ''jxl'', ''bmp''}"
proof -
  show "12 \<le> length data" "sniff data \<noteq> []" "i_format info = sniff data"
    using assms by (simp_all add: Detect_def Let_def case_prod_beta split: if_splits sum.splits option.splits) (auto split: if_splits sum.splits option.splits)
  then show "i_format info \<in> {''jpeg'', ''png'', ''gif'', ''webp'', ''avif'', ''jxl'', ''bmp''}"
    using sniff_formats [of data] by auto
qed

section \<open>Panics\<close>

text \<open>A box whose 64-bit length is positive as an \<open>int\<close> and, added to its offset, is not.\<close>

definition wraps_at :: "bytes \<Rightarrow> nat \<Rightarrow> bool" where
  "wraps_at b off \<longleftrightarrow> off + 16 \<le> length b \<and> be32 b off = 1 \<and> be64 b (off + 8) < 2 ^ 63 \<and> 2 ^ 63 \<le> int off + be64 b (off + 8)"

lemma foldl_be: "foldl (\<lambda>v x. v * 256 + uint x) a b = a * 256 ^ length b + be_value b" for b :: bytes
proof (induction b rule: rev_induct)
  case (snoc x xs)
  then show ?case by (simp add: be_value_def algebra_simps)
qed (simp add: be_value_def)

lemma be_value_bounds: "0 \<le> be_value b \<and> be_value b < 256 ^ length b"
proof (induction b rule: rev_induct)
  case (snoc x xs)
  have "be_value (xs @ [x]) = be_value xs * 256 + uint x" by (simp add: be_value_def)
  moreover have "0 \<le> uint x" "uint x < 256" using uint_lt2p [of x] by simp_all
  ultimately show ?case using snoc by simp
qed (simp add: be_value_def)

lemma be32_bounds: "0 \<le> be32 b i" "be32 b i < 2 ^ 32"
proof -
  have "length (take 4 (drop i b)) \<le> 4" by simp
  then have "(256 :: int) ^ length (take 4 (drop i b)) \<le> 256 ^ 4" by (intro power_increasing) simp_all
  then show "0 \<le> be32 b i" "be32 b i < 2 ^ 32"
    using be_value_bounds [of "take 4 (drop i b)"] by (simp_all add: be32_def)
qed

lemma be64_bounds: "0 \<le> be64 b i" "be64 b i < 2 ^ 64"
proof -
  have "length (take 8 (drop i b)) \<le> 8" by simp
  then have "(256 :: int) ^ length (take 8 (drop i b)) \<le> 256 ^ 8" by (intro power_increasing) simp_all
  then show "0 \<le> be64 b i" "be64 b i < 2 ^ 64"
    using be_value_bounds [of "take 8 (drop i b)"] by (simp_all add: be64_def)
qed

lemma wrap64_id: "- (2 ^ 63) \<le> x \<Longrightarrow> x < 2 ^ 63 \<Longrightarrow> wrap64 x = x"
  by (simp add: wrap64_def signed_take_bit_int_eq_self)

lemma wrap64_high:
  assumes "2 ^ 63 \<le> x" and "x < 2 ^ 64" shows "wrap64 x < 0"
proof -
  have "wrap64 x = (x + 2 ^ 63) mod 2 ^ 64 - 2 ^ 63"
    by (simp add: wrap64_def signed_take_bit_eq_take_bit_shift take_bit_eq_mod)
  also have "(x + 2 ^ 63) mod 2 ^ 64 = ((x - 2 ^ 63) + 2 ^ 64) mod 2 ^ 64" by (simp add: algebra_simps)
  also have "\<dots> = x - 2 ^ 63" using assms by (simp only: mod_add_self2) (simp add: mod_pos_pos_trivial)
  finally show ?thesis using assms by simp
qed

text \<open>Only such a box makes the slice's bounds go out of order.\<close>

lemma box_in_order:
  assumes "off + 8 \<le> length b" and len: "int (length b) < 2 ^ 62" and "(n, hdr) = box_sizes b off" and "\<not> wraps_at b off"
  shows "wrap64 (int off + n) = int off + n \<and> int off + n \<le> int (length b)"
proof -
  have left: "wrap64 (int (length b)) = int (length b)" using len by (intro wrap64_id) simp_all
  define m where "m = (if be32 b off = 1 \<and> off + 16 \<le> length b then wrap64 (be64 b (off + 8)) else be32 b off)"
  define m' where "m' = (if m = 0 then int (length b) - int off else m)"
  have n: "n = (if m' < hdr \<or> wrap64 (int off + m') > int (length b) then int (length b) - int off else m')"
    using assms(3) by (auto simp: box_sizes_def Let_def m_def m'_def split: if_splits)
  show ?thesis
  proof (cases "n = int (length b) - int off")
    case True
    then show ?thesis using left by simp
  next
    case False
    then have nm: "n = m'" "\<not> m' < hdr" "wrap64 (int off + m') \<le> int (length b)" using n by (auto split: if_splits)
    have m0: "m' = m" using False nm(1) by (auto simp: m'_def)
    have pos: "0 < m" using box_sizes_pos [OF assms(1,3)] nm m0 by simp
    have "int off + m < 2 ^ 63"
    proof (cases "be32 b off = 1 \<and> off + 16 \<le> length b")
      case True
      then have m: "m = wrap64 (be64 b (off + 8))" by (simp add: m_def)
      then have "be64 b (off + 8) < 2 ^ 63" using pos wrap64_high [of "be64 b (off + 8)"] be64_bounds [of b "off + 8"] by linarith
      moreover from this have "m = be64 b (off + 8)" using m wrap64_id [of "be64 b (off + 8)"] be64_bounds [of b "off + 8"] by simp
      ultimately show ?thesis using assms(4) True by (simp add: wraps_at_def)
    next
      case False
      then have "m < 2 ^ 32" using be32_bounds [of b off] by (simp only: m_def if_False)
      then show ?thesis using assms(1) len by simp
    qed
    then have "wrap64 (int off + m) = int off + m" using pos by (intro wrap64_id) simp_all
    then show ?thesis using nm m0 by simp
  qed
qed

lemma jxl_boxes_panic:
  assumes "jxl_boxes b off = None" and len: "int (length b) < 2 ^ 62"
  shows "\<exists>i. wraps_at b i"
  using assms(1)
proof (induction "length b - off" arbitrary: off rule: less_induct)
  case less
  have o8: "off + 8 \<le> length b" using less.prems by (subst (asm) jxl_boxes.simps) (simp split: if_splits)
  obtain n hdr where s: "(n, hdr) = box_sizes b off" by (metis surj_pair)
  show ?case
  proof (cases "wraps_at b off")
    case False
    then have "jxl_boxes b (off + nat n) = None"
      using less.prems o8 s [symmetric] box_in_order [OF o8 len s False] box_sizes_pos [OF o8 s]
      by (subst (asm) jxl_boxes.simps) (simp add: Let_def split: if_splits)
    then show ?thesis using less.hyps box_sizes_forward [OF o8 s] by blast
  qed blast
qed

section \<open>The bit reader\<close>

text \<open>The stream of bits: every byte's lowest bit first.  A field of \<open>n\<close> bits has its lowest bit first.\<close>

definition bits :: "bytes \<Rightarrow> bool list" where
  "bits b = concat (map (\<lambda>x. map (bit x) [0..<8]) b)"

definition field :: "nat \<Rightarrow> nat \<Rightarrow> bool list" where
  "field n x = map (bit x) [0..<n]"

lemma length_bits [simp]: "length (bits b) = 8 * length b"
  by (induction b) (simp_all add: bits_def)

lemma nth_bits: "pos < 8 * length b \<Longrightarrow> bits b ! pos = bit (b ! (pos div 8)) (pos mod 8)"
proof (induction b arbitrary: pos)
  case (Cons x b)
  have c: "bits (x # b) = map (bit x) [0..<8] @ bits b" by (simp add: bits_def)
  show ?case
  proof (cases "pos < 8")
    case False
    then have "pos div 8 = Suc ((pos - 8) div 8)" "pos mod 8 = (pos - 8) mod 8" by (auto simp: le_div_geq le_mod_geq)
    then show ?thesis using Cons False by (simp add: c nth_append)
  qed (simp add: c nth_append)
qed simp

text \<open>What the reader returns: the value of the next bits, as far as there are some.\<close>

lemma reader_u_bits:
  assumes "pos + n \<le> 8 * length b" and "i + n \<le> 32"
  shows "snd (reader_u i n b pos v) = pos + n" and
    "bit (fst (reader_u i n b pos v)) k = (bit v k \<or> i \<le> k \<and> k < i + n \<and> bits b ! (pos + (k - i)))"
proof -
  have "snd (reader_u i n b pos v) = pos + n \<and>
    (\<forall>k. bit (fst (reader_u i n b pos v)) k = (bit v k \<or> i \<le> k \<and> k < i + n \<and> bits b ! (pos + (k - i))))"
    using assms
  proof (induction n arbitrary: i pos v)
    case (Suc n)
    let ?x = "drop_bit (pos mod 8) (b ! (pos div 8)) AND (1 :: 8 word)"
    have lt: "pos div 8 < length b" using Suc.prems by simp
    have x: "bit (push_bit i (ucast ?x) :: 32 word) k = (k = i \<and> bits b ! pos)" for k
      using nth_bits [of pos b] Suc.prems
      by (auto simp: bit_push_bit_iff bit_ucast_iff bit_and_iff bit_1_iff bit_drop_bit_eq)
    have r: "reader_u i (Suc n) b pos v = reader_u (i + 1) n b (pos + 1) (v OR push_bit i (ucast ?x))"
      using lt by (simp add: Let_def)
    have "(bit v k \<or> (k = i \<and> bits b ! pos) \<or> i + 1 \<le> k \<and> k < i + 1 + n \<and> bits b ! (pos + 1 + (k - (i + 1)))) =
        (bit v k \<or> i \<le> k \<and> k < i + Suc n \<and> bits b ! (pos + (k - i)))" for k
      by (cases "k \<le> i") (auto simp flip: Suc_diff_Suc)
    then show ?case unfolding r using Suc.IH [of "pos + 1" "i + 1"] Suc.prems by (simp add: bit_or_iff x disj_assoc)
  qed auto
  then show "snd (reader_u i n b pos v) = pos + n"
    "bit (fst (reader_u i n b pos v)) k = (bit v k \<or> i \<le> k \<and> k < i + n \<and> bits b ! (pos + (k - i)))" by blast+
qed

lemma bit_word_of_nat': "k < 32 \<Longrightarrow> bit (word_of_nat x :: 32 word) k = bit x k" "32 \<le> k \<Longrightarrow> \<not> bit (word_of_nat x :: 32 word) k"
  by (simp_all add: bit_of_nat_iff possible_bit_word)

lemma read_bits_field:
  assumes "bits b = pre @ field n x @ rest" and "pos = length pre" and "n \<le> 32" and "x < 2 ^ n"
  shows "read_bits n b pos = (word_of_nat x, pos + n)"
proof -
  have len: "pos + n \<le> 8 * length b" using arg_cong [OF assms(1), of length] assms(2) by (simp add: field_def)
  have "bit (fst (read_bits n b pos)) k = bit (word_of_nat x :: 32 word) k" for k
  proof (cases "k < n")
    case True
    then have "bits b ! (pos + k) = bit x k" by (simp add: assms(1,2) nth_append field_def)
    then show ?thesis using reader_u_bits(2) [OF len, of 0 0 k] True assms(3) by (simp add: read_bits_def bit_word_of_nat')
  next
    case False
    then have "\<not> bit x k" using assms(4) by (metis bit_take_bit_iff take_bit_nat_eq_self)
    then show ?thesis using reader_u_bits(2) [OF len, of 0 0 k] False assms(3) by (simp add: read_bits_def bit_of_nat_iff)
  qed
  then have "fst (read_bits n b pos) = word_of_nat x" by (rule bit_eqI)
  then show ?thesis using reader_u_bits(1) [OF len, of 0 0] assms(3) by (simp add: read_bits_def prod_eq_iff)
qed

text \<open>The size header of the format: a small dimension is a multiple of 8 up to 256, others are up to \<open>2^30\<close>.\<close>

definition dim_ok :: "bool \<Rightarrow> nat \<Rightarrow> bool" where
  "dim_ok small x \<longleftrightarrow> 0 < x \<and> (if small then 8 dvd x \<and> x \<le> 256 else x \<le> 2 ^ 30)"

definition dim_bits :: "bool \<Rightarrow> nat \<Rightarrow> bool list" where
  "dim_bits small x =
     (if small then field 5 (x div 8 - 1)
      else if x - 1 < 2 ^ 9 then field 2 0 @ field 9 (x - 1)
      else if x - 1 < 2 ^ 13 then field 2 1 @ field 13 (x - 1)
      else if x - 1 < 2 ^ 18 then field 2 2 @ field 18 (x - 1)
      else field 2 3 @ field 30 (x - 1))"

definition ratio_of :: "nat \<Rightarrow> nat \<Rightarrow> nat" where
  "ratio_of r h = h * [0, 1, 12, 4, 3, 16, 5, 2] ! r div [1, 1, 10, 3, 2, 9, 4, 1] ! r"

definition size_header :: "bool \<Rightarrow> nat \<Rightarrow> nat \<Rightarrow> nat \<Rightarrow> bool list" where
  "size_header small h r w = [small] @ dim_bits small h @ field 3 r @ (if r = 0 then dim_bits small w else [])"

lemma length_field [simp]: "length (field n x) = n"
  by (simp add: field_def)

lemma field_one: "[x] = field 1 (of_bool x)"
  by (simp add: field_def bit_Suc_0_iff)

lemma sizeDim_bits:
  assumes "bits b = pre @ dim_bits small x @ rest" and "pos = length pre" and "dim_ok small x"
  shows "sizeDim small b pos = (word_of_nat x, pos + length (dim_bits small x))"
proof -
  have x1: "(1 :: 32 word) + word_of_nat (x - 1) = word_of_nat x"
    using assms(3) by (cases x) (simp_all add: dim_ok_def)
  show ?thesis
  proof (cases small)
    case True
    have b: "bits b = pre @ field 5 (x div 8 - 1) @ rest" using assms(1) True by (simp add: dim_bits_def)
    obtain k where k: "x = 8 * k" "0 < k" "k \<le> 32" using assms(3) True by (auto simp: dim_ok_def)
    have "read_bits 5 b pos = (word_of_nat (k - 1), pos + 5)"
      using read_bits_field [OF b assms(2)] k by simp
    moreover have "(8 :: 32 word) * (1 + word_of_nat (k - 1)) = word_of_nat (8 * k)" using k(2) by (cases k) (simp_all add: algebra_simps)
    ultimately show ?thesis using True k by (simp add: sizeDim_def dim_bits_def)
  next
    case False
    define sel where "sel = (if x - 1 < 2 ^ 9 then 0 else if x - 1 < 2 ^ 13 then 1 else if x - 1 < 2 ^ 18 then 2 else 3 :: nat)"
    define n where "n = (if x - 1 < 2 ^ 9 then 9 else if x - 1 < 2 ^ 13 then 13 else if x - 1 < 2 ^ 18 then 18 else 30 :: nat)"
    have db: "dim_bits small x = field 2 sel @ field n (x - 1)" using False by (simp add: dim_bits_def sel_def n_def)
    have lt: "x - 1 < 2 ^ n" using assms(3) False by (auto simp: n_def dim_ok_def)
    have b1: "bits b = pre @ field 2 sel @ field n (x - 1) @ rest" and b2: "bits b = (pre @ field 2 sel) @ field n (x - 1) @ rest"
      using assms(1) db by simp_all
    have "read_bits 2 b pos = (word_of_nat sel, pos + 2)" by (rule read_bits_field [OF b1 assms(2)]) (simp_all add: sel_def)
    moreover have "read_bits n b (pos + 2) = (word_of_nat (x - 1), pos + 2 + n)"
      by (rule read_bits_field [OF b2]) (use lt assms(2) in \<open>simp_all add: n_def\<close>)
    moreover have "(if (word_of_nat sel :: 32 word) = 0 then 9 else if (word_of_nat sel :: 32 word) = 1 then 13
        else if (word_of_nat sel :: 32 word) = 2 then 18 else 30) = n" by (simp add: sel_def n_def)
    moreover have "length (dim_bits small x) = 2 + n" by (simp add: db)
    ultimately show ?thesis using False x1 by (simp add: sizeDim_def)
  qed
qed

lemma unat_up: "unat (ucast x :: 64 word) = unat (x :: 32 word)"
  by transfer simp

lemma unat_down: "unat (ucast x :: 32 word) = unat (x :: 64 word) mod 2 ^ 32"
  by (simp add: unsigned_ucast_eq take_bit_eq_mod)

lemma ratio_width_ok:
  assumes "0 < r" and "r < 8" and "h \<le> 2 ^ 30"
  shows "uint (ratio_width (word_of_nat r) (word_of_nat h)) = int (ratio_of r h)"
proof -
  have e: "unat (ucast (ucast (word_of_nat h :: 32 word) * n div d :: 64 word) :: 32 word) = h * unat n div unat d"
    if "unat n \<le> 16" "0 < unat d" "h * unat n div unat d < 2 ^ 32" for n d :: "64 word"
  proof -
    have "h * unat n \<le> 2 ^ 30 * 16" using assms(3) that(1) by (rule mult_le_mono)
    then have lt: "h * unat n < 2 ^ LENGTH(64)" by simp
    have h: "unat (word_of_nat h :: 32 word) = h" using assms(3) by (simp add: unat_of_nat)
    have a: "unat (ucast (word_of_nat h :: 32 word) :: 64 word) = h"
      unfolding unat_up h by (rule refl)
    have "unat (ucast (word_of_nat h :: 32 word) * n :: 64 word) = h * unat n"
      using lt unfolding unat_word_ariths a by (rule mod_less)
    then show ?thesis unfolding unat_down unat_div using that(3) by simp
  qed
  have "r = 1 \<or> r = 2 \<or> r = 3 \<or> r = 4 \<or> r = 5 \<or> r = 6 \<or> r = 7" using assms(1,2) by linarith
  then have "unat (ratio_width (word_of_nat r) (word_of_nat h)) = ratio_of r h" using assms(3) e [of 1 1] e [of 2 1]
    by (elim disjE) (simp_all add: ratio_width_def jxlRatios_def ratio_of_def e)
  then show ?thesis by (metis of_nat_unat)
qed

text \<open>
  C31: The dimensions of a bare JPEG XL image are read back exactly: whatever height and width the
  format's size header encodes, in its short or its long form, with a width of its own or a fixed
  aspect ratio, the check reports that width and height, at every bit alignment.
\<close>

theorem jxl_size_roundtrip:
  assumes "sniff ([0xFF, 0x0A] @ b) = ''jxl''" and "length b \<ge> 10"
    and "bits b = size_header small h r w @ rest" and "dim_ok small h" and "r < 8" and "r = 0 \<Longrightarrow> dim_ok small w"
  shows "Detect decode ([0xFF, 0x0A] @ b) =
    Inr \<lparr>i_format = ''jxl'', i_width = int (if r = 0 then w else ratio_of r h), i_height = int h\<rparr>"
proof -
  have h30: "h \<le> 2 ^ 30" using assms(4) by (auto simp: dim_ok_def split: if_splits)
  have b0: "bits b = [] @ field 1 (of_bool small) @ dim_bits small h @ field 3 r @ (if r = 0 then dim_bits small w else []) @ rest"
    and b1: "bits b = [small] @ dim_bits small h @ field 3 r @ (if r = 0 then dim_bits small w else []) @ rest"
    and b2: "bits b = ([small] @ dim_bits small h) @ field 3 r @ (if r = 0 then dim_bits small w else []) @ rest"
    and b3: "r = 0 \<Longrightarrow> bits b = ([small] @ dim_bits small h @ field 3 r) @ dim_bits small w @ rest"
    by (simp_all only: assms(3) size_header_def field_one append_assoc append_Nil) simp_all
  have "read_bits 1 b 0 = (word_of_nat (of_bool small), 1)" using read_bits_field [OF b0] by simp
  moreover have "sizeDim small b 1 = (word_of_nat h, 1 + length (dim_bits small h))" by (rule sizeDim_bits [OF b1 _ assms(4)]) simp
  moreover have "read_bits 3 b (1 + length (dim_bits small h)) = (word_of_nat r, 1 + length (dim_bits small h) + 3)"
    by (rule read_bits_field [OF b2]) (use assms(5) in simp_all)
  moreover have "r = 0 \<Longrightarrow> fst (sizeDim small b (1 + length (dim_bits small h) + 3)) = word_of_nat w"
    using sizeDim_bits [OF b3 _ assms(6)] by simp
  moreover have "(word_of_nat r :: 32 word) = 0 \<longleftrightarrow> r = 0" using assms(5) by (auto simp: word_of_nat_eq_0_iff dest: dvd_imp_le)
  moreover have "dim_ok small w \<Longrightarrow> uint (word_of_nat w :: 32 word) = int w" "uint (word_of_nat h :: 32 word) = int h"
    using h30 by (auto simp: dim_ok_def take_bit_nat_eq_self unsigned_of_nat split: if_splits)
  ultimately have "jxlCodestreamSize b = (int (if r = 0 then w else ratio_of r h), int h)"
    using assms(4,5,6) ratio_width_ok [of r h] h30 by (cases small) (auto simp: jxlCodestreamSize_def)
  then show ?thesis using assms(1,2) by (simp add: Detect_def Let_def jxlSize_def starts_with_def)
qed

text \<open>The header of a 300 by 450 page, in its long form.\<close>

definition ex_jxl :: bytes where
  "ex_jxl = [8, 14, 86, 2, 0, 0, 0, 0, 0, 0]"

theorem jxl_size_roundtrip_witness:
  "\<forall>decode. Detect decode ([0xFF, 0x0A] @ ex_jxl) = Inr \<lparr>i_format = ''jxl'', i_width = 300, i_height = 450\<rparr>"
proof -
  have s: "sniff ([0xFF, 0x0A] @ ex_jxl) = ''jxl''" by code_simp
  have b: "bits ex_jxl = size_header False 450 0 300 @ drop (length (size_header False 450 0 300)) (bits ex_jxl)" by code_simp
  have "Detect d ([0xFF, 0x0A] @ ex_jxl) = Inr \<lparr>i_format = ''jxl'', i_width = 300, i_height = 450\<rparr>" for d
    using jxl_size_roundtrip [OF s _ b] by (simp add: ex_jxl_def dim_ok_def)
  then show ?thesis by simp
qed

text \<open>
  C36: The check panics on one kind of input only: a JPEG XL container with a box whose 64-bit
  length is so large that adding the box's offset overflows an \<open>int\<close>.  Every other input, however
  malformed, is answered with an error or with dimensions.
\<close>

theorem detect_panics_only:
  assumes "Detect decode data = Inl Panicked" and "int (length data) < 2 ^ 62"
  shows "sniff data = ''jxl'' \<and> (\<exists>i. wraps_at data i)"
proof -
  have j: "sniff data = ''jxl'' \<and> jxlSize data = None"
    using assms(1) by (auto simp: Detect_def Let_def split: if_splits sum.splits option.splits prod.splits)
  then have "jxl_boxes data 0 = None" by (simp add: jxlSize_def split: if_splits)
  then show ?thesis using jxl_boxes_panic assms(2) j by blast
qed

text \<open>The signature box and a box of length \<open>2^63 - 1\<close>.\<close>

definition ex_overflow :: bytes where
  "ex_overflow = [0, 0, 0, 0x0C] @ ascii ''JXL '' @ [0x0D, 0x0A, 0x87, 0x0A] @ [0, 0, 0, 1] @ ascii ''jxlc''
     @ [0x7F, 0xFF, 0xFF, 0xFF, 0xFF, 0xFF, 0xFF, 0xFF]"

lemma overflow_panics: "Detect decode ex_overflow = Inl Panicked"
proof -
  have "length ex_overflow = 28" "sniff ex_overflow = ''jxl''" "jxlSize ex_overflow = None" by code_simp+
  then show ?thesis by (simp add: Detect_def Let_def)
qed

theorem detect_panics_only_witness: "\<exists>i. wraps_at ex_overflow i"
proof -
  have "length ex_overflow = 28" by code_simp
  with detect_panics_only [OF overflow_panics] show ?thesis by simp
qed

text \<open>
  C1: What the check lets through is an image it recognised: of one of the seven formats by its
  first bytes, at least twelve bytes long, with dimensions that are not zero where the Go libraries
  decode the header; and an answer that starts with \<open><\<close> after white space is rejected as HTML
  unless its first bytes are also an image signature.
\<close>

theorem detect_accepts:
  "(Detect decode data = Inr info \<longrightarrow> 12 \<le> length data \<and> i_format info = sniff data \<and>
      i_format info \<in> {''jpeg'', ''png'', ''gif'', ''webp'', ''avif'', ''jxl'', ''bmp''} \<and>
      (i_format info \<in> {''jpeg'', ''png'', ''gif'', ''webp''} \<longrightarrow>
         decode data = Inr (i_width info, i_height info) \<and> i_width info \<noteq> 0 \<and> i_height info \<noteq> 0)) \<and>
   (12 \<le> length data \<and> sniff data = [] \<and> starts_with (TrimSpace (take 512 data)) (ascii ''<'') \<longrightarrow>
      Detect decode data = Inl ErrHTML)"
proof -
  have "decode data = Inr (i_width info, i_height info) \<and> i_width info \<noteq> 0 \<and> i_height info \<noteq> 0"
    if "Detect decode data = Inr info" "sniff data \<in> {''jpeg'', ''png'', ''gif'', ''webp''}"
    using that by (cases "decode data") (auto simp: Detect_def Let_def split: if_splits)
  moreover have "Detect decode data = Inl ErrHTML"
    if "12 \<le> length data" "sniff data = []" "starts_with (TrimSpace (take 512 data)) (ascii ''<'')"
    using that by (simp add: Detect_def looks_html_def Let_def)
  ultimately show ?thesis using Detect_Inr [of decode data info] by simp
qed

theorem detect_accepts_witness:
  "Detect (\<lambda>_. Inl []) (ascii '' <!DOCTYPE html>'') = Inl ErrHTML"
proof -
  have "12 \<le> length (ascii '' <!DOCTYPE html>'')" "sniff (ascii '' <!DOCTYPE html>'') = []"
    "starts_with (TrimSpace (take 512 (ascii '' <!DOCTYPE html>''))) (ascii ''<'')" by code_simp+
  with detect_accepts show ?thesis by blast
qed

end
