(* ===== verification/Offload.thy ===== *)
theory Offload
  imports Pipeline Dispatch ImageCheck
begin

text \<open>
  Handing a download to a worker (\<open>internal/downloads/offload.go\<close>): the task is written, the
  worker uploads pages into the job's working directory, and its success, failure or absence
  settles the job.  The state adds the task ledger, the specs of its download tasks and the
  contents of the working directories to the pipeline's.
\<close>

section \<open>State and answers\<close>

record page_spec =
  ps_index :: int
  ps_name :: string
  ps_url :: string
  ps_headers :: "(string \<times> string) list"

record worker_budget =
  wb_min_delay :: int
  wb_jitter :: int
  wb_per_minute :: "int option"
  wb_concurrent :: "int option"

record download_spec =
  ds_pages :: "page_spec list"
  ds_prefetch :: int
  ds_series :: string
  ds_chapter :: string
  ds_rate :: "worker_budget option"

type_synonym staged = "(string \<times> bytes) list"

record offload_state =
  of_p :: pipeline
  of_tasks :: "ledger option"
  of_specs :: "int64 \<Rightarrow> download_spec option"
  of_staged :: "int64 \<Rightarrow> staged option"

abbreviation on_p :: "(pipeline \<Rightarrow> pipeline) \<Rightarrow> offload_state \<Rightarrow> offload_state" where
  "on_p f x \<equiv> x\<lparr>of_p := f (of_p x)\<rparr>"

text \<open>
  The module's answers: whether it is there, whether its pages can be fetched elsewhere, the
  pages (an error says whether it is \<open>ErrNotFound\<close> and \<open>ErrUnsupported\<close>; \<open>errors.Is\<close> does not
  see through the package's own wrappers), each with its request if one can be made.
\<close>

record offload_env =
  oe_run :: run_env
  oe_downloads :: downloads_settings
  oe_module :: "job_ctx \<Rightarrow> run_error option"
  oe_fetchable :: "job_ctx \<Rightarrow> bool"
  oe_list :: "job_ctx \<Rightarrow> (run_error \<times> bool \<times> bool) + (string \<times> (string \<times> string) list) option list"
  oe_add_error :: "run_error option"
  oe_decode :: "bytes \<Rightarrow> string + int \<times> int"
  oe_readdir_error :: run_error

section \<open>Handing over\<close>

definition workersFor :: "time \<Rightarrow> task_kind \<Rightarrow> placement \<Rightarrow> ledger \<Rightarrow> bool" where
  "workersFor now role placement l =
     list_ex (\<lambda>w. HasRole w role \<and>
         (placement = PlaceWorkers \<or> (case w_last_seen_at w of None \<Rightarrow> False | Some t \<Rightarrow> now - t < 2 * minute)))
       (filter w_enabled (rows (l_workers l)))"

definition workerBudget :: "run_env \<Rightarrow> governor option \<Rightarrow> job_ctx \<Rightarrow> int \<Rightarrow> worker_budget option" where
  "workerBudget env gov jc perSource =
     (case gov of
        None \<Rightarrow> None
      | Some _ \<Rightarrow>
          (let lim = rn_limits env (link_key jc); share = max perSource 1 in
           Some \<lparr>wb_min_delay = t_min_delay_ms lim, wb_jitter = t_jitter_ms lim,
             wb_per_minute = (if t_requests_per_minute lim > 0 then Some (max (t_requests_per_minute lim div share) 1) else None),
             wb_concurrent = (if t_max_concurrent lim > 0 then Some (max (t_max_concurrent lim div share) 1) else None)\<rparr>))"

definition put_back :: "time \<Rightarrow> download_job \<Rightarrow> queue_state \<Rightarrow> queue_state" where
  "put_back now job s = fst (write_job False (\<lambda>j. j\<lparr>j_status := JobQueued, j_updated_at := now\<rparr>) (j_id job) s)"

datatype specs_error = Unsupported | SpecsFailed run_error

fun page_requests :: "nat \<Rightarrow> (string \<times> (string \<times> string) list) option list \<Rightarrow> page_spec list option" where
  "page_requests i [] = Some []"
| "page_requests i (p # ps) =
     (case p of
        None \<Rightarrow> None
      | Some (url, headers) \<Rightarrow>
          if url = [] then None
          else (case page_requests (i + 1) ps of
                  None \<Rightarrow> None
                | Some out \<Rightarrow> Some (\<lparr>ps_index = int i, ps_name = pad4 (i + 1), ps_url = url, ps_headers = headers\<rparr> # out)))"

definition pageSpecs :: "offload_env \<Rightarrow> job_ctx \<Rightarrow> specs_error + page_spec list" where
  "pageSpecs env jc =
     (case oe_module env jc of
        Some e \<Rightarrow> Inl (SpecsFailed (infra e))
      | None \<Rightarrow>
          if \<not> oe_fetchable env jc then Inl Unsupported
          else
            case oe_list env jc of
              Inl (e, notFound, unsupported) \<Rightarrow>
                Inl (if notFound then SpecsFailed (permanent e)
                     else if unsupported \<and> \<not> re_infra (classify e) then Unsupported else SpecsFailed (classify e))
            | Inr pages \<Rightarrow>
                let want = pc_min_pages (pr_config (jc_profile jc)) in
                if want > 0 \<and> int (length pages) < want then Inl (SpecsFailed (too_short (int (length pages)) want))
                else (case page_requests 0 pages of None \<Rightarrow> Inl Unsupported | Some out \<Rightarrow> Inr out))"

definition stage_download :: string where "stage_download = ''download''"

definition progress :: "time \<Rightarrow> download_job \<Rightarrow> int \<Rightarrow> int \<Rightarrow> int64 \<Rightarrow> pipeline \<Rightarrow> pipeline \<times> download_job" where
  "progress now job finished tot bytesIn p =
     (let l = Live_update now (j_id job) \<lparr>ev_stage = stage_download, ev_done = finished, ev_total = tot, ev_bytes_in = bytesIn, ev_bytes_out = 0\<rparr>
                (pl_live p);
          (m, job) = job_progress now job finished tot (pl_m p)
      in (p\<lparr>pl_live := l, pl_m := m\<rparr>, job))"

definition fails_with :: "offload_env \<Rightarrow> time \<Rightarrow> download_job \<Rightarrow> job_ctx option \<Rightarrow> run_error \<Rightarrow> offload_state \<Rightarrow> offload_state" where
  "fails_with env now job jc e x = on_p (failed (oe_run env) now job jc e) x"

text \<open>The task for a job whose pages could be resolved.\<close>

definition hand_over :: "offload_env \<Rightarrow> time \<Rightarrow> download_job \<Rightarrow> job_ctx \<Rightarrow> page_spec list \<Rightarrow> ledger \<Rightarrow> offload_state \<Rightarrow> offload_state" where
  "hand_over env now job jc specs l x =
     (let dl = oe_downloads env; t = seq (l_tasks l) + 1;
          spec = \<lparr>ds_pages = specs, ds_prefetch = dl_worker_prefetch dl, ds_series = s_title (jc_series jc),
             ds_chapter = c_number_key (jc_chapter jc), ds_rate = workerBudget (oe_run env) (pl_gov (of_p x)) jc (dl_max_per_source dl)\<rparr>;
          task = zero_task\<lparr>wt_job_id := j_id job, wt_kind := TaskDownload, wt_pages_total := int (length specs)\<rparr>;
          x = x\<lparr>of_tasks := Some (Add now task l), of_specs := (of_specs x)(t \<mapsto> spec)\<rparr>;
          (s, job) = setStatus now job JobDownloading (Some ChapterDownloading) (pl_queue (of_p x))
      in on_p (\<lambda>p. fst (progress now job 0 (int (length specs)) 0 (on_q (\<lambda>_. s) p))) x)"

text \<open>
  \<open>offload\<close> in three parts: the state after it, whether the job was handed over (if not, it runs
  here), and whether an error is reported.
\<close>

definition offload_pages ::
  "offload_env \<Rightarrow> time \<Rightarrow> download_job \<Rightarrow> job_ctx \<Rightarrow> ledger \<Rightarrow> offload_state \<Rightarrow> offload_state \<times> bool \<times> bool" where
  "offload_pages env now job jc l x =
     (case pageSpecs env jc of
        Inl Unsupported \<Rightarrow> (on_p (on_q (put_back now job)) x, False, False)
      | Inl (SpecsFailed e) \<Rightarrow> (fails_with env now job (Some jc) e x, True, False)
      | Inr specs \<Rightarrow>
          (case oe_add_error env of
             Some e \<Rightarrow> (on_p (on_q (put_back now job)) x, False, True)
           | None \<Rightarrow> (hand_over env now job jc specs l x, True, False)))"

definition offload_claimed ::
  "offload_env \<Rightarrow> time \<Rightarrow> download_job \<Rightarrow> ledger \<Rightarrow> offload_state \<Rightarrow> offload_state \<times> bool \<times> bool" where
  "offload_claimed env now job l x =
     (let r = oe_run env in
      case load_job (fe_db (rn_fail r)) (pl_m (of_p x)) job of
        None \<Rightarrow> (fails_with env now job None (rn_load_error r) x, True, False)
      | Some jc \<Rightarrow>
          (case pick_release r now job jc (of_p x) of
             None \<Rightarrow> (fails_with env now job (Some jc) no_release x, True, False)
           | Some (p, job, jc) \<Rightarrow>
               let (p, ended) = pace_chapter r now jc p; x = on_p (\<lambda>_. p) x in
               (case ended of
                  Some e \<Rightarrow> (fails_with env now job (Some jc) e x, True, False)
                | None \<Rightarrow> offload_pages env now job jc l x)))"

definition offload :: "offload_env \<Rightarrow> time \<Rightarrow> download_job \<Rightarrow> offload_state \<Rightarrow> offload_state \<times> bool \<times> bool" where
  "offload env now job x =
     (case of_tasks x of
        None \<Rightarrow> (x, False, False)
      | Some l \<Rightarrow>
          let dl = oe_downloads env in
          if j_kind job \<noteq> JobKindDownload \<or> dl_worker_placement dl = PlaceLocal
             \<or> \<not> workersFor now TaskDownload (dl_worker_placement dl) l then (x, False, False)
          else
            let (s, ok) = claim now job (pl_queue (of_p x)); x = on_p (on_q (\<lambda>_. s)) x in
            if \<not> ok then (x, True, False) else offload_claimed env now job l x)"

section \<open>Pages that arrive\<close>

text \<open>How the disk answers: a write that fails may leave part of the data under the temporary name.\<close>

datatype disk = DiskOk | MkdirFails run_error | WriteFails run_error bytes | RenameFails run_error

definition put_name :: "string \<Rightarrow> bytes \<Rightarrow> staged \<Rightarrow> staged" where
  "put_name name data dir =
     (if name \<in> fst ` set dir then map (\<lambda>e. if fst e = name then (name, data) else e) dir else dir @ [(name, data)])"

definition files_of :: "staged option \<Rightarrow> staged" where
  "files_of d = (case d of None \<Rightarrow> [] | Some es \<Rightarrow> es)"

definition AcceptPage ::
  "(bytes \<Rightarrow> string + int \<times> int) \<Rightarrow> disk \<Rightarrow> nat \<Rightarrow> bytes \<Rightarrow> staged option \<Rightarrow> staged option \<times> ((image_error + run_error) + page_file)" where
  "AcceptPage decode disk index data dir =
     (case Detect decode data of
        Inl e \<Rightarrow> (dir, Inl (Inl e))
      | Inr info \<Rightarrow>
          let name = PageName index (Ext (i_format info)); tmp = name @ ''.part'';
              pf = \<lparr>pf_name = name, pf_format = i_format info, pf_width = i_width info, pf_height = i_height info\<rparr>
          in (case disk of
                MkdirFails e \<Rightarrow> (dir, Inl (Inr e))
              | WriteFails e part \<Rightarrow> (Some (put_name tmp part (files_of dir)), Inl (Inr e))
              | RenameFails e \<Rightarrow> (Some (put_name tmp data (files_of dir)), Inl (Inr e))
              | DiskOk \<Rightarrow>
                  (Some (put_name name data (filter (\<lambda>f. fst f \<noteq> tmp) (files_of dir))), Inr pf)))"

definition image_text :: "image_error \<Rightarrow> string" where
  "image_text e = (case e of
      ErrEmpty \<Rightarrow> ''empty image'' | ErrHTML \<Rightarrow> ''response is HTML, not an image'' | ErrUnknown \<Rightarrow> ''unknown image format''
    | Corrupt f d \<Rightarrow> ''corrupt '' @ f @ '': '' @ d | BadDimensions f \<Rightarrow> ''invalid '' @ f @ '' dimensions'' | Panicked \<Rightarrow> [])"

text \<open>\<open>filepath.Ext\<close> of a name without a slash.\<close>

definition file_ext :: "string \<Rightarrow> string" where
  "file_ext name =
     (if CHR ''.'' \<in> set name then CHR ''.'' # rev (takeWhile (\<lambda>c. c \<noteq> CHR ''.'') (rev name)) else [])"

text \<open>The entries in the order \<open>os.ReadDir\<close> gives them; \<open>Inl None\<close> is a panic.\<close>

fun collect :: "(bytes \<Rightarrow> string + int \<times> int) \<Rightarrow> staged \<Rightarrow> run_error option + page_file list" where
  "collect decode [] = Inr []"
| "collect decode (e # es) =
     (if file_ext (fst e) = ''.part'' then collect decode es
      else case Detect decode (snd e) of
             Inl Panicked \<Rightarrow> Inl None
           | Inl err \<Rightarrow> Inl (Some (new_error (fst e @ '': '' @ image_text err)))
           | Inr info \<Rightarrow>
               (case collect decode es of
                  Inl x \<Rightarrow> Inl x
                | Inr out \<Rightarrow> Inr (\<lparr>pf_name = fst e, pf_format = i_format info, pf_width = i_width info, pf_height = i_height info\<rparr> # out)))"

definition collectPages :: "offload_env \<Rightarrow> staged option \<Rightarrow> run_error option + page_file list" where
  "collectPages env dir =
     (case dir of
        None \<Rightarrow> Inl (Some (oe_readdir_error env))
      | Some es \<Rightarrow>
          (case collect (oe_decode env) (sort_key fst es) of
             Inl x \<Rightarrow> Inl x
           | Inr out \<Rightarrow> Inr (sort_key pf_name out)))"

section \<open>How a task ends\<close>

definition remove_dir :: "int64 \<Rightarrow> offload_state \<Rightarrow> offload_state" where
  "remove_dir i x = x\<lparr>of_staged := (of_staged x)(i := None), of_p := (of_p x)\<lparr>pl_dirs := pl_dirs (of_p x) - {i}\<rparr>\<rparr>"

definition job_row :: "int64 \<Rightarrow> offload_state \<Rightarrow> download_job option" where
  "job_row i x = tget j_id i (q_jobs (pl_queue (of_p x)))"

abbreviation load_of :: "offload_env \<Rightarrow> download_job \<Rightarrow> offload_state \<Rightarrow> job_ctx option" where
  "load_of env job x \<equiv> load_job (fe_db (rn_fail (oe_run env))) (pl_m (of_p x)) job"

text \<open>\<open>TaskDone\<close>; \<open>None\<close> when collecting the pages panics.\<close>

definition task_done :: "offload_env \<Rightarrow> time \<Rightarrow> worker_task \<Rightarrow> offload_state \<Rightarrow> offload_state option" where
  "task_done env now task x =
     (case job_row (wt_job_id task) x of
        None \<Rightarrow> Some x
      | Some job \<Rightarrow>
          (case load_of env job x of
             None \<Rightarrow> Some (fails_with env now job None (rn_load_error (oe_run env)) x)
           | Some jc \<Rightarrow>
               (case collectPages env (of_staged x (j_id job)) of
                  Inl None \<Rightarrow> None
                | Inl (Some e) \<Rightarrow> Some (fails_with env now job (Some jc) e x)
                | Inr pages \<Rightarrow>
                    let want = wt_pages_total task in
                    if pages = [] then Some (fails_with env now job (Some jc) (new_error ''the worker uploaded no pages'') x)
                    else if want > 0 \<and> int (length pages) \<noteq> want then
                      Some (fails_with env now job (Some jc) (new_error (''the worker uploaded '' @ format_int (int (length pages))
                        @ '' of '' @ format_int want @ '' pages'')) x)
                    else
                      let p = (of_p x)\<lparr>pl_live := Live_start now (j_id job) (kind_text (j_kind job)) (pl_live (of_p x))\<rparr>;
                          p = finish (oe_run env) now job jc pages p;
                          x = remove_dir (j_id job) (x\<lparr>of_p := p\<rparr>)
                      in Some (on_p (\<lambda>p. p\<lparr>pl_live := Live_finish now (j_id job) (pl_live p)\<rparr>) x))))"

definition task_failed :: "offload_env \<Rightarrow> time \<Rightarrow> worker_task \<Rightarrow> string \<Rightarrow> offload_state \<Rightarrow> offload_state" where
  "task_failed env now task reason x =
     (case job_row (wt_job_id task) x of
        None \<Rightarrow> x
      | Some job \<Rightarrow>
          fails_with env now job (load_of env job x) (classify (new_error reason)) (remove_dir (j_id job) x))"

definition task_abandoned :: "offload_env \<Rightarrow> time \<Rightarrow> worker_task \<Rightarrow> string \<Rightarrow> offload_state \<Rightarrow> offload_state" where
  "task_abandoned env now task reason x =
     (case job_row (wt_job_id task) x of
        None \<Rightarrow> x
      | Some job \<Rightarrow>
          if j_status job = JobCompleted \<or> j_status job = JobFailed then x
          else
            let x = remove_dir (j_id job) x in
            if wt_attempt task = 0 then
              on_p (on_q (\<lambda>s. signal (changed ''queue'' ''updated'' (j_id job) (put_back now job s)))) x
            else
              fails_with env now job (load_of env job x)
                (infra (new_error (if reason = [] then ''no worker finished this chapter'' else reason))) x)"

text \<open>\<open>TaskProgress\<close> reports on a job of which it fills in the id only.\<close>

definition bare_job :: "int64 \<Rightarrow> download_job" where
  "bare_job i = \<lparr>j_id = i, j_kind = JobKindDownload, j_series_id = 0, j_chapter_id = 0, j_release_id = None, j_status = JobQueued,
     j_rank = 0, j_priority = 0, j_progress = 0, j_pages_done = 0, j_pages_total = 0, j_attempt = 0, j_is_upgrade = False,
     j_error = [], j_not_before = 0, j_created_at = 0, j_updated_at = 0, j_started_at = None\<rparr>"

definition task_progress :: "time \<Rightarrow> worker_task \<Rightarrow> int \<Rightarrow> int \<Rightarrow> int64 \<Rightarrow> offload_state \<Rightarrow> offload_state" where
  "task_progress now task finished tot bytesIn x =
     on_p (\<lambda>p. fst (progress now (bare_job (wt_job_id task)) finished tot bytesIn p)) x"

section \<open>Facts\<close>

lemma fails_with_frames [simp]:
  "of_tasks (fails_with env now job jc e x) = of_tasks x" "of_staged (fails_with env now job jc e x) = of_staged x"
  "of_specs (fails_with env now job jc e x) = of_specs x"
  by (simp_all add: fails_with_def)

lemma job_in_signal [simp]: "job_in S i (signal s) = job_in S i s"
  by (simp add: job_in_def signal_def)

lemma fails_with_settles:
  assumes "under_way (j_id job) (of_p x)" and "\<not> rn_cancelled (oe_run env)"
  shows "settled_job (j_id job) (of_p (fails_with env now job jc e x))"
  using failed_settles [OF assms] by (simp add: fails_with_def)

lemma put_back_settles:
  assumes "under_way (j_id job) p"
  shows "settled_job (j_id job) (on_q (put_back now job) p)"
proof -
  have ok: "queue_ok (pl_queue p)" and j: "job_in runningStatuses (j_id job) (pl_queue p)" using assms by (simp_all add: under_way_def)
  have "job_in {JobQueued, JobCompleted, JobFailed} (j_id job) (put_back now job (pl_queue p))"
    unfolding put_back_def by (rule write_running [OF ok j]) simp_all
  moreover have "queue_ok (put_back now job (pl_queue p))"
    unfolding put_back_def by (rule write_job_ok [OF ok]) (simp add: keeps_place_def)
  ultimately show ?thesis by (simp add: settled_job_def)
qed

lemma claim_under_way:
  assumes "queue_ok (pl_queue p)" and "claim now job (pl_queue p) = (s, True)"
  shows "under_way (j_id job) (on_q (\<lambda>_. s) p)"
  using claim_runs [OF assms(1), of now job] claim_ok [OF assms(1), of now job] assms(2) by (simp add: under_way_def)

lemma pace_frames: "pl_m (fst (pace_chapter env now jc p)) = pl_m p"
  by (simp add: pace_chapter_def case_prod_beta Let_def split: option.split)

lemma under_way_m: "pl_m p = pl_m q \<Longrightarrow> under_way i p = under_way i q"
  by (simp add: under_way_def)

lemma progress_under_way:
  assumes "under_way i p" shows "under_way i (fst (progress now job d t b p))"
proof -
  let ?f = "\<lambda>k j :: download_job. j\<lparr>j_pages_done := d, j_pages_total := t, j_progress := k\<rparr>"
  have ok: "queue_ok (m_queue (pl_m p))" and j: "job_in runningStatuses i (m_queue (pl_m p))" using assms by (simp_all add: under_way_def)
  have w: "job_in runningStatuses i (fst (write_job False (?f k) n (m_queue (pl_m p))))" for k n
  proof (cases "n = i")
    case True then show ?thesis by (simp add: write_running [OF ok j])
  next
    case False
    then show ?thesis using j
      by (auto simp: job_in_def write_job_def update_jobs_Some set_upd_where split: option.splits intro: rev_bexI)
  qed
  show ?thesis using ok j job_progress_ok [OF ok, of now job d t] w
    by (auto simp: under_way_def progress_def case_prod_beta Let_def job_progress_def)
qed

lemma hand_over_queue:
  assumes "under_way (j_id job) (of_p x)"
  shows "under_way (j_id job) (of_p (hand_over env now job jc specs l x))"
proof -
  obtain s job' where st: "setStatus now job JobDownloading (Some ChapterDownloading) (pl_queue (of_p x)) = (s, job')" by fastforce
  have "under_way (j_id job) (on_q (\<lambda>_. s) (of_p x))"
    using status_under_way [OF assms, where st = JobDownloading and now = now and cst = "Some ChapterDownloading"] st by simp
  then show ?thesis by (simp add: hand_over_def Let_def st progress_under_way)
qed

lemma hand_over_task:
  "\<exists>l' t spec. of_tasks (hand_over env now job jc specs l x) = Some l' \<and> t \<in> set (rows (l_tasks l')) \<and> wt_job_id t = j_id job \<and>
     wt_kind t = TaskDownload \<and> Open t \<and> of_specs (hand_over env now job jc specs l x) (wt_id t) = Some spec \<and>
     ds_pages spec = specs \<and> wt_pages_total t = int (length specs)"
proof -
  let ?task = "zero_task\<lparr>wt_job_id := j_id job, wt_kind := TaskDownload, wt_pages_total := int (length specs)\<rparr>"
  obtain spec where h: "of_tasks (hand_over env now job jc specs l x) = Some (Add now ?task l)"
      "of_specs (hand_over env now job jc specs l x) (seq (l_tasks l) + 1) = Some spec" "ds_pages spec = specs"
    by (simp add: hand_over_def Let_def case_prod_beta)
  have a: "\<exists>t \<in> set (rows (l_tasks (Add now ?task l))). wt_id t = seq (l_tasks l) + 1 \<and> wt_job_id t = j_id job \<and>
      wt_kind t = TaskDownload \<and> Open t \<and> wt_pages_total t = int (length specs)"
    by (simp add: Add_def Let_def tinsert_def changed_job_def Open_def zero_task_def)
  then obtain t where t: "t \<in> set (rows (l_tasks (Add now ?task l)))" "wt_id t = seq (l_tasks l) + 1" "wt_job_id t = j_id job"
      "wt_kind t = TaskDownload" "Open t" "wt_pages_total t = int (length specs)" by blast
  show ?thesis
    by (rule exI [of _ "Add now ?task l"], rule exI [of _ t], rule exI [of _ spec]) (intro conjI h(1,3) t(1,3-6) h(2) [folded t(2)])
qed

text \<open>Where a job stands that waits for its task.\<close>

definition handed_over :: "int64 \<Rightarrow> offload_state \<Rightarrow> bool" where
  "handed_over i y \<longleftrightarrow> job_in runningStatuses i (pl_queue (of_p y)) \<and>
     (\<exists>l t spec. of_tasks y = Some l \<and> t \<in> set (rows (l_tasks l)) \<and> wt_job_id t = i \<and> wt_kind t = TaskDownload \<and> Open t \<and>
        of_specs y (wt_id t) = Some spec \<and> wt_pages_total t = int (length (ds_pages spec)))"

lemma hand_over_ok:
  assumes "under_way (j_id job) (of_p x)"
  shows "queue_ok (pl_queue (of_p (hand_over env now job jc specs l x))) \<and> handed_over (j_id job) (hand_over env now job jc specs l x)"
  using hand_over_queue [OF assms, of env now jc specs l] hand_over_task [of env now job jc specs l x]
  by (auto simp: under_way_def handed_over_def)

abbreviation left_in_order :: "int64 \<Rightarrow> offload_state \<times> bool \<times> bool \<Rightarrow> bool" where
  "left_in_order i r \<equiv> settled_job i (of_p (fst r)) \<or> fst (snd r) \<and> queue_ok (pl_queue (of_p (fst r))) \<and> handed_over i (fst r)"

lemma offload_pages_ok:
  assumes "under_way (j_id job) (of_p x)" and "\<not> rn_cancelled (oe_run env)"
  shows "left_in_order (j_id job) (offload_pages env now job jc l x)"
  using fails_with_settles [OF assms] put_back_settles [OF assms(1)] hand_over_ok [OF assms(1)]
  by (auto simp: offload_pages_def split: sum.split specs_error.split option.split)

lemma offload_claimed_ok:
  assumes w: "under_way (j_id job) (of_p x)" and c: "\<not> rn_cancelled (oe_run env)"
  shows "left_in_order (j_id job) (offload_claimed env now job l x)"
proof (cases "load_job (fe_db (rn_fail (oe_run env))) (pl_m (of_p x)) job")
  case (Some jc)
  show ?thesis
  proof (cases "pick_release (oe_run env) now job jc (of_p x)")
    case None
    then show ?thesis using fails_with_settles [OF w c] Some by (simp add: offload_claimed_def Let_def)
  next
    case P: (Some t)
    then obtain p' job' jc' where p: "pick_release (oe_run env) now job jc (of_p x) = Some (p', job', jc')" by (cases t) auto
    obtain p2 ended where pc: "pace_chapter (oe_run env) now jc' p' = (p2, ended)" by fastforce
    have id: "j_id job' = j_id job" using pick_release_under_way [OF p] by simp
    have w2: "under_way (j_id job') (of_p (on_p (\<lambda>_. p2) x))"
      using pick_release_under_way [OF p] w pace_frames [of "oe_run env" now jc' p'] pc by (simp add: under_way_def)
    show ?thesis
      using fails_with_settles [OF w2 c] offload_pages_ok [OF w2 c, of now jc' l] unfolding id
      by (cases ended) (simp_all add: offload_claimed_def Let_def Some p pc)
  qed
qed (use fails_with_settles [OF w c] in \<open>simp add: offload_claimed_def Let_def\<close>)

text \<open>
  C21: Handing a job to the workers loses no job: after the attempt the queue's invariant holds and,
  unless another process had taken the job, it is queued, failed or completed, or it is running and
  the ledger holds an open download task for it whose spec lists as many pages as the task counts.
  When the job was not handed over, it is untouched or out of the running states again, so the
  local run that follows can claim it.
\<close>

theorem offload_outcome:
  assumes "queue_ok (pl_queue (of_p x))" and "\<not> rn_cancelled (oe_run env)" and "offload env now job x = (y, handed, err)"
  shows "queue_ok (pl_queue (of_p y)) \<and>
    (if handed then \<not> snd (claim now job (pl_queue (of_p x))) \<or> settled_job (j_id job) (of_p y) \<or> handed_over (j_id job) y
     else y = x \<or> settled_job (j_id job) (of_p y))"
proof -
  obtain s ok where c: "claim now job (pl_queue (of_p x)) = (s, ok)" by fastforce
  have q: "queue_ok s" using claim_ok [OF assms(1), of now job] c by simp
  have so: "queue_ok (pl_queue p)" if "settled_job i p" for i p using that by (simp add: settled_job_def)
  show ?thesis
  proof (cases "of_tasks x")
    case None
    then show ?thesis using assms(1,3) by (auto simp: offload_def)
  next
    case (Some l)
    have r: "left_in_order (j_id job) (offload_claimed env now job l (on_p (on_q (\<lambda>_. s)) x))" if "ok"
      by (rule offload_claimed_ok) (use claim_under_way [OF assms(1)] c that assms(2) in simp_all)
    have "(y, handed, err) = (x, False, False) \<or> \<not> ok \<and> (y, handed, err) = (on_p (on_q (\<lambda>_. s)) x, True, False) \<or>
        ok \<and> (y, handed, err) = offload_claimed env now job l (on_p (on_q (\<lambda>_. s)) x)"
      using assms(3) by (simp add: offload_def Let_def Some c split: if_splits)
    then show ?thesis using assms(1) q r so c by (elim disjE conjE) (auto simp: fst_def snd_def split: prod.splits)
  qed
qed

text \<open>A job with a release, a worker that is online, and a module that can say where two pages are.\<close>

definition ex_shop :: offload_state where
  "ex_shop = \<lparr>of_p = on_q (\<lambda>s. s\<lparr>q_releases := \<lparr>rows = [sample_release], seq = 1\<rparr>\<rparr>) ex_pipeline, of_tasks = Some ex_ledger,
     of_specs = (\<lambda>_. None), of_staged = (\<lambda>_. None)\<rparr>"

definition ex_away :: offload_env where
  "ex_away = \<lparr>oe_run = ex_run, oe_downloads = DefaultDownloads, oe_module = (\<lambda>_. None), oe_fetchable = (\<lambda>_. True),
     oe_list = (\<lambda>_. Inr [Some (''https://a.example/1'', []), Some (''https://a.example/2'', [])]), oe_add_error = None,
     oe_decode = (\<lambda>_. Inr (800, 1200)), oe_readdir_error = ex_error\<rparr>"

lemma ex_shop_ok: "queue_ok (pl_queue (of_p ex_shop))"
  using ex_queue_inv by (simp add: ex_shop_def ex_pipeline_def ex_manager_def queue_ok_def)

lemma ex_away_runs: "\<not> rn_cancelled (oe_run ex_away)"
  by (simp add: ex_away_def ex_run_def)

theorem offload_outcome_witness:
  "settled_job 3 (of_p (fst (offload ex_away 100 ex_job ex_shop))) \<or> handed_over 3 (fst (offload ex_away 100 ex_job ex_shop))"
proof -
  let ?r = "offload ex_away 100 ex_job ex_shop"
  have h: "fst (snd ?r)" by code_simp
  have c: "snd (claim 100 ex_job (pl_queue (of_p ex_shop)))" by code_simp
  have i: "j_id ex_job = 3" by (simp add: ex_job_def)
  have "?r = (fst ?r, True, snd (snd ?r))" using h by (simp add: prod_eq_iff)
  from offload_outcome [OF ex_shop_ok ex_away_runs this] c show ?thesis unfolding i by simp
qed

lemma job_row_runs:
  assumes "queue_ok (pl_queue (of_p x))" and "job_in runningStatuses i (pl_queue (of_p x))"
  obtains j where "job_row i x = Some j" "j_id j = i" "j_status j \<in> runningStatuses"
proof -
  obtain j where j: "j \<in> set (rows (q_jobs (pl_queue (of_p x))))" "j_id j = i" "j_status j \<in> runningStatuses"
    using assms(2) by (auto simp: job_in_def)
  have "twf j_id (q_jobs (pl_queue (of_p x)))" using assms(1) by (simp add: queue_ok_def ranks_ok_def)
  then have "job_row i x = Some j" using jobs_table.get_member j by (auto simp: job_row_def)
  with j show thesis using that by blast
qed

lemma remove_dir_frames [simp]:
  "of_staged (remove_dir i x) i = None" "pl_m (of_p (remove_dir i x)) = pl_m (of_p x)" "job_row k (remove_dir i x) = job_row k x"
  by (simp_all add: remove_dir_def job_row_def)

lemma under_way_remove [simp]: "under_way i (of_p (remove_dir k x)) = under_way i (of_p x)"
  by (simp add: under_way_def)

lemma settled_m: "pl_m p = pl_m q \<Longrightarrow> settled_job i p = settled_job i q"
  by (simp add: settled_job_def)



section \<open>What was uploaded is what is collected\<close>

primrec uploads :: "(bytes \<Rightarrow> string + int \<times> int) \<Rightarrow> (nat \<times> bytes) list \<Rightarrow> staged option \<Rightarrow> staged option" where
  "uploads decode [] dir = dir"
| "uploads decode (u # us) dir = uploads decode us (fst (AcceptPage decode DiskOk (fst u) (snd u) dir))"

lemma uploads_append: "uploads decode (us @ vs) dir = uploads decode vs (uploads decode us dir)"
  by (induction us arbitrary: dir) auto

abbreviation accepts :: "(bytes \<Rightarrow> string + int \<times> int) \<Rightarrow> nat \<Rightarrow> bytes \<Rightarrow> page_file \<Rightarrow> bool" where
  "accepts decode i data pf \<equiv> snd (AcceptPage decode DiskOk i data None) = Inr pf"

lemma accepts_info:
  assumes "accepts decode i data pf"
  obtains info where "Detect decode data = Inr info" "pf_name pf = PageName i (Ext (pf_format pf))" "pf_format pf = i_format info"
    "pf_width pf = i_width info" "pf_height pf = i_height info"
proof (cases "Detect decode data")
  case (Inr info)
  then have "pf = \<lparr>pf_name = PageName i (Ext (i_format info)), pf_format = i_format info, pf_width = i_width info, pf_height = i_height info\<rparr>"
    using assms by (simp add: AcceptPage_def Let_def)
  then show thesis using that [OF Inr] by simp
qed (use assms in \<open>simp add: AcceptPage_def\<close>)

lemma page_name_ext:
  assumes "f \<in> {''jpeg'', ''png'', ''gif'', ''webp'', ''avif'', ''jxl'', ''bmp''}"
  shows "file_ext (PageName i (Ext f)) \<noteq> ''.part''" "PageName i (Ext f) \<noteq> n @ ''.part''"
proof -
  have "last (Ext f) \<noteq> CHR ''t''" "Ext f \<noteq> []" "file_ext (x @ Ext f) = Ext f" for x
    using assms by (auto simp: Ext_def file_ext_def)
  then show "file_ext (PageName i (Ext f)) \<noteq> ''.part''" by (auto simp: PageName_def)
  show "PageName i (Ext f) \<noteq> n @ ''.part''"
  proof
    assume "PageName i (Ext f) = n @ ''.part''"
    then have "last (PageName i (Ext f)) = CHR ''t''" by simp
    with \<open>last (Ext f) \<noteq> CHR ''t''\<close> \<open>Ext f \<noteq> []\<close> show False by (simp add: PageName_def)
  qed
qed

lemma page_name_inj: "i < 9999 \<Longrightarrow> j < 9999 \<Longrightarrow> PageName i e = PageName j e' \<Longrightarrow> i = j"
  using page_names_sorted [of i j e e'] page_names_sorted [of j i e' e] by (cases i j rule: linorder_cases) simp_all

lemma put_name_set:
  assumes "distinct (map fst dir)"
  shows "set (put_name n d dir) = {e \<in> set dir. fst e \<noteq> n} \<union> {(n, d)}" "distinct (map fst (put_name n d dir))"
proof -
  show "set (put_name n d dir) = {e \<in> set dir. fst e \<noteq> n} \<union> {(n, d)}"
  proof (cases "n \<in> fst ` set dir")
    case True
    then obtain e where e: "e \<in> set dir" "fst e = n" by auto
    have "(\<lambda>e. if fst e = n then (n, d) else e) ` set dir = {e \<in> set dir. fst e \<noteq> n} \<union> {(n, d)}"
    proof (intro subset_antisym subsetI)
      fix y assume "y \<in> {e \<in> set dir. fst e \<noteq> n} \<union> {(n, d)}"
      then show "y \<in> (\<lambda>e. if fst e = n then (n, d) else e) ` set dir"
        using e by (cases "y = (n, d)") (auto intro: image_eqI [of _ _ e] image_eqI [of _ _ y])
    qed auto
    then show ?thesis using True by (simp add: put_name_def)
  next
    case False
    then have "{e \<in> set dir. fst e \<noteq> n} = set dir" by auto
    then show ?thesis using False by (simp add: put_name_def)
  qed
  have "map fst (map (\<lambda>e. if fst e = n then (n, d) else e) dir) = map fst dir" by (induction dir) auto
  then show "distinct (map fst (put_name n d dir))" using assms
    by (cases "n \<in> fst ` set dir") (simp_all add: put_name_def del: map_map)
qed

text \<open>
  After uploads of known pages, the last upload of each page is what its file holds, whatever
  was uploaded before, as long as a page's format stays the same.
\<close>

lemma uploads_entries:
  assumes "\<And>i d. (i, d) \<in> set us \<Longrightarrow> i < 9999 \<and> accepts decode i d (pf i d)"
    and "\<And>i d d'. (i, d) \<in> set us \<Longrightarrow> (i, d') \<in> set us \<Longrightarrow> pf_format (pf i d) = pf_format (pf i d')"
  shows "distinct (map fst (files_of (uploads decode us None))) \<and>
    set (files_of (uploads decode us None)) = {(pf_name (pf i d), d) | i d. map_of (rev us) i = Some d} \<and>
    (us \<noteq> [] \<longrightarrow> uploads decode us None \<noteq> None)"
  using assms
proof (induction us rule: rev_induct)
  case (snoc u us)
  obtain i d where u: "u = (i, d)" by (cases u)
  let ?dir = "uploads decode us None"
  have IH: "distinct (map fst (files_of ?dir))" "set (files_of ?dir) = {(pf_name (pf i d), d) | i d. map_of (rev us) i = Some d}"
  proof -
    have "distinct (map fst (files_of ?dir)) \<and> set (files_of ?dir) = {(pf_name (pf i d), d) | i d. map_of (rev us) i = Some d} \<and>
        (us \<noteq> [] \<longrightarrow> ?dir \<noteq> None)"
    proof (rule snoc.IH)
      show "i < 9999 \<and> accepts decode i d (pf i d)" if "(i, d) \<in> set us" for i d by (rule snoc.prems(1)) (simp add: that)
      show "pf_format (pf i d) = pf_format (pf i d')" if "(i, d) \<in> set us" "(i, d') \<in> set us" for i d d'
        by (rule snoc.prems(2)) (simp_all add: that)
    qed
    then show "distinct (map fst (files_of ?dir))" "set (files_of ?dir) = {(pf_name (pf i d), d) | i d. map_of (rev us) i = Some d}"
      by blast+
  qed
  have i: "i < 9999" and a: "accepts decode i d (pf i d)" using snoc.prems(1) [of i d] u by simp_all
  let ?n = "pf_name (pf i d)"
  obtain info where info: "Detect decode d = Inr info" and n: "?n = PageName i (Ext (i_format info))"
    using accepts_info [OF a] by metis
  have name: "pf_name (pf k x) = PageName k (Ext (pf_format (pf k x))) \<and>
      pf_format (pf k x) \<in> {''jpeg'', ''png'', ''gif'', ''webp'', ''avif'', ''jxl'', ''bmp''}" if "(k, x) \<in> set (us @ [u])" for k x
    using accepts_info [OF conjunct2 [OF snoc.prems(1) [OF that]]] Detect_Inr(4) by metis
  have old: "(k, x) \<in> set us" if "map_of (rev us) k = Some x" for k x using map_of_SomeD [OF that] by simp
  have "filter (\<lambda>f. fst f \<noteq> ?n @ ''.part'') (files_of ?dir) = files_of ?dir"
  proof (rule filter_True, rule ballI)
    fix e assume "e \<in> set (files_of ?dir)"
    then obtain k x where k: "e = (pf_name (pf k x), x)" "(k, x) \<in> set us" using IH(2) old by blast
    then show "fst e \<noteq> ?n @ ''.part''" using name [of k x] page_name_ext(2) [of "pf_format (pf k x)" k ?n] by simp
  qed
  then have up: "uploads decode (us @ [u]) None = Some (put_name ?n d (files_of ?dir))"
    using n by (simp add: uploads_append u AcceptPage_def info Let_def)
  have same: "pf_name (pf k x) = ?n \<longleftrightarrow> k = i" if "(k, x) \<in> set us" for k x
  proof
    assume e: "pf_name (pf k x) = ?n"
    have "PageName k (Ext (pf_format (pf k x))) = PageName i (Ext (i_format info))" using name [of k x] that e n by simp
    then show "k = i" by (rule page_name_inj [rotated 2]) (use snoc.prems(1) [of k x] that i in simp_all)
  next
    assume "k = i"
    then show "pf_name (pf k x) = ?n"
      using name [of k x] name [of i d] that u snoc.prems(2) [of i d x] by simp
  qed
  have "{e \<in> set (files_of ?dir). fst e \<noteq> ?n} \<union> {(?n, d)} = {(pf_name (pf k x), x) | k x. map_of (rev (us @ [u])) k = Some x}"
    using IH(2) same old u by (auto split: if_splits)
  then show ?case using put_name_set [OF IH(1), of ?n d] by (simp add: up files_of_def)
qed (simp add: files_of_def)

lemma collect_map:
  assumes "\<And>i. i \<in> set ks \<Longrightarrow> accepts decode i (d i) (p i)"
  shows "collect decode (map (\<lambda>i. (pf_name (p i), d i)) ks) = Inr (map p ks)"
  using assms
proof (induction ks)
  case (Cons k ks)
  obtain info where i: "Detect decode (d k) = Inr info" "pf_name (p k) = PageName k (Ext (pf_format (p k)))" "pf_format (p k) = i_format info"
    "pf_width (p k) = i_width info" "pf_height (p k) = i_height info" by (rule accepts_info [OF Cons.prems [of k]]) auto
  have g: "\<lparr>pf_name = pf_name (p k), pf_format = i_format info, pf_width = i_width info, pf_height = i_height info\<rparr> = p k"
    by (rule page_file.equality) (simp_all add: i(3-5))
  have "file_ext (pf_name (p k)) \<noteq> ''.part''" unfolding i(2) using page_name_ext(1) Detect_Inr(4) [OF i(1)] i(3) by simp
  then show ?case using Cons.IH Cons.prems i(1) g by simp
qed simp

text \<open>
  Uploads are collected exactly: whatever the order a worker sends the pages in, and however
  often it sends one again, once every page of the chapter was accepted the job gets all of them, in
  page order, each with the contents of its last upload.  (A page sent again in another format is
  outside this: see the lemma after it.)
\<close>

theorem uploads_collected:
  assumes "fst ` set us = {..<n}" and "0 < n" and "n < 10000"
    and ok: "\<And>i d. (i, d) \<in> set us \<Longrightarrow> accepts (oe_decode env) i d (pf i d)"
    and fmt: "\<And>i d d'. (i, d) \<in> set us \<Longrightarrow> (i, d') \<in> set us \<Longrightarrow> pf_format (pf i d) = pf_format (pf i d')"
  shows "collectPages env (uploads (oe_decode env) us None) = Inr (map (\<lambda>i. pf i (the (map_of (rev us) i))) [0..<n])"
proof -
  let ?es = "files_of (uploads (oe_decode env) us None)" and ?d = "\<lambda>i. the (map_of (rev us) i)"
  let ?nm = "\<lambda>i. pf_name (pf i (?d i))" and ?l = "map (\<lambda>i. (pf_name (pf i (?d i)), ?d i)) [0..<n]"
  have b: "i < 9999 \<and> accepts (oe_decode env) i d (pf i d)" if "(i, d) \<in> set us" for i d
  proof -
    have "i \<in> fst ` set us" using that by (auto intro: image_eqI [of _ _ "(i, d)"])
    then show ?thesis using assms(1,3) ok [OF that] by simp
  qed
  note E = uploads_entries [of us "oe_decode env" pf, OF b fmt]
  have dom: "map_of (rev us) i = Some (?d i) \<and> (i, ?d i) \<in> set us" if "i < n" for i
  proof -
    have "i \<in> fst ` set (rev us)" using that assms(1) by simp
    then have "map_of (rev us) i \<noteq> None" by (simp add: map_of_eq_None_iff)
    then show ?thesis using map_of_SomeD [of "rev us" i "?d i"] by auto
  qed
  have in_dom: "i < n" if "map_of (rev us) i = Some d" for i d
  proof -
    have "(i, d) \<in> set us" using map_of_SomeD [OF that] by simp
    then have "i \<in> fst ` set us" by (auto intro: image_eqI [of _ _ "(i, d)"])
    then show ?thesis using assms(1) by simp
  qed
  have name: "?nm i = PageName i (Ext (pf_format (pf i (?d i))))" if "i < n" for i
    using accepts_info [OF ok [OF conjunct2 [OF dom [OF that]]]] by metis
  have sorted: "sorted_wrt (<) (map ?nm [0..<n])"
    unfolding sorted_wrt_iff_nth_less using name page_names_sorted assms(3) by simp
  then have sd: "sorted (map ?nm [0..<n])" "distinct (map ?nm [0..<n])" by (simp_all add: strict_sorted_iff)
  have set_es: "set ?es = {(pf_name (pf i d), d) | i d. map_of (rev us) i = Some d}" and dist: "distinct (map fst ?es)" using E by blast+
  have "set ?es = set ?l"
  proof (intro subset_antisym subsetI)
    fix e assume "e \<in> set ?es"
    then obtain i d where e: "e = (pf_name (pf i d), d)" "map_of (rev us) i = Some d" unfolding set_es by blast
    then have "e = (?nm i, ?d i)" "i \<in> set [0..<n]" using in_dom by simp_all
    then show "e \<in> set ?l" by (simp only: set_map) (rule imageI)
  next
    fix e assume "e \<in> set ?l"
    then obtain i where "e = (?nm i, ?d i)" "i < n" by auto
    then show "e \<in> set ?es" unfolding set_es using dom by blast
  qed
  moreover have l: "map fst ?l = map ?nm [0..<n]" by simp
  moreover have "inj_on fst (set ?l)" using sd(2) by (simp only: l [symmetric] distinct_map)
  moreover have "distinct (map fst (sort_key fst ?es))" using dist by (simp add: distinct_map)
  ultimately have s: "sort_key fst ?es = ?l"
    using sd by (intro map_sorted_distinct_set_unique [where f = fst]) (simp_all only: l set_sort sorted_sort_key Un_absorb)
  have c: "collect (oe_decode env) ?l = Inr (map (\<lambda>i. pf i (?d i)) [0..<n])"
    by (rule collect_map) (use ok dom in simp)
  have "us \<noteq> []" using assms(1,2) by auto
  then obtain es where es: "uploads (oe_decode env) us None = Some es" using E by auto
  have "sort_key pf_name (map (\<lambda>i. pf i (?d i)) [0..<n]) = map (\<lambda>i. pf i (?d i)) [0..<n]"
    by (rule sort_key_id_if_sorted) (use sd(1) in \<open>simp add: comp_def\<close>)
  then show ?thesis using s c by (simp add: collectPages_def es files_of_def)
qed

text \<open>Two pages, the second sent before the first and then again.\<close>

definition ex_gif :: "string \<Rightarrow> bytes" where
  "ex_gif tag = ascii (''GIF89a'' @ tag @ replicate 6 CHR '' '')"

definition ex_uploads :: "(nat \<times> bytes) list" where
  "ex_uploads = [(1, ex_gif ''a''), (0, ex_gif ''b''), (1, ex_gif ''c'')]"

theorem uploads_collected_witness:
  "collectPages ex_away (uploads (oe_decode ex_away) ex_uploads None) =
     Inr (map (\<lambda>i. \<lparr>pf_name = PageName i ''.gif'', pf_format = ''gif'', pf_width = 800, pf_height = 1200\<rparr>) [0..<2])"
proof -
  let ?pf = "\<lambda>i (d :: bytes). \<lparr>pf_name = PageName i ''.gif'', pf_format = ''gif'', pf_width = 800, pf_height = 1200\<rparr>"
  have g: "Detect (oe_decode ex_away) (ex_gif t) = Inr \<lparr>i_format = ''gif'', i_width = 800, i_height = 1200\<rparr>" if "t \<in> {''a'', ''b'', ''c''}" for t
  proof -
    have "length (ex_gif t) = 13 \<and> sniff (ex_gif t) = ''gif''" using that by (elim insertE emptyE; hypsubst; code_simp)
    then show ?thesis by (simp add: Detect_def ex_away_def Let_def)
  qed
  have a: "accepts (oe_decode ex_away) i d (?pf i d)" if "(i, d) \<in> set ex_uploads" for i d
  proof -
    have "d = ex_gif ''a'' \<or> d = ex_gif ''b'' \<or> d = ex_gif ''c''" using that by (auto simp: ex_uploads_def)
    then have "Detect (oe_decode ex_away) d = Inr \<lparr>i_format = ''gif'', i_width = 800, i_height = 1200\<rparr>" using g by blast
    then show ?thesis by (simp add: AcceptPage_def Let_def Ext_def)
  qed
  have s: "fst ` set ex_uploads = {..<2}" by (auto simp: ex_uploads_def)
  from uploads_collected [OF s _ _ a] show ?thesis by simp
qed

text \<open>
  A page sent again in another format keeps both files, so the count is off and the job fails
  although every page arrived.
\<close>

lemma resent_in_another_format:
  "map_option (map fst) (uploads (\<lambda>_. Inr (800, 1200)) [(0, ex_gif ''a''), (0, [0xFF, 0xD8, 0xFF] @ ex_gif ''b'')] None)
     = Some [''0001.gif'', ''0001.jpg'']"
  by code_simp

text \<open>A chapter with the wrong number of pages fails, and its files stay for the job's next task to count.\<close>

lemma leftovers_stay:
  assumes "job_row (wt_job_id task) x = Some job" and "load_of env job x = Some jc"
    and "collectPages env (of_staged x (j_id job)) = Inr pages" and "wt_pages_total task > 0" "int (length pages) \<noteq> wt_pages_total task"
    and "task_done env now task x = Some y"
  shows "of_staged y = of_staged x"
  using assms by (auto simp: task_done_def Let_def split: if_splits)

text \<open>
  A job paused while it is being handed over is queued again when that falls through: unlike the
  other writes of a running job's status, this one does not spare paused jobs.
\<close>

lemma put_back_resumes_paused:
  "map_option j_status (tget j_id 3 (q_jobs (put_back 100 ex_job (fst (write_job False (\<lambda>j. j\<lparr>j_status := JobPaused\<rparr>) 3 ex_queue))))) = Some JobQueued"
  by code_simp

end
