(* ===== verification/Commands.thy ===== *)
theory Commands
  imports Samples
begin

text \<open>
  The command queue (\<open>internal/jobs/queue.go\<close>) and the scheduler that pushes commands on
  intervals (\<open>scheduler.go\<close>).  A section under the queue's lock and a database statement are each
  atomic; pushers and workers interleave between them.  \<open>cq_running\<close> is the map of running
  commands, \<open>cq_done\<close> the calls of the \<open>OnDone\<close> callbacks.
\<close>

section \<open>The queue\<close>

record cdef =
  cd_exclusive :: bool
  cd_priority :: int
  cd_handler :: bool

record cqueue =
  cq_workers :: int
  cq_defs :: "string \<Rightarrow> cdef option"
  cq_queued :: "command list"
  cq_running :: "command list"
  cq_wake :: bool
  cq_held :: bool
  cq_table :: "command table"
  cq_bus :: "(string \<times> int64) list"
  cq_done :: "command list"

definition wake_up :: "cqueue \<Rightarrow> cqueue" where
  "wake_up q = q\<lparr>cq_wake := True\<rparr>"

definition command_changed :: "string \<Rightarrow> int64 \<Rightarrow> cqueue \<Rightarrow> cqueue" where
  "command_changed action i q = q\<lparr>cq_bus := cq_bus q @ [(action, i)]\<rparr>"

definition NewQueue :: "int \<Rightarrow> command table \<Rightarrow> cqueue" where
  "NewQueue workers t = \<lparr>cq_workers = (if workers \<le> 0 then 3 else workers), cq_defs = (\<lambda>_. None), cq_queued = [], cq_running = [],
     cq_wake = False, cq_held = False, cq_table = t, cq_bus = [], cq_done = []\<rparr>"

definition Register :: "string \<Rightarrow> cdef \<Rightarrow> cqueue \<Rightarrow> cqueue" where
  "Register name def q = q\<lparr>cq_defs := (cq_defs q)(name \<mapsto> def)\<rparr>"

definition Hold_commands :: "bool \<Rightarrow> cqueue \<Rightarrow> cqueue" where
  "Hold_commands on q = wake_up (q\<lparr>cq_held := on\<rparr>)"

definition Running_commands :: "cqueue \<Rightarrow> nat" where
  "Running_commands q = length (cq_running q)"

text \<open>A missing map entry reads as the zero definition.\<close>

definition def_of :: "cqueue \<Rightarrow> string \<Rightarrow> cdef" where
  "def_of q name = (case cq_defs q name of None \<Rightarrow> \<lparr>cd_exclusive = False, cd_priority = 0, cd_handler = False\<rparr> | Some d \<Rightarrow> d)"

section \<open>Pushing\<close>

definition bodyKey :: "string \<Rightarrow> string \<Rightarrow> string" where
  "bodyKey name body = name @ body"

abbreviation key_of :: "command \<Rightarrow> string" where
  "key_of c \<equiv> bodyKey (cmd_name c) (cmd_body c)"

datatype push_answer = UnknownCommand | Existing command | Fresh

definition push_check :: "string \<Rightarrow> string \<Rightarrow> cqueue \<Rightarrow> push_answer" where
  "push_check name body q =
     (if cq_defs q name = None then UnknownCommand
      else case find (\<lambda>c. key_of c = bodyKey name body) (cq_queued q @ cq_running q) of
             Some c \<Rightarrow> Existing c
           | None \<Rightarrow> Fresh)"

definition new_command :: "time \<Rightarrow> string \<Rightarrow> string \<Rightarrow> string \<Rightarrow> command" where
  "new_command now name body trigger = \<lparr>cmd_id = 0, cmd_name = name, cmd_body = body, cmd_status = CommandQueued,
     cmd_trigger = trigger, cmd_message = [], cmd_queued_at = now, cmd_started_at = None, cmd_ended_at = None,
     cmd_duration_ms = 0, cmd_error = []\<rparr>"

definition push_insert :: "time \<Rightarrow> string \<Rightarrow> string \<Rightarrow> string \<Rightarrow> cqueue \<Rightarrow> cqueue \<times> command" where
  "push_insert now name body trigger q =
     (let c = new_command now name body trigger
      in (q\<lparr>cq_table := tinsert (\<lambda>i r. r\<lparr>cmd_id := i\<rparr>) c (cq_table q)\<rparr>, c\<lparr>cmd_id := seq (cq_table q) + 1\<rparr>))"

definition push_append :: "command \<Rightarrow> cqueue \<Rightarrow> cqueue" where
  "push_append c q = wake_up (command_changed ''created'' (cmd_id c) (q\<lparr>cq_queued := cq_queued q @ [c]\<rparr>))"

text \<open>\<open>Push\<close> when nothing comes between its parts; \<open>None\<close> is the error for an unknown command.\<close>

definition Push :: "time \<Rightarrow> string \<Rightarrow> string \<Rightarrow> string \<Rightarrow> cqueue \<Rightarrow> cqueue \<times> command option" where
  "Push now name body trigger q =
     (case push_check name body q of
        UnknownCommand \<Rightarrow> (q, None)
      | Existing c \<Rightarrow> (q, Some c)
      | Fresh \<Rightarrow> (let (q, c) = push_insert now name body trigger q in (push_append c q, Some c)))"

section \<open>Starting and picking\<close>

definition Start_queue :: "time \<Rightarrow> cqueue \<Rightarrow> cqueue" where
  "Start_queue now q =
     (let t = upd_where (\<lambda>c. cmd_status c = CommandStarted) (\<lambda>c. c\<lparr>cmd_status := CommandOrphaned, cmd_ended_at := Some now\<rparr>) (cq_table q);
          pending = sort_key cmd_id (filter (\<lambda>c. cmd_status c = CommandQueued) (rows t))
      in wake_up (q\<lparr>cq_table := t, cq_queued := cq_queued q @ pending\<rparr>))"

definition before :: "cqueue \<Rightarrow> command \<Rightarrow> command \<Rightarrow> bool" where
  "before q a b \<longleftrightarrow>
     (let pa = cd_priority (def_of q (cmd_name a)); pb = cd_priority (def_of q (cmd_name b))
      in if pa \<noteq> pb then pa < pb else cmd_id a < cmd_id b)"

definition blocked :: "cqueue \<Rightarrow> command \<Rightarrow> bool" where
  "blocked q c \<longleftrightarrow> cd_exclusive (def_of q (cmd_name c)) \<and> cq_running q \<noteq> [] \<or> list_ex (\<lambda>r. cmd_name r = cmd_name c) (cq_running q)"

definition closed :: "cqueue \<Rightarrow> bool" where
  "closed q \<longleftrightarrow> cq_held q \<or> list_ex (\<lambda>r. cd_exclusive (def_of q (cmd_name r))) (cq_running q) \<or> int (length (cq_running q)) \<ge> cq_workers q"

definition next_command :: "cqueue \<Rightarrow> cqueue \<times> command option" where
  "next_command q =
     (if closed q then (q, None)
      else
        let sorted = stable_sort (before q) (cq_queued q) in
        case find (\<lambda>c. \<not> blocked q c) sorted of
          None \<Rightarrow> (q\<lparr>cq_queued := sorted\<rparr>, None)
        | Some c \<Rightarrow> (q\<lparr>cq_queued := remove1 c sorted, cq_running := filter (\<lambda>r. cmd_id r \<noteq> cmd_id c) (cq_running q) @ [c]\<rparr>, Some c))"

section \<open>Executing\<close>

definition on_running :: "int64 \<Rightarrow> (command \<Rightarrow> command) \<Rightarrow> cqueue \<Rightarrow> cqueue" where
  "on_running i f q = q\<lparr>cq_running := map (\<lambda>c. if cmd_id c = i then f c else c) (cq_running q)\<rparr>"

definition on_row :: "int64 \<Rightarrow> (command \<Rightarrow> command) \<Rightarrow> cqueue \<Rightarrow> cqueue" where
  "on_row i f q = q\<lparr>cq_table := upd_where (\<lambda>c. cmd_id c = i) f (cq_table q)\<rparr>"

definition begin_command :: "time \<Rightarrow> command \<Rightarrow> cqueue \<Rightarrow> cqueue" where
  "begin_command now c q =
     (let f = (\<lambda>c. c\<lparr>cmd_status := CommandStarted, cmd_started_at := Some now\<rparr>)
      in command_changed ''updated'' (cmd_id c) (on_row (cmd_id c) f (on_running (cmd_id c) f q)))"

datatype handler_result = HandlerOk | HandlerFailed string | HandlerPanicked string

definition handler_error :: "cqueue \<Rightarrow> command \<Rightarrow> handler_result \<Rightarrow> string option" where
  "handler_error q c r =
     (if \<not> cd_handler (def_of q (cmd_name c)) then Some (''no handler for '' @ cmd_name c)
      else case r of HandlerOk \<Rightarrow> None | HandlerFailed e \<Rightarrow> Some e | HandlerPanicked e \<Rightarrow> Some (''panic: '' @ e))"

definition ended :: "time \<Rightarrow> time \<Rightarrow> string option \<Rightarrow> command \<Rightarrow> command" where
  "ended start now err c =
     (let c = c\<lparr>cmd_ended_at := Some now, cmd_duration_ms := go_div (now - start) millisecond\<rparr>
      in case err of
           Some e \<Rightarrow> c\<lparr>cmd_status := CommandFailed, cmd_error := e\<rparr>
         | None \<Rightarrow> c\<lparr>cmd_status := CommandCompleted\<rparr>)"

definition end_command :: "time \<Rightarrow> time \<Rightarrow> handler_result \<Rightarrow> command \<Rightarrow> cqueue \<Rightarrow> cqueue" where
  "end_command start now r c q =
     (let final = ended start now (handler_error q c r) c
      in on_row (cmd_id c)
           (\<lambda>x. x\<lparr>cmd_status := cmd_status final, cmd_ended_at := cmd_ended_at final, cmd_duration_ms := cmd_duration_ms final,
                  cmd_error := cmd_error final, cmd_message := cmd_message final\<rparr>)
           (on_running (cmd_id c) (\<lambda>_. final) q))"

definition leave_command :: "command \<Rightarrow> cqueue \<Rightarrow> cqueue" where
  "leave_command final q =
     wake_up ((\<lambda>q. q\<lparr>cq_done := cq_done q @ [final]\<rparr>)
       (command_changed ''updated'' (cmd_id final) (q\<lparr>cq_running := filter (\<lambda>c. cmd_id c \<noteq> cmd_id final) (cq_running q)\<rparr>)))"

text \<open>\<open>Run.Progress\<close>, with the time of the run's last persisted message.\<close>

definition report_message :: "time \<Rightarrow> time \<Rightarrow> string \<Rightarrow> command \<Rightarrow> cqueue \<Rightarrow> cqueue \<times> time" where
  "report_message now lastMsg msg c q =
     (let q = on_running (cmd_id c) (\<lambda>c. c\<lparr>cmd_message := msg\<rparr>) q in
      if now - lastMsg > second
      then (command_changed ''updated'' (cmd_id c) (on_row (cmd_id c) (\<lambda>c. c\<lparr>cmd_message := msg\<rparr>) q), now)
      else (q, lastMsg))"

section \<open>Reading the queue\<close>

definition Active_commands :: "cqueue \<Rightarrow> command list" where
  "Active_commands q = sort_key cmd_id (cq_running q @ cq_queued q)"

definition Recent :: "nat \<Rightarrow> cqueue \<Rightarrow> command list" where
  "Recent limit q = take limit (rev (sort_key cmd_id (rows (cq_table q))))"

definition Get_command :: "int64 \<Rightarrow> cqueue \<Rightarrow> command option" where
  "Get_command i q =
     (case find (\<lambda>c. cmd_id c = i) (cq_running q) of Some c \<Rightarrow> Some c | None \<Rightarrow> tget cmd_id i (cq_table q))"

section \<open>The scheduler\<close>

record stask =
  sk_interval :: duration
  sk_body :: string
  sk_run_on_start :: bool

record scheduler =
  sc_tasks :: "string \<Rightarrow> stask option"
  sc_rows :: "scheduled_task list"

definition interval_minutes :: "duration \<Rightarrow> int" where
  "interval_minutes d = go_div d minute"

definition Add_task :: "time \<Rightarrow> string \<Rightarrow> stask \<Rightarrow> scheduler \<Rightarrow> scheduler" where
  "Add_task now name t s =
     (let i = interval_minutes (sk_interval t);
          row = \<lparr>st_name = name, st_interval_minutes = i, st_last_execution = (if sk_run_on_start t then None else Some now), st_last_start = None\<rparr>
      in s\<lparr>sc_tasks := (sc_tasks s)(name \<mapsto> t),
           sc_rows := (if name \<in> st_name ` set (sc_rows s)
             then map (\<lambda>r. if st_name r = name then r\<lparr>st_interval_minutes := i\<rparr> else r) (sc_rows s) else sc_rows s @ [row])\<rparr>)"

definition SetInterval :: "string \<Rightarrow> duration \<Rightarrow> scheduler \<Rightarrow> scheduler" where
  "SetInterval name d s =
     (case sc_tasks s name of
        None \<Rightarrow> s
      | Some t \<Rightarrow> s\<lparr>sc_tasks := (sc_tasks s)(name \<mapsto> t\<lparr>sk_interval := d\<rparr>),
           sc_rows := map (\<lambda>r. if st_name r = name then r\<lparr>st_interval_minutes := interval_minutes d\<rparr> else r) (sc_rows s)\<rparr>)"

text \<open>Whether a check at \<open>now\<close> pushes a row's command: the guards of the loop body.\<close>

definition due :: "time \<Rightarrow> (string \<Rightarrow> stask option) \<Rightarrow> scheduled_task \<Rightarrow> bool" where
  "due now tasks r \<longleftrightarrow>
     (case tasks (st_name r) of
        None \<Rightarrow> False
      | Some t \<Rightarrow>
          let i = sk_interval t in
          if i \<le> 0 then False
          else if (case st_last_execution r of None \<Rightarrow> False | Some e \<Rightarrow> e + i > now) then False
          else if (case st_last_start r of None \<Rightarrow> False | Some b \<Rightarrow> b > now - i \<and>
                    (case st_last_execution r of None \<Rightarrow> True | Some e \<Rightarrow> b > e)) then False
          else True)"

definition stamp :: "string \<Rightarrow> time \<Rightarrow> scheduled_task list \<Rightarrow> scheduled_task list" where
  "stamp name now rs = map (\<lambda>r. if st_name r = name then r\<lparr>st_last_start := Some now\<rparr> else r) rs"

text \<open>The loop over the rows read at the start; the result also tells which tasks were pushed.\<close>

fun check_rows :: "time \<Rightarrow> scheduled_task list \<Rightarrow> cqueue \<Rightarrow> scheduler \<Rightarrow> cqueue \<times> scheduler \<times> string list" where
  "check_rows now [] q s = (q, s, [])"
| "check_rows now (r # rs) q s =
     (if \<not> due now (sc_tasks s) r then check_rows now rs q s
      else
        case Push now (st_name r) (sk_body (the (sc_tasks s (st_name r)))) ''scheduled'' q of
          (q, None) \<Rightarrow> check_rows now rs q s
        | (q, Some _) \<Rightarrow>
            (let (q, s, pushed) = check_rows now rs q (s\<lparr>sc_rows := stamp (st_name r) now (sc_rows s)\<rparr>)
             in (q, s, st_name r # pushed)))"

definition check_tasks :: "time \<Rightarrow> cqueue \<Rightarrow> scheduler \<Rightarrow> cqueue \<times> scheduler \<times> string list" where
  "check_tasks now q s = check_rows now (sc_rows s) q s"

definition commandDone :: "command \<Rightarrow> scheduler \<Rightarrow> scheduler" where
  "commandDone c s =
     (if sc_tasks s (cmd_name c) = None then s
      else case cmd_ended_at c of
             None \<Rightarrow> s
           | Some e \<Rightarrow> s\<lparr>sc_rows := map (\<lambda>r. if st_name r = cmd_name c then r\<lparr>st_last_execution := Some e\<rparr> else r) (sc_rows s)\<rparr>)"

section \<open>Pushers and workers that interleave\<close>

record cworld =
  cw_q :: cqueue
  cw_checked :: "(string \<times> string \<times> string) list"
  cw_inserted :: "command list"

text \<open>The workers' loop and the callers of \<open>Push\<close>, one section at a time.\<close>

inductive cstep :: "cworld \<Rightarrow> cworld \<Rightarrow> bool" where
  push_checked: "push_check n b (cw_q w) = Fresh \<Longrightarrow> cstep w (w\<lparr>cw_checked := (n, b, trigger) # cw_checked w\<rparr>)"
| push_inserted: "(n, b, trigger) \<in> set (cw_checked w) \<Longrightarrow> push_insert now n b trigger (cw_q w) = (q, c) \<Longrightarrow>
    cstep w (w\<lparr>cw_q := q, cw_checked := remove1 (n, b, trigger) (cw_checked w), cw_inserted := c # cw_inserted w\<rparr>)"
| push_appended: "c \<in> set (cw_inserted w) \<Longrightarrow>
    cstep w (w\<lparr>cw_q := push_append c (cw_q w), cw_inserted := remove1 c (cw_inserted w)\<rparr>)"
| picked: "next_command (cw_q w) = (q, r) \<Longrightarrow> cstep w (w\<lparr>cw_q := q\<rparr>)"
| begun: "c \<in> set (cq_running (cw_q w)) \<Longrightarrow> cmd_status c = CommandQueued \<Longrightarrow> cstep w (w\<lparr>cw_q := begin_command now c (cw_q w)\<rparr>)"
| messaged: "c \<in> set (cq_running (cw_q w)) \<Longrightarrow> cmd_status c = CommandStarted \<Longrightarrow>
    cstep w (w\<lparr>cw_q := fst (report_message now lastMsg msg c (cw_q w))\<rparr>)"
| finished: "c \<in> set (cq_running (cw_q w)) \<Longrightarrow> cmd_status c = CommandStarted \<Longrightarrow>
    cstep w (w\<lparr>cw_q := end_command start now r c (cw_q w)\<rparr>)"
| left: "c \<in> set (cq_running (cw_q w)) \<Longrightarrow> cmd_status c = CommandCompleted \<or> cmd_status c = CommandFailed \<Longrightarrow>
    cstep w (w\<lparr>cw_q := leave_command c (cw_q w)\<rparr>)"
| held: "cstep w (w\<lparr>cw_q := Hold_commands on (cw_q w)\<rparr>)"

inductive_cases cstep_cases: "cstep w w'"

definition limits_kept :: "cqueue \<Rightarrow> bool" where
  "limits_kept q \<longleftrightarrow> int (length (cq_running q)) \<le> cq_workers q \<and> distinct (map cmd_name (cq_running q)) \<and>
     ((\<exists>c \<in> set (cq_running q). cd_exclusive (def_of q (cmd_name c))) \<longrightarrow> length (cq_running q) = 1)"

abbreviation live_commands :: "cworld \<Rightarrow> command list" where
  "live_commands w \<equiv> cq_running (cw_q w) @ cq_queued (cw_q w) @ cw_inserted w"

text \<open>The ids of the commands in memory are distinct and were given out by the table.\<close>

definition commands_ok :: "cworld \<Rightarrow> bool" where
  "commands_ok w \<longleftrightarrow> limits_kept (cw_q w) \<and> distinct (map cmd_id (live_commands w)) \<and>
     (\<forall>c \<in> set (live_commands w). 0 < cmd_id c \<and> cmd_id c \<le> seq (cq_table (cw_q w))) \<and> 0 \<le> seq (cq_table (cw_q w))"

lemma ok_bound: "commands_ok w \<Longrightarrow> c \<in> set (live_commands w) \<Longrightarrow> 0 < cmd_id c \<and> cmd_id c \<le> seq (cq_table (cw_q w))"
  unfolding commands_ok_def by blast

lemma commands_ok_sub:
  assumes "commands_ok w" and "limits_kept (cw_q w')" and "distinct (map cmd_id (live_commands w'))"
    and "set (live_commands w') \<subseteq> set (live_commands w)" and "seq (cq_table (cw_q w')) = seq (cq_table (cw_q w))"
  shows "commands_ok w'"
proof -
  have "0 < cmd_id c \<and> cmd_id c \<le> seq (cq_table (cw_q w'))" if "c \<in> set (live_commands w')" for c
    using ok_bound [OF assms(1) subsetD [OF assms(4) that]] assms(5) by simp
  moreover have "0 \<le> seq (cq_table (cw_q w'))" using assms(1,5) unfolding commands_ok_def by simp
  ultimately show ?thesis unfolding commands_ok_def using assms(2,3) by blast
qed

lemma commands_ok_new:
  assumes "commands_ok w" and "limits_kept (cw_q w')" and "mset (live_commands w') = add_mset c (mset (live_commands w))"
    and "cmd_id c = seq (cq_table (cw_q w)) + 1" and "seq (cq_table (cw_q w')) = seq (cq_table (cw_q w)) + 1"
  shows "commands_ok w'"
proof -
  have new: "cmd_id c \<notin> set (map cmd_id (live_commands w))"
  proof
    assume "cmd_id c \<in> set (map cmd_id (live_commands w))"
    then obtain x where "x \<in> set (live_commands w)" "cmd_id x = cmd_id c" unfolding set_map by (metis imageE)
    then show False using ok_bound [OF assms(1)] assms(4) by fastforce
  qed
  have "mset (map cmd_id (live_commands w')) = mset (cmd_id c # map cmd_id (live_commands w))"
    using arg_cong [OF assms(3), of "image_mset cmd_id"] unfolding mset_map by simp
  moreover have "distinct (cmd_id c # map cmd_id (live_commands w))" using new assms(1) unfolding commands_ok_def by simp
  ultimately have d: "distinct (map cmd_id (live_commands w'))" by (metis mset_eq_imp_distinct_iff)
  have s: "set (live_commands w') = insert c (set (live_commands w))"
    using arg_cong [OF assms(3), of set_mset] unfolding set_mset_mset set_mset_add_mset_insert .
  have z: "0 \<le> seq (cq_table (cw_q w))" using assms(1) unfolding commands_ok_def by blast
  have "0 < cmd_id x \<and> cmd_id x \<le> seq (cq_table (cw_q w'))" if "x \<in> set (live_commands w')" for x
    using that ok_bound [OF assms(1), of x] assms(4,5) z unfolding s by fastforce
  then show ?thesis unfolding commands_ok_def using assms(2,5) d z by simp
qed

lemma limits_kept_map:
  assumes "cq_running q' = map f (cq_running q)" and "\<And>c. cmd_name (f c) = cmd_name c" and "cq_workers q' = cq_workers q" "cq_defs q' = cq_defs q"
  shows "limits_kept q' = limits_kept q"
proof -
  have d: "def_of q' = def_of q" using assms(4) by (simp add: def_of_def fun_eq_iff)
  show ?thesis by (simp add: limits_kept_def assms d comp_def)
qed

lemma limits_kept_cong:
  assumes "cq_running q' = cq_running q" "cq_workers q' = cq_workers q" "cq_defs q' = cq_defs q"
  shows "limits_kept q' = limits_kept q"
  by (rule limits_kept_map [where f = "\<lambda>c. c"]) (simp_all add: assms)

lemma limits_kept_filter:
  assumes "limits_kept q" and "cq_running q' = filter P (cq_running q)" and "cq_workers q' = cq_workers q" "cq_defs q' = cq_defs q"
  shows "limits_kept q'"
proof -
  have d: "def_of q' = def_of q" using assms(4) by (simp add: def_of_def fun_eq_iff)
  have l: "length (filter P (cq_running q)) \<le> length (cq_running q)" by simp
  then have w: "int (length (filter P (cq_running q))) \<le> cq_workers q" using assms(1) unfolding limits_kept_def by linarith
  have "length (filter P (cq_running q)) = 1" if "c \<in> set (filter P (cq_running q))" "cd_exclusive (def_of q (cmd_name c))" for c
  proof -
    have "length (cq_running q) = 1" using assms(1) that by (auto simp: limits_kept_def)
    moreover have "filter P (cq_running q) \<noteq> []" using that(1) by (auto simp: filter_empty_conv)
    ultimately show ?thesis using l by (metis One_nat_def le_neq_implies_less length_0_conv less_Suc0)
  qed
  moreover have "distinct (map cmd_name (filter P (cq_running q)))" using assms(1) by (simp add: limits_kept_def distinct_map_filter)
  ultimately show ?thesis using w by (simp add: limits_kept_def assms(2-4) d) blast
qed

section \<open>Picking\<close>

lemma before_order: "weak_order (before q)"
  by (rule weak_order_keyI [where key = "\<lambda>c. (cd_priority (def_of q (cmd_name c)), cmd_id c)"])
    (auto simp: before_def Let_def)

lemma find_member: "find P xs = Some x \<Longrightarrow> x \<in> set xs \<and> P x"
  by (induction xs) (auto split: if_splits)

lemma find_first: "find P xs = Some x \<Longrightarrow> sorted_wrt R xs \<Longrightarrow> d \<in> set xs \<Longrightarrow> P d \<Longrightarrow> d = x \<or> R x d"
  by (induction xs) (auto split: if_splits)

lemma next_None:
  assumes "next_command q = (q', None)"
  shows "q' = q\<lparr>cq_queued := cq_queued q'\<rparr>" "mset (cq_queued q') = mset (cq_queued q)" "closed q \<or> (\<forall>c \<in> set (cq_queued q). blocked q c)"
  using assms by (auto simp: next_command_def Let_def find_None_iff split: if_splits option.splits)

lemma next_Some:
  assumes "next_command q = (q', Some c)"
  shows "q' = q\<lparr>cq_queued := remove1 c (stable_sort (before q) (cq_queued q)), cq_running := filter (\<lambda>r. cmd_id r \<noteq> cmd_id c) (cq_running q) @ [c]\<rparr>"
    "\<not> closed q" "\<not> blocked q c" "c \<in> set (cq_queued q)"
proof -
  let ?s = "stable_sort (before q) (cq_queued q)"
  have f: "find (\<lambda>c. \<not> blocked q c) ?s = Some c" and n: "\<not> closed q"
    and q: "q' = q\<lparr>cq_queued := remove1 c ?s, cq_running := filter (\<lambda>r. cmd_id r \<noteq> cmd_id c) (cq_running q) @ [c]\<rparr>"
    using assms by (auto simp: next_command_def Let_def split: if_splits option.splits)
  from find_member [OF f] have "c \<in> set ?s \<and> \<not> blocked q c" by simp
  then show "\<not> blocked q c" "c \<in> set (cq_queued q)" by simp_all
  show "q' = q\<lparr>cq_queued := remove1 c ?s, cq_running := filter (\<lambda>r. cmd_id r \<noteq> cmd_id c) (cq_running q) @ [c]\<rparr>" "\<not> closed q"
    by (rule q, rule n)
qed

text \<open>
  A worker picks the right command: the one of lowest priority number, and among those the
  oldest, of the commands that nothing blocks now; and it picks none exactly when the queue is
  held or full, an exclusive command runs, or every queued command is blocked (by one of its own
  name, or because it is exclusive and something runs).
\<close>

theorem next_picks:
  "(case next_command q of
      (q', Some c) \<Rightarrow> \<not> closed q \<and> \<not> blocked q c \<and> c \<in> set (cq_queued q) \<and>
        (\<forall>d \<in> set (cq_queued q). blocked q d \<or>
           (cd_priority (def_of q (cmd_name c)), cmd_id c) \<le> (cd_priority (def_of q (cmd_name d)), cmd_id d))
    | (q', None) \<Rightarrow> closed q \<or> (\<forall>c \<in> set (cq_queued q). blocked q c))"
proof (cases "next_command q")
  case (Pair q' r)
  show ?thesis
  proof (cases r)
    case None
    then show ?thesis using Pair next_None(3) by fastforce
  next
    case (Some c)
    let ?s = "stable_sort (before q) (cq_queued q)"
    have "next_command q = (q', Some c)" using Pair Some by simp
    note N = next_Some [OF this]
    have f: "find (\<lambda>c. \<not> blocked q c) ?s = Some c"
      using Pair Some by (auto simp: next_command_def Let_def split: if_splits option.splits)
    have "\<not> before q d c" if "d \<in> set (cq_queued q)" "\<not> blocked q d" for d
      using find_first [OF f weak_order.sort_sorted [OF before_order]] that weak_order.irrefl [OF before_order, of q c] by auto
    note first = this
    have "blocked q d \<or> (cd_priority (def_of q (cmd_name c)), cmd_id c) \<le> (cd_priority (def_of q (cmd_name d)), cmd_id d)"
      if "d \<in> set (cq_queued q)" for d
    proof (cases "blocked q d")
      case False
      with first that have "\<not> before q d c" by blast
      then show ?thesis by (auto simp: before_def Let_def split: if_splits)
    qed simp
    then show ?thesis using N(2-4) by (simp add: Pair Some)
  qed
qed

definition ex_commands :: cqueue where
  "ex_commands = Start_queue 5 (Register ''RefreshSeries'' \<lparr>cd_exclusive = False, cd_priority = 5, cd_handler = True\<rparr>
     (NewQueue 0 \<lparr>rows = [sample_command\<lparr>cmd_id := 2\<rparr>, sample_command], seq = 2\<rparr>))"

theorem next_picks_witness: "\<not> blocked ex_commands sample_command"
proof -
  have "snd (next_command ex_commands) = Some sample_command" by code_simp
  then obtain q where e: "next_command ex_commands = (q, Some sample_command)" by (metis prod.collapse)
  from next_picks [of ex_commands] show ?thesis unfolding e by simp
qed

section \<open>The interleaving\<close>

lemma reach_frames [simp]:
  "cq_workers (wake_up q) = cq_workers q" "cq_defs (wake_up q) = cq_defs q" "cq_running (wake_up q) = cq_running q"
  "cq_queued (wake_up q) = cq_queued q" "cq_table (wake_up q) = cq_table q"
  "cq_workers (command_changed a i q) = cq_workers q" "cq_defs (command_changed a i q) = cq_defs q"
  "cq_running (command_changed a i q) = cq_running q" "cq_queued (command_changed a i q) = cq_queued q"
  "cq_table (command_changed a i q) = cq_table q"
  by (simp_all add: wake_up_def command_changed_def)

lemma on_running_frames [simp]:
  "cq_workers (on_running i f q) = cq_workers q" "cq_defs (on_running i f q) = cq_defs q" "cq_queued (on_running i f q) = cq_queued q"
  "cq_table (on_running i f q) = cq_table q"
  "cq_workers (on_row i f q) = cq_workers q" "cq_defs (on_row i f q) = cq_defs q" "cq_queued (on_row i f q) = cq_queued q"
  "cq_running (on_row i f q) = cq_running q" "seq (cq_table (on_row i f q)) = seq (cq_table q)"
  by (simp_all add: on_running_def on_row_def upd_where_def)

text \<open>A step that rewrites running commands in place.\<close>

lemma commands_ok_in_place:
  assumes "commands_ok w" and "cq_running q = map f (cq_running (cw_q w))" and "\<And>c. cmd_name (f c) = cmd_name c \<and> cmd_id (f c) = cmd_id c"
    and "cq_workers q = cq_workers (cw_q w)" "cq_defs q = cq_defs (cw_q w)" "cq_queued q = cq_queued (cw_q w)"
    and "seq (cq_table q) = seq (cq_table (cw_q w))"
  shows "commands_ok (w\<lparr>cw_q := q\<rparr>)"
proof -
  have "limits_kept q" using assms(1) limits_kept_map [of q f "cw_q w"] assms(2-5) by (simp add: commands_ok_def)
  moreover have "map cmd_id (cq_running q) = map cmd_id (cq_running (cw_q w))" using assms(2,3) by simp
  moreover have "(\<forall>c \<in> set (cq_running q). 0 < cmd_id c \<and> cmd_id c \<le> seq (cq_table (cw_q w)))"
    using assms(1-3) by (auto simp: commands_ok_def)
  ultimately show ?thesis using assms(1,6,7) by (auto simp: commands_ok_def)
qed

lemma update_in_place:
  assumes "c \<in> set (cq_running q)" and "distinct (map cmd_id (cq_running q))" and "cmd_id d = cmd_id c" "cmd_name d = cmd_name c"
  shows "\<exists>f. cq_running (on_running (cmd_id c) (\<lambda>_. d) q) = map f (cq_running q) \<and> (\<forall>c. cmd_name (f c) = cmd_name c \<and> cmd_id (f c) = cmd_id c)"
proof (intro exI conjI allI)
  let ?f = "\<lambda>x. if x = c then d else x"
  show "cq_running (on_running (cmd_id c) (\<lambda>_. d) q) = map ?f (cq_running q)"
    using assms(1,2) by (auto simp: on_running_def distinct_map inj_on_def)
  show "cmd_name (?f x) = cmd_name x" "cmd_id (?f x) = cmd_id x" for x using assms(3,4) by simp_all
qed

lemma next_keeps:
  assumes "next_command (cw_q w) = (q, r)" and "commands_ok w"
  shows "commands_ok (w\<lparr>cw_q := q\<rparr>) \<and> mset (map cmd_id (live_commands (w\<lparr>cw_q := q\<rparr>))) = mset (map cmd_id (live_commands w)) \<and>
    cq_table q = cq_table (cw_q w)"
proof (cases r)
  case None
  note N = next_None [OF assms(1) [unfolded None]]
  have run: "cq_running q = cq_running (cw_q w)" "cq_workers q = cq_workers (cw_q w)" "cq_defs q = cq_defs (cw_q w)" "cq_table q = cq_table (cw_q w)"
    by (subst N(1), simp)+
  have m: "mset (map cmd_id (live_commands (w\<lparr>cw_q := q\<rparr>))) = mset (map cmd_id (live_commands w))" using N(2) by (simp add: run)
  then have "distinct (map cmd_id (live_commands (w\<lparr>cw_q := q\<rparr>)))" using assms(2) unfolding commands_ok_def by (metis mset_eq_imp_distinct_iff)
  moreover have "set (cq_queued q) = set (cq_queued (cw_q w))" using N(2) by (metis set_mset_mset)
  ultimately show ?thesis using assms(2) m limits_kept_cong [OF run(1-3)] by (simp add: commands_ok_def run)
next
  case (Some c)
  note N = next_Some [OF assms(1) [unfolded Some]]
  let ?p = "cw_q w"
  have c: "c \<in> set (cq_queued ?p)" by (rule N(4))
  have ids: "filter (\<lambda>r. cmd_id r \<noteq> cmd_id c) (cq_running ?p) = cq_running ?p"
    using assms(2) c by (auto simp: commands_ok_def intro!: filter_True)
  have q: "cq_running q = cq_running ?p @ [c]" "cq_queued q = remove1 c (stable_sort (before ?p) (cq_queued ?p))"
    "cq_workers q = cq_workers ?p" "cq_defs q = cq_defs ?p" "cq_table q = cq_table ?p"
    using ids by (simp_all add: N(1))
  have d: "def_of q = def_of ?p" using q(4) by (simp add: def_of_def fun_eq_iff)
  have "limits_kept q"
    using N(2,3) assms(2) unfolding commands_ok_def limits_kept_def closed_def blocked_def d
    by (auto simp: q list_ex_iff)
  moreover have m: "mset (map cmd_id (live_commands (w\<lparr>cw_q := q\<rparr>))) = mset (map cmd_id (live_commands w))"
  proof -
    have "mset (cq_queued q) + {#c#} = mset (cq_queued ?p)" using c by (simp add: q(2))
    then have "image_mset cmd_id (mset (cq_queued q)) + {#cmd_id c#} = image_mset cmd_id (mset (cq_queued ?p))"
      by (metis image_mset_single image_mset_union)
    then show ?thesis by (simp add: q(1) ac_simps)
  qed
  moreover have "distinct (map cmd_id (live_commands (w\<lparr>cw_q := q\<rparr>)))"
    using m assms(2) unfolding commands_ok_def by (metis mset_eq_imp_distinct_iff)
  moreover have "set (live_commands (w\<lparr>cw_q := q\<rparr>)) \<subseteq> set (live_commands w)"
  proof -
    have "set (cq_queued q) \<subseteq> set (cq_queued ?p)"
      using set_remove1_subset [of c "stable_sort (before ?p) (cq_queued ?p)"] unfolding q(2) by simp
    then show ?thesis using c by (simp add: q(1)) blast
  qed
  ultimately have "commands_ok (w\<lparr>cw_q := q\<rparr>)" by (intro commands_ok_sub [OF assms(2)]) (simp_all only: q(5) cworld.select_convs cworld.update_convs cworld.surjective, simp_all add: q(5))
  then show ?thesis using m q(5) by blast
qed

lemma remove_keeps:
  assumes "commands_ok w" and "cq_running q = filter P (cq_running (cw_q w))"
    and "cq_workers q = cq_workers (cw_q w)" "cq_defs q = cq_defs (cw_q w)" "cq_queued q = cq_queued (cw_q w)"
    and "seq (cq_table q) = seq (cq_table (cw_q w))"
  shows "commands_ok (w\<lparr>cw_q := q\<rparr>)"
proof -
  have "limits_kept q" using assms(1) limits_kept_filter assms(2-4) unfolding commands_ok_def by blast
  then show ?thesis using assms(1,2,5,6) by (auto simp: commands_ok_def distinct_map_filter)
qed

lemma cstep_ok:
  assumes "cstep w w'" and "commands_ok w" shows "commands_ok w'"
  using assms(1)
proof cases
  case (push_checked n b trigger)
  then show ?thesis using assms(2) by (simp add: commands_ok_def)
next
  case (push_inserted n b trigger now q c)
  let ?q = "(cw_q w)\<lparr>cq_table := tinsert (\<lambda>i r. r\<lparr>cmd_id := i\<rparr>) (new_command now n b trigger) (cq_table (cw_q w))\<rparr>"
  have q: "q = ?q" and c: "cmd_id c = seq (cq_table (cw_q w)) + 1" using push_inserted(3) by (auto simp: push_insert_def Let_def)
  have l: "limits_kept ?q = limits_kept (cw_q w)" by (rule limits_kept_cong) simp_all
  show ?thesis
  proof (rule commands_ok_new [OF assms(2) _ _ c])
    show "limits_kept (cw_q w')" using l assms(2) by (simp add: push_inserted(1) q commands_ok_def)
  qed (simp_all add: push_inserted(1) q tinsert_def)
next
  case (push_appended c)
  have l: "limits_kept (push_append c (cw_q w)) = limits_kept (cw_q w)" by (rule limits_kept_cong) (simp_all add: push_append_def)
  have "mset (map cmd_id (live_commands w')) = mset (map cmd_id (live_commands w))"
  proof -
    have "add_mset c (mset (cw_inserted w) - {#c#}) = mset (cw_inserted w)" using push_appended(2) by simp
    then have "add_mset (cmd_id c) (image_mset cmd_id (mset (cw_inserted w) - {#c#})) = image_mset cmd_id (mset (cw_inserted w))"
      by (metis image_mset_add_mset)
    then show ?thesis by (simp add: push_appended(1) push_append_def)
  qed
  then have "distinct (map cmd_id (live_commands w'))" using assms(2) unfolding commands_ok_def by (metis mset_eq_imp_distinct_iff)
  moreover have "set (live_commands w') \<subseteq> set (live_commands w)"
    using push_appended(2) set_remove1_subset [of c "cw_inserted w"] by (auto simp: push_appended(1) push_append_def)
  moreover have "cq_table (cw_q w') = cq_table (cw_q w)" "limits_kept (cw_q w')"
    using assms(2) l by (simp_all add: push_appended(1) push_append_def commands_ok_def)
  ultimately show ?thesis by (intro commands_ok_sub [OF assms(2)]) simp_all
next
  case (picked q r)
  then show ?thesis using next_keeps assms(2) by blast
next
  case (begun c now)
  let ?f = "\<lambda>x. if cmd_id x = cmd_id c then x\<lparr>cmd_status := CommandStarted, cmd_started_at := Some now\<rparr> else x"
  show ?thesis unfolding begun(1)
    by (rule commands_ok_in_place [OF assms(2), where f = ?f]) (simp_all add: begin_command_def Let_def on_running_def on_row_def upd_where_def)
next
  case (messaged c now lastMsg msg)
  let ?f = "\<lambda>x. if cmd_id x = cmd_id c then x\<lparr>cmd_message := msg\<rparr> else x"
  show ?thesis unfolding messaged(1)
    by (rule commands_ok_in_place [OF assms(2), where f = ?f]) (simp_all add: report_message_def Let_def on_running_def on_row_def upd_where_def)
next
  case (finished c start now r)
  let ?d = "ended start now (handler_error (cw_q w) c r) c"
  have d: "cmd_id ?d = cmd_id c" "cmd_name ?d = cmd_name c" by (simp_all add: ended_def Let_def split: option.split)
  have "distinct (map cmd_id (cq_running (cw_q w)))" using assms(2) by (simp add: commands_ok_def)
  from update_in_place [OF finished(2) this d] obtain f where
    f: "cq_running (on_running (cmd_id c) (\<lambda>_. ?d) (cw_q w)) = map f (cq_running (cw_q w))" "\<And>c. cmd_name (f c) = cmd_name c \<and> cmd_id (f c) = cmd_id c"
    by blast
  show ?thesis unfolding finished(1)
    by (rule commands_ok_in_place [OF assms(2), where f = f]) (use f in \<open>simp_all add: end_command_def Let_def\<close>)
next
  case (left c)
  then show ?thesis by (auto intro!: remove_keeps [OF assms(2)] simp: leave_command_def)
next
  case (held on)
  then show ?thesis by (auto intro!: remove_keeps [OF assms(2), where P = "\<lambda>_. True"] simp: Hold_commands_def)
qed

interpretation commands: step_invariant cstep commands_ok
  by unfold_locales (rule cstep_ok)

text \<open>The queue as the workers find it: commands are registered, nothing is queued yet, \<open>Start\<close> runs.\<close>

definition started :: "time \<Rightarrow> cqueue \<Rightarrow> cworld" where
  "started now q = \<lparr>cw_q = Start_queue now q, cw_checked = [], cw_inserted = []\<rparr>"

lemma started_ok:
  assumes "cq_queued q = []" "cq_running q = []" "twf cmd_id (cq_table q)" "0 < cq_workers q"
  shows "commands_ok (started now q)"
proof -
  let ?t = "upd_where (\<lambda>c. cmd_status c = CommandStarted) (\<lambda>c. c\<lparr>cmd_status := CommandOrphaned, cmd_ended_at := Some now\<rparr>) (cq_table q)"
  have t: "twf cmd_id ?t" by (rule commands_table.wf_update) (simp_all add: assms(3))
  have "distinct (map cmd_id (filter (\<lambda>c. cmd_status c = CommandQueued) (rows ?t)))"
    using t by (simp add: twf_def distinct_map_filter)
  then have "distinct (map cmd_id (sort_key cmd_id (filter (\<lambda>c. cmd_status c = CommandQueued) (rows ?t))))"
    by (metis mset_eq_imp_distinct_iff mset_map mset_sort)
  then show ?thesis using t assms
    by (simp add: commands_ok_def started_def Start_queue_def Let_def limits_kept_def twf_def)
qed

text \<open>
  C32: However pushers and workers interleave, the running commands keep to the rules: never more
  than there are workers, never two of one name, and an exclusive command runs alone; and no
  command is in the queue and running at once or queued twice.
\<close>

theorem commands_limited:
  assumes "cq_queued q = []" "cq_running q = []" "twf cmd_id (cq_table q)" "0 < cq_workers q"
    and "cstep\<^sup>*\<^sup>* (started now q) w"
  shows "limits_kept (cw_q w) \<and> distinct (map cmd_id (cq_running (cw_q w) @ cq_queued (cw_q w)))"
  using commands.reachable [OF assms(5) started_ok [OF assms(1-4)]] by (auto simp: commands_ok_def)

definition ex_cold :: cqueue where
  "ex_cold = Register ''RefreshSeries'' \<lparr>cd_exclusive = True, cd_priority = 5, cd_handler = True\<rparr>
     (NewQueue 0 \<lparr>rows = [sample_command], seq = 1\<rparr>)"

lemma ex_cold_ok: "cq_queued ex_cold = []" "cq_running ex_cold = []" "twf cmd_id (cq_table ex_cold)" "0 < cq_workers ex_cold"
  by (simp_all add: ex_cold_def Register_def NewQueue_def twf_def sample_command_def)

theorem commands_limited_witness: "limits_kept (cw_q ((started 5 ex_cold)\<lparr>cw_q := fst (next_command (cw_q (started 5 ex_cold)))\<rparr>))"
proof -
  have "cstep (started 5 ex_cold) ((started 5 ex_cold)\<lparr>cw_q := fst (next_command (cw_q (started 5 ex_cold)))\<rparr>)"
    by (rule picked) (rule prod.collapse [symmetric])
  then have r: "cstep\<^sup>*\<^sup>* (started 5 ex_cold) ((started 5 ex_cold)\<lparr>cw_q := fst (next_command (cw_q (started 5 ex_cold)))\<rparr>)"
    by (rule r_into_rtranclp)
  show ?thesis using commands_limited [OF ex_cold_ok r] by blast
qed

text \<open>The ids in memory: a step gives out the table's next id or none.\<close>

abbreviation live_ids :: "cworld \<Rightarrow> int64 set" where
  "live_ids w \<equiv> set (map cmd_id (live_commands w))"

definition ids_step :: "cworld \<Rightarrow> cworld \<Rightarrow> bool" where
  "ids_step w w' \<longleftrightarrow> seq (cq_table (cw_q w')) = seq (cq_table (cw_q w)) \<and> live_ids w' \<subseteq> live_ids w \<or>
     seq (cq_table (cw_q w')) = seq (cq_table (cw_q w)) + 1 \<and> live_ids w' \<subseteq> insert (seq (cq_table (cw_q w)) + 1) (live_ids w)"

lemma on_running_ids [simp]: "(\<And>c. cmd_id (f c) = cmd_id c) \<Longrightarrow> map cmd_id (cq_running (on_running i f q)) = map cmd_id (cq_running q)"
  by (simp add: on_running_def comp_def if_distrib cong: if_cong)

lemma on_running_id_set: "cmd_id d = i \<Longrightarrow> cmd_id ` set (cq_running (on_running i (\<lambda>_. d) q)) \<subseteq> cmd_id ` set (cq_running q)"
  by (auto simp: on_running_def intro: rev_image_eqI)

lemma cstep_ids:
  assumes "cstep w w'" and "commands_ok w" shows "ids_step w w'"
  using assms(1)
proof cases
  case (push_checked n b trigger)
  then show ?thesis by (simp add: ids_step_def)
next
  case (push_inserted n b trigger now q c)
  then show ?thesis by (auto simp: ids_step_def push_insert_def Let_def tinsert_def)
next
  case (push_appended c)
  then show ?thesis using set_remove1_subset [of c "cw_inserted w"] by (auto simp: ids_step_def push_append_def)
next
  case (picked q r)
  have "mset (map cmd_id (live_commands (w\<lparr>cw_q := q\<rparr>))) = mset (map cmd_id (live_commands w))" "cq_table q = cq_table (cw_q w)"
    using next_keeps [OF picked(2) assms(2)] by blast+
  then show ?thesis unfolding ids_step_def picked(1) by (metis cworld.select_convs(1) cworld.surjective cworld.update_convs(1) order_refl set_mset_mset)
next
  case (begun c now)
  then show ?thesis by (auto simp: ids_step_def begin_command_def Let_def on_running_def on_row_def upd_where_def)
next
  case (messaged c now lastMsg msg)
  then show ?thesis by (auto simp: ids_step_def report_message_def Let_def on_running_def on_row_def upd_where_def)
next
  case (finished c start now r)
  have "cmd_id (ended start now e c) = cmd_id c" for e by (simp add: ended_def Let_def split: option.split)
  then show ?thesis using on_running_id_set [of "ended start now (handler_error (cw_q w) c r) c" "cmd_id c" "cw_q w"]
    by (auto simp: finished(1) ids_step_def end_command_def Let_def)
next
  case (left c)
  then show ?thesis by (auto simp: ids_step_def leave_command_def)
next
  case (held on)
  then show ?thesis by (simp add: ids_step_def Hold_commands_def)
qed

lemma ids_step_fresh:
  assumes "ids_step w w'" and "i \<notin> live_ids w" and "i \<le> seq (cq_table (cw_q w))"
  shows "i \<notin> live_ids w' \<and> i \<le> seq (cq_table (cw_q w'))"
  using assms(1) unfolding ids_step_def
proof (elim disjE conjE)
  assume s: "seq (cq_table (cw_q w')) = seq (cq_table (cw_q w))" "live_ids w' \<subseteq> live_ids w"
  show ?thesis using contra_subsetD [OF s(2) assms(2)] assms(3) unfolding s(1) by (rule conjI)
next
  assume s: "seq (cq_table (cw_q w')) = seq (cq_table (cw_q w)) + 1" "live_ids w' \<subseteq> insert (seq (cq_table (cw_q w)) + 1) (live_ids w)"
  have "i \<noteq> seq (cq_table (cw_q w)) + 1" using assms(3) by linarith
  then have "i \<notin> insert (seq (cq_table (cw_q w)) + 1) (live_ids w)" using assms(2) unfolding insert_iff by blast
  from contra_subsetD [OF s(2) this] show ?thesis using s(1) assms(3) by linarith
qed

text \<open>
  A command runs once: after it left the running commands, whatever is pushed, picked and
  finished later, it is never in the queue or running again, and no later command gets its id.
\<close>

theorem command_runs_once:
  assumes "commands_ok w" and "c \<in> set (cq_running (cw_q w))" and "cstep\<^sup>*\<^sup>* (w\<lparr>cw_q := leave_command c (cw_q w)\<rparr>) v"
  shows "cmd_id c \<notin> set (map cmd_id (cq_running (cw_q v) @ cq_queued (cw_q v)))"
proof -
  let ?w = "w\<lparr>cw_q := leave_command c (cw_q w)\<rparr>"
  have ok: "commands_ok ?w" by (rule remove_keeps [OF assms(1)]) (simp_all add: leave_command_def)
  have "cmd_id c \<notin> live_ids ?w"
    using assms(1,2) by (auto simp: commands_ok_def leave_command_def)
  moreover have "cmd_id c \<le> seq (cq_table (cw_q ?w))"
    using ok_bound [OF assms(1), of c] assms(2) by (simp add: leave_command_def)
  moreover note ok
  ultimately have init: "commands_ok ?w \<and> cmd_id c \<notin> live_ids ?w \<and> cmd_id c \<le> seq (cq_table (cw_q ?w))" by blast
  from assms(3) have "commands_ok v \<and> cmd_id c \<notin> live_ids v \<and> cmd_id c \<le> seq (cq_table (cw_q v))"
  proof (induction rule: rtranclp_induct)
    case (step y z)
    then have y: "commands_ok y" "cmd_id c \<notin> live_ids y" "cmd_id c \<le> seq (cq_table (cw_q y))" by blast+
    show ?case using ids_step_fresh [OF cstep_ids [OF step(2) y(1)] y(2,3)] cstep_ok [OF step(2) y(1)] by blast
  qed (rule init)
  then show ?thesis by simp
qed

text \<open>The queued command runs to its end and leaves.\<close>

definition ex_ended :: cworld where
  "ex_ended = (let q = Start_queue 5 ex_cold; (q, c) = next_command q; c = the c; q = begin_command 6 c q; c = hd (cq_running q)
     in \<lparr>cw_q = end_command 6 7 HandlerOk c q, cw_checked = [], cw_inserted = []\<rparr>)"

theorem command_runs_once_witness:
  "1 \<notin> set (map cmd_id (cq_queued (leave_command (hd (cq_running (cw_q ex_ended))) (cw_q ex_ended))))"
proof -
  have c: "map cmd_id (cq_running (cw_q ex_ended)) = [1]" "cq_queued (cw_q ex_ended) = []" "cw_inserted ex_ended = []"
    "seq (cq_table (cw_q ex_ended)) = 1" "cq_workers (cw_q ex_ended) = 3" by code_simp+
  then have l: "length (cq_running (cw_q ex_ended)) = 1" by (metis length_map list.size(3,4) One_nat_def Suc_eq_plus1 add_0)
  then obtain x where x: "cq_running (cw_q ex_ended) = [x]" by (cases "cq_running (cw_q ex_ended)") auto
  have ok: "commands_ok ex_ended" using c x by (simp add: commands_ok_def limits_kept_def)
  have "hd (cq_running (cw_q ex_ended)) \<in> set (cq_running (cw_q ex_ended))" by (simp add: x)
  from command_runs_once [OF ok this rtranclp.rtrancl_refl] c x show ?thesis by simp
qed

section \<open>Duplicates\<close>

lemma find_key: "distinct (map f xs) \<Longrightarrow> x \<in> set xs \<Longrightarrow> find (\<lambda>y. f y = f x) xs = Some x"
  by (induction xs) auto

text \<open>
  C1: Pushing the same command again changes nothing: when no two commands in the queue are alike
  and \<open>Push\<close> runs undisturbed, it gives a command with the wanted name and body, no two commands are
  alike afterwards, and a second push of it, by whatever trigger, returns the same command and
  leaves the queue as it is.
\<close>

theorem push_dedups:
  assumes "distinct (map key_of (cq_queued q @ cq_running q))" and "Push now n b t q = (q', Some c)"
  shows "cmd_name c @ cmd_body c = n @ b \<and> distinct (map key_of (cq_queued q' @ cq_running q')) \<and>
    Push now' n b t' q' = (q', Some c)"
proof (cases "push_check n b q")
  case UnknownCommand
  then show ?thesis using assms(2) by (simp add: Push_def)
next
  case (Existing d)
  then have "q' = q" "d = c" using assms(2) by (simp_all add: Push_def)
  moreover from Existing have "find (\<lambda>c. key_of c = bodyKey n b) (cq_queued q @ cq_running q) = Some d"
    by (simp add: push_check_def split: if_splits option.splits)
  ultimately show ?thesis using Existing assms(1) find_member [of _ _ d] by (auto simp: Push_def bodyKey_def)
next
  case Fresh
  then have d: "cq_defs q n \<noteq> None" "find (\<lambda>c. key_of c = bodyKey n b) (cq_queued q @ cq_running q) = None"
    by (auto simp: push_check_def split: if_splits option.splits)
  have q': "cq_queued q' = cq_queued q @ [c]" "cq_running q' = cq_running q" "cq_defs q' = cq_defs q" "cmd_name c = n" "cmd_body c = b"
    using assms(2) Fresh by (auto simp: Push_def push_insert_def push_append_def new_command_def Let_def)
  have dist: "distinct (map key_of (cq_queued q' @ cq_running q'))"
    using d(2) assms(1) by (auto simp: q' find_None_iff)
  have "find (\<lambda>x. key_of x = key_of c) (cq_queued q' @ cq_running q') = Some c"
    by (rule find_key [OF dist]) (simp add: q')
  then have "push_check n b q' = Existing c" using d(1) by (simp add: push_check_def q')
  then show ?thesis using dist by (simp add: Push_def q')
qed

theorem push_dedups_witness:
  "snd (Push 9 ''RefreshSeries'' ''{}'' ''manual'' (Start_queue 5 ex_cold)) = Some sample_command"
proof -
  have p: "Push 8 ''RefreshSeries'' ''{}'' ''manual'' (Start_queue 5 ex_cold) = (Start_queue 5 ex_cold, Some sample_command)"
  proof -
    have "push_check ''RefreshSeries'' ''{}'' (Start_queue 5 ex_cold) = Existing sample_command" by code_simp
    then show ?thesis by (simp add: Push_def)
  qed
  have "distinct (map key_of (cq_queued (Start_queue 5 ex_cold) @ cq_running (Start_queue 5 ex_cold)))" by code_simp
  from push_dedups [OF this p] show ?thesis by simp
qed

text \<open>
  Two pushes that both look before either has added its command put it in the queue twice: the
  check and the addition are separate sections of the lock.
\<close>

lemma push_race:
  fixes w :: cworld
  assumes "push_check n b (cw_q w) = Fresh"
  shows "\<exists>w' c d. cstep\<^sup>*\<^sup>* w w' \<and> c \<in> set (cq_queued (cw_q w')) \<and> d \<in> set (cq_queued (cw_q w')) \<and> c \<noteq> d \<and> key_of c = key_of d"
proof -
  obtain p ch ins where w: "w = \<lparr>cw_q = p, cw_checked = ch, cw_inserted = ins\<rparr>" by (cases w)
  let ?a = "(n, b, [])"
  let ?w = "\<lambda>q k l. \<lparr>cw_q = q, cw_checked = k, cw_inserted = l\<rparr>"
  obtain q c where i1: "push_insert 0 n b [] p = (q, c)" by fastforce
  obtain q' d where i2: "push_insert 0 n b [] (push_append c q) = (q', d)" by fastforce
  have f: "push_check n b p = Fresh" using assms by (simp add: w)
  have s1: "cstep (?w p ch ins) (?w p (?a # ch) ins)" using push_checked [of n b "?w p ch ins" "[]"] f by simp
  have s2: "cstep (?w p (?a # ch) ins) (?w p (?a # ?a # ch) ins)" using push_checked [of n b "?w p (?a # ch) ins" "[]"] f by simp
  have s3: "cstep (?w p (?a # ?a # ch) ins) (?w q (?a # ch) (c # ins))" using push_inserted [of n b "[]" "?w p (?a # ?a # ch) ins" 0 q c] i1 by simp
  have s4: "cstep (?w q (?a # ch) (c # ins)) (?w (push_append c q) (?a # ch) ins)" using push_appended [of c "?w q (?a # ch) (c # ins)"] by simp
  have s5: "cstep (?w (push_append c q) (?a # ch) ins) (?w q' ch (d # ins))"
    using push_inserted [of n b "[]" "?w (push_append c q) (?a # ch) ins" 0 q' d] i2 by simp
  have s6: "cstep (?w q' ch (d # ins)) (?w (push_append d q') ch ins)" using push_appended [of d "?w q' ch (d # ins)"] by simp
  have "cstep\<^sup>*\<^sup>* w (?w (push_append d q') ch ins)"
    unfolding w using s1 s2 s3 s4 s5 s6 by (meson rtranclp.rtrancl_into_rtrancl rtranclp.rtrancl_refl)
  moreover have "c \<in> set (cq_queued (push_append d q'))" "d \<in> set (cq_queued (push_append d q'))" "cmd_id c \<noteq> cmd_id d" "key_of c = key_of d"
    using i1 i2 by (auto simp: push_insert_def push_append_def Let_def new_command_def tinsert_def)
  ultimately show ?thesis by (intro exI [of _ "?w (push_append d q') ch ins"] exI [of _ c] exI [of _ d]) auto
qed

text \<open>A command pushed before \<open>Start\<close> is in memory and in the table, so \<open>Start\<close> queues it a second time.\<close>

lemma push_before_start_twice:
  "map cmd_id (cq_queued (Start_queue 5 (fst (Push 4 ''MapImport'' ''{}'' ''startup''
     (Register ''MapImport'' \<lparr>cd_exclusive = False, cd_priority = 0, cd_handler = True\<rparr> (NewQueue 3 \<lparr>rows = [], seq = 0\<rparr>)))))) = [1, 1]"
  by code_simp

section \<open>Scheduled pushes\<close>

text \<open>
  The scheduler's life: time passes, it checks its tasks, commands end (in any order, at any
  recorded time), the queue does anything in between.  \<open>sw_pushed\<close> records its pushes.
\<close>

record sworld =
  sw_now :: time
  sw_s :: scheduler
  sw_q :: cqueue
  sw_pushed :: "(string \<times> time) list"

inductive sstep :: "sworld \<Rightarrow> sworld \<Rightarrow> bool" where
  ticked: "sw_now x \<le> t \<Longrightarrow> sstep x (x\<lparr>sw_now := t\<rparr>)"
| looked: "check_tasks (sw_now x) (sw_q x) (sw_s x) = (q, s, pushed) \<Longrightarrow>
    sstep x (x\<lparr>sw_q := q, sw_s := s, sw_pushed := sw_pushed x @ map (\<lambda>n. (n, sw_now x)) pushed\<rparr>)"
| reported: "sstep x (x\<lparr>sw_s := commandDone c (sw_s x)\<rparr>)"
| queue_moves: "sstep x (x\<lparr>sw_q := q\<rparr>)"

abbreviation names :: "scheduled_task list \<Rightarrow> string list" where
  "names rs \<equiv> map st_name rs"

lemma check_rows_spec:
  assumes "check_rows now rs q s = (q', s', pushed)"
  shows "sc_tasks s' = sc_tasks s \<and> sc_rows s' = map (\<lambda>r. if st_name r \<in> set pushed then r\<lparr>st_last_start := Some now\<rparr> else r) (sc_rows s) \<and>
    (\<forall>n \<in> set pushed. \<exists>r \<in> set rs. st_name r = n \<and> due now (sc_tasks s) r) \<and> (distinct (names rs) \<longrightarrow> distinct pushed)"
  using assms
proof (induction rs arbitrary: q s q' s' pushed)
  case (Cons r rs)
  show ?case
  proof (cases "due now (sc_tasks s) r")
    case False
    then show ?thesis using Cons.IH [of q s q' s' pushed] Cons.prems by auto
  next
    case True
    obtain q1 a where p: "Push now (st_name r) (sk_body (the (sc_tasks s (st_name r)))) ''scheduled'' q = (q1, a)" by fastforce
    show ?thesis
    proof (cases a)
      case None
      then show ?thesis using Cons.IH [of q1 s q' s' pushed] Cons.prems True p by auto
    next
      case (Some c)
      let ?s = "s\<lparr>sc_rows := stamp (st_name r) now (sc_rows s)\<rparr>"
      obtain q2 s2 ps where c: "check_rows now rs q1 ?s = (q2, s2, ps)" by (metis prod_cases3)
      have e: "s' = s2" "pushed = st_name r # ps" using Cons.prems True p Some c by simp_all
      note IH = Cons.IH [OF c]
      have "sc_rows s2 = map (\<lambda>r'. if st_name r' \<in> set pushed then r'\<lparr>st_last_start := Some now\<rparr> else r') (sc_rows s)"
        using IH by (simp add: stamp_def comp_def e(2) cong: map_cong)
      moreover have "st_name r \<notin> set ps" if "distinct (names (r # rs))"
      proof
        assume "st_name r \<in> set ps"
        then obtain r' where "r' \<in> set rs" "st_name r' = st_name r" using IH by blast
        with that show False by (auto intro: rev_image_eqI)
      qed
      ultimately show ?thesis using IH True by (auto simp: e)
    qed
  qed
qed simp

definition times :: "string \<Rightarrow> (string \<times> time) list \<Rightarrow> time list" where
  "times n ps = map snd (filter (\<lambda>p. fst p = n) ps)"

lemma times_append: "times n (ps @ map (\<lambda>m. (m, now)) pushed) = times n ps @ (if n \<in> set pushed then [now] else [])" if "distinct pushed"
proof -
  have "filter (\<lambda>p. fst p = n) (map (\<lambda>m. (m, now)) pushed) = (if n \<in> set pushed then [(n, now)] else [])"
    using that by (induction pushed) auto
  then show ?thesis by (simp add: times_def)
qed

definition apart :: "duration \<Rightarrow> time list \<Rightarrow> bool" where
  "apart i ts \<longleftrightarrow> sorted_wrt (\<lambda>a b. b - a \<ge> i) ts"

lemma apart_last: "apart i ts \<Longrightarrow> 0 < i \<Longrightarrow> a \<in> set ts \<Longrightarrow> a \<le> last ts"
  by (induction ts rule: rev_induct) (auto simp: apart_def sorted_wrt_append)

lemma apart_snoc:
  assumes "apart i ts" and "0 < i" and "ts \<noteq> [] \<Longrightarrow> t - last ts \<ge> i" shows "apart i (ts @ [t])"
proof -
  have "t - a \<ge> i" if "a \<in> set ts" for a
  proof -
    have "a \<le> last ts" "ts \<noteq> []" using apart_last [OF assms(1,2) that] that by auto
    then show ?thesis using assms(3) by fastforce
  qed
  then show ?thesis using assms(1) by (simp add: apart_def sorted_wrt_append)
qed

definition sched_ok :: "(string \<Rightarrow> stask option) \<Rightarrow> sworld \<Rightarrow> bool" where
  "sched_ok tasks x \<longleftrightarrow> sc_tasks (sw_s x) = tasks \<and> distinct (names (sc_rows (sw_s x))) \<and>
     (\<forall>n t. tasks n = Some t \<longrightarrow> 0 < sk_interval t \<longrightarrow>
        apart (sk_interval t) (times n (sw_pushed x)) \<and>
        (times n (sw_pushed x) \<noteq> [] \<longrightarrow>
          (\<exists>r \<in> set (sc_rows (sw_s x)). st_name r = n \<and> st_last_start r = Some (last (times n (sw_pushed x))))))"

lemma due_apart:
  assumes "due now tasks r" and "tasks (st_name r) = Some t" and "st_last_start r = Some b"
  shows "now - b \<ge> sk_interval t"
  using assms by (auto simp: due_def Let_def split: if_splits option.splits)

lemma same_row: "distinct (map f xs) \<Longrightarrow> x \<in> set xs \<Longrightarrow> y \<in> set xs \<Longrightarrow> f x = f y \<Longrightarrow> x = y"
  by (auto simp: distinct_map inj_on_def)

lemma sstep_ok:
  assumes "sstep x y" and ok: "sched_ok tasks x" shows "sched_ok tasks y"
  using assms(1)
proof cases
  case (looked q s pushed)
  let ?rows = "sc_rows (sw_s x)"
  note C = check_rows_spec [OF looked(2) [unfolded check_tasks_def]]
  have names: "distinct (names ?rows)" and tasks: "sc_tasks (sw_s x) = tasks" using ok by (simp_all add: sched_ok_def)
  have rows: "sc_rows s = map (\<lambda>r. if st_name r \<in> set pushed then r\<lparr>st_last_start := Some (sw_now x)\<rparr> else r) ?rows" using C by blast
  have n': "names (sc_rows s) = names ?rows" by (simp add: rows comp_def)
  have ta: "times n (sw_pushed y) = times n (sw_pushed x) @ (if n \<in> set pushed then [sw_now x] else [])" for n
    using times_append C names by (simp add: looked(1))
  have "apart (sk_interval t) (times n (sw_pushed y)) \<and> (times n (sw_pushed y) \<noteq> [] \<longrightarrow>
      (\<exists>r \<in> set (sc_rows s). st_name r = n \<and> st_last_start r = Some (last (times n (sw_pushed y)))))"
    if n: "tasks n = Some t" "0 < sk_interval t" for n t
  proof -
    have a: "apart (sk_interval t) (times n (sw_pushed x))" and
      l: "times n (sw_pushed x) \<noteq> [] \<Longrightarrow> \<exists>r \<in> set ?rows. st_name r = n \<and> st_last_start r = Some (last (times n (sw_pushed x)))"
      using ok n by (simp_all add: sched_ok_def)
    show ?thesis
    proof (cases "n \<in> set pushed")
      case True
      then obtain r where r: "r \<in> set ?rows" "st_name r = n" "due (sw_now x) tasks r" using C tasks by blast
      have "sw_now x - last (times n (sw_pushed x)) \<ge> sk_interval t" if "times n (sw_pushed x) \<noteq> []"
        using l [OF that] same_row [OF names r(1)] r due_apart [OF r(3)] n(1) by metis
      then have "apart (sk_interval t) (times n (sw_pushed x) @ [sw_now x])" by (rule apart_snoc [OF a n(2)])
      moreover have "r\<lparr>st_last_start := Some (sw_now x)\<rparr> \<in> set (sc_rows s)" using r True by (auto simp: rows intro: rev_image_eqI)
      ultimately show ?thesis using True r(2) by (auto simp: ta intro!: bexI [of _ "r\<lparr>st_last_start := Some (sw_now x)\<rparr>"])
    next
      case False
      have "\<exists>r \<in> set (sc_rows s). st_name r = n \<and> st_last_start r = Some (last (times n (sw_pushed x)))" if "times n (sw_pushed x) \<noteq> []"
        using l [OF that] False by (auto simp: rows intro: rev_image_eqI)
      then show ?thesis using False a by (simp add: ta)
    qed
  qed
  moreover have "sc_tasks s = tasks" using C tasks by simp
  moreover have "distinct (names (sc_rows s))" using names unfolding n' .
  ultimately show ?thesis by (simp add: sched_ok_def looked(1))
next
  case (reported c)
  have rows: "\<exists>f. sc_rows (commandDone c (sw_s x)) = map f (sc_rows (sw_s x)) \<and> (\<forall>r. st_name (f r) = st_name r \<and> st_last_start (f r) = st_last_start r)"
  proof (cases "sc_tasks (sw_s x) (cmd_name c) = None \<or> cmd_ended_at c = None")
    case True
    then show ?thesis by (intro exI [of _ "\<lambda>r. r"]) (auto simp: commandDone_def)
  next
    case False
    then obtain e where "cmd_ended_at c = Some e" by auto
    with False show ?thesis
      by (intro exI [of _ "\<lambda>r. if st_name r = cmd_name c then r\<lparr>st_last_execution := Some e\<rparr> else r"]) (auto simp: commandDone_def)
  qed
  then obtain f where f: "sc_rows (commandDone c (sw_s x)) = map f (sc_rows (sw_s x))" "\<And>r. st_name (f r) = st_name r \<and> st_last_start (f r) = st_last_start r"
    by blast
  have "sc_tasks (commandDone c (sw_s x)) = sc_tasks (sw_s x)" by (simp add: commandDone_def split: option.split)
  moreover have "names (sc_rows (commandDone c (sw_s x))) = names (sc_rows (sw_s x))" using f by simp
  moreover have "(\<exists>r \<in> set (sc_rows (commandDone c (sw_s x))). st_name r = n \<and> st_last_start r = b) =
      (\<exists>r \<in> set (sc_rows (sw_s x)). st_name r = n \<and> st_last_start r = b)" for n b using f by simp
  ultimately show ?thesis using ok unfolding sched_ok_def reported(1) by simp
next
  case (ticked t)
  then show ?thesis using ok by (simp add: sched_ok_def)
next
  case (queue_moves q)
  then show ?thesis using ok by (simp add: sched_ok_def)
qed

interpretation schedule: step_invariant sstep "sched_ok tasks"
  by unfold_locales (rule sstep_ok)

text \<open>
  The scheduler never pushes a task's command more often than its interval: whatever its
  commands do (end late or early, run manually, never end), two pushes of one task are at least the
  interval apart.
\<close>

theorem scheduled_spacing:
  assumes "distinct (names (sc_rows (sw_s x)))" and "sw_pushed x = []" and "sstep\<^sup>*\<^sup>* x y"
    and "sc_tasks (sw_s x) n = Some t" and "0 < sk_interval t"
  shows "apart (sk_interval t) (times n (sw_pushed y))"
proof -
  have "sched_ok (sc_tasks (sw_s x)) x" using assms(1,2) by (simp add: sched_ok_def times_def apart_def)
  from schedule.reachable [OF assms(3) this] assms(4,5) show ?thesis by (simp add: sched_ok_def)
qed

definition ex_schedule :: sworld where
  "ex_schedule = \<lparr>sw_now = 100, sw_s = Add_task 0 ''RefreshSeries'' \<lparr>sk_interval = 10, sk_body = ''{}'', sk_run_on_start = True\<rparr>
     \<lparr>sc_tasks = (\<lambda>_. None), sc_rows = []\<rparr>, sw_q = Start_queue 5 ex_cold, sw_pushed = []\<rparr>"

theorem scheduled_spacing_witness:
  "apart 10 (times ''RefreshSeries'' (map (\<lambda>n. (n, 100)) (snd (snd (check_tasks 100 (sw_q ex_schedule) (sw_s ex_schedule))))))"
proof -
  let ?x = ex_schedule
  obtain q s pushed where c: "check_tasks (sw_now ?x) (sw_q ?x) (sw_s ?x) = (q, s, pushed)" by (metis prod_cases3)
  have t: "sc_tasks (sw_s ?x) ''RefreshSeries'' = Some \<lparr>sk_interval = 10, sk_body = ''{}'', sk_run_on_start = True\<rparr>"
    and d: "distinct (names (sc_rows (sw_s ?x)))" "sw_pushed ?x = []" "sw_now ?x = 100"
    by (simp_all add: ex_schedule_def Add_task_def Let_def)
  have "sstep\<^sup>*\<^sup>* ?x (?x\<lparr>sw_q := q, sw_s := s, sw_pushed := sw_pushed ?x @ map (\<lambda>n. (n, sw_now ?x)) pushed\<rparr>)"
    by (rule r_into_rtranclp) (rule looked [OF c])
  from scheduled_spacing [OF d(1,2) this t] show ?thesis using c d by simp
qed

end
