(* ===== verification/TitleMatch.thy ===== *)
theory TitleMatch
  imports Prelude
begin

text \<open>
  How alike two titles are (\<open>internal/titlematch/titlematch.go\<close>).  A text is a list of runes.
  What the Go libraries know of Unicode (the compiled regular expression for bracketed notes, the
  compatibility decomposition, the classes of runes and their lower case) is a parameter.  A
  score is a rational where the code rounds to a \<open>float64\<close>.  The two-row table of the edit distance
  is shown to compute the least number of single-rune edits between two texts.
\<close>

section \<open>Normalizing\<close>

type_synonym rune = nat
type_synonym runes = "rune list"

record unicode =
  uc_noise :: "runes \<Rightarrow> runes"
  uc_nfkd :: "runes \<Rightarrow> runes"
  uc_mark :: "rune \<Rightarrow> bool"
  uc_alnum :: "rune \<Rightarrow> bool"
  uc_lower :: "rune \<Rightarrow> rune"
  uc_space :: "rune \<Rightarrow> bool"

definition rn :: "string \<Rightarrow> runes" where
  "rn s = map of_char s"

abbreviation blank :: rune where
  "blank \<equiv> 32"

definition trim_runes :: "(rune \<Rightarrow> bool) \<Rightarrow> runes \<Rightarrow> runes" where
  "trim_runes sp s = rev (dropWhile sp (rev (dropWhile sp s)))"

definition replace_and :: "runes \<Rightarrow> runes" where
  "replace_and s = concat (map (\<lambda>r. if r = 38 then rn '' and '' else [r]) s)"

text \<open>The loop over the runes; \<open>sp\<close> is the variable \<open>space\<close>.\<close>

fun squash :: "unicode \<Rightarrow> bool \<Rightarrow> runes \<Rightarrow> runes" where
  "squash U sp [] = []"
| "squash U sp (r # rs) =
     (if uc_mark U r then squash U sp rs
      else if uc_alnum U r then uc_lower U r # squash U False rs
      else if sp then squash U True rs
      else blank # squash U True rs)"

definition Normalize :: "unicode \<Rightarrow> runes \<Rightarrow> runes" where
  "Normalize U s = trim_runes (uc_space U) (squash U True (uc_nfkd U (replace_and (uc_noise U s))))"

section \<open>Words\<close>

fun fields_from :: "(rune \<Rightarrow> bool) \<Rightarrow> runes \<Rightarrow> runes \<Rightarrow> runes list" where
  "fields_from sp w [] = (if w = [] then [] else [rev w])"
| "fields_from sp w (r # rs) =
     (if sp r then (if w = [] then fields_from sp [] rs else rev w # fields_from sp [] rs)
      else fields_from sp (r # w) rs)"

definition Fields :: "unicode \<Rightarrow> runes \<Rightarrow> runes list" where
  "Fields U s = fields_from (uc_space U) [] s"

definition stop_words :: "runes list" where
  "stop_words = map rn [''the'', ''a'', ''an'', ''of'', ''no'', ''wa'', ''ga'', ''to'', ''and'', ''x'']"

definition tokens :: "unicode \<Rightarrow> runes \<Rightarrow> runes list" where
  "tokens U s =
     (let out = filter (\<lambda>t. t \<notin> set stop_words) (Fields U s);
          out = (if out = [] then Fields U s else out)
      in remdups_adj (sort out))"

fun join_words :: "runes list \<Rightarrow> runes" where
  "join_words [] = []"
| "join_words [w] = w"
| "join_words (w # v # ws) = w @ blank # join_words (v # ws)"

section \<open>Edit distance\<close>

text \<open>
  The inner loop over \<open>j\<close> for one rune \<open>a\<close>: \<open>left\<close> is \<open>cur[j-1]\<close>, the list is \<open>prev[j-1..]\<close>.
\<close>

fun lev_cells :: "rune \<Rightarrow> nat \<Rightarrow> nat list \<Rightarrow> runes \<Rightarrow> nat list" where
  "lev_cells a left (d # v # ps) (b # bs) =
     (let c = min (min (v + 1) (left + 1)) (d + (if a = b then 0 else 1)) in c # lev_cells a c (v # ps) bs)"
| "lev_cells a left ps bs = []"

definition lev_row :: "rune \<Rightarrow> nat \<Rightarrow> nat list \<Rightarrow> runes \<Rightarrow> nat list" where
  "lev_row a i prev rb = i # lev_cells a i prev rb"

fun lev_rows :: "nat \<Rightarrow> nat list \<Rightarrow> runes \<Rightarrow> runes \<Rightarrow> nat list" where
  "lev_rows i prev [] rb = prev"
| "lev_rows i prev (a # ra) rb = lev_rows (i + 1) (lev_row a i prev rb) ra rb"

definition lev :: "runes \<Rightarrow> runes \<Rightarrow> nat" where
  "lev ra rb = lev_rows 1 [0 ..< length rb + 1] ra rb ! length rb"

definition levRatio :: "runes \<Rightarrow> runes \<Rightarrow> float64" where
  "levRatio ra rb =
     (if ra = [] \<and> rb = [] then 1 else 1 - of_nat (lev ra rb) / of_nat (max (length ra) (length rb)))"

section \<open>Scores\<close>

text \<open>The comparison of \<open>tokenSetRatio\<close> once the words are sorted into common and extra ones.\<close>

definition shared_ratio :: "unicode \<Rightarrow> runes list \<Rightarrow> runes list \<Rightarrow> runes list \<Rightarrow> float64" where
  "shared_ratio U both onlyA onlyB =
     (let base = join_words both;
          withA = trim_runes (uc_space U) (base @ blank # join_words onlyA);
          withB = trim_runes (uc_space U) (base @ blank # join_words onlyB);
          extra = of_nat (length onlyA + length onlyB) / of_nat (length both + length onlyA + length onlyB);
          r = max (max (levRatio base withA) (levRatio base withB)) (levRatio withA withB)
      in r * (1 - 1 / 2 * extra))"

definition tokenSetRatio :: "unicode \<Rightarrow> runes \<Rightarrow> runes \<Rightarrow> float64" where
  "tokenSetRatio U a b =
     (let ta = tokens U a; tb = tokens U b;
          both = filter (\<lambda>t. t \<in> set tb) ta;
          onlyA = filter (\<lambda>t. t \<notin> set tb) ta;
          onlyB = filter (\<lambda>t. t \<notin> set ta) tb
      in if both = [] then levRatio (join_words ta) (join_words tb) else shared_ratio U both onlyA onlyB)"

definition despace :: "runes \<Rightarrow> runes" where
  "despace s = filter (\<lambda>r. r \<noteq> blank) s"

definition Score :: "unicode \<Rightarrow> runes \<Rightarrow> runes \<Rightarrow> float64" where
  "Score U a b =
     (let na = Normalize U a; nb = Normalize U b
      in if na = [] \<or> nb = [] then 0
         else if na = nb then 1
         else if despace na = despace nb then 99 / 100
         else max (levRatio na nb) (tokenSetRatio U na nb))"

definition Best :: "unicode \<Rightarrow> runes list \<Rightarrow> runes \<Rightarrow> float64" where
  "Best U titles c = fold (\<lambda>t best. if Score U t c > best then Score U t c else best) titles 0"

section \<open>The table computes the least number of edits\<close>

text \<open>One edit: a rune is removed, inserted or replaced.\<close>

inductive edit1 :: "runes \<Rightarrow> runes \<Rightarrow> bool" where
  removed: "edit1 (u @ c # v) (u @ v)"
| inserted: "edit1 (u @ v) (u @ c # v)"
| replaced: "edit1 (u @ c # v) (u @ d # v)"

text \<open>The distance by recursion on both texts.\<close>

fun edits :: "runes \<Rightarrow> runes \<Rightarrow> nat" where
  "edits [] ys = length ys"
| "edits (x # xs) [] = length (x # xs)"
| "edits (x # xs) (y # ys) =
     min (min (edits xs (y # ys) + 1) (edits (x # xs) ys + 1)) (edits xs ys + (if x = y then 0 else 1))"

lemma edits_Nil2 [simp]: "edits xs [] = length xs"
  by (cases xs) auto

lemma edits_sym: "edits xs ys = edits ys xs"
  by (induction xs ys rule: edits.induct) (simp_all add: min.commute)

lemma edits_add: "edits (x # xs) ys \<le> edits xs ys + 1"
proof (induction ys)
  case (Cons y ys)
  then show ?case by (simp add: min_le_iff_disj)
qed simp

lemma edits_drop: "edits xs ys \<le> edits (x # xs) ys + 1"
proof (induction ys)
  case (Cons y ys)
  have "edits xs (y # ys) \<le> edits xs ys + 1" using edits_add [of y ys xs] by (simp add: edits_sym)
  with Cons show ?case by simp
qed simp

lemma edits_upper:
  "edits (x # xs) (y # ys) \<le> edits xs (y # ys) + 1" "edits (x # xs) (y # ys) \<le> edits (x # xs) ys + 1"
  "edits (x # xs) (y # ys) \<le> edits xs ys + (if x = y then 0 else 1)"
  by (simp_all add: min_le_iff_disj)

lemma edits_lower:
  assumes "n \<le> edits xs (y # ys) + 1" "n \<le> edits (x # xs) ys + 1" "n \<le> edits xs ys + (if x = y then 0 else 1)"
  shows "n \<le> edits (x # xs) (y # ys)"
  using assms by simp

lemma edits_head: "edits (c # xs) ys \<le> edits (d # xs) ys + 1"
proof (induction ys)
  case (Cons y ys)
  have "edits (c # xs) (y # ys) - 1 \<le> edits (d # xs) (y # ys)"
    by (rule edits_lower) (use Cons edits_upper [of c xs y ys] in \<open>linarith | simp del: edits.simps split: if_splits\<close>)+
  then show ?case by linarith
qed simp

lemma edits_behind:
  assumes "\<And>ys. edits xs ys \<le> edits zs ys + 1"
  shows "edits (c # xs) ys \<le> edits (c # zs) ys + 1"
proof (induction ys)
  case Nil
  then show ?case using assms [of "[]"] by simp
next
  case (Cons y ys)
  have "edits (c # xs) (y # ys) - 1 \<le> edits (c # zs) (y # ys)"
    by (rule edits_lower) (use Cons assms [of "y # ys"] assms [of ys] edits_upper [of c xs y ys] in \<open>linarith | simp del: edits.simps split: if_splits\<close>)+
  then show ?case by linarith
qed

lemma edit1_cons: "edit1 xs ys \<Longrightarrow> edit1 (c # xs) (c # ys)"
  by (elim edit1.cases) (metis append_Cons edit1.intros)+

lemma edit1_rev: "edit1 xs ys \<Longrightarrow> edit1 (rev xs) (rev ys)"
  by (elim edit1.cases) (simp_all add: edit1.intros)

lemma edit1_edits: "edit1 xs zs \<Longrightarrow> edits xs ys \<le> edits zs ys + 1"
proof -
  have r: "edits (p @ c # q) ys \<le> edits (p @ q) ys + 1" for p c q ys
    by (induction p arbitrary: ys) (simp_all only: append.simps edits_add edits_behind)
  have i: "edits (p @ q) ys \<le> edits (p @ c # q) ys + 1" for p c q ys
    by (induction p arbitrary: ys) (simp_all only: append.simps edits_drop edits_behind)
  have s: "edits (p @ c # q) ys \<le> edits (p @ d # q) ys + 1" for p c d q ys
    by (induction p arbitrary: ys) (simp_all only: append.simps edits_head edits_behind)
  show "edit1 xs zs \<Longrightarrow> ?thesis" by (elim edit1.cases) (simp_all only: r i s)
qed

lemma edits_refl [simp]: "edits xs xs = 0"
  by (induction xs) auto

lemma edits_least: "(edit1 ^^ k) xs ys \<Longrightarrow> edits xs ys \<le> k"
proof (induction k arbitrary: xs)
  case (Suc k)
  then obtain zs where "edit1 xs zs" "(edit1 ^^ k) zs ys" by (metis relpowp_Suc_D2)
  with Suc.IH edit1_edits [of xs zs ys] show ?case by fastforce
qed simp

lemma edit1_pow_cons: "(edit1 ^^ k) xs ys \<Longrightarrow> (edit1 ^^ k) (c # xs) (c # ys)"
  by (induction k arbitrary: ys) (auto intro: edit1_cons)

lemma edit1_pow_rev: "(edit1 ^^ k) xs ys \<Longrightarrow> (edit1 ^^ k) (rev xs) (rev ys)"
  by (induction k arbitrary: ys) (auto intro: edit1_rev)

lemma edit_first:
  shows "edit1 (x # xs) xs" and "edit1 ys (y # ys)" and "edit1 (x # xs) (y # xs)"
  using removed [of "[]" x xs] inserted [of "[]" ys y] replaced [of "[]" x xs y] by simp_all

lemma edits_reached: "(edit1 ^^ edits xs ys) xs ys"
proof (induction xs ys rule: edits.induct)
  case (1 ys)
  show ?case
  proof (induction ys)
    case (Cons y ys)
    then show ?case by (auto intro: edit_first(2))
  qed simp
next
  case (2 x xs)
  have "(edit1 ^^ length zs) zs []" for zs
  proof (induction zs)
    case (Cons z zs)
    have "(edit1 ^^ Suc (length zs)) (z # zs) []"
      by (rule relpowp_Suc_I2 [where P = edit1]) (rule edit_first(1), rule Cons)
    then show ?case by simp
  qed simp
  then show ?case by (metis edits.simps(2))
next
  case (3 x xs y ys)
  have a: "(edit1 ^^ (edits xs (y # ys) + 1)) (x # xs) (y # ys)"
    unfolding Suc_eq_plus1 [symmetric] by (rule relpowp_Suc_I2 [where P = edit1]) (rule edit_first(1), rule 3(1))
  have b: "(edit1 ^^ (edits (x # xs) ys + 1)) (x # xs) (y # ys)"
    unfolding Suc_eq_plus1 [symmetric] by (rule relpowp_Suc_I [where P = edit1]) (rule 3(2), rule edit_first(2))
  have c: "(edit1 ^^ (edits xs ys + (if x = y then 0 else 1))) (x # xs) (y # ys)"
  proof (cases "x = y")
    case True
    then show ?thesis using edit1_pow_cons [OF 3(3), of x] by simp
  next
    case False
    have "(edit1 ^^ Suc (edits xs ys)) (x # xs) (y # ys)"
      by (rule relpowp_Suc_I2 [where P = edit1]) (rule edit_first(3), rule edit1_pow_cons, rule 3(3))
    with False show ?thesis by simp
  qed
  have least: "P k \<Longrightarrow> P l \<Longrightarrow> P m \<Longrightarrow> P (min (min k l) m)" for P and k l m :: nat by (simp add: min_def)
  show ?case unfolding edits.simps by (rule least) (rule a, rule b, rule c)
qed

text \<open>The table, row by row, of the distances between the parts read so far (reversed).\<close>

fun table_row :: "runes \<Rightarrow> runes \<Rightarrow> runes \<Rightarrow> nat list" where
  "table_row p q [] = [edits p q]"
| "table_row p q (b # bs) = edits p q # table_row p (b # q) bs"

lemma table_row_Cons: "\<exists>vs. table_row p q bs = edits p q # vs"
  by (cases bs) auto

lemma lev_cells_row: "lev_cells a (edits (a # p) q) (table_row p q bs) bs = tl (table_row (a # p) q bs)"
proof (induction bs arbitrary: q)
  case (Cons b bs)
  obtain vs where vs: "table_row p (b # q) bs = edits p (b # q) # vs" using table_row_Cons by blast
  obtain ws where ws: "table_row (a # p) (b # q) bs = edits (a # p) (b # q) # ws" using table_row_Cons by blast
  from Cons [of "b # q"] vs ws show ?case by (simp add: Let_def)
qed simp

lemma lev_row_row: "lev_row a (length p + 1) (table_row p [] rb) rb = table_row (a # p) [] rb"
proof -
  have l: "edits (a # p) [] = length p + 1" by simp
  obtain ws where "table_row (a # p) [] rb = edits (a # p) [] # ws" using table_row_Cons by blast
  then show ?thesis using lev_cells_row [of a p "[]" rb, unfolded l] unfolding lev_row_def l by simp
qed

lemma lev_rows_row: "lev_rows (length p + 1) (table_row p [] rb) ra rb = table_row (rev ra @ p) [] rb"
proof (induction ra arbitrary: p)
  case (Cons a ra)
  from Cons [of "a # p"] show ?case by (simp only: lev_rows.simps lev_row_row) simp
qed simp

lemma table_row_start: "table_row [] q bs = [length q ..< length q + length bs + 1]"
  by (induction bs arbitrary: q) (auto simp: upt_conv_Cons simp del: upt_Suc)

lemma table_row_end: "table_row p q bs ! length bs = edits p (rev bs @ q)"
  by (induction bs arbitrary: q) auto

lemma lev_edits: "lev ra rb = edits (rev ra) (rev rb)"
proof -
  have "lev ra rb = lev_rows (length ([] :: runes) + 1) (table_row [] [] rb) ra rb ! length rb"
    unfolding lev_def table_row_start by simp
  then show ?thesis unfolding lev_rows_row table_row_end append_Nil2 .
qed

text \<open>
  C40: The two-row table computes the edit distance: one text can be turned into the other with as
  many single-rune edits as it says, and not with fewer.
\<close>

theorem lev_is_edit_distance:
  "(edit1 ^^ lev ra rb) ra rb \<and> (\<forall>k. (edit1 ^^ k) ra rb \<longrightarrow> lev ra rb \<le> k)"
proof (intro conjI allI impI)
  show "(edit1 ^^ lev ra rb) ra rb"
    using edit1_pow_rev [OF edits_reached [of "rev ra" "rev rb"]] by (simp add: lev_edits)
  show "(edit1 ^^ k) ra rb \<Longrightarrow> lev ra rb \<le> k" for k
    using edits_least [OF edit1_pow_rev] by (simp add: lev_edits)
qed

theorem lev_is_edit_distance_witness: "(edit1 ^^ 3) (rn ''kitten'') (rn ''sitting'') \<and> \<not> (edit1 ^^ 2) (rn ''kitten'') (rn ''sitting'')"
proof -
  have "lev (rn ''kitten'') (rn ''sitting'') = 3" by code_simp
  with lev_is_edit_distance [of "rn ''kitten''" "rn ''sitting''"] show ?thesis by fastforce
qed

section \<open>Scores are a similarity\<close>

lemma edits_le_max: "edits xs ys \<le> max (length xs) (length ys)"
  by (induction xs ys rule: edits.induct) (auto simp: min_le_iff_disj)

lemma lev_le_max: "lev ra rb \<le> max (length ra) (length rb)"
  using edits_le_max [of "rev ra" "rev rb"] by (simp add: lev_edits)

lemma lev_0_iff: "lev ra rb = 0 \<longleftrightarrow> ra = rb"
  using edits_reached [of "rev ra" "rev rb"] by (auto simp: lev_edits)

lemma levRatio_range: "0 \<le> levRatio ra rb \<and> levRatio ra rb \<le> 1"
proof (cases "ra = [] \<and> rb = []")
  case False
  then have "0 < max (length ra) (length rb)" by (auto simp: less_max_iff_disj)
  with lev_le_max [of ra rb] show ?thesis
    by (simp add: levRatio_def divide_le_eq_1 of_nat_le_iff [where 'a = rat])
qed (simp add: levRatio_def)

lemma levRatio_1_iff: "levRatio ra rb = 1 \<longleftrightarrow> ra = rb"
proof (cases "ra = [] \<and> rb = []")
  case False
  then have "0 < max (length ra) (length rb)" by (auto simp: less_max_iff_disj)
  then show ?thesis using lev_0_iff [of ra rb] by (auto simp: levRatio_def)
qed (simp add: levRatio_def)

lemma levRatio_sym: "levRatio ra rb = levRatio rb ra"
  by (simp add: levRatio_def lev_edits edits_sym max.commute conj_commute)

lemma sorted_adj_distinct: "sorted xs \<Longrightarrow> distinct_adj xs \<Longrightarrow> distinct (xs :: runes list)"
  by (induction xs rule: induct_list012) (auto simp: distinct_adj_Cons)

lemma tokens_sorted: "sorted (tokens U s)" "distinct (tokens U s)"
proof -
  show "sorted (tokens U s)" by (simp add: tokens_def Let_def)
  moreover have "distinct_adj (tokens U s)" by (simp add: tokens_def Let_def)
  ultimately show "distinct (tokens U s)" by (rule sorted_adj_distinct)
qed

lemma tokens_eq_iff: "tokens U a = tokens U b \<longleftrightarrow> set (tokens U a) = set (tokens U b)"
proof
  assume "set (tokens U a) = set (tokens U b)"
  then show "tokens U a = tokens U b"
    by (rule sorted_distinct_set_unique [OF tokens_sorted tokens_sorted])
qed simp

text \<open>The words both have, in one order, whichever side they are taken from.\<close>

lemma common_tokens:
  "filter (\<lambda>t. t \<in> set (tokens U b)) (tokens U a) = filter (\<lambda>t. t \<in> set (tokens U a)) (tokens U b)"
  by (rule sorted_distinct_set_unique) (simp_all add: tokens_sorted sorted_wrt_filter Int_commute Collect_conj_eq [symmetric] conj_commute)

lemma shared_ratio_sym: "shared_ratio U ws xs ys = shared_ratio U ws ys xs"
  unfolding shared_ratio_def Let_def
  by (simp only: levRatio_sym [of "trim_runes (uc_space U) (join_words ws @ blank # join_words xs)"
        "trim_runes (uc_space U) (join_words ws @ blank # join_words ys)"]
      max.commute [of "levRatio (join_words ws) (trim_runes (uc_space U) (join_words ws @ blank # join_words xs))"] add_ac)

lemma tokenSetRatio_sym: "tokenSetRatio U a b = tokenSetRatio U b a"
  unfolding tokenSetRatio_def Let_def common_tokens [of U b a]
  by (simp only: levRatio_sym [of "join_words (tokens U b)" "join_words (tokens U a)"]
      shared_ratio_sym [of U _ "filter (\<lambda>t. t \<notin> set (tokens U b)) (tokens U a)"])

lemma shared_ratio_eq:
  "\<exists>m. 0 \<le> m \<and> m \<le> 1 \<and> (xs = [] \<longrightarrow> ys = [] \<longrightarrow> m = 1) \<and>
     shared_ratio U ws xs ys = m * (1 - 1 / 2 * (of_nat (length xs + length ys) / of_nat (length ws + (length xs + length ys))))"
proof -
  let ?b = "join_words ws" and ?x = "trim_runes (uc_space U) (join_words ws @ blank # join_words xs)"
    and ?y = "trim_runes (uc_space U) (join_words ws @ blank # join_words ys)"
  let ?m = "max (max (levRatio ?b ?x) (levRatio ?b ?y)) (levRatio ?x ?y)"
  have "0 \<le> ?m \<and> ?m \<le> 1" using levRatio_range by (simp add: le_max_iff_disj)
  moreover have "?m = 1" if "xs = []" "ys = []"
    using levRatio_1_iff [of ?x ?y] levRatio_range [of ?b ?x] levRatio_range [of ?b ?y] that by (simp add: max_absorb2)
  ultimately show ?thesis unfolding shared_ratio_def Let_def add.assoc by blast
qed

lemma half_share: "0 < n \<Longrightarrow> 0 \<le> (of_nat k / of_nat (n + k) :: rat) \<and> (of_nat k / of_nat (n + k) :: rat) \<le> 1 \<and>
    ((of_nat k / of_nat (n + k) :: rat) = 0 \<longleftrightarrow> k = 0)"
  by (simp add: divide_le_eq_1)

lemma shared_ratio_range:
  assumes "ws \<noteq> []"
  shows "0 \<le> shared_ratio U ws xs ys" "shared_ratio U ws xs ys \<le> 1" "shared_ratio U ws xs ys = 1 \<longleftrightarrow> xs = [] \<and> ys = []"
proof -
  obtain m where m: "0 \<le> m" "m \<le> 1" "xs = [] \<Longrightarrow> ys = [] \<Longrightarrow> m = 1"
    and e: "shared_ratio U ws xs ys = m * (1 - 1 / 2 * (of_nat (length xs + length ys) / of_nat (length ws + (length xs + length ys))))"
    using shared_ratio_eq [of xs ys U ws] by blast
  obtain q where q: "q = (of_nat (length xs + length ys) / of_nat (length ws + (length xs + length ys)) :: rat)" by blast
  from half_share [of "length ws" "length xs + length ys"] assms
  have r: "0 \<le> q" "q \<le> 1" "q = 0 \<longleftrightarrow> xs = [] \<and> ys = []" unfolding q by simp_all
  have e: "shared_ratio U ws xs ys = m * (1 - 1 / 2 * q)" unfolding e q ..
  show "0 \<le> shared_ratio U ws xs ys" "shared_ratio U ws xs ys \<le> 1"
    unfolding e using m r by (auto intro: mult_nonneg_nonneg mult_le_one)
  show "shared_ratio U ws xs ys = 1 \<longleftrightarrow> xs = [] \<and> ys = []"
  proof
    assume "shared_ratio U ws xs ys = 1"
    moreover have "m * (1 - 1 / 2 * q) \<le> 1 - 1 / 2 * q" using m r mult_right_mono [of m 1 "1 - 1 / 2 * q"] by simp
    ultimately have "q \<le> 0" unfolding e by linarith
    with r show "xs = [] \<and> ys = []" by simp
  next
    assume "xs = [] \<and> ys = []"
    with m r show "shared_ratio U ws xs ys = 1" unfolding e by simp
  qed
qed

lemma tokenSetRatio_range: "0 \<le> tokenSetRatio U a b \<and> tokenSetRatio U a b \<le> 1"
  unfolding tokenSetRatio_def Let_def using levRatio_range shared_ratio_range by simp

section \<open>Joining words can be undone\<close>

lemma fields_from_word:
  "\<forall>r \<in> set w. \<not> sp r \<Longrightarrow> fields_from sp v (w @ s) = fields_from sp (rev w @ v) s"
  by (induction w arbitrary: v) auto

definition words_of :: "(rune \<Rightarrow> bool) \<Rightarrow> runes list \<Rightarrow> bool" where
  "words_of sp ws \<longleftrightarrow> (\<forall>w \<in> set ws. w \<noteq> [] \<and> (\<forall>r \<in> set w. \<not> sp r))"

lemma fields_words: "\<forall>r \<in> set v. \<not> sp r \<Longrightarrow> words_of sp (fields_from sp v s)"
proof (induction s arbitrary: v)
  case (Cons r s)
  from Cons.IH [of "[]"] Cons.IH [of "r # v"] Cons.prems show ?case by (simp add: words_of_def)
qed (simp add: words_of_def)

lemma fields_join: "words_of sp ws \<Longrightarrow> sp blank \<Longrightarrow> fields_from sp [] (join_words ws) = ws"
proof (induction ws rule: join_words.induct)
  case (2 w)
  then show ?case using fields_from_word [of w sp "[]" "[]"] by (simp add: words_of_def)
next
  case (3 w v ws)
  have "words_of sp (v # ws)" using 3(2) by (simp add: words_of_def)
  with 3 show ?case using fields_from_word [of w sp "[]"] by (simp add: words_of_def)
qed simp

lemma tokens_words: "words_of (uc_space U) (tokens U s)"
  using fields_words [of "[]" "uc_space U" s] by (auto simp: tokens_def Let_def words_of_def Fields_def)

lemma tokenSetRatio_1:
  assumes "uc_space U blank"
  shows "tokenSetRatio U a b = 1 \<longleftrightarrow> tokens U a = tokens U b"
proof (cases "filter (\<lambda>t. t \<in> set (tokens U b)) (tokens U a) = []")
  case True
  have "join_words (tokens U a) = join_words (tokens U b) \<longleftrightarrow> tokens U a = tokens U b"
    using fields_join [OF tokens_words assms] by metis
  with True show ?thesis by (simp add: tokenSetRatio_def Let_def levRatio_1_iff)
next
  case False
  have "filter (\<lambda>t. t \<notin> set (tokens U b)) (tokens U a) = [] \<and> filter (\<lambda>t. t \<notin> set (tokens U a)) (tokens U b) = [] \<longleftrightarrow>
      tokens U a = tokens U b"
    unfolding tokens_eq_iff by (auto simp: filter_empty_conv)
  with shared_ratio_range(3) [OF False] False show ?thesis by (simp add: tokenSetRatio_def Let_def)
qed

text \<open>
  The score is a similarity: between 0 and 1, the same both ways round, and 1 exactly for titles
  that are equal once normalized, or that have the same words when order, repetition and the
  ignored words do not count (and differ in more than their spaces).
\<close>

theorem score_similarity:
  assumes "uc_space U blank"
  shows "0 \<le> Score U a b \<and> Score U a b \<le> 1 \<and> Score U a b = Score U b a \<and>
    (Score U a b = 1 \<longleftrightarrow> Normalize U a \<noteq> [] \<and> Normalize U b \<noteq> [] \<and>
       (Normalize U a = Normalize U b \<or> despace (Normalize U a) \<noteq> despace (Normalize U b) \<and>
        tokens U (Normalize U a) = tokens U (Normalize U b)))"
proof -
  have "max l t = 1 \<longleftrightarrow> l = 1 \<or> t = 1" if "l \<le> 1" "t \<le> 1" for l t :: rat
    using that by (auto simp: max_def)
  then have m: "max (levRatio x y) (tokenSetRatio U x y) = 1 \<longleftrightarrow> x = y \<or> tokens U x = tokens U y" for x y
    using levRatio_range tokenSetRatio_range by (simp add: levRatio_1_iff tokenSetRatio_1 [OF assms])
  show ?thesis
    unfolding Score_def Let_def using levRatio_range tokenSetRatio_range
    by (auto simp: m le_max_iff_disj levRatio_sym [of "Normalize U a"] tokenSetRatio_sym [of U "Normalize U a"])
qed

text \<open>The classes of ASCII runes, to compute an example.\<close>

definition ascii_runes :: unicode where
  "ascii_runes = \<lparr>uc_noise = (\<lambda>s. s), uc_nfkd = (\<lambda>s. s), uc_mark = (\<lambda>_. False),
     uc_alnum = (\<lambda>r. 48 \<le> r \<and> r \<le> 57 \<or> 65 \<le> r \<and> r \<le> 90 \<or> 97 \<le> r \<and> r \<le> 122),
     uc_lower = (\<lambda>r. if 65 \<le> r \<and> r \<le> 90 then r + 32 else r), uc_space = (\<lambda>r. r = 32 \<or> 9 \<le> r \<and> r \<le> 13)\<rparr>"

theorem score_similarity_witness:
  "Score ascii_runes (rn ''The Knight, Golden'') (rn ''Golden Knight'') = 1 \<and>
   Score ascii_runes (rn ''Golden Knight'') (rn ''Golden Kite'') < 1"
proof -
  have s: "uc_space ascii_runes blank" by (simp add: ascii_runes_def)
  have "Normalize ascii_runes (rn ''Golden Knight'') = rn ''golden knight''" "Normalize ascii_runes (rn ''Golden Kite'') = rn ''golden kite''"
    "Normalize ascii_runes (rn ''The Knight, Golden'') = rn ''the knight golden''"
    "despace (rn ''golden knight'') = rn ''goldenknight''" "despace (rn ''golden kite'') = rn ''goldenkite''"
    "despace (rn ''the knight golden'') = rn ''theknightgolden''"
    "tokens ascii_runes (rn ''golden knight'') = [rn ''golden'', rn ''knight'']" "tokens ascii_runes (rn ''golden kite'') = [rn ''golden'', rn ''kite'']"
    "tokens ascii_runes (rn ''the knight golden'') = [rn ''golden'', rn ''knight'']" by code_simp+
  then show ?thesis
    using score_similarity [OF s, of "rn ''The Knight, Golden''" "rn ''Golden Knight''"]
      score_similarity [OF s, of "rn ''Golden Knight''" "rn ''Golden Kite''"] by (simp add: rn_def order.strict_iff_order)
qed

end
