(* ===== verification/Limiter.thy ===== *)
theory Limiter
  imports Prelude "HOL-Library.AList"
begin

text \<open>
  The limit on failed logins (\<open>internal/auth/limiter.go\<close>) and the attempts that use it: a web or app
  login, or an invite link, asks whether its keys are locked, checks the credentials, and reports
  the outcome.  Attempts interleave between these parts; each call of the limiter holds its lock.
  A Go map is an association list with distinct keys.
\<close>

section \<open>The limiter\<close>

definition window :: duration where [go_defs]: "window = 15 * minute"
definition lockFor :: duration where [go_defs]: "lockFor = 15 * minute"
definition failsPerUser :: nat where [go_defs]: "failsPerUser = 10"
definition failsPerIP :: nat where [go_defs]: "failsPerIP = 30"

record limiter =
  lm_fails :: "(string \<times> time list) list"
  lm_locked :: "(string \<times> time) list"
  lm_lockouts :: nat

definition NewLimiter :: limiter where
  "NewLimiter = \<lparr>lm_fails = [], lm_locked = [], lm_lockouts = 0\<rparr>"

definition ip_key :: "string \<Rightarrow> string" where
  "ip_key ip = ''ip:'' @ ip"

definition LoginKeys :: "string \<Rightarrow> string \<Rightarrow> string list" where
  "LoginKeys ip username = [''user:'' @ ip @ ''|'' @ to_lower (trim_space username), ip_key ip]"

definition limitFor :: "string \<Rightarrow> nat" where
  "limitFor key = (if has_prefix key ''ip:'' then failsPerIP else failsPerUser)"

text \<open>\<open>Locked_keys\<close> returns the time a key is locked until; expired locks it passes are deleted.\<close>

fun Locked_keys :: "time \<Rightarrow> string list \<Rightarrow> limiter \<Rightarrow> limiter \<times> time option" where
  "Locked_keys now [] l = (l, None)"
| "Locked_keys now (k # ks) l =
     (case map_of (lm_locked l) k of
        None \<Rightarrow> Locked_keys now ks l
      | Some until \<Rightarrow>
          if now < until then (l, Some until) else Locked_keys now ks (l\<lparr>lm_locked := AList.delete k (lm_locked l)\<rparr>))"

definition recent_fails :: "time \<Rightarrow> string \<Rightarrow> limiter \<Rightarrow> time list" where
  "recent_fails now k l = filter (\<lambda>t. now - t < window) (case map_of (lm_fails l) k of None \<Rightarrow> [] | Some ts \<Rightarrow> ts)"

definition fail_key :: "time \<Rightarrow> string \<Rightarrow> limiter \<Rightarrow> limiter \<times> bool" where
  "fail_key now k l =
     (let list = recent_fails now k l @ [now];
          l = l\<lparr>lm_fails := AList.update k list (lm_fails l)\<rparr>
      in if length list \<ge> limitFor k
         then (l\<lparr>lm_locked := AList.update k (now + lockFor) (lm_locked l), lm_fails := AList.delete k (lm_fails l),
                 lm_lockouts := lm_lockouts l + 1\<rparr>, True)
         else (l, False))"

fun fail_keys :: "time \<Rightarrow> string list \<Rightarrow> limiter \<Rightarrow> limiter \<times> bool" where
  "fail_keys now [] l = (l, False)"
| "fail_keys now (k # ks) l =
     (let (l, a) = fail_key now k l; (l, b) = fail_keys now ks l in (l, a \<or> b))"

definition forget_idle :: "time \<Rightarrow> limiter \<Rightarrow> limiter" where
  "forget_idle now l =
     (if length (lm_fails l) > 10000
      then l\<lparr>lm_fails := filter (\<lambda>(k, ts). \<not> (ts = [] \<or> now - last ts > window)) (lm_fails l)\<rparr> else l)"

definition Fail :: "time \<Rightarrow> string list \<Rightarrow> limiter \<Rightarrow> limiter \<times> bool" where
  "Fail now ks l = (let (l, b) = fail_keys now ks l in (forget_idle now l, b))"

fun Reset :: "string list \<Rightarrow> limiter \<Rightarrow> limiter" where
  "Reset [] l = l"
| "Reset (k # ks) l = Reset ks (l\<lparr>lm_fails := AList.delete k (lm_fails l)\<rparr>)"

section \<open>Attempts\<close>

text \<open>
  \<open>gu_flight\<close> are the attempts that passed the check and have not reported; \<open>gu_failed k\<close> are the
  times of the failures reported for \<open>k\<close> since the last successful login reset it.
\<close>

record guesses =
  gu_limiter :: limiter
  gu_now :: time
  gu_flight :: "string list list"
  gu_failed :: "string \<Rightarrow> time list"

definition in_flight :: "string \<Rightarrow> guesses \<Rightarrow> nat" where
  "in_flight k g = length (filter (\<lambda>ks. k \<in> set ks) (gu_flight g))"

definition attempt_keys :: "string list \<Rightarrow> bool" where
  "attempt_keys ks \<longleftrightarrow> (\<exists>ip u. ks = LoginKeys ip u) \<or> (\<exists>ip. ks = [ip_key ip])"

definition log_failures :: "time \<Rightarrow> string list \<Rightarrow> (string \<Rightarrow> time list) \<Rightarrow> string \<Rightarrow> time list" where
  "log_failures now ks fs k = (if k \<in> set ks then fs k @ [now] else fs k)"

text \<open>At most \<open>c\<close> attempts of one key are under way at once.\<close>

inductive gustep :: "nat \<Rightarrow> guesses \<Rightarrow> guesses \<Rightarrow> bool" for c :: nat where
  admitted: "attempt_keys ks \<Longrightarrow> Locked_keys (gu_now g) ks (gu_limiter g) = (l, None) \<Longrightarrow> (\<forall>k \<in> set ks. in_flight k g < c) \<Longrightarrow>
    gustep c g (g\<lparr>gu_limiter := l, gu_flight := ks # gu_flight g\<rparr>)"
| refused: "attempt_keys ks \<Longrightarrow> Locked_keys (gu_now g) ks (gu_limiter g) = (l, Some until) \<Longrightarrow> gustep c g (g\<lparr>gu_limiter := l\<rparr>)"
| failed: "ks \<in> set (gu_flight g) \<Longrightarrow> Fail (gu_now g) ks (gu_limiter g) = (l, b) \<Longrightarrow>
    gustep c g (g\<lparr>gu_limiter := l, gu_flight := remove1 ks (gu_flight g), gu_failed := log_failures (gu_now g) ks (gu_failed g)\<rparr>)"
| succeeded: "ks \<in> set (gu_flight g) \<Longrightarrow> ks = LoginKeys ip u \<Longrightarrow>
    gustep c g (g\<lparr>gu_limiter := Reset [hd ks] (gu_limiter g), gu_flight := remove1 ks (gu_flight g), gu_failed := (gu_failed g)(hd ks := [])\<rparr>)"
| gave_up: "ks \<in> set (gu_flight g) \<Longrightarrow> gustep c g (g\<lparr>gu_flight := remove1 ks (gu_flight g)\<rparr>)"
| time_passes: "gu_now g \<le> t \<Longrightarrow> gustep c g (g\<lparr>gu_now := t\<rparr>)"

definition guess_start :: "time \<Rightarrow> guesses" where
  "guess_start t = \<lparr>gu_limiter = NewLimiter, gu_now = t, gu_flight = [], gu_failed = (\<lambda>_. [])\<rparr>"

section \<open>What the limiter remembers of a key\<close>

definition fails_of :: "string \<Rightarrow> limiter \<Rightarrow> time list" where
  "fails_of k l = (case map_of (lm_fails l) k of None \<Rightarrow> [] | Some ts \<Rightarrow> ts)"

definition locked_at :: "time \<Rightarrow> string \<Rightarrow> limiter \<Rightarrow> bool" where
  "locked_at t k l \<longleftrightarrow> (case map_of (lm_locked l) k of None \<Rightarrow> False | Some until \<Rightarrow> t < until)"

definition counted :: "time \<Rightarrow> time list \<Rightarrow> nat" where
  "counted t ts = length (filter (\<lambda>f. t - f < window) ts)"

lemma counted_simps [simp]: "counted t [] = 0" "counted t (f # ts) = (if t - f < window then 1 else 0) + counted t ts"
  "counted t (ts @ us) = counted t ts + counted t us"
  by (simp_all add: counted_def)

lemma counted_recent: "now \<le> t \<Longrightarrow> counted t (filter (\<lambda>f. now - f < window) ts) = counted t ts"
  unfolding counted_def filter_filter by (intro arg_cong [where f = length] filter_cong) auto

lemma counted_le: "counted t ts \<le> length ts"
  by (simp add: counted_def)

lemma counted_old: "(\<And>f. f \<in> set ts \<Longrightarrow> window \<le> t - f) \<Longrightarrow> counted t ts = 0"
  by (induction ts) (auto simp: not_less)

lemma counted_mono: "t \<le> t' \<Longrightarrow> counted t' ts \<le> counted t ts"
  by (induction ts) auto


lemma Locked_spec:
  assumes "Locked_keys now ks l = (l', r)"
  shows "lm_fails l' = lm_fails l"
    and "now \<le> t \<Longrightarrow> locked_at t k l' = locked_at t k l"
    and "map_of (lm_locked l') k = Some until \<Longrightarrow> map_of (lm_locked l) k = Some until"
    and "r = None \<Longrightarrow> k \<in> set ks \<Longrightarrow> \<not> locked_at now k l"
    and "r = Some until \<Longrightarrow> \<exists>k \<in> set ks. map_of (lm_locked l) k = Some until \<and> now < until"
proof -
  have d: "map_of (AList.delete i al) k = (if k = i then None else map_of al k)" for i :: string and al :: "(string \<times> time) list" and k
    by (simp add: delete_conv')
  from assms show "lm_fails l' = lm_fails l" by (induction now ks l rule: Locked_keys.induct) (auto split: option.splits if_splits)
  from assms show "now \<le> t \<Longrightarrow> locked_at t k l' = locked_at t k l"
    by (induction now ks l rule: Locked_keys.induct) (auto simp: locked_at_def d split: option.splits if_splits)
  from assms show "map_of (lm_locked l') k = Some until \<Longrightarrow> map_of (lm_locked l) k = Some until"
    by (induction now ks l rule: Locked_keys.induct) (auto simp: d split: option.splits if_splits)
  from assms show "r = None \<Longrightarrow> k \<in> set ks \<Longrightarrow> \<not> locked_at now k l"
    by (induction now ks l rule: Locked_keys.induct) (auto simp: locked_at_def d split: option.splits if_splits)
  from assms show "r = Some until \<Longrightarrow> \<exists>k \<in> set ks. map_of (lm_locked l) k = Some until \<and> now < until"
    by (induction now ks l rule: Locked_keys.induct) (auto simp: d split: option.splits if_splits)
qed

text \<open>What a failure leaves of a key: its remembered failures and its lock.\<close>

definition after_fail :: "time \<Rightarrow> string \<Rightarrow> limiter \<Rightarrow> time list \<times> time option" where
  "after_fail now k l =
     (if length (recent_fails now k l) + 1 \<ge> limitFor k then ([], Some (now + lockFor))
      else (recent_fails now k l @ [now], map_of (lm_locked l) k))"

definition of_key :: "string \<Rightarrow> limiter \<Rightarrow> time list \<times> time option" where
  "of_key k l = (fails_of k l, map_of (lm_locked l) k)"

lemma of_key_fail: "of_key k (fst (fail_key now j l)) = (if k = j then after_fail now k l else of_key k l)"
  by (simp add: of_key_def after_fail_def fail_key_def Let_def fails_of_def update_conv' delete_conv')

lemma after_fail_cong: "of_key k l = of_key k l' \<Longrightarrow> after_fail now k l = after_fail now k l'"
  by (simp add: of_key_def after_fail_def recent_fails_def fails_of_def)

lemma of_key_fails:
  "distinct ks \<Longrightarrow> of_key k (fst (fail_keys now ks l)) = (if k \<in> set ks then after_fail now k l else of_key k l)"
proof (induction ks arbitrary: l)
  case (Cons j ks)
  have "of_key k (fst (fail_key now j l)) = of_key k l" if "k \<noteq> j" using that by (simp add: of_key_fail)
  then have "after_fail now k (fst (fail_key now j l)) = after_fail now k l" if "k \<noteq> j" using that after_fail_cong by blast
  with Cons show ?case by (auto simp: Let_def case_prod_unfold of_key_fail)
qed simp

definition keys_once :: "limiter \<Rightarrow> bool" where
  "keys_once l \<longleftrightarrow> distinct (map fst (lm_fails l))"

lemma keys_once_fail: "keys_once l \<Longrightarrow> keys_once (fst (fail_key now k l))"
  by (simp add: keys_once_def fail_key_def Let_def distinct_update distinct_delete)

lemma keys_once_fails: "keys_once l \<Longrightarrow> keys_once (fst (fail_keys now ks l))"
  by (induction ks arbitrary: l) (simp_all add: Let_def case_prod_unfold keys_once_fail)

lemma map_of_filter_distinct:
  "distinct (map fst al) \<Longrightarrow> map_of (filter P al) k = (case map_of al k of None \<Rightarrow> None | Some v \<Rightarrow> if P (k, v) then Some v else None)"
proof (induction al)
  case (Cons p al)
  have "map_of al k = None \<Longrightarrow> map_of (filter P al) k = None" by (auto simp: map_of_eq_None_iff)
  with Cons show ?case by (cases p) (auto simp: map_of_eq_None_iff image_iff split: option.splits)
qed simp

lemma forget_idle_spec:
  assumes "keys_once l"
  shows "keys_once (forget_idle now l)" and "lm_locked (forget_idle now l) = lm_locked l"
    and "fails_of k (forget_idle now l) = fails_of k l \<or>
      fails_of k (forget_idle now l) = [] \<and> (fails_of k l = [] \<or> now - last (fails_of k l) > window)"
  using assms distinct_map_filter [of fst "lm_fails l"]
  by (auto simp: forget_idle_def keys_once_def fails_of_def map_of_filter_distinct split: option.splits)

section \<open>The invariant\<close>

text \<open>The latest time, if any, from which a key is free.\<close>

definition free_at :: "time \<Rightarrow> time option \<Rightarrow> bool" where
  "free_at t lk \<longleftrightarrow> (case lk of None \<Rightarrow> True | Some until \<Rightarrow> until \<le> t)"

definition key_ok :: "nat \<Rightarrow> time \<Rightarrow> string \<Rightarrow> time list \<times> time option \<Rightarrow> nat \<Rightarrow> time list \<Rightarrow> bool" where
  "key_ok c now k kl n fs \<longleftrightarrow>
     n \<le> c \<and> length (fst kl) < limitFor k \<and> sorted (fst kl) \<and> (\<forall>f \<in> set (fst kl). f \<le> now) \<and> (\<forall>f \<in> set fs. f \<le> now) \<and>
     (\<forall>until. snd kl = Some until \<longrightarrow> until \<le> now + lockFor) \<and>
     (\<forall>t. now \<le> t \<longrightarrow> free_at t (snd kl) \<longrightarrow> counted t fs \<le> counted t (fst kl)) \<and>
     counted now fs + n < limitFor k + c \<and>
     (\<forall>a. length (filter (\<lambda>f. a \<le> f \<and> f < a + window) fs) < limitFor k + c)"

definition guesses_ok :: "nat \<Rightarrow> guesses \<Rightarrow> bool" where
  "guesses_ok c g \<longleftrightarrow> keys_once (gu_limiter g) \<and> (\<forall>ks \<in> set (gu_flight g). attempt_keys ks) \<and>
     (\<forall>k. key_ok c (gu_now g) k (of_key k (gu_limiter g)) (in_flight k g) (gu_failed g k))"

lemma limit_pos: "0 < limitFor k"
  by (simp add: limitFor_def go_defs)

lemma key_okI:
  assumes "n \<le> c" "length (fst kl) < limitFor k" "sorted (fst kl)" "\<And>f. f \<in> set (fst kl) \<Longrightarrow> f \<le> now" "\<And>f. f \<in> set fs \<Longrightarrow> f \<le> now"
    "\<And>until. snd kl = Some until \<Longrightarrow> until \<le> now + lockFor"
    "\<And>t. now \<le> t \<Longrightarrow> free_at t (snd kl) \<Longrightarrow> counted t fs \<le> counted t (fst kl)" "counted now fs + n < limitFor k + c"
    "\<And>a. length (filter (\<lambda>f. a \<le> f \<and> f < a + window) fs) < limitFor k + c"
  shows "key_ok c now k kl n fs"
  using assms unfolding key_ok_def by blast

lemma key_okD:
  assumes "key_ok c now k kl n fs"
  shows "n \<le> c" "length (fst kl) < limitFor k" "sorted (fst kl)" "f \<in> set (fst kl) \<Longrightarrow> f \<le> now" "f \<in> set fs \<Longrightarrow> f \<le> now"
    "snd kl = Some until \<Longrightarrow> until \<le> now + lockFor"
    "now \<le> t \<Longrightarrow> free_at t (snd kl) \<Longrightarrow> counted t fs \<le> counted t (fst kl)" "counted now fs + n < limitFor k + c"
    "length (filter (\<lambda>f. a \<le> f \<and> f < a + window) fs) < limitFor k + c"
  using assms unfolding key_ok_def by blast+

lemma key_ok_less: "key_ok c now k kl n fs \<Longrightarrow> m \<le> n \<Longrightarrow> key_ok c now k kl m fs"
  unfolding key_ok_def by auto

lemma key_ok_later:
  assumes "key_ok c now k kl n fs" and "now \<le> t"
  shows "key_ok c t k kl n fs"
proof (rule key_okI)
  note d = key_okD [OF assms(1)]
  show "n \<le> c" "length (fst kl) < limitFor k" "sorted (fst kl)" by (rule d)+
  show "length (filter (\<lambda>f. a \<le> f \<and> f < a + window) fs) < limitFor k + c" for a by (rule d)
  show "f \<in> set (fst kl) \<Longrightarrow> f \<le> t" "f \<in> set fs \<Longrightarrow> f \<le> t" for f using d(4,5) assms(2) by fastforce+
  show "snd kl = Some until \<Longrightarrow> until \<le> t + lockFor" for until using d(6) assms(2) by fastforce
  show "t \<le> t' \<Longrightarrow> free_at t' (snd kl) \<Longrightarrow> counted t' fs \<le> counted t' (fst kl)" for t' using d(7) assms(2) by simp
  show "counted t fs + n < limitFor k + c" using d(8) counted_mono [OF assms(2), of fs] by linarith
qed

lemma key_ok_free:
  assumes "key_ok c now k kl n fs" and "\<And>t. now \<le> t \<Longrightarrow> free_at t (snd kl') = free_at t (snd kl)" and "fst kl' = fst kl"
    and "\<And>u. snd kl' = Some u \<Longrightarrow> snd kl = Some u"
  shows "key_ok c now k kl' n fs"
  using key_okD [OF assms(1)] assms(2-4) by (intro key_okI) auto

lemma key_ok_forgotten:
  assumes "key_ok c now k kl n fs" and "fst kl = [] \<or> now - last (fst kl) > window"
  shows "key_ok c now k ([], snd kl) n fs"
proof (rule key_okI)
  note d = key_okD [OF assms(1)]
  have "window \<le> t - f" if "now \<le> t" "f \<in> set (fst kl)" for t f
  proof -
    have "f \<le> last (fst kl)" using d(3) that(2) by (cases "fst kl" rule: rev_cases) (auto simp: sorted_append)
    with assms(2) that show ?thesis by auto
  qed
  then have "counted t (fst kl) = 0" if "now \<le> t" for t using that counted_old by blast
  then show "now \<le> t \<Longrightarrow> free_at t (snd ([], snd kl)) \<Longrightarrow> counted t fs \<le> counted t (fst ([], snd kl))" for t using d(7) by fastforce
qed (use key_okD [OF assms(1)] limit_pos [of k] in auto)

lemma key_ok_admit:
  assumes "key_ok c now k kl n fs" and "free_at now (snd kl)" and "n < c"
  shows "key_ok c now k kl (n + 1) fs"
proof (rule key_okI)
  note d = key_okD [OF assms(1)]
  have "counted now fs \<le> length (fst kl)" using d(7) assms(2) counted_le [of now "fst kl"] order.trans by blast
  then show "counted now fs + (n + 1) < limitFor k + c" using d(2) assms(3) by linarith
qed (use key_okD [OF assms(1)] assms(3) in auto)

lemma key_ok_reset: "key_ok c now k kl n fs \<Longrightarrow> key_ok c now k ([], snd kl) n []"
  using limit_pos [of k] unfolding key_ok_def by auto

text \<open>A failure: either the key is locked now, or the failure is remembered.\<close>

lemma window_count:
  "length (filter (\<lambda>f. a \<le> f \<and> f < a + window) (fs @ [now])) = length (filter (\<lambda>f. a \<le> f \<and> f < a + window) fs) \<or>
   length (filter (\<lambda>f. a \<le> f \<and> f < a + window) (fs @ [now])) \<le> counted now fs + 1"
proof (cases "a \<le> now \<and> now < a + window")
  case True
  have "length (filter (\<lambda>f. a \<le> f \<and> f < a + window) fs) \<le> counted now fs"
    using True by (induction fs) auto
  then show ?thesis by simp
next
  case False
  then have "filter (\<lambda>f. a \<le> f \<and> f < a + window) [now] = []" by auto
  then show ?thesis unfolding filter_append by simp
qed

lemma key_ok_fail:
  assumes ok: "key_ok c now k kl n fs" and "0 < n" and kl: "kl = of_key k l"
  shows "key_ok c now k (after_fail now k l) (n - 1) (fs @ [now])"
proof (rule key_okI)
  note d = key_okD [OF ok]
  let ?r = "recent_fails now k l" and ?a = "after_fail now k l"
  have r: "?r = filter (\<lambda>t. now - t < window) (fst kl)" unfolding recent_fails_def kl of_key_def fails_of_def by simp
  have w: "0 < window" by (simp add: go_defs)
  have a: "?a = ([], Some (now + lockFor)) \<or> length ?r + 1 < limitFor k \<and> ?a = (?r @ [now], snd kl)"
    by (auto simp: after_fail_def kl of_key_def)
  show "n - 1 \<le> c" using d(1) by simp
  show "length (fst ?a) < limitFor k" using a limit_pos [of k] by auto
  show "sorted (fst ?a)" using a d(3,4) by (auto simp: r sorted_append sorted_wrt_filter)
  show "f \<in> set (fst ?a) \<Longrightarrow> f \<le> now" for f using a d(4) by (auto simp: r)
  show "f \<in> set (fs @ [now]) \<Longrightarrow> f \<le> now" for f using d(5) by auto
  show "snd ?a = Some until \<Longrightarrow> until \<le> now + lockFor" for until using a d(6) by auto
  show b: "counted now (fs @ [now]) + (n - 1) < limitFor k + c" using d(8) assms(2) w by simp
  show "length (filter (\<lambda>f. x \<le> f \<and> f < x + window) (fs @ [now])) < limitFor k + c" for x
    using window_count [of x fs now] d(8) d(9) [of x] assms(2) d(8) by linarith
  show "counted t (fs @ [now]) \<le> counted t (fst ?a)" if t: "now \<le> t" "free_at t (snd ?a)" for t
  proof (cases "?a = ([], Some (now + lockFor))")
    case True
    then have "now + window \<le> t" using t by (simp add: free_at_def go_defs)
    then have "counted t (fs @ [now]) = 0" using d(5) by (intro counted_old) fastforce
    then show ?thesis by simp
  next
    case False
    with a have e: "?a = (?r @ [now], snd kl)" by blast
    then show ?thesis using d(7) [OF t(1)] t(2) counted_recent [OF t(1)] by (simp add: r)
  qed
qed

section \<open>Every interleaving of attempts\<close>

lemma attempt_keys_distinct: "attempt_keys ks \<Longrightarrow> distinct ks \<and> ks \<noteq> []"
  by (auto simp: attempt_keys_def LoginKeys_def ip_key_def)

lemma free_at_locked: "free_at t (snd (of_key k l)) \<longleftrightarrow> \<not> locked_at t k l"
  by (auto simp: free_at_def of_key_def locked_at_def not_less split: option.splits)

lemma Locked_key_ok:
  assumes "Locked_keys now ks l = (l', r)" and "key_ok c now k (of_key k l) n fs"
  shows "key_ok c now k (of_key k l') n fs"
proof (rule key_ok_free [OF assms(2)])
  show "free_at t (snd (of_key k l')) = free_at t (snd (of_key k l))" if "now \<le> t" for t
    unfolding free_at_locked using Locked_spec(2) [OF assms(1) that] by simp
  show "fst (of_key k l') = fst (of_key k l)" using Locked_spec(1) [OF assms(1)] by (simp add: of_key_def fails_of_def)
  show "snd (of_key k l') = Some until \<Longrightarrow> snd (of_key k l) = Some until" for until
    using Locked_spec(3) [OF assms(1)] by (simp add: of_key_def)
qed

lemma Fail_eq: "Fail now ks l = (l', b) \<Longrightarrow> l' = forget_idle now (fst (fail_keys now ks l))"
  by (auto simp: Fail_def Let_def split: prod.splits)

lemma Fail_key_ok:
  assumes "Fail now ks l = (l', b)" and "distinct ks" and "keys_once l" and "key_ok c now k (of_key k l) n fs" and "k \<in> set ks \<Longrightarrow> 0 < n"
  shows "key_ok c now k (of_key k l') (if k \<in> set ks then n - 1 else n) (if k \<in> set ks then fs @ [now] else fs)"
proof -
  let ?m = "fst (fail_keys now ks l)"
  have l': "l' = forget_idle now ?m" using assms(1) by (rule Fail_eq)
  have once: "keys_once ?m" using assms(3) by (rule keys_once_fails)
  have m: "key_ok c now k (of_key k ?m) (if k \<in> set ks then n - 1 else n) (if k \<in> set ks then fs @ [now] else fs)"
    using key_ok_fail [OF assms(4) _ refl] assms(4,5) by (simp add: of_key_fails [OF assms(2)])
  from forget_idle_spec(2,3) [OF once, where now = now]
  have "of_key k l' = of_key k ?m \<or> of_key k l' = ([], snd (of_key k ?m)) \<and> (fst (of_key k ?m) = [] \<or> now - last (fst (of_key k ?m)) > window)"
    unfolding l' of_key_def by auto
  with m key_ok_forgotten [OF m] show ?thesis by metis
qed

lemma Fail_once: "Fail now ks l = (l', b) \<Longrightarrow> keys_once l \<Longrightarrow> keys_once l'"
  using Fail_eq forget_idle_spec(1) [OF keys_once_fails] by blast

lemma in_flight_remove:
  assumes "ks \<in> set (gu_flight g)"
  shows "in_flight k (g\<lparr>gu_flight := remove1 ks (gu_flight g)\<rparr>) = (if k \<in> set ks then in_flight k g - 1 else in_flight k g)"
    and "k \<in> set ks \<Longrightarrow> 0 < in_flight k g"
proof -
  have f: "filter P (remove1 ks xs) = remove1 ks (filter P xs)" for P and xs :: "string list list"
    by (induction xs) auto
  show "in_flight k (g\<lparr>gu_flight := remove1 ks (gu_flight g)\<rparr>) = (if k \<in> set ks then in_flight k g - 1 else in_flight k g)"
    using assms by (auto simp: in_flight_def f length_remove1 remove1_idem)
  show "k \<in> set ks \<Longrightarrow> 0 < in_flight k g"
    using assms by (auto simp: in_flight_def filter_empty_conv)
qed

lemma guesses_okI:
  assumes "keys_once (gu_limiter g)" "\<And>ks. ks \<in> set (gu_flight g) \<Longrightarrow> attempt_keys ks"
    "\<And>k. key_ok c (gu_now g) k (of_key k (gu_limiter g)) (in_flight k g) (gu_failed g k)"
  shows "guesses_ok c g"
  using assms unfolding guesses_ok_def by blast

lemma guesses_okD:
  assumes "guesses_ok c g"
  shows "keys_once (gu_limiter g)" "ks \<in> set (gu_flight g) \<Longrightarrow> attempt_keys ks"
    "key_ok c (gu_now g) k (of_key k (gu_limiter g)) (in_flight k g) (gu_failed g k)"
  using assms unfolding guesses_ok_def by blast+

lemma in_flight_frame: "gu_flight g' = gu_flight g \<Longrightarrow> in_flight k g' = in_flight k g"
  by (simp add: in_flight_def)

lemma gustep_ok: "gustep c g g' \<Longrightarrow> guesses_ok c g \<Longrightarrow> guesses_ok c g'"
proof (induction rule: gustep.induct)
  case (admitted ks g l)
  note d = guesses_okD [OF admitted(4)]
  show ?case
  proof (rule guesses_okI)
    show "keys_once (gu_limiter (g\<lparr>gu_limiter := l, gu_flight := ks # gu_flight g\<rparr>))"
      using d(1) Locked_spec(1) [OF admitted(2)] by (simp add: keys_once_def)
    show "js \<in> set (gu_flight (g\<lparr>gu_limiter := l, gu_flight := ks # gu_flight g\<rparr>)) \<Longrightarrow> attempt_keys js" for js
      using d(2) admitted(1) by auto
    fix k
    have "key_ok c (gu_now g) k (of_key k (gu_limiter g)) (in_flight k (g\<lparr>gu_flight := ks # gu_flight g\<rparr>)) (gu_failed g k)"
    proof (cases "k \<in> set ks")
      case True
      then have "free_at (gu_now g) (snd (of_key k (gu_limiter g)))"
        unfolding free_at_locked using Locked_spec(4) [OF admitted(2) refl] by blast
      from key_ok_admit [OF d(3) this] admitted(3) True show ?thesis by (simp add: in_flight_def)
    next
      case False
      then show ?thesis using d(3) [of k] by (simp add: in_flight_def)
    qed
    from Locked_key_ok [OF admitted(2) this]
    show "key_ok c (gu_now (g\<lparr>gu_limiter := l, gu_flight := ks # gu_flight g\<rparr>)) k (of_key k (gu_limiter (g\<lparr>gu_limiter := l, gu_flight := ks # gu_flight g\<rparr>)))
      (in_flight k (g\<lparr>gu_limiter := l, gu_flight := ks # gu_flight g\<rparr>)) (gu_failed (g\<lparr>gu_limiter := l, gu_flight := ks # gu_flight g\<rparr>) k)"
      by (simp add: in_flight_def)
  qed
next
  case (refused ks g l until)
  note d = guesses_okD [OF refused(3)]
  show ?case
    using d(1,2) Locked_spec(1) [OF refused(2)] Locked_key_ok [OF refused(2) d(3)]
    by (intro guesses_okI) (simp_all add: keys_once_def in_flight_def)
next
  case (failed ks g l b)
  note d = guesses_okD [OF failed(3)]
  have ks: "distinct ks" using attempt_keys_distinct d(2) [OF failed(1)] by blast
  have "key_ok c (gu_now g) k (of_key k l) (in_flight k (g\<lparr>gu_flight := remove1 ks (gu_flight g)\<rparr>)) (log_failures (gu_now g) ks (gu_failed g) k)" for k
    using Fail_key_ok [OF failed(2) ks d(1) d(3) in_flight_remove(2) [OF failed(1)]]
    by (simp add: in_flight_remove(1) [OF failed(1)] log_failures_def)
  moreover have "js \<in> set (remove1 ks (gu_flight g)) \<Longrightarrow> attempt_keys js" for js
    using d(2) set_remove1_subset by fastforce
  ultimately show ?case
    using Fail_once [OF failed(2) d(1)] by (intro guesses_okI) (simp_all add: in_flight_def)
next
  case (succeeded ks g ip v)
  note d = guesses_okD [OF succeeded(3)]
  let ?h = "hd ks"
  have ks: "ks \<noteq> []" using attempt_keys_distinct d(2) [OF succeeded(1)] by blast
  have k: "of_key k (Reset [?h] (gu_limiter g)) = (if k = ?h then ([], snd (of_key k (gu_limiter g))) else of_key k (gu_limiter g))" for k
    by (simp add: of_key_def fails_of_def delete_conv')
  have "key_ok c (gu_now g) k (of_key k (Reset [?h] (gu_limiter g))) (in_flight k (g\<lparr>gu_flight := remove1 ks (gu_flight g)\<rparr>)) (((gu_failed g)(?h := [])) k)" for k
    using key_ok_less [OF key_ok_reset [OF d(3)]] key_ok_less [OF d(3)] by (simp add: k in_flight_remove(1) [OF succeeded(1)] del: Reset.simps)
  moreover have "js \<in> set (remove1 ks (gu_flight g)) \<Longrightarrow> attempt_keys js" for js
    using d(2) set_remove1_subset by fastforce
  moreover have "keys_once (Reset [?h] (gu_limiter g))" using d(1) by (simp add: keys_once_def distinct_delete)
  ultimately show ?case by (intro guesses_okI) (simp_all add: in_flight_def del: Reset.simps)
next
  case (gave_up ks g)
  note d = guesses_okD [OF gave_up(2)]
  have "js \<in> set (remove1 ks (gu_flight g)) \<Longrightarrow> attempt_keys js" for js
    using d(2) set_remove1_subset by fastforce
  then show ?case
    using d(1) key_ok_less [OF d(3)] by (intro guesses_okI) (simp_all add: in_flight_remove(1) [OF gave_up(1)])
next
  case (time_passes g t)
  note d = guesses_okD [OF time_passes(2)]
  show ?case using d(1,2) key_ok_later [OF d(3) time_passes(1)] by (intro guesses_okI) (simp_all add: in_flight_def)
qed

interpretation guesses: step_invariant "gustep c" "guesses_ok c" for c
  by unfold_locales (rule gustep_ok)

lemma guess_start_ok: "0 < c \<Longrightarrow> guesses_ok c (guess_start t)"
  by (intro guesses_okI key_okI)
    (simp_all add: guess_start_def NewLimiter_def keys_once_def in_flight_def of_key_def fails_of_def limit_pos)

text \<open>
  C39: Guessing is bounded: however attempts interleave, when at most \<open>c\<close> attempts of a key run at
  once, fewer than \<open>limit + c\<close> failures of that key fall in any quarter of an hour (10 for a user at
  an address since the last correct login, 30 for an address, with attempts one after another), and
  nobody is refused for longer than a quarter of an hour.
\<close>

theorem guesses_limited:
  assumes "(gustep c)\<^sup>*\<^sup>* (guess_start t) g" and "0 < c"
  shows "length (filter (\<lambda>f. a \<le> f \<and> f < a + window) (gu_failed g k)) < limitFor k + c \<and>
    (snd (Locked_keys (gu_now g) ks (gu_limiter g)) = Some until \<longrightarrow> until \<le> gu_now g + lockFor)"
proof
  have ok: "guesses_ok c g" by (rule guesses.reachable [OF assms(1) guess_start_ok [OF assms(2)]])
  note d = key_okD [OF guesses_okD(3) [OF ok]]
  show "length (filter (\<lambda>f. a \<le> f \<and> f < a + window) (gu_failed g k)) < limitFor k + c" by (rule d(9))
  show "snd (Locked_keys (gu_now g) ks (gu_limiter g)) = Some until \<longrightarrow> until \<le> gu_now g + lockFor"
    using Locked_spec(5) [OF prod.collapse [symmetric]] d(6) by (fastforce simp: of_key_def)
qed

text \<open>A run of one failed attempt.\<close>

definition ex_keys :: "string list" where
  "ex_keys = LoginKeys ''10.0.0.7'' ''Ann''"

definition ex_guessing :: "nat \<Rightarrow> guesses" where
  "ex_guessing n = (guess_start 5)\<lparr>gu_flight := replicate n ex_keys\<rparr>"

lemma ex_keys_ok: "attempt_keys ex_keys"
  by (auto simp: attempt_keys_def ex_keys_def)

lemma ex_admitted: "m \<le> n \<Longrightarrow> (gustep n)\<^sup>*\<^sup>* (guess_start 5) (ex_guessing m)"
proof (induction m)
  case 0
  then show ?case by (simp add: ex_guessing_def guess_start_def)
next
  case (Suc m)
  have l: "Locked_keys (gu_now (ex_guessing m)) ex_keys (gu_limiter (ex_guessing m)) = (NewLimiter, None)"
    by (simp add: ex_guessing_def guess_start_def NewLimiter_def ex_keys_def LoginKeys_def)
  have "\<forall>k \<in> set ex_keys. in_flight k (ex_guessing m) < n"
    using Suc.prems by (simp add: in_flight_def ex_guessing_def guess_start_def)
  from admitted [OF ex_keys_ok l this]
  have "gustep n (ex_guessing m) (ex_guessing (Suc m))" by (simp add: ex_guessing_def guess_start_def)
  with Suc show ?case by (meson Suc_leD rtranclp.rtrancl_into_rtrancl)
qed

theorem guesses_limited_witness:
  "\<exists>g. (gustep 1)\<^sup>*\<^sup>* (guess_start 5) g \<and> gu_failed g (ip_key ''10.0.0.7'') = [5] \<and>
     length (filter (\<lambda>f. 0 \<le> f \<and> f < 0 + window) (gu_failed g (ip_key ''10.0.0.7''))) < 31"
proof -
  let ?g = "ex_guessing 1" and ?k = "ip_key ''10.0.0.7''"
  let ?h = "?g\<lparr>gu_limiter := fst (Fail 5 ex_keys (gu_limiter ?g)), gu_flight := remove1 ex_keys (gu_flight ?g),
    gu_failed := log_failures (gu_now ?g) ex_keys (gu_failed ?g)\<rparr>"
  have "gustep 1 ?g ?h"
    by (rule failed [where b = "snd (Fail 5 ex_keys (gu_limiter ?g))"]) (simp_all add: ex_guessing_def guess_start_def)
  with ex_admitted [of 1 1] have r: "(gustep 1)\<^sup>*\<^sup>* (guess_start 5) ?h" by (meson order_refl rtranclp.rtrancl_into_rtrancl)
  have k: "gu_failed ?h ?k = [5]" by (simp add: log_failures_def ex_guessing_def guess_start_def ex_keys_def LoginKeys_def)
  have "limitFor ?k + 1 = 31" by code_simp
  with guesses_limited [OF r, where a = 0 and k = ?k] r k show ?thesis by force
qed

text \<open>Ten failures within the window lock the user at that address, and only there.\<close>

lemma ten_failures_lock:
  "let l = fold (\<lambda>t l. fst (Fail t ex_keys l)) [0, 1, 2, 3, 4, 5, 6, 7, 8, 9] NewLimiter
   in snd (Locked_keys 20 ex_keys l) = Some (9 + lockFor) \<and> snd (Locked_keys 20 (LoginKeys ''10.0.0.8'' ''ann'') l) = None"
  by code_simp

text \<open>
  The check and the report are separate: of attempts sent at once every one passes the check, so
  the limit does not bound them.
\<close>

lemma concurrent_guesses: "\<exists>g. (gustep n)\<^sup>*\<^sup>* (guess_start 5) g \<and> gu_now g = 5 \<and> length (gu_failed g (hd ex_keys)) = n"
proof -
  have "\<exists>g. (gustep n)\<^sup>*\<^sup>* (guess_start 5) g \<and> gu_now g = 5 \<and> gu_flight g = replicate (n - m) ex_keys \<and> length (gu_failed g (hd ex_keys)) = m"
    if "m \<le> n" for m
    using that
  proof (induction m)
    case 0
    then show ?case using ex_admitted [of n n] by (auto simp: ex_guessing_def guess_start_def)
  next
    case (Suc m)
    then obtain g where g: "(gustep n)\<^sup>*\<^sup>* (guess_start 5) g" "gu_now g = 5" "gu_flight g = replicate (n - m) ex_keys"
      "length (gu_failed g (hd ex_keys)) = m" by auto
    let ?h = "g\<lparr>gu_limiter := fst (Fail (gu_now g) ex_keys (gu_limiter g)), gu_flight := remove1 ex_keys (gu_flight g),
      gu_failed := log_failures (gu_now g) ex_keys (gu_failed g)\<rparr>"
    have "gustep n g ?h"
      by (rule failed [where b = "snd (Fail (gu_now g) ex_keys (gu_limiter g))"]) (use g(3) Suc.prems in simp_all)
    moreover have "remove1 ex_keys (replicate (n - m) ex_keys) = replicate (n - Suc m) ex_keys"
      using Suc.prems by (cases "n - m") (auto simp: Suc_diff_Suc)
    ultimately show ?case
      using g by (intro exI [of _ ?h]) (auto simp: log_failures_def ex_keys_def LoginKeys_def intro: rtranclp.rtrancl_into_rtrancl)
  qed
  from this [of n] show ?thesis by auto
qed

end
