(* ===== verification/Accounts.thy ===== *)
theory Accounts
  imports Limiter Model
begin

text \<open>
  Accounts: who a request is from and what they may do (\<open>internal/access/access.go\<close>), users,
  groups, sessions and logins (\<open>internal/auth/auth.go\<close>), invites (\<open>invites.go\<close>), worker keys
  (\<open>workers.go\<close>), and the administration of users and groups (\<open>internal/api/users.go\<close>).  Hashing
  and random bytes are parameters.  Foreign keys are enforced by the database: a user's group has
  to exist, and deleting a user deletes its sessions.
\<close>

section \<open>Access\<close>

definition AdminPerm :: string where "AdminPerm = ''admin''"
definition LibraryManage :: string where "LibraryManage = ''library.manage''"
definition RequestsManage :: string where "RequestsManage = ''requests.manage''"
definition RequestsCreate :: string where "RequestsCreate = ''requests.create''"
definition AppsPerm :: string where "AppsPerm = ''apps''"
definition DownloadPerm :: string where "DownloadPerm = ''download''"

definition All_permissions :: "string list" where
  "All_permissions = [AdminPerm, LibraryManage, RequestsManage, RequestsCreate, AppsPerm, DownloadPerm]"

definition Valid_permission :: "string \<Rightarrow> bool" where
  "Valid_permission p \<longleftrightarrow> p \<in> set All_permissions"

definition UsersDefault :: "string list" where
  "UsersDefault = [RequestsCreate, AppsPerm, DownloadPerm]"

lemmas perm_defs = AdminPerm_def LibraryManage_def RequestsManage_def RequestsCreate_def AppsPerm_def DownloadPerm_def

record scope =
  so_include_tags :: "int64 list"
  so_exclude_tags :: "int64 list"
  so_root_folders :: "int64 list"

definition no_scope :: scope where
  "no_scope = \<lparr>so_include_tags = [], so_exclude_tags = [], so_root_folders = []\<rparr>"

definition ScopeOf :: "group \<Rightarrow> scope" where
  "ScopeOf g = \<lparr>so_include_tags = g_include_tags g, so_exclude_tags = g_exclude_tags g, so_root_folders = g_root_folders g\<rparr>"

definition Limited :: "scope \<Rightarrow> bool" where
  "Limited s \<longleftrightarrow> so_include_tags s \<noteq> [] \<or> so_exclude_tags s \<noteq> [] \<or> so_root_folders s \<noteq> []"

definition Allows :: "scope \<Rightarrow> series \<Rightarrow> bool" where
  "Allows s ser \<longleftrightarrow>
     (if so_root_folders s \<noteq> [] \<and> s_root_folder_id ser \<notin> set (so_root_folders s) then False
      else if list_ex (\<lambda>t. t \<in> set (so_exclude_tags s)) (s_tags ser) then False
      else if so_include_tags s \<noteq> [] then list_ex (\<lambda>t. t \<in> set (so_include_tags s)) (s_tags ser)
      else True)"

datatype principal_kind = KindUser | KindAPIKey | KindAnonymous | KindWorker

record principal =
  pr_kind :: principal_kind
  pr_user_id :: int64
  pr_username :: string
  pr_display_name :: string
  pr_reader_id :: int64
  pr_group_id :: int64
  pr_group_name :: string
  pr_perms :: "string list"
  pr_scope :: scope
  pr_session_id :: string
  pr_worker_id :: int64

definition AdminPrincipal :: "principal_kind \<Rightarrow> string \<Rightarrow> principal" where
  "AdminPrincipal kind name = \<lparr>pr_kind = kind, pr_user_id = 0, pr_username = name, pr_display_name = [], pr_reader_id = 0, pr_group_id = 0,
     pr_group_name = [], pr_perms = [AdminPerm], pr_scope = no_scope, pr_session_id = [], pr_worker_id = 0\<rparr>"

definition Can :: "principal option \<Rightarrow> string \<Rightarrow> bool" where
  "Can p perm = (case p of None \<Rightarrow> False | Some p \<Rightarrow> AdminPerm \<in> set (pr_perms p) \<or> perm \<in> set (pr_perms p))"

definition IsAdmin :: "principal option \<Rightarrow> bool" where
  "IsAdmin p = Can p AdminPerm"

definition Sees :: "principal option \<Rightarrow> series \<Rightarrow> bool" where
  "Sees p ser = (case p of None \<Rightarrow> False | Some q \<Rightarrow> if Can p LibraryManage then True else Allows (pr_scope q) ser)"

definition Permissions :: "principal option \<Rightarrow> string list" where
  "Permissions p = filter (Can p) All_permissions"

section \<open>State\<close>

record session =
  sn_id :: string
  sn_user_id :: int64
  sn_created_at :: time
  sn_last_seen_at :: time
  sn_expires_at :: time
  sn_ip :: string
  sn_user_agent :: string

record cached =
  ca_principal :: principal
  ca_loaded :: time
  ca_last_seen :: time

text \<open>
  The tables and the caches of the service.  \<open>ac_worker_keys\<close> is the cache of worker keys by hash,
  \<open>None\<close> until it is loaded.
\<close>

record accounts =
  ac_users :: "user table"
  ac_groups :: "group table"
  ac_readers :: "reader table"
  ac_invites :: "invite table"
  ac_sessions :: "session list"
  ac_workers :: "worker table"
  ac_disabled :: bool
  ac_api_key :: string
  ac_limiter :: limiter
  ac_cache :: "(string \<times> cached) list"
  ac_worker_keys :: "(string \<times> worker) list option"
  ac_worker_seen :: "(int64 \<times> time) list"

record crypto =
  cr_hash :: "string \<Rightarrow> string \<Rightarrow> string option"
  cr_match :: "string \<Rightarrow> string \<Rightarrow> bool"
  cr_sha256 :: "string \<Rightarrow> string"

definition sessionTTL :: duration where [go_defs]: "sessionTTL = 30 * 24 * hour"
definition cacheTTL :: duration where [go_defs]: "cacheTTL = minute"

definition Invalidate :: "accounts \<Rightarrow> accounts" where
  "Invalidate s = s\<lparr>ac_cache := []\<rparr>"

definition NeedsSetup :: "accounts \<Rightarrow> bool" where
  "NeedsSetup s \<longleftrightarrow> rows (ac_users s) = []"

section \<open>Groups\<close>

definition new_group :: "time \<Rightarrow> string \<Rightarrow> string \<Rightarrow> string list \<Rightarrow> int64 list \<Rightarrow> int64 list \<Rightarrow> int64 list \<Rightarrow> bool \<Rightarrow> group" where
  "new_group now name key perms incl excl roots auto =
     \<lparr>g_id = 0, g_name = name, g_builtin = key, g_permissions = perms, g_include_tags = incl, g_exclude_tags = excl,
      g_root_folders = roots, g_auto_approve = auto, g_created_at = now\<rparr>"

definition put_group :: "group \<Rightarrow> accounts \<Rightarrow> accounts" where
  "put_group g s = s\<lparr>ac_groups := tinsert (\<lambda>i g. g\<lparr>g_id := i\<rparr>) g (ac_groups s)\<rparr>"

text \<open>One round of the loop of \<open>EnsureGroups\<close>; the unique name of a group makes the insert fail.\<close>

definition ensure_group :: "time \<Rightarrow> string \<Rightarrow> string \<Rightarrow> string list \<Rightarrow> accounts \<Rightarrow> accounts \<times> int64 option" where
  "ensure_group now key name perms s =
     (case find (\<lambda>g. g_builtin g = key) (rows (ac_groups s)) of
        Some g \<Rightarrow> (s, Some (g_id g))
      | None \<Rightarrow>
          let taken = (\<lambda>n. list_ex (\<lambda>g. g_name g = n) (rows (ac_groups s)));
              name = (if taken name then name @ '' (built-in)'' else name)
          in if taken name then (s, None) else (put_group (new_group now name key perms [] [] [] False) s, Some (seq (ac_groups s) + 1)))"

definition EnsureGroups :: "time \<Rightarrow> accounts \<Rightarrow> accounts \<times> (int64 \<times> int64) option" where
  "EnsureGroups now s =
     (case ensure_group now GroupAdmins ''Admins'' [AdminPerm] s of
        (s, None) \<Rightarrow> (s, None)
      | (s, Some admins) \<Rightarrow>
          (case ensure_group now GroupUsers ''Users'' UsersDefault s of
             (s, None) \<Rightarrow> (s, None)
           | (s, Some users) \<Rightarrow> (s, Some (admins, users))))"

section \<open>Users\<close>

record new_user =
  nu_username :: string
  nu_password :: string
  nu_display_name :: string
  nu_group_id :: int64
  nu_created_by :: int64
  nu_oidc_subject :: string

datatype user_error = BadUsername | ShortPassword | UsernameTaken | HashFailed | NoGroups | NoSuchGroup | InviteInvalid

text \<open>
  The names \<open>newReader\<close> tries, in its order; among one more than there are readers one is free.
\<close>

definition reader_names :: "string \<Rightarrow> nat \<Rightarrow> string list" where
  "reader_names base n = base # map (\<lambda>i. base @ '' ('' @ format_int (int i) @ '')'') [2 ..< n + 2]"

definition newReader :: "time \<Rightarrow> user \<Rightarrow> bool \<Rightarrow> accounts \<Rightarrow> accounts \<times> int64" where
  "newReader now u counts s =
     (let base = (if u_display_name u = [] then u_username u else u_display_name u);
          free = (\<lambda>n. \<not> list_ex (\<lambda>r. rd_name r = n) (rows (ac_readers s)));
          name = (case find free (reader_names base (length (rows (ac_readers s)))) of Some n \<Rightarrow> n | None \<Rightarrow> base);
          r = \<lparr>rd_id = 0, rd_name = name, rd_count_for_cleanup = counts, rd_created_at = now\<rparr>
      in (s\<lparr>ac_readers := tinsert (\<lambda>i r. r\<lparr>rd_id := i\<rparr>) r (ac_readers s)\<rparr>, seq (ac_readers s) + 1))"

definition insert_user :: "time \<Rightarrow> user \<Rightarrow> bool \<Rightarrow> accounts \<Rightarrow> accounts \<times> user" where
  "insert_user now u counts s =
     (let (s, rid) = newReader now u counts s;
          u = u\<lparr>u_reader_id := rid\<rparr>
      in (s\<lparr>ac_users := tinsert (\<lambda>i u. u\<lparr>u_id := i\<rparr>) u (ac_users s)\<rparr>, u\<lparr>u_id := seq (ac_users s) + 1\<rparr>))"

definition bad_username :: "string \<Rightarrow> bool" where
  "bad_username n \<longleftrightarrow> n = [] \<or> list_ex (\<lambda>c. c \<in> {CHR '' '', CHR 0x09, CHR '':'', CHR ''/''}) n"

definition user_named :: "string \<Rightarrow> accounts \<Rightarrow> user option" where
  "user_named n s = find (\<lambda>u. to_lower (u_username u) = to_lower n) (rows (ac_users s))"

definition made_user :: "time \<Rightarrow> string \<Rightarrow> string \<Rightarrow> int64 \<Rightarrow> new_user \<Rightarrow> user" where
  "made_user now name h gid inp = \<lparr>u_id = 0, u_username = name, u_password_hash = h, u_display_name = trim_space (nu_display_name inp),
     u_group_id = gid, u_reader_id = 0, u_disabled = False, u_last_login_at = None, u_oidc_subject = nu_oidc_subject inp,
     u_created_by = nu_created_by inp, u_created_at = now\<rparr>"

definition CreateUser :: "crypto \<Rightarrow> time \<Rightarrow> string \<Rightarrow> new_user \<Rightarrow> accounts \<Rightarrow> accounts \<times> (user_error + user)" where
  "CreateUser cr now salt inp s =
     (let name = trim_space (nu_username inp) in
      if bad_username name then (s, Inl BadUsername)
      else if nu_oidc_subject inp = [] \<and> length (nu_password inp) < 8 then (s, Inl ShortPassword)
      else if user_named name s \<noteq> None then (s, Inl UsernameTaken)
      else
        case (if nu_password inp = [] then Some [] else cr_hash cr salt (nu_password inp)) of
          None \<Rightarrow> (s, Inl HashFailed)
        | Some h \<Rightarrow>
            let first = NeedsSetup s in
            (case EnsureGroups now s of
               (s, None) \<Rightarrow> (s, Inl NoGroups)
             | (s, Some (admins, users)) \<Rightarrow>
                 let gid = (if nu_group_id inp = 0 then (if first then admins else users) else nu_group_id inp)
                 in if tget g_id gid (ac_groups s) = None then (s, Inl NoSuchGroup)
                    else (let (s, u) = insert_user now (made_user now name h gid inp) (first \<or> gid = admins) s in (s, Inr u))))"

definition upd_user :: "int64 \<Rightarrow> (user \<Rightarrow> user) \<Rightarrow> accounts \<Rightarrow> accounts" where
  "upd_user uid f s = s\<lparr>ac_users := upd_where (\<lambda>u. u_id u = uid) f (ac_users s)\<rparr>"

section \<open>Sessions\<close>

definition new_session :: "time \<Rightarrow> string \<Rightarrow> int64 \<Rightarrow> string \<Rightarrow> string \<Rightarrow> session" where
  "new_session now rnd uid ip agent = \<lparr>sn_id = rnd, sn_user_id = uid, sn_created_at = now, sn_last_seen_at = now,
     sn_expires_at = now + sessionTTL, sn_ip = ip, sn_user_agent = take 300 agent\<rparr>"

text \<open>The database gives no session to a user that does not exist.\<close>

definition StartSession :: "time \<Rightarrow> string \<Rightarrow> int64 \<Rightarrow> string \<Rightarrow> string \<Rightarrow> accounts \<Rightarrow> accounts \<times> string option" where
  "StartSession now rnd uid ip agent s =
     (if tget u_id uid (ac_users s) = None \<or> list_ex (\<lambda>x. sn_id x = rnd) (ac_sessions s) then (s, None)
      else
        (upd_user uid (\<lambda>u. u\<lparr>u_last_login_at := Some now\<rparr>)
           (s\<lparr>ac_sessions := ac_sessions s @ [new_session now rnd uid ip agent]\<rparr>), Some rnd))"

definition EndSession :: "string \<Rightarrow> accounts \<Rightarrow> accounts" where
  "EndSession i s = s\<lparr>ac_sessions := filter (\<lambda>x. sn_id x \<noteq> i) (ac_sessions s), ac_cache := AList.delete i (ac_cache s)\<rparr>"

definition RevokeSessions :: "int64 \<Rightarrow> string \<Rightarrow> accounts \<Rightarrow> accounts" where
  "RevokeSessions uid keep s =
     Invalidate (s\<lparr>ac_sessions := filter (\<lambda>x. \<not> (sn_user_id x = uid \<and> sn_id x \<noteq> keep)) (ac_sessions s)\<rparr>)"

definition Sessions :: "time \<Rightarrow> int64 \<Rightarrow> accounts \<Rightarrow> session list" where
  "Sessions now uid s =
     stable_sort (\<lambda>a b. sn_last_seen_at a > sn_last_seen_at b)
       (filter (\<lambda>x. sn_user_id x = uid \<and> sn_expires_at x > now) (ac_sessions s))"

definition PurgeSessions :: "time \<Rightarrow> accounts \<Rightarrow> accounts" where
  "PurgeSessions now s = s\<lparr>ac_sessions := filter (\<lambda>x. \<not> sn_expires_at x < now) (ac_sessions s)\<rparr>"

definition SetPassword :: "crypto \<Rightarrow> string \<Rightarrow> int64 \<Rightarrow> string \<Rightarrow> string \<Rightarrow> accounts \<Rightarrow> accounts \<times> user_error option" where
  "SetPassword cr salt uid password keep s =
     (if length password < 8 then (s, Some ShortPassword)
      else
        case cr_hash cr salt password of
          None \<Rightarrow> (s, Some HashFailed)
        | Some h \<Rightarrow> (RevokeSessions uid keep (upd_user uid (\<lambda>u. u\<lparr>u_password_hash := h\<rparr>) s), None))"

definition SetDisabled :: "int64 \<Rightarrow> bool \<Rightarrow> accounts \<Rightarrow> accounts" where
  "SetDisabled uid d s =
     (let s = upd_user uid (\<lambda>u. u\<lparr>u_disabled := d\<rparr>) s in if d then RevokeSessions uid [] s else Invalidate s)"

section \<open>Logging in\<close>

datatype verify_error = InvalidCredentials | AccountDisabled

definition Verify :: "crypto \<Rightarrow> string \<Rightarrow> string \<Rightarrow> accounts \<Rightarrow> verify_error + user" where
  "Verify cr username password s =
     (case user_named (trim_space username) s of
        None \<Rightarrow> Inl InvalidCredentials
      | Some u \<Rightarrow>
          if u_password_hash u = [] then Inl InvalidCredentials
          else if \<not> cr_match cr (u_password_hash u) password then Inl InvalidCredentials
          else if u_disabled u then Inl AccountDisabled
          else Inr u)"

datatype login_result = LoggedIn user "string option" | LoginLocked time | LoginRefused verify_error

text \<open>\<open>Login\<close> past the check of the limiter.\<close>

definition checked_login :: "crypto \<Rightarrow> time \<Rightarrow> string \<Rightarrow> string \<Rightarrow> string \<Rightarrow> string \<Rightarrow> string \<Rightarrow> accounts \<Rightarrow> accounts \<times> login_result" where
  "checked_login cr now rnd username password ip agent s =
     (let keys = LoginKeys ip username in
      case Verify cr username password s of
        Inl InvalidCredentials \<Rightarrow> (s\<lparr>ac_limiter := fst (Fail now keys (ac_limiter s))\<rparr>, LoginRefused InvalidCredentials)
      | Inl AccountDisabled \<Rightarrow> (s, LoginRefused AccountDisabled)
      | Inr u \<Rightarrow>
          (let (s, c) = StartSession now rnd (u_id u) ip agent (s\<lparr>ac_limiter := Reset [hd keys] (ac_limiter s)\<rparr>) in (s, LoggedIn u c)))"

definition Login :: "crypto \<Rightarrow> time \<Rightarrow> string \<Rightarrow> string \<Rightarrow> string \<Rightarrow> string \<Rightarrow> string \<Rightarrow> accounts \<Rightarrow> accounts \<times> login_result" where
  "Login cr now rnd username password ip agent s =
     (case Locked_keys now (LoginKeys ip username) (ac_limiter s) of
        (l, Some until) \<Rightarrow> (s\<lparr>ac_limiter := l\<rparr>, LoginLocked until)
      | (l, None) \<Rightarrow> checked_login cr now rnd username password ip agent (s\<lparr>ac_limiter := l\<rparr>))"

section \<open>Principals\<close>

definition zero_group :: group where
  "zero_group = \<lparr>g_id = 0, g_name = [], g_builtin = [], g_permissions = [], g_include_tags = [], g_exclude_tags = [],
     g_root_folders = [], g_auto_approve = False, g_created_at = 0\<rparr>"

definition principal_of :: "user \<Rightarrow> group \<Rightarrow> principal" where
  "principal_of u g =
     (let p = \<lparr>pr_kind = KindUser, pr_user_id = u_id u, pr_username = u_username u, pr_display_name = u_display_name u,
               pr_reader_id = u_reader_id u, pr_group_id = g_id g, pr_group_name = g_name g,
               pr_perms = g_permissions g @ (if g_builtin g = GroupAdmins then [AdminPerm] else []),
               pr_scope = ScopeOf g, pr_session_id = [], pr_worker_id = 0\<rparr>
      in if IsAdmin (Some p) then p\<lparr>pr_scope := no_scope\<rparr> else p)"

definition UserPrincipal :: "int64 \<Rightarrow> accounts \<Rightarrow> principal option" where
  "UserPrincipal uid s =
     (case tget u_id uid (ac_users s) of
        None \<Rightarrow> None
      | Some u \<Rightarrow>
          if u_disabled u then None
          else Some (principal_of u (case tget g_id (u_group_id u) (ac_groups s) of None \<Rightarrow> zero_group | Some g \<Rightarrow> g)))"

definition PrincipalByName :: "string \<Rightarrow> accounts \<Rightarrow> principal option" where
  "PrincipalByName username s =
     (case user_named (trim_space username) s of None \<Rightarrow> None | Some u \<Rightarrow> UserPrincipal (u_id u) s)"

definition see_session :: "time \<Rightarrow> string \<Rightarrow> accounts \<Rightarrow> accounts" where
  "see_session now i s =
     s\<lparr>ac_sessions := map (\<lambda>x. if sn_id x = i then x\<lparr>sn_last_seen_at := now\<rparr> else x) (ac_sessions s)\<rparr>"

definition fresh_entry :: "time \<Rightarrow> string \<Rightarrow> accounts \<Rightarrow> cached option" where
  "fresh_entry now i s =
     (case map_of (ac_cache s) i of None \<Rightarrow> None | Some e \<Rightarrow> if now - ca_loaded e < cacheTTL then Some e else None)"

text \<open>The part of \<open>sessionPrincipal\<close> that reads the database, and the part that fills the cache.\<close>

definition load_session :: "time \<Rightarrow> string \<Rightarrow> accounts \<Rightarrow> principal option" where
  "load_session now i s =
     (case find (\<lambda>x. sn_id x = i) (ac_sessions s) of
        None \<Rightarrow> None
      | Some x \<Rightarrow>
          if now > sn_expires_at x then None
          else map_option (\<lambda>p. p\<lparr>pr_session_id := i\<rparr>) (UserPrincipal (sn_user_id x) s))"

definition store_session :: "time \<Rightarrow> string \<Rightarrow> principal \<Rightarrow> accounts \<Rightarrow> accounts" where
  "store_session now i p s =
     (see_session now i s)\<lparr>ac_cache := AList.update i \<lparr>ca_principal = p, ca_loaded = now, ca_last_seen = now\<rparr> (ac_cache s)\<rparr>"

definition sessionPrincipal :: "time \<Rightarrow> string \<Rightarrow> accounts \<Rightarrow> accounts \<times> principal option" where
  "sessionPrincipal now i s =
     (case fresh_entry now i s of
        Some e \<Rightarrow>
          (if now - ca_last_seen e > minute
           then see_session now i (s\<lparr>ac_cache := AList.update i (e\<lparr>ca_last_seen := now\<rparr>) (ac_cache s)\<rparr>) else s,
           Some (ca_principal e))
      | None \<Rightarrow>
          (case load_session now i s of
             None \<Rightarrow> (s, None)
           | Some p \<Rightarrow> (store_session now i p s, Some p)))"

section \<open>Worker keys\<close>

definition WorkerKeyPrefix :: string where
  "WorkerKeyPrefix = ''mgw_''"

definition InvalidateWorkers :: "accounts \<Rightarrow> accounts" where
  "InvalidateWorkers s = s\<lparr>ac_worker_keys := None\<rparr>"

definition loadWorkers :: "accounts \<Rightarrow> accounts" where
  "loadWorkers s =
     (case ac_worker_keys s of
        Some _ \<Rightarrow> s
      | None \<Rightarrow> s\<lparr>ac_worker_keys := Some (map (\<lambda>w. (w_key_hash w, w)) (rev (rows (ac_workers s))))\<rparr>)"

definition WorkerByKey :: "crypto \<Rightarrow> string \<Rightarrow> accounts \<Rightarrow> accounts \<times> worker option" where
  "WorkerByKey cr key s =
     (let s = loadWorkers s
      in (s, case ac_worker_keys s of None \<Rightarrow> None | Some m \<Rightarrow> map_of m (cr_sha256 cr key)))"

definition touchWorker :: "time \<Rightarrow> int64 \<Rightarrow> string \<Rightarrow> accounts \<Rightarrow> accounts" where
  "touchWorker now i ip s =
     (if now - (case map_of (ac_worker_seen s) i of None \<Rightarrow> 0 | Some t \<Rightarrow> t) < minute then s
      else s\<lparr>ac_worker_seen := AList.update i now (ac_worker_seen s),
             ac_workers := upd_where (\<lambda>w. w_id w = i) (\<lambda>w. w\<lparr>w_last_seen_at := Some now, w_last_ip := ip\<rparr>) (ac_workers s)\<rparr>)"

definition WorkerPrincipal :: "worker \<Rightarrow> principal" where
  "WorkerPrincipal w = \<lparr>pr_kind = KindWorker, pr_user_id = 0, pr_username = w_name w, pr_display_name = w_name w, pr_reader_id = 0,
     pr_group_id = 0, pr_group_name = [], pr_perms = [], pr_scope = no_scope, pr_session_id = [], pr_worker_id = w_id w\<rparr>"

text \<open>The credentials of a request: three places for a key, and the session cookie.\<close>

record request_auth =
  ra_header_key :: string
  ra_query_key :: string
  ra_authorization :: string
  ra_cookie :: string
  ra_ip :: string

definition request_key :: "request_auth \<Rightarrow> string" where
  "request_key r =
     (if ra_header_key r \<noteq> [] then ra_header_key r
      else if ra_query_key r \<noteq> [] then ra_query_key r
      else if has_prefix (ra_authorization r) ''Bearer '' then drop 7 (ra_authorization r)
      else [])"

definition Authenticate :: "crypto \<Rightarrow> time \<Rightarrow> request_auth \<Rightarrow> accounts \<Rightarrow> accounts \<times> principal option" where
  "Authenticate cr now r s =
     (let key = request_key r in
      if has_prefix key WorkerKeyPrefix then
        (case WorkerByKey cr key s of
           (s, None) \<Rightarrow> (s, None)
         | (s, Some w) \<Rightarrow> if \<not> w_enabled w then (s, None) else (touchWorker now (w_id w) (ra_ip r) s, Some (WorkerPrincipal w)))
      else if ac_disabled s then (s, Some (AdminPrincipal KindAnonymous ''anonymous''))
      else if key \<noteq> [] then
        (s, if ac_api_key s \<noteq> [] \<and> key = ac_api_key s then Some (AdminPrincipal KindAPIKey ''apikey'') else None)
      else if ra_cookie r = [] then (s, None)
      else sessionPrincipal now (ra_cookie r) s)"

section \<open>Invites\<close>

definition CreateInvite :: "crypto \<Rightarrow> time \<Rightarrow> string \<Rightarrow> int64 \<Rightarrow> string \<Rightarrow> int \<Rightarrow> time option \<Rightarrow> int64 \<Rightarrow> accounts \<Rightarrow> accounts \<times> invite option" where
  "CreateInvite cr now token gid note maxUses expires by s =
     (if tget g_id gid (ac_groups s) = None then (s, None)
      else
        let inv = \<lparr>inv_id = 0, inv_token_hash = cr_sha256 cr token, inv_group_id = gid, inv_note = note,
                   inv_max_uses = (if maxUses \<le> 0 then 1 else maxUses), inv_uses = 0, inv_expires_at = expires, inv_created_by = by,
                   inv_created_at = now\<rparr>
        in (s\<lparr>ac_invites := tinsert (\<lambda>i r. r\<lparr>inv_id := i\<rparr>) inv (ac_invites s)\<rparr>, Some (inv\<lparr>inv_id := seq (ac_invites s) + 1\<rparr>)))"

definition Invite_of :: "crypto \<Rightarrow> time \<Rightarrow> string \<Rightarrow> accounts \<Rightarrow> invite option" where
  "Invite_of cr now token s =
     (case find (\<lambda>v. inv_token_hash v = cr_sha256 cr token) (rows (ac_invites s)) of
        None \<Rightarrow> None
      | Some v \<Rightarrow>
          if inv_uses v \<ge> inv_max_uses v \<or> (case inv_expires_at v of None \<Rightarrow> False | Some e \<Rightarrow> now > e) then None else Some v)"

text \<open>The statements of \<open>Redeem\<close>: counting a use when one is left, and giving it back.\<close>

definition count_use :: "int64 \<Rightarrow> accounts \<Rightarrow> accounts \<times> bool" where
  "count_use i s =
     (let P = (\<lambda>v. inv_id v = i \<and> inv_uses v < inv_max_uses v)
      in (s\<lparr>ac_invites := upd_where P (\<lambda>v. v\<lparr>inv_uses := inv_uses v + 1\<rparr>) (ac_invites s)\<rparr>, n_where P (ac_invites s) \<noteq> 0))"

definition give_use_back :: "int64 \<Rightarrow> accounts \<Rightarrow> accounts" where
  "give_use_back i s = s\<lparr>ac_invites := upd_where (\<lambda>v. inv_id v = i) (\<lambda>v. v\<lparr>inv_uses := inv_uses v - 1\<rparr>) (ac_invites s)\<rparr>"

definition invited :: "invite \<Rightarrow> new_user \<Rightarrow> new_user" where
  "invited v inp = inp\<lparr>nu_group_id := inv_group_id v, nu_created_by := inv_created_by v\<rparr>"

definition Redeem :: "crypto \<Rightarrow> time \<Rightarrow> string \<Rightarrow> string \<Rightarrow> new_user \<Rightarrow> accounts \<Rightarrow> accounts \<times> (user_error + user)" where
  "Redeem cr now salt token inp s =
     (case Invite_of cr now token s of
        None \<Rightarrow> (s, Inl InviteInvalid)
      | Some v \<Rightarrow>
          (case count_use (inv_id v) s of
             (s, False) \<Rightarrow> (s, Inl InviteInvalid)
           | (s, True) \<Rightarrow>
               (case CreateUser cr now salt (invited v inp) s of
                  (s, Inl e) \<Rightarrow> (give_use_back (inv_id v) s, Inl e)
                | (s, Inr u) \<Rightarrow> (s, Inr u))))"

definition Admins :: "accounts \<Rightarrow> nat" where
  "Admins s =
     length (filter (\<lambda>u. \<not> u_disabled u \<and> list_ex (\<lambda>g. g_builtin g = GroupAdmins \<and> g_id g = u_group_id u) (rows (ac_groups s)))
       (rows (ac_users s)))"

section \<open>Administration\<close>

datatype admin_error = NotFound | BadRequest | Conflict

text \<open>Whether a change of \<open>u\<close> that leaves it an enabled administrator or not may go ahead.\<close>

definition keepAnAdmin :: "user \<Rightarrow> bool \<Rightarrow> accounts \<Rightarrow> bool" where
  "keepAnAdmin u stillAdmin s \<longleftrightarrow>
     (if stillAdmin \<or> u_disabled u then True
      else
        case tget g_id (u_group_id u) (ac_groups s) of
          None \<Rightarrow> True
        | Some g \<Rightarrow> if g_builtin g \<noteq> GroupAdmins then True else \<not> Admins s \<le> 1)"

definition edited_user :: "string \<Rightarrow> int64 \<Rightarrow> int64 \<Rightarrow> bool \<Rightarrow> user \<Rightarrow> user" where
  "edited_user displayName gid rid disable v =
     v\<lparr>u_display_name := trim_space displayName, u_group_id := gid, u_disabled := disable, u_reader_id := rid\<rparr>"

definition users_update :: "int64 \<Rightarrow> int64 \<Rightarrow> string \<Rightarrow> int64 \<Rightarrow> int64 \<Rightarrow> bool \<Rightarrow> accounts \<Rightarrow> accounts \<times> admin_error option" where
  "users_update me i displayName groupID readerID disable s =
     (case (tget u_id i (ac_users s), tget g_id groupID (ac_groups s)) of
        (None, _) \<Rightarrow> (s, Some NotFound)
      | (_, None) \<Rightarrow> (s, Some BadRequest)
      | (Some u, Some g) \<Rightarrow>
          if readerID > 0 \<and> tget rd_id readerID (ac_readers s) = None then (s, Some BadRequest)
          else if readerID > 0 \<and> list_ex (\<lambda>v. u_reader_id v = readerID \<and> u_id v \<noteq> u_id u) (rows (ac_users s)) then (s, Some BadRequest)
          else if disable \<and> u_id u = me then (s, Some BadRequest)
          else if \<not> keepAnAdmin u (g_builtin g = GroupAdmins \<and> \<not> disable) s then (s, Some BadRequest)
          else
            let s = upd_user (u_id u) (edited_user displayName (g_id g) (if readerID > 0 then readerID else u_reader_id u) disable) s;
                s = (if disable then RevokeSessions (u_id u) [] s else s)
            in (Invalidate s, None))"

definition users_delete :: "int64 \<Rightarrow> int64 \<Rightarrow> accounts \<Rightarrow> accounts \<times> admin_error option" where
  "users_delete me i s =
     (case tget u_id i (ac_users s) of
        None \<Rightarrow> (s, Some NotFound)
      | Some u \<Rightarrow>
          if u_id u = me then (s, Some BadRequest)
          else if \<not> keepAnAdmin u False s then (s, Some BadRequest)
          else (Invalidate (s\<lparr>ac_users := del_where (\<lambda>v. u_id v = u_id u) (ac_users s),
                              ac_sessions := filter (\<lambda>x. sn_user_id x \<noteq> u_id u) (ac_sessions s)\<rparr>), None))"

text \<open>What \<open>groups-update\<close> makes of a group; the built-in administrators keep their rights.\<close>

definition edited_group :: "string \<Rightarrow> string list \<Rightarrow> int64 list \<Rightarrow> int64 list \<Rightarrow> int64 list \<Rightarrow> bool \<Rightarrow> group \<Rightarrow> group" where
  "edited_group name perms incl excl roots auto g =
     (let g = g\<lparr>g_name := trim_space name, g_permissions := perms, g_auto_approve := auto, g_include_tags := incl, g_exclude_tags := excl,
                g_root_folders := roots\<rparr>
      in if g_builtin g = GroupAdmins
         then g\<lparr>g_permissions := [AdminPerm], g_include_tags := [], g_exclude_tags := [], g_root_folders := []\<rparr> else g)"

definition groups_update :: "int64 \<Rightarrow> string \<Rightarrow> string list \<Rightarrow> int64 list \<Rightarrow> int64 list \<Rightarrow> int64 list \<Rightarrow> bool \<Rightarrow> accounts \<Rightarrow> accounts \<times> admin_error option" where
  "groups_update i name perms incl excl roots auto s =
     (if list_ex (\<lambda>p. \<not> Valid_permission p) perms then (s, Some BadRequest)
      else
        case tget g_id i (ac_groups s) of
          None \<Rightarrow> (s, Some NotFound)
        | Some g \<Rightarrow>
            let g' = edited_group name perms incl excl roots auto g in
            if list_ex (\<lambda>h. g_id h \<noteq> i \<and> g_name h = g_name g') (rows (ac_groups s)) then (s, Some Conflict)
            else (Invalidate (s\<lparr>ac_groups := upd_where (\<lambda>h. g_id h = i) (\<lambda>_. g') (ac_groups s)\<rparr>), None))"

definition groups_create :: "time \<Rightarrow> string \<Rightarrow> string list \<Rightarrow> int64 list \<Rightarrow> int64 list \<Rightarrow> int64 list \<Rightarrow> bool \<Rightarrow> accounts \<Rightarrow> accounts \<times> admin_error option" where
  "groups_create now name perms incl excl roots auto s =
     (let g = new_group now (trim_space name) [] perms incl excl roots auto
      in if list_ex (\<lambda>p. \<not> Valid_permission p) perms then (s, Some BadRequest)
         else if list_ex (\<lambda>h. g_name h = g_name g) (rows (ac_groups s)) then (s, Some Conflict)
         else (put_group g s, None))"

text \<open>Deleting a group moves its members to the Users group and, in the database, deletes its invites.\<close>

definition groups_delete :: "time \<Rightarrow> int64 \<Rightarrow> accounts \<Rightarrow> accounts \<times> admin_error option" where
  "groups_delete now i s =
     (case tget g_id i (ac_groups s) of
        None \<Rightarrow> (s, Some NotFound)
      | Some g \<Rightarrow>
          if g_builtin g \<noteq> [] then (s, Some BadRequest)
          else
            case EnsureGroups now s of
              (s, None) \<Rightarrow> (s, Some BadRequest)
            | (s, Some (admins, users)) \<Rightarrow>
                (Invalidate (s\<lparr>ac_users := upd_where (\<lambda>u. u_group_id u = i) (\<lambda>u. u\<lparr>u_group_id := users\<rparr>) (ac_users s),
                               ac_groups := del_where (\<lambda>g. g_id g = i) (ac_groups s),
                               ac_invites := del_where (\<lambda>v. inv_group_id v = i) (ac_invites s)\<rparr>), None))"

section \<open>Accounts stay well formed\<close>

interpretation groups_table: id_table g_id "\<lambda>i g. g\<lparr>g_id := i\<rparr>"
  by unfold_locales simp

interpretation readers_table: id_table rd_id "\<lambda>i r. r\<lparr>rd_id := i\<rparr>"
  by unfold_locales simp

definition admin_in :: "accounts \<Rightarrow> user \<Rightarrow> bool" where
  "admin_in s u \<longleftrightarrow> \<not> u_disabled u \<and> (\<exists>g \<in> set (rows (ac_groups s)). g_builtin g = GroupAdmins \<and> g_id g = u_group_id u)"

text \<open>
  Names differ in more than their case, every user's group exists, there is one built-in group of
  each kind, and once there are users one of them is an enabled administrator.
\<close>

definition accounts_ok :: "accounts \<Rightarrow> bool" where
  "accounts_ok s \<longleftrightarrow> twf u_id (ac_users s) \<and> twf g_id (ac_groups s) \<and>
     distinct (map (\<lambda>u. to_lower (u_username u)) (rows (ac_users s))) \<and>
     (\<forall>u \<in> set (rows (ac_users s)). u_group_id u \<in> g_id ` set (rows (ac_groups s))) \<and>
     (\<forall>g \<in> set (rows (ac_groups s)). \<forall>h \<in> set (rows (ac_groups s)). g_builtin g = g_builtin h \<longrightarrow> g_builtin g \<noteq> [] \<longrightarrow> g = h) \<and>
     (rows (ac_users s) \<noteq> [] \<longrightarrow> (\<exists>u \<in> set (rows (ac_users s)). admin_in s u))"

lemma Admins_eq: "Admins s = length (filter (admin_in s) (rows (ac_users s)))"
  by (simp add: Admins_def admin_in_def list_ex_iff cong: filter_cong)

lemma accounts_okD:
  assumes "accounts_ok s"
  shows "twf u_id (ac_users s)" "twf g_id (ac_groups s)" "distinct (map (\<lambda>u. to_lower (u_username u)) (rows (ac_users s)))"
    "u \<in> set (rows (ac_users s)) \<Longrightarrow> u_group_id u \<in> g_id ` set (rows (ac_groups s))"
    "g \<in> set (rows (ac_groups s)) \<Longrightarrow> h \<in> set (rows (ac_groups s)) \<Longrightarrow> g_builtin g = g_builtin h \<Longrightarrow> g_builtin g \<noteq> [] \<Longrightarrow> g = h"
    "rows (ac_users s) \<noteq> [] \<Longrightarrow> \<exists>u \<in> set (rows (ac_users s)). admin_in s u"
  using assms unfolding accounts_ok_def by blast+

lemma accounts_okI:
  assumes "twf u_id (ac_users s)" "twf g_id (ac_groups s)" "distinct (map (\<lambda>u. to_lower (u_username u)) (rows (ac_users s)))"
    "\<And>u. u \<in> set (rows (ac_users s)) \<Longrightarrow> u_group_id u \<in> g_id ` set (rows (ac_groups s))"
    "\<And>g h. g \<in> set (rows (ac_groups s)) \<Longrightarrow> h \<in> set (rows (ac_groups s)) \<Longrightarrow> g_builtin g = g_builtin h \<Longrightarrow> g_builtin g \<noteq> [] \<Longrightarrow> g = h"
    "rows (ac_users s) \<noteq> [] \<Longrightarrow> \<exists>u \<in> set (rows (ac_users s)). admin_in s u"
  shows "accounts_ok s"
  using assms unfolding accounts_ok_def by blast

text \<open>What an operation leaves of the users and groups decides all of it.\<close>

lemma accounts_ok_same: "accounts_ok s \<Longrightarrow> ac_users s' = ac_users s \<Longrightarrow> ac_groups s' = ac_groups s \<Longrightarrow> accounts_ok s'"
  unfolding accounts_ok_def admin_in_def by simp

definition account_key :: "user \<Rightarrow> int64 \<times> string \<times> int64 \<times> bool" where
  "account_key u = (u_id u, u_username u, u_group_id u, u_disabled u)"

lemma twf_map: "map rid (rows t') = map rid (rows t) \<Longrightarrow> seq t' = seq t \<Longrightarrow> twf rid t \<Longrightarrow> twf rid t'"
proof -
  have "twf rid x \<longleftrightarrow> distinct (map rid (rows x)) \<and> (\<forall>i \<in> set (map rid (rows x)). 0 < i \<and> i \<le> seq x) \<and> 0 \<le> seq x" for x
    by (simp add: twf_def)
  then show "map rid (rows t') = map rid (rows t) \<Longrightarrow> seq t' = seq t \<Longrightarrow> twf rid t \<Longrightarrow> twf rid t'" by metis
qed

lemma accounts_ok_users:
  assumes ok: "accounts_ok s" and k: "map account_key (rows (ac_users s')) = map account_key (rows (ac_users s))"
    and q: "seq (ac_users s') = seq (ac_users s)" and g: "ac_groups s' = ac_groups s"
  shows "accounts_ok s'"
proof (rule accounts_okI)
  note d = accounts_okD [OF ok]
  have m: "map (\<lambda>u. f (account_key u)) (rows (ac_users s')) = map (\<lambda>u. f (account_key u)) (rows (ac_users s))"
    for f :: "int64 \<times> string \<times> int64 \<times> bool \<Rightarrow> 'a"
    using arg_cong [OF k, of "map f"] by (simp add: o_def)
  have same: "\<exists>v \<in> set (rows (ac_users x)). account_key v = account_key u"
    if "u \<in> set (rows (ac_users y))" "map account_key (rows (ac_users x)) = map account_key (rows (ac_users y))" for u x y
  proof -
    have "account_key u \<in> set (map account_key (rows (ac_users x)))" unfolding that(2) using that(1) by simp
    then show ?thesis by auto
  qed
  show "twf u_id (ac_users s')" by (rule twf_map [OF _ q d(1)]) (use m [of fst] in \<open>simp add: account_key_def\<close>)
  show "twf g_id (ac_groups s')" using d(2) g by simp
  show "distinct (map (\<lambda>u. to_lower (u_username u)) (rows (ac_users s')))"
    using d(3) m [of "\<lambda>(_, n, _). to_lower n"] by (simp add: account_key_def)
  show "u_group_id u \<in> g_id ` set (rows (ac_groups s'))" if in_s: "u \<in> set (rows (ac_users s'))" for u
  proof -
    obtain v where "v \<in> set (rows (ac_users s))" "account_key v = account_key u" using same [OF in_s k [symmetric]] by blast
    then show ?thesis using d(4) [of v] g by (simp add: account_key_def)
  qed
  show "x \<in> set (rows (ac_groups s')) \<Longrightarrow> h \<in> set (rows (ac_groups s')) \<Longrightarrow> g_builtin x = g_builtin h \<Longrightarrow> g_builtin x \<noteq> [] \<Longrightarrow> x = h" for x h
    using d(5) g by simp
  assume "rows (ac_users s') \<noteq> []"
  then have "rows (ac_users s) \<noteq> []" using k by (metis map_is_Nil_conv)
  with d(6) obtain u where u: "u \<in> set (rows (ac_users s))" "admin_in s u" by blast
  obtain v where "v \<in> set (rows (ac_users s'))" "account_key v = account_key u" using same [OF u(1) k] by blast
  with u(2) g have "admin_in s' v" by (simp add: account_key_def admin_in_def)
  with \<open>v \<in> _\<close> show "\<exists>u \<in> set (rows (ac_users s')). admin_in s' u" ..
qed

lemma account_key_upd:
  assumes "\<And>u. account_key (f u) = account_key u"
  shows "map account_key (rows (ac_users (upd_user uid f s))) = map account_key (rows (ac_users s))"
  using assms by (simp add: upd_user_def upd_where_def)

lemma sessions_frames [simp]:
  "ac_users (EndSession i s) = ac_users s" "ac_groups (EndSession i s) = ac_groups s"
  "ac_users (RevokeSessions uid keep s) = ac_users s" "ac_groups (RevokeSessions uid keep s) = ac_groups s"
  "ac_users (PurgeSessions now s) = ac_users s" "ac_groups (PurgeSessions now s) = ac_groups s"
  "ac_users (Invalidate s) = ac_users s" "ac_groups (Invalidate s) = ac_groups s" "ac_cache (Invalidate s) = []"
  "ac_cache (RevokeSessions uid keep s) = []" "ac_groups (upd_user uid f s) = ac_groups s" "seq (ac_users (upd_user uid f s)) = seq (ac_users s)"
  "ac_sessions (upd_user uid f s) = ac_sessions s" "ac_cache (upd_user uid f s) = ac_cache s" "ac_sessions (Invalidate s) = ac_sessions s"
  by (simp_all add: EndSession_def RevokeSessions_def PurgeSessions_def Invalidate_def upd_user_def)

lemma upd_user_ok: "(\<And>u. account_key (f u) = account_key u) \<Longrightarrow> accounts_ok s \<Longrightarrow> accounts_ok (upd_user uid f s)"
  by (rule accounts_ok_users) (simp_all add: account_key_upd)

lemma StartSession_cases:
  assumes "StartSession now rnd uid ip agent s = (s', c)"
  obtains "s' = s" "c = None"
  | "c = Some rnd" "rnd \<notin> sn_id ` set (ac_sessions s)" "tget u_id uid (ac_users s) \<noteq> None"
      "s' = upd_user uid (\<lambda>u. u\<lparr>u_last_login_at := Some now\<rparr>) (s\<lparr>ac_sessions := ac_sessions s @ [new_session now rnd uid ip agent]\<rparr>)"
proof (cases "tget u_id uid (ac_users s) = None \<or> list_ex (\<lambda>x. sn_id x = rnd) (ac_sessions s)")
  case True
  show ?thesis using that(1) assms unfolding StartSession_def if_P [OF True] by simp
next
  case False
  then have "rnd \<notin> sn_id ` set (ac_sessions s)" "tget u_id uid (ac_users s) \<noteq> None" by (auto simp: list_ex_iff)
  with that(2) assms show ?thesis unfolding StartSession_def if_not_P [OF False] by simp
qed

lemma StartSession_ok:
  assumes "StartSession now rnd uid ip agent s = (s', c)" and "accounts_ok s"
  shows "accounts_ok s'"
proof (rule StartSession_cases [OF assms(1)])
  show "s' = s \<Longrightarrow> ?thesis" using assms(2) by simp
next
  assume s': "s' = upd_user uid (\<lambda>u. u\<lparr>u_last_login_at := Some now\<rparr>) (s\<lparr>ac_sessions := ac_sessions s @ [new_session now rnd uid ip agent]\<rparr>)"
  show ?thesis unfolding s' by (rule upd_user_ok [OF _ accounts_ok_same [OF assms(2)]]) (simp_all add: account_key_def)
qed

text \<open>The outcomes of a login, with the state it leaves.\<close>

lemma Login_cases:
  assumes "Login cr now rnd username password ip agent s = (s', r)"
  obtains (refused) l where "s' = s\<lparr>ac_limiter := l\<rparr>" "\<And>u c. r \<noteq> LoggedIn u c"
  | (accepted) l u c where "StartSession now rnd (u_id u) ip agent (s\<lparr>ac_limiter := l\<rparr>) = (s', c)" "r = LoggedIn u c"
      "Verify cr username password s = Inr u"
proof -
  obtain l k where l: "Locked_keys now (LoginKeys ip username) (ac_limiter s) = (l, k)" by (metis surj_pair)
  show ?thesis
  proof (cases k)
    case (Some until)
    then have "s' = s\<lparr>ac_limiter := l\<rparr>" "r = LoginLocked until" using assms unfolding Login_def l by simp_all
    then show ?thesis using refused by simp
  next
    case None
    then have e: "checked_login cr now rnd username password ip agent (s\<lparr>ac_limiter := l\<rparr>) = (s', r)"
      using assms unfolding Login_def l by simp
    have v: "Verify cr username password (s\<lparr>ac_limiter := l\<rparr>) = Verify cr username password s" by (simp add: Verify_def user_named_def)
    show ?thesis
    proof (cases "Verify cr username password s")
      case (Inl x)
      show ?thesis
      proof (cases x)
        case InvalidCredentials
        then have "s' = s\<lparr>ac_limiter := fst (Fail now (LoginKeys ip username) l)\<rparr>" "r = LoginRefused InvalidCredentials"
          using e Inl v by (simp_all add: checked_login_def Let_def)
        then show ?thesis using refused by simp
      next
        case AccountDisabled
        then have "s' = s\<lparr>ac_limiter := l\<rparr>" "r = LoginRefused AccountDisabled" using e Inl v by (simp_all add: checked_login_def Let_def)
        then show ?thesis using refused by simp
      qed
    next
      case (Inr u)
      obtain t c where t: "StartSession now rnd (u_id u) ip agent (s\<lparr>ac_limiter := Reset [hd (LoginKeys ip username)] l\<rparr>) = (t, c)" by (metis surj_pair)
      from e have "s' = t" "r = LoggedIn u c"
        unfolding checked_login_def Let_def v Inr sum.case by (simp_all add: t del: Reset.simps)
      with accepted t Inr show ?thesis by blast
    qed
  qed
qed

lemma Login_ok:
  assumes "Login cr now rnd username password ip agent s = (s', r)" and "accounts_ok s"
  shows "accounts_ok s'"
proof (rule Login_cases [OF assms(1)])
  fix l
  show "s' = s\<lparr>ac_limiter := l\<rparr> \<Longrightarrow> ?thesis" by (rule accounts_ok_same [OF assms(2)]) simp_all
next
  fix l u c
  assume "StartSession now rnd (u_id u) ip agent (s\<lparr>ac_limiter := l\<rparr>) = (s', c)"
  then show ?thesis by (rule StartSession_ok) (rule accounts_ok_same [OF assms(2)], simp_all)
qed


text \<open>New groups are added after the others.\<close>

definition more_groups :: "accounts \<Rightarrow> accounts \<Rightarrow> bool" where
  "more_groups s s' \<longleftrightarrow> (\<exists>t gs. s' = s\<lparr>ac_groups := t\<rparr> \<and> rows t = rows (ac_groups s) @ gs)"

lemma more_groups_refl: "more_groups s s"
  unfolding more_groups_def by (intro exI [of _ "ac_groups s"] exI [of _ "[]"]) simp

lemma more_groups_trans: "more_groups s s' \<Longrightarrow> more_groups s' s'' \<Longrightarrow> more_groups s s''"
  unfolding more_groups_def by auto

lemma more_groups_frames:
  assumes "more_groups s s'"
  shows "ac_users s' = ac_users s" "ac_readers s' = ac_readers s" "ac_invites s' = ac_invites s" "ac_sessions s' = ac_sessions s"
    "ac_cache s' = ac_cache s" "ac_limiter s' = ac_limiter s" "g \<in> set (rows (ac_groups s)) \<Longrightarrow> g \<in> set (rows (ac_groups s'))"
  using assms unfolding more_groups_def by auto

text \<open>A new group of a kind there is none of, or of no kind, keeps accounts well formed.\<close>

lemma put_group_rows: "set (rows (ac_groups (put_group g s))) = insert (g\<lparr>g_id := seq (ac_groups s) + 1\<rparr>) (set (rows (ac_groups s)))"
  by (simp add: put_group_def set_tinsert)

lemma put_group_frames [simp]: "ac_users (put_group g s) = ac_users s"
  by (simp add: put_group_def)

lemma put_group_ok:
  assumes ok: "accounts_ok s" and b: "g_builtin g = [] \<or> g_builtin g \<notin> g_builtin ` set (rows (ac_groups s))"
  shows "accounts_ok (put_group g s)"
proof (rule accounts_okI)
  note d = accounts_okD [OF ok] and r = put_group_rows [of g s]
  show "twf g_id (ac_groups (put_group g s))" using groups_table.wf_insert [OF d(2)] by (simp add: put_group_def)
  show "u \<in> set (rows (ac_users (put_group g s))) \<Longrightarrow> u_group_id u \<in> g_id ` set (rows (ac_groups (put_group g s)))" for u
    using d(4) by (auto simp: r)
  show "x \<in> set (rows (ac_groups (put_group g s))) \<Longrightarrow> h \<in> set (rows (ac_groups (put_group g s))) \<Longrightarrow>
      g_builtin x = g_builtin h \<Longrightarrow> g_builtin x \<noteq> [] \<Longrightarrow> x = h" for x h
    unfolding r using d(5) b by (fastforce simp: image_iff)
  have "admin_in (put_group g s) u" if "admin_in s u" for u using that unfolding admin_in_def r by blast
  then show "rows (ac_users (put_group g s)) \<noteq> [] \<Longrightarrow> \<exists>u\<in>set (rows (ac_users (put_group g s))). admin_in (put_group g s) u"
    using d(6) by auto
qed (use accounts_okD [OF ok] in simp_all)

lemma put_group_more: "more_groups s (put_group g s)"
  unfolding more_groups_def put_group_def
  by (intro exI [of _ "tinsert (\<lambda>i g. g\<lparr>g_id := i\<rparr>) g (ac_groups s)"] exI [of _ "[g\<lparr>g_id := seq (ac_groups s) + 1\<rparr>]"]) (simp add: tinsert_def)

lemma ensure_group_cases:
  assumes "ensure_group now key name perms s = (s', r)"
  obtains (old) g where "g \<in> set (rows (ac_groups s))" "g_builtin g = key" "s' = s" "r = Some (g_id g)"
  | (fails) "s' = s" "r = None"
  | (new) n where "key \<notin> g_builtin ` set (rows (ac_groups s))" "s' = put_group (new_group now n key perms [] [] [] False) s"
      "r = Some (seq (ac_groups s) + 1)"
proof (cases "find (\<lambda>g. g_builtin g = key) (rows (ac_groups s))")
  case (Some g)
  then have "s' = s" "r = Some (g_id g)" using assms unfolding ensure_group_def by simp_all
  moreover have "g \<in> set (rows (ac_groups s))" "g_builtin g = key" using Some by (auto simp: find_Some_iff)
  ultimately show ?thesis using old by blast
next
  case None
  then have n: "key \<notin> g_builtin ` set (rows (ac_groups s))" by (auto simp: find_None_iff)
  obtain m where "ensure_group now key name perms s =
      (if list_ex (\<lambda>g. g_name g = m) (rows (ac_groups s)) then (s, None)
       else (put_group (new_group now m key perms [] [] [] False) s, Some (seq (ac_groups s) + 1)))"
    unfolding ensure_group_def None option.case Let_def by blast
  then show ?thesis using assms n fails new [of m] by (simp split: if_splits)
qed

lemma ensure_group_spec:
  assumes "ensure_group now key name perms s = (s', r)" and "accounts_ok s"
  shows "accounts_ok s' \<and> more_groups s s' \<and>
    (\<forall>i. r = Some i \<longrightarrow> (\<exists>g \<in> set (rows (ac_groups s')). g_id g = i \<and> g_builtin g = key))"
proof (rule ensure_group_cases [OF assms(1)])
  fix n
  assume n: "key \<notin> g_builtin ` set (rows (ac_groups s))" "s' = put_group (new_group now n key perms [] [] [] False) s"
    "r = Some (seq (ac_groups s) + 1)"
  let ?g = "new_group now n key perms [] [] [] False"
  have "g_builtin ?g = key" by (simp add: new_group_def)
  with n put_group_ok [OF assms(2), of ?g] put_group_more [of s ?g] put_group_rows [of ?g s] show ?thesis
    by (auto intro!: bexI [of _ "?g\<lparr>g_id := seq (ac_groups s) + 1\<rparr>"])
qed (use assms(2) more_groups_refl in auto)

lemma EnsureGroups_spec:
  assumes "EnsureGroups now s = (s', r)" and "accounts_ok s"
  shows "accounts_ok s'" "more_groups s s'"
    "r = Some (a, u) \<Longrightarrow> (\<exists>g \<in> set (rows (ac_groups s')). g_id g = a \<and> g_builtin g = GroupAdmins) \<and>
      (\<exists>g \<in> set (rows (ac_groups s')). g_id g = u \<and> g_builtin g = GroupUsers)"
proof -
  obtain s1 r1 where 1: "ensure_group now GroupAdmins ''Admins'' [AdminPerm] s = (s1, r1)" by (metis surj_pair)
  obtain s2 r2 where 2: "ensure_group now GroupUsers ''Users'' UsersDefault s1 = (s2, r2)" by (metis surj_pair)
  note f = ensure_group_spec [OF 1 assms(2)]
  have e: "s' = (if r1 = None then s1 else s2)" "r = (if r1 = None \<or> r2 = None then None else Some (the r1, the r2))"
    using assms(1) by (auto simp: EnsureGroups_def 1 2 split: option.splits)
  have g: "accounts_ok s2 \<and> more_groups s1 s2 \<and> (\<forall>i. r2 = Some i \<longrightarrow> (\<exists>g \<in> set (rows (ac_groups s2)). g_id g = i \<and> g_builtin g = GroupUsers))"
    using ensure_group_spec [OF 2] f by blast
  show "accounts_ok s'" "more_groups s s'" using e(1) f g more_groups_trans by auto
  show "r = Some (a, u) \<Longrightarrow> (\<exists>g \<in> set (rows (ac_groups s')). g_id g = a \<and> g_builtin g = GroupAdmins) \<and>
      (\<exists>g \<in> set (rows (ac_groups s')). g_id g = u \<and> g_builtin g = GroupUsers)"
    using e f g more_groups_frames(7) by (auto split: if_splits)
qed

lemma newReader_frames:
  assumes "newReader now u b s = (s', i)"
  shows "ac_users s' = ac_users s" "ac_groups s' = ac_groups s" "ac_invites s' = ac_invites s" "ac_sessions s' = ac_sessions s" "ac_cache s' = ac_cache s"
  using assms by (auto simp: newReader_def Let_def)

lemma insert_user_rows:
  assumes "insert_user now u b s = (s', v)"
  shows "rows (ac_users s') = rows (ac_users s) @ [v]" "seq (ac_users s') = seq (ac_users s) + 1" "u_id v = seq (ac_users s) + 1"
    "u_username v = u_username u" "u_group_id v = u_group_id u" "u_disabled v = u_disabled u" "ac_groups s' = ac_groups s"
    "ac_invites s' = ac_invites s" "ac_sessions s' = ac_sessions s" "ac_cache s' = ac_cache s" "u_password_hash v = u_password_hash u"
proof -
  obtain t i where t: "newReader now u b s = (t, i)" by (metis surj_pair)
  have e: "s' = t\<lparr>ac_users := tinsert (\<lambda>i u. u\<lparr>u_id := i\<rparr>) (u\<lparr>u_reader_id := i\<rparr>) (ac_users t)\<rparr>" "v = u\<lparr>u_reader_id := i, u_id := seq (ac_users t) + 1\<rparr>"
    using assms by (simp_all add: insert_user_def t Let_def)
  note f = newReader_frames [OF t]
  show "rows (ac_users s') = rows (ac_users s) @ [v]" "seq (ac_users s') = seq (ac_users s) + 1" "u_id v = seq (ac_users s) + 1"
    "u_username v = u_username u" "u_group_id v = u_group_id u" "u_disabled v = u_disabled u" "ac_groups s' = ac_groups s"
    "ac_invites s' = ac_invites s" "ac_sessions s' = ac_sessions s" "ac_cache s' = ac_cache s" "u_password_hash v = u_password_hash u"
    unfolding e by (simp_all add: f tinsert_def)
qed

lemma CreateUser_cases:
  assumes "CreateUser cr now salt inp s = (s', r)" and "accounts_ok s"
  obtains (unchanged) e where "s' = s" "r = Inl e"
  | (failed) e where "accounts_ok s'" "more_groups s s'" "r = Inl e"
  | (made) t u v b where "accounts_ok t" "more_groups s t" "insert_user now u b t = (s', v)" "r = Inr v"
      "user_named (trim_space (nu_username inp)) s = None" "u_username u = trim_space (nu_username inp)" "\<not> u_disabled u"
      "u_group_id u \<in> g_id ` set (rows (ac_groups t))" "nu_group_id inp \<noteq> 0 \<Longrightarrow> u_group_id u = nu_group_id inp"
      "NeedsSetup s \<Longrightarrow> nu_group_id inp = 0 \<Longrightarrow> \<exists>g \<in> set (rows (ac_groups t)). g_id g = u_group_id u \<and> g_builtin g = GroupAdmins"
      "nu_password inp \<noteq> [] \<Longrightarrow> cr_hash cr salt (nu_password inp) = Some (u_password_hash u)"
proof -
  let ?n = "trim_space (nu_username inp)"
  let ?h = "if nu_password inp = [] then Some [] else cr_hash cr salt (nu_password inp)"
  consider (a) "bad_username ?n \<or> nu_oidc_subject inp = [] \<and> length (nu_password inp) < 8 \<or> user_named ?n s \<noteq> None \<or> ?h = None"
    | (b) h where "\<not> bad_username ?n" "\<not> (nu_oidc_subject inp = [] \<and> length (nu_password inp) < 8)" "user_named ?n s = None" "?h = Some h"
    by blast
  then show ?thesis
  proof cases
    case a
    then have "s' = s \<and> (\<exists>e. r = Inl e)"
      using assms(1) unfolding CreateUser_def Let_def by (cases "?h") (auto split: if_splits)
    then show ?thesis using unchanged by blast
  next
    case b
    obtain t g where t: "EnsureGroups now s = (t, g)" by (metis surj_pair)
    note eg = EnsureGroups_spec [OF t assms(2)]
    note e = assms(1) [unfolded CreateUser_def Let_def if_not_P [OF b(1)] if_not_P [OF b(2)] b(4) option.case t prod.case]
    show ?thesis
    proof (cases g)
      case None
      then have "s' = t" "r = Inl NoGroups" using e b(3) by simp_all
      then show ?thesis using failed eg(1,2) by blast
    next
      case (Some au)
      obtain a g2 where au: "au = (a, g2)" by (metis surj_pair)
      obtain i where i: "(if nu_group_id inp = 0 then if NeedsSetup s then a else g2 else nu_group_id inp) = i" by blast
      let ?u = "made_user now ?n h i inp"
      have e: "(if tget g_id i (ac_groups t) = None then (t, Inl NoSuchGroup)
          else (let (s, u) = insert_user now ?u (NeedsSetup s \<or> i = a) t in (s, Inr u))) = (s', r)"
        using e unfolding Some au b(3) Let_def option.case prod.case i by simp
      show ?thesis
      proof (cases "tget g_id i (ac_groups t)")
        case None
        then have "s' = t" "r = Inl NoSuchGroup" using e by simp_all
        then show ?thesis using failed eg(1,2) by blast
      next
        case (Some g3)
        obtain s2 v where v: "insert_user now ?u (NeedsSetup s \<or> i = a) t = (s2, v)" by (metis surj_pair)
        have r: "s' = s2" "r = Inr v" using e Some v by simp_all
        have u: "u_group_id ?u = i" "u_username ?u = ?n" "\<not> u_disabled ?u" "u_password_hash ?u = h" by (simp_all add: made_user_def)
        have "u_group_id ?u \<in> g_id ` set (rows (ac_groups t))" using tget_Some [OF Some] by (auto simp: u)
        moreover have "NeedsSetup s \<Longrightarrow> nu_group_id inp = 0 \<Longrightarrow> \<exists>g \<in> set (rows (ac_groups t)). g_id g = u_group_id ?u \<and> g_builtin g = GroupAdmins"
          using eg(3) [of a g2] \<open>g = Some au\<close> au i by (simp add: u)
        moreover have "nu_group_id inp \<noteq> 0 \<Longrightarrow> u_group_id ?u = nu_group_id inp" using i by (simp add: u)
        moreover have "nu_password inp \<noteq> [] \<Longrightarrow> cr_hash cr salt (nu_password inp) = Some (u_password_hash ?u)" using b(4) by (simp add: u)
        ultimately show ?thesis using made [OF eg(1,2) v [folded r(1)] r(2) b(3) u(2,3)] by blast
      qed
    qed
  qed
qed

lemma user_named_None: "user_named n s = None \<longleftrightarrow> (\<forall>u \<in> set (rows (ac_users s)). to_lower (u_username u) \<noteq> to_lower n)"
  by (auto simp: user_named_def find_None_iff)

text \<open>Before setup the only account made is the first one, in no chosen group.\<close>

lemma CreateUser_ok:
  assumes "CreateUser cr now salt inp s = (s', r)" and "accounts_ok s" and "NeedsSetup s \<Longrightarrow> nu_group_id inp = 0"
  shows "accounts_ok s'"
proof (rule CreateUser_cases [OF assms(1,2)])
  fix t u v b
  assume t: "accounts_ok t" "more_groups s t" and v: "insert_user now u b t = (s', v)"
    and n: "user_named (trim_space (nu_username inp)) s = None" "u_username u = trim_space (nu_username inp)" "\<not> u_disabled u"
    and g: "u_group_id u \<in> g_id ` set (rows (ac_groups t))"
    and a: "NeedsSetup s \<Longrightarrow> nu_group_id inp = 0 \<Longrightarrow> \<exists>g \<in> set (rows (ac_groups t)). g_id g = u_group_id u \<and> g_builtin g = GroupAdmins"
  note d = accounts_okD [OF t(1)] and r = insert_user_rows [OF v] and f = more_groups_frames [OF t(2)]
  show ?thesis
  proof (rule accounts_okI)
    show "twf u_id (ac_users s')" using d(1) by (auto simp: twf_def r)
    show "twf g_id (ac_groups s')" using d(2) r by simp
    show "distinct (map (\<lambda>u. to_lower (u_username u)) (rows (ac_users s')))"
      using d(3) n(1,2) by (auto simp: r user_named_None f)
    show "x \<in> set (rows (ac_users s')) \<Longrightarrow> u_group_id x \<in> g_id ` set (rows (ac_groups s'))" for x
      using d(4) [of x] g by (auto simp: r)
    show "x \<in> set (rows (ac_groups s')) \<Longrightarrow> h \<in> set (rows (ac_groups s')) \<Longrightarrow> g_builtin x = g_builtin h \<Longrightarrow> g_builtin x \<noteq> [] \<Longrightarrow> x = h" for x h
      using d(5) r by simp
    show "\<exists>x\<in>set (rows (ac_users s')). admin_in s' x"
    proof (cases "NeedsSetup s")
      case True
      then have "admin_in s' v" using a assms(3) n(3) by (auto simp: admin_in_def r)
      then show ?thesis by (auto simp: r)
    next
      case False
      then obtain x where "x \<in> set (rows (ac_users t))" "admin_in t x" using d(6) f(1) by (auto simp: NeedsSetup_def)
      then show ?thesis by (auto simp: r admin_in_def)
    qed
  qed
qed (use assms(2) in auto)

lemma count_use_frames [simp]:
  "ac_users (fst (count_use i s)) = ac_users s" "ac_groups (fst (count_use i s)) = ac_groups s" "ac_sessions (fst (count_use i s)) = ac_sessions s"
  "ac_cache (fst (count_use i s)) = ac_cache s" "ac_users (give_use_back i s) = ac_users s" "ac_groups (give_use_back i s) = ac_groups s"
  "ac_sessions (give_use_back i s) = ac_sessions s" "ac_cache (give_use_back i s) = ac_cache s"
  by (simp_all add: count_use_def give_use_back_def Let_def)

lemma Redeem_cases:
  assumes "Redeem cr now salt token inp s = (s', r)"
  obtains (refused) "s' = s \<or> (\<exists>i. s' = fst (count_use i s))" "\<exists>e. r = Inl e"
  | (tried) v t where "Invite_of cr now token s = Some v" "CreateUser cr now salt (invited v inp) (fst (count_use (inv_id v) s)) = (t, r)"
      "s' = t \<or> s' = give_use_back (inv_id v) t"
proof (cases "Invite_of cr now token s")
  case None
  then have "s' = s" "r = Inl InviteInvalid" using assms by (simp_all add: Redeem_def)
  then show ?thesis using refused by blast
next
  case (Some v)
  obtain s1 b where b: "count_use (inv_id v) s = (s1, b)" by (metis surj_pair)
  show ?thesis
  proof (cases b)
    case False
    then have "s' = fst (count_use (inv_id v) s)" "r = Inl InviteInvalid" using assms by (simp_all add: Redeem_def Some b)
    then show ?thesis using refused by blast
  next
    case True
    obtain t q where c: "CreateUser cr now salt (invited v inp) s1 = (t, q)" by (metis surj_pair)
    have "s' = t \<or> s' = give_use_back (inv_id v) t" "r = q"
      using assms by (auto simp: Redeem_def Some b True c split: sum.splits)
    with c show ?thesis using tried [OF Some] b by simp
  qed
qed

lemma Redeem_ok:
  assumes "Redeem cr now salt token inp s = (s', r)" and "accounts_ok s" and "\<not> NeedsSetup s"
  shows "accounts_ok s'"
proof (rule Redeem_cases [OF assms(1)])
  assume "s' = s \<or> (\<exists>i. s' = fst (count_use i s))"
  then show ?thesis using assms(2) accounts_ok_same [OF assms(2)] by fastforce
next
  fix v t
  assume c: "CreateUser cr now salt (invited v inp) (fst (count_use (inv_id v) s)) = (t, r)" and t: "s' = t \<or> s' = give_use_back (inv_id v) t"
  have "accounts_ok (fst (count_use (inv_id v) s))" by (rule accounts_ok_same [OF assms(2)]) simp_all
  then have "accounts_ok t" by (rule CreateUser_ok [OF c]) (use assms(3) in \<open>simp add: NeedsSetup_def\<close>)
  then show ?thesis using t accounts_ok_same [of t "give_use_back (inv_id v) t"] by auto
qed


text \<open>The guard of the last administrator leaves another one.\<close>

lemma keepAnAdmin_other:
  assumes ok: "accounts_ok s" and u: "u \<in> set (rows (ac_users s))" and k: "keepAnAdmin u still s" and "\<not> still"
  shows "\<exists>v \<in> set (rows (ac_users s)). u_id v \<noteq> u_id u \<and> admin_in s v"
proof -
  note d = accounts_okD [OF ok]
  obtain x where x: "x \<in> set (rows (ac_users s))" "admin_in s x" using d(6) u by force
  show ?thesis
  proof (cases "admin_in s u")
    case False
    then have "x \<noteq> u" using x(2) by auto
    then have "u_id x \<noteq> u_id u" using users_table.unique [OF d(1) x(1) u] by blast
    with x show ?thesis by blast
  next
    case True
    then obtain g where g: "g \<in> set (rows (ac_groups s))" "g_builtin g = GroupAdmins" "g_id g = u_group_id u" and e: "\<not> u_disabled u"
      by (auto simp: admin_in_def)
    have "tget g_id (u_group_id u) (ac_groups s) = Some g" using groups_table.get_member [OF d(2) g(1)] g(3) by simp
    then have "1 < Admins s" using k assms(4) e g(2) by (simp add: keepAnAdmin_def)
    then have n: "1 < length (filter (admin_in s) (rows (ac_users s)))" by (simp add: Admins_eq)
    have "distinct (filter (admin_in s) (rows (ac_users s)))" using d(1) by (simp add: twf_def distinct_map distinct_filter)
    then have "\<not> set (filter (admin_in s) (rows (ac_users s))) \<subseteq> {u}"
      using n card_mono [of "{u}" "set (filter (admin_in s) (rows (ac_users s)))"] distinct_card by fastforce
    then obtain v where v: "v \<in> set (rows (ac_users s))" "admin_in s v" "v \<noteq> u" by auto
    then have "u_id v \<noteq> u_id u" using users_table.unique [OF d(1) v(1) u] by blast
    with v show ?thesis by blast
  qed
qed

lemma edited_user_simps [simp]:
  "u_id (edited_user n g r d v) = u_id v" "u_username (edited_user n g r d v) = u_username v" "u_group_id (edited_user n g r d v) = g"
  "u_disabled (edited_user n g r d v) = d"
  by (simp_all add: edited_user_def)

lemma users_update_cases:
  assumes "users_update me i displayName groupID readerID disable s = (s', e)"
  obtains "s' = s" "e \<noteq> None"
  | u g t where "tget u_id i (ac_users s) = Some (u :: user)" "tget g_id groupID (ac_groups s) = Some (g :: group)"
      "keepAnAdmin u (g_builtin g = GroupAdmins \<and> \<not> disable) s" "e = None"
      "t = upd_user (u_id u) (edited_user displayName (g_id g) (if readerID > 0 then readerID else u_reader_id u) disable) s"
      "s' = Invalidate (if disable then RevokeSessions (u_id u) [] t else t)"
proof (cases "tget u_id i (ac_users s)")
  case None
  then have "s' = s" "e \<noteq> None" using assms by (auto simp: users_update_def)
  then show ?thesis using that(1) by blast
next
  case (Some u)
  show ?thesis
  proof (cases "tget g_id groupID (ac_groups s)")
    case None
    then have "s' = s" "e \<noteq> None" using assms Some by (auto simp: users_update_def)
    then show ?thesis using that(1) by blast
  next
    case g: (Some g)
    note x = assms [unfolded users_update_def Some g prod.case option.case Let_def]
    show ?thesis
    proof (cases "readerID > 0 \<and> tget rd_id readerID (ac_readers s) = None \<or>
        readerID > 0 \<and> list_ex (\<lambda>v. u_reader_id v = readerID \<and> u_id v \<noteq> u_id u) (rows (ac_users s)) \<or> disable \<and> u_id u = me \<or>
        \<not> keepAnAdmin u (g_builtin g = GroupAdmins \<and> \<not> disable) s")
      case True
      then have "(s, Some BadRequest) = (s', e)" using x by (metis (no_types))
      then show ?thesis using that(1) by blast
    next
      case False
      obtain t where t: "t = upd_user (u_id u) (edited_user displayName (g_id g) (if readerID > 0 then readerID else u_reader_id u) disable) s" by blast
      have "(Invalidate (if disable then RevokeSessions (u_id u) [] t else t), None) = (s', e)"
        unfolding t using x False by (metis (no_types))
      with t False show ?thesis using that(2) [OF Some g] by blast
    qed
  qed
qed

lemma users_update_ok:
  assumes "users_update me i displayName groupID readerID disable s = (s', e)" and ok: "accounts_ok s"
  shows "accounts_ok s'"
proof (rule users_update_cases [OF assms(1)])
  show "s' = s \<Longrightarrow> ?thesis" using ok by simp
next
  fix u :: user and g :: group and t
  let ?f = "edited_user displayName (g_id g) (if readerID > 0 then readerID else u_reader_id u) disable"
  assume u: "tget u_id i (ac_users s) = Some u" and g: "tget g_id groupID (ac_groups s) = Some g"
    and k: "keepAnAdmin u (g_builtin g = GroupAdmins \<and> \<not> disable) s" and t: "t = upd_user (u_id u) ?f s"
    and s': "s' = Invalidate (if disable then RevokeSessions (u_id u) [] t else t)"
  note d = accounts_okD [OF ok] and gm = tget_Some [OF g] and um = tget_Some [OF u]
  have r: "set (rows (ac_users t)) = (\<lambda>v. if u_id v = u_id u then ?f v else v) ` set (rows (ac_users s))"
    unfolding t upd_user_def by (simp add: set_upd_where)
  have gr: "ac_groups t = ac_groups s" by (simp add: t)
  have "accounts_ok t"
  proof (rule accounts_okI)
    show "twf u_id (ac_users t)" unfolding t upd_user_def by (simp add: users_table.wf_update d(1))
    show "twf g_id (ac_groups t)" using d(2) gr by simp
    have "map (\<lambda>u. to_lower (u_username u)) (rows (ac_users t)) = map (\<lambda>u. to_lower (u_username u)) (rows (ac_users s))"
      unfolding t upd_user_def upd_where_def by simp
    then show "distinct (map (\<lambda>u. to_lower (u_username u)) (rows (ac_users t)))" using d(3) by simp
    show "x \<in> set (rows (ac_users t)) \<Longrightarrow> u_group_id x \<in> g_id ` set (rows (ac_groups t))" for x
      unfolding r gr using d(4) gm by auto
    show "x \<in> set (rows (ac_groups t)) \<Longrightarrow> h \<in> set (rows (ac_groups t)) \<Longrightarrow> g_builtin x = g_builtin h \<Longrightarrow> g_builtin x \<noteq> [] \<Longrightarrow> x = h" for x h
      using d(5) gr by simp
    show "\<exists>x\<in>set (rows (ac_users t)). admin_in t x"
    proof (cases "g_builtin g = GroupAdmins \<and> \<not> disable")
      case True
      then have "admin_in t (?f u)" using gm by (auto simp: admin_in_def gr)
      moreover have "?f u \<in> set (rows (ac_users t))" unfolding r by (rule image_eqI [of _ _ u]) (use um in auto)
      ultimately show ?thesis by blast
    next
      case False
      from keepAnAdmin_other [OF ok _ k this] um obtain v where v: "v \<in> set (rows (ac_users s))" "u_id v \<noteq> u_id u" "admin_in s v" by blast
      then have "v \<in> set (rows (ac_users t))" unfolding r by (intro image_eqI [of _ _ v]) auto
      with v(3) show ?thesis by (auto simp: admin_in_def gr)
    qed
  qed
  then show ?thesis unfolding s' by (rule accounts_ok_same) simp_all
qed

lemma users_delete_cases:
  assumes "users_delete me i s = (s', e)"
  obtains "s' = s" "e \<noteq> None"
  | u where "tget u_id i (ac_users s) = Some (u :: user)" "keepAnAdmin u False s" "e = None"
      "s' = Invalidate (s\<lparr>ac_users := del_where (\<lambda>v. u_id v = u_id u) (ac_users s), ac_sessions := filter (\<lambda>x. sn_user_id x \<noteq> u_id u) (ac_sessions s)\<rparr>)"
proof (cases "tget u_id i (ac_users s)")
  case None
  then have "s' = s" "e \<noteq> None" using assms by (auto simp: users_delete_def)
  then show ?thesis using that(1) by blast
next
  case (Some u)
  note x = assms [unfolded users_delete_def Some option.case]
  show ?thesis
  proof (cases "u_id u = me \<or> \<not> keepAnAdmin u False s")
    case True
    then have "(s, Some BadRequest) = (s', e)" using x by (metis (no_types))
    then show ?thesis using that(1) by blast
  next
    case False
    then have "(Invalidate (s\<lparr>ac_users := del_where (\<lambda>v. u_id v = u_id u) (ac_users s), ac_sessions := filter (\<lambda>x. sn_user_id x \<noteq> u_id u) (ac_sessions s)\<rparr>), None) = (s', e)"
      using x by (metis (no_types))
    with False show ?thesis using that(2) [OF Some] by blast
  qed
qed

lemma users_delete_ok:
  assumes "users_delete me i s = (s', e)" and ok: "accounts_ok s"
  shows "accounts_ok s'"
proof (rule users_delete_cases [OF assms(1)])
  show "s' = s \<Longrightarrow> ?thesis" using ok by simp
next
  fix u :: user
  assume u: "tget u_id i (ac_users s) = Some u" and k: "keepAnAdmin u False s"
    and s': "s' = Invalidate (s\<lparr>ac_users := del_where (\<lambda>v. u_id v = u_id u) (ac_users s), ac_sessions := filter (\<lambda>x. sn_user_id x \<noteq> u_id u) (ac_sessions s)\<rparr>)"
  note d = accounts_okD [OF ok]
  have r: "rows (ac_users s') = filter (\<lambda>v. u_id v \<noteq> u_id u) (rows (ac_users s))" "ac_groups s' = ac_groups s" "ac_users s' = del_where (\<lambda>v. u_id v = u_id u) (ac_users s)"
    by (simp_all add: s' del_where_def)
  obtain v where v: "v \<in> set (rows (ac_users s))" "u_id v \<noteq> u_id u" "admin_in s v"
    using keepAnAdmin_other [OF ok _ k] tget_Some [OF u] by blast
  show ?thesis
  proof (rule accounts_okI)
    show "twf u_id (ac_users s')" unfolding r(3) by (rule users_table.wf_delete [OF d(1)])
    have "v \<in> set (rows (ac_users s'))" using v by (simp add: r(1))
    then show "\<exists>x\<in>set (rows (ac_users s')). admin_in s' x" using v(3) by (auto simp: r(2) admin_in_def)
    show "distinct (map (\<lambda>u. to_lower (u_username u)) (rows (ac_users s')))" using d(3) by (simp add: r(1) distinct_map_filter)
    show "twf g_id (ac_groups s')" using d(2) by (simp add: r(2))
    show "x \<in> set (rows (ac_users s')) \<Longrightarrow> u_group_id x \<in> g_id ` set (rows (ac_groups s'))" for x
      using d(4) by (simp add: r(1,2))
    show "x \<in> set (rows (ac_groups s')) \<Longrightarrow> h \<in> set (rows (ac_groups s')) \<Longrightarrow> g_builtin x = g_builtin h \<Longrightarrow> g_builtin x \<noteq> [] \<Longrightarrow> x = h" for x h
      using d(5) by (simp add: r(2))
  qed
qed


lemma edited_group_simps [simp]:
  "g_id (edited_group name perms incl excl roots auto g) = g_id g" "g_builtin (edited_group name perms incl excl roots auto g) = g_builtin g"
  by (simp_all add: edited_group_def Let_def)

lemma groups_update_cases:
  assumes "groups_update i name perms incl excl roots auto s = (s', e)"
  obtains "s' = s" "e \<noteq> None"
  | g where "tget g_id i (ac_groups s) = Some (g :: group)" "e = None"
      "s' = Invalidate (s\<lparr>ac_groups := upd_where (\<lambda>h. g_id h = i) (\<lambda>_. edited_group name perms incl excl roots auto g) (ac_groups s)\<rparr>)"
proof (cases "list_ex (\<lambda>p. \<not> Valid_permission p) perms \<or> tget g_id i (ac_groups s) = None")
  case True
  then have "s' = s" "e \<noteq> None" using assms by (auto simp: groups_update_def split: if_splits)
  then show ?thesis using that(1) by blast
next
  case False
  then obtain g where g: "tget g_id i (ac_groups s) = Some g" by auto
  have x: "(if list_ex (\<lambda>h. g_id h \<noteq> i \<and> g_name h = g_name (edited_group name perms incl excl roots auto g)) (rows (ac_groups s)) then (s, Some Conflict)
      else (Invalidate (s\<lparr>ac_groups := upd_where (\<lambda>h. g_id h = i) (\<lambda>_. edited_group name perms incl excl roots auto g) (ac_groups s)\<rparr>), None)) = (s', e)"
    using assms False unfolding groups_update_def g Let_def by simp
  show ?thesis
  proof (cases "list_ex (\<lambda>h. g_id h \<noteq> i \<and> g_name h = g_name (edited_group name perms incl excl roots auto g)) (rows (ac_groups s))")
    case True
    then have "s' = s" "e \<noteq> None" using x by auto
    then show ?thesis using that(1) by blast
  next
    case False
    then show ?thesis using x that(2) [OF g] by simp
  qed
qed

lemma groups_update_ok:
  assumes "groups_update i name perms incl excl roots auto s = (s', e)" and ok: "accounts_ok s"
  shows "accounts_ok s'"
proof (rule groups_update_cases [OF assms(1)])
  show "s' = s \<Longrightarrow> ?thesis" using ok by simp
next
  fix g :: group
  let ?g = "edited_group name perms incl excl roots auto g"
  let ?t = "upd_where (\<lambda>h. g_id h = i) (\<lambda>_. ?g) (ac_groups s)"
  assume g: "tget g_id i (ac_groups s) = Some g" and s': "s' = Invalidate (s\<lparr>ac_groups := ?t\<rparr>)"
  note d = accounts_okD [OF ok] and gm = tget_Some [OF g]
  have only: "h = g" if "h \<in> set (rows (ac_groups s))" "g_id h = i" for h
    using groups_table.unique [OF d(2) that(1)] gm that(2) by auto
  have r: "set (rows ?t) = (\<lambda>h. if g_id h = i then ?g else h) ` set (rows (ac_groups s))" by (simp add: set_upd_where)
  have key: "\<exists>h \<in> set (rows (ac_groups s)). g_id h = g_id x \<and> g_builtin h = g_builtin x \<and> x = (if g_id h = i then ?g else h)" if "x \<in> set (rows ?t)" for x
    using that only gm unfolding r by auto
  have turned: "\<exists>x \<in> set (rows ?t). g_id h = g_id x \<and> g_builtin h = g_builtin x" if "h \<in> set (rows (ac_groups s))" for h
  proof -
    have "(if g_id h = i then ?g else h) \<in> set (rows ?t)" unfolding r by (rule imageI) (rule that)
    then show ?thesis using only [OF that] by (intro bexI [of _ "if g_id h = i then ?g else h"]) auto
  qed
  show ?thesis
  proof (rule accounts_okI)
    have "map g_id (rows ?t) = map g_id (rows (ac_groups s))" using gm by (simp add: upd_where_def)
    then show "twf g_id (ac_groups s')" unfolding s' by (intro twf_map [OF _ _ d(2)]) simp_all
    show "u_group_id u \<in> g_id ` set (rows (ac_groups s'))" if u: "u \<in> set (rows (ac_users s'))" for u
    proof -
      obtain h where "h \<in> set (rows (ac_groups s))" "g_id h = u_group_id u" using d(4) [of u] u by (auto simp: s')
      with turned show ?thesis by (force simp: s')
    qed
    show "x = h" if xh: "x \<in> set (rows (ac_groups s'))" "h \<in> set (rows (ac_groups s'))" "g_builtin x = g_builtin h" "g_builtin x \<noteq> []" for x h
    proof -
      from xh have "x \<in> set (rows ?t)" "h \<in> set (rows ?t)" by (simp_all add: s')
      note xt = this
      obtain y where y: "y \<in> set (rows (ac_groups s))" "g_builtin y = g_builtin x" "x = (if g_id y = i then ?g else y)"
        using key [OF xt(1)] by blast
      obtain z where z: "z \<in> set (rows (ac_groups s))" "g_builtin z = g_builtin h" "h = (if g_id z = i then ?g else z)"
        using key [OF xt(2)] by blast
      have "y = z" using d(5) [OF y(1) z(1)] y(2) z(2) xh(3,4) by simp
      then show ?thesis using y(3) z(3) by simp
    qed
    assume "rows (ac_users s') \<noteq> []"
    then obtain u where u: "u \<in> set (rows (ac_users s))" "admin_in s u" using d(6) by (auto simp: s')
    then obtain h where h: "h \<in> set (rows (ac_groups s))" "g_builtin h = GroupAdmins" "g_id h = u_group_id u" and e: "\<not> u_disabled u" by (auto simp: admin_in_def)
    obtain x where "x \<in> set (rows ?t)" "g_id h = g_id x" "g_builtin h = g_builtin x" using turned [OF h(1)] by blast
    then have "admin_in s' u" using h e by (auto simp: admin_in_def s' intro!: bexI [of _ x])
    with u show "\<exists>u\<in>set (rows (ac_users s')). admin_in s' u" by (auto simp: s')
  qed (use d(1,3) in \<open>simp_all add: s'\<close>)
qed

lemma groups_create_ok:
  assumes "groups_create now name perms incl excl roots auto s = (s', e)" and "accounts_ok s"
  shows "accounts_ok s'" "more_groups s s'"
proof -
  let ?g = "new_group now (trim_space name) [] perms incl excl roots auto"
  have "s' = s \<or> s' = put_group ?g s" using assms(1) unfolding groups_create_def Let_def by (auto split: if_splits)
  then show "accounts_ok s'" "more_groups s s'"
    using assms(2) put_group_ok [OF assms(2), of ?g] put_group_more more_groups_refl by (auto simp: new_group_def)
qed

lemma groups_delete_cases:
  assumes "groups_delete now i s = (s', e)" and "accounts_ok s"
  obtains "s' = s" "e \<noteq> None"
  | "accounts_ok s'" "more_groups s s'" "e \<noteq> None"
  | g t a v where "tget g_id i (ac_groups s) = Some (g :: group)" "g_builtin g = []" "e = None" "accounts_ok t" "more_groups s t"
      "\<exists>h \<in> set (rows (ac_groups t)). g_id h = v \<and> g_builtin h = GroupUsers"
      "s' = Invalidate (t\<lparr>ac_users := upd_where (\<lambda>u. u_group_id u = i) (\<lambda>u. u\<lparr>u_group_id := v\<rparr>) (ac_users t),
                         ac_groups := del_where (\<lambda>g. g_id g = i) (ac_groups t), ac_invites := del_where (\<lambda>v. inv_group_id v = i) (ac_invites t)\<rparr>)"
proof (cases "tget g_id i (ac_groups s)")
  case None
  then have "s' = s" "e \<noteq> None" using assms by (auto simp: groups_delete_def)
  then show ?thesis using that(1) by blast
next
  case (Some g)
  show ?thesis
  proof (cases "g_builtin g = []")
    case False
    then have "s' = s" "e \<noteq> None" using assms Some by (auto simp: groups_delete_def)
    then show ?thesis using that(1) by blast
  next
    case True
    obtain t r where t: "EnsureGroups now s = (t, r)" by (metis surj_pair)
    note eg = EnsureGroups_spec [OF t assms(2)]
    show ?thesis
    proof (cases r)
      case None
      then have "s' = t" "e \<noteq> None" using assms(1) Some True t by (auto simp: groups_delete_def)
      then show ?thesis using that(2) eg by blast
    next
      case r: (Some av)
      obtain a v where av: "av = (a, v)" by (metis surj_pair)
      have "s' = Invalidate (t\<lparr>ac_users := upd_where (\<lambda>u. u_group_id u = i) (\<lambda>u. u\<lparr>u_group_id := v\<rparr>) (ac_users t),
          ac_groups := del_where (\<lambda>g. g_id g = i) (ac_groups t), ac_invites := del_where (\<lambda>v. inv_group_id v = i) (ac_invites t)\<rparr>)" "e = None"
        using assms(1) Some True t r av by (simp_all add: groups_delete_def)
      then show ?thesis using that(3) [OF Some True _ eg(1,2)] eg(3) r av by blast
    qed
  qed
qed

lemma groups_delete_ok:
  assumes "groups_delete now i s = (s', e)" and ok: "accounts_ok s"
  shows "accounts_ok s'"
proof (rule groups_delete_cases [OF assms])
  fix g :: group and t a v
  assume g: "tget g_id i (ac_groups s) = Some g" "g_builtin g = []" and t: "accounts_ok t" "more_groups s t"
    and v: "\<exists>h \<in> set (rows (ac_groups t)). g_id h = v \<and> g_builtin h = GroupUsers"
    and s': "s' = Invalidate (t\<lparr>ac_users := upd_where (\<lambda>u. u_group_id u = i) (\<lambda>u. u\<lparr>u_group_id := v\<rparr>) (ac_users t),
        ac_groups := del_where (\<lambda>g. g_id g = i) (ac_groups t), ac_invites := del_where (\<lambda>v. inv_group_id v = i) (ac_invites t)\<rparr>)"
  note d = accounts_okD [OF t(1)]
  have gm: "g \<in> set (rows (ac_groups t))" "g_id g = i" using tget_Some [OF g(1)] more_groups_frames(7) [OF t(2)] by auto
  have keeps: "g_id h \<noteq> i" if "h \<in> set (rows (ac_groups t))" "g_builtin h \<noteq> []" for h
    using groups_table.unique [OF d(2) that(1) gm(1)] gm(2) that(2) g(2) by auto
  obtain hv where hv: "hv \<in> set (rows (ac_groups t))" "g_id hv = v" "g_builtin hv = GroupUsers" using v by blast
  have vi: "v \<noteq> i" using keeps [OF hv(1)] hv by (auto simp: GroupUsers_def)
  have u: "set (rows (ac_users s')) = (\<lambda>u. if u_group_id u = i then u\<lparr>u_group_id := v\<rparr> else u) ` set (rows (ac_users t))"
    by (simp add: s' set_upd_where)
  have gr: "set (rows (ac_groups s')) = {h \<in> set (rows (ac_groups t)). g_id h \<noteq> i}" by (simp add: s' set_del_where)
  show ?thesis
  proof (rule accounts_okI)
    show "twf u_id (ac_users s')" unfolding s' by (simp add: users_table.wf_update d(1))
    show "twf g_id (ac_groups s')" unfolding s' by (simp add: groups_table.wf_delete d(2))
    have "map (\<lambda>u. to_lower (u_username u)) (rows (ac_users s')) = map (\<lambda>u. to_lower (u_username u)) (rows (ac_users t))"
      by (simp add: s' upd_where_def)
    then show "distinct (map (\<lambda>u. to_lower (u_username u)) (rows (ac_users s')))" using d(3) by simp
    show "x \<in> set (rows (ac_users s')) \<Longrightarrow> u_group_id x \<in> g_id ` set (rows (ac_groups s'))" for x
      unfolding u gr using d(4) hv vi by fastforce
    show "x \<in> set (rows (ac_groups s')) \<Longrightarrow> h \<in> set (rows (ac_groups s')) \<Longrightarrow> g_builtin x = g_builtin h \<Longrightarrow> g_builtin x \<noteq> [] \<Longrightarrow> x = h" for x h
      unfolding gr using d(5) by blast
    assume "rows (ac_users s') \<noteq> []"
    then have "rows (ac_users t) \<noteq> []" by (auto simp: s' upd_where_def)
    then obtain x h where x: "x \<in> set (rows (ac_users t))" "\<not> u_disabled x" and h: "h \<in> set (rows (ac_groups t))" "g_builtin h = GroupAdmins" "g_id h = u_group_id x"
      using d(6) by (auto simp: admin_in_def)
    have hi: "g_id h \<noteq> i" using keeps [OF h(1)] h(2) by (auto simp: GroupAdmins_def)
    then have "x \<in> set (rows (ac_users s'))" unfolding u using x h(3) by (intro image_eqI [of _ _ x]) auto
    moreover have "admin_in s' x" unfolding admin_in_def gr using x(2) h hi by blast
    ultimately show "\<exists>u\<in>set (rows (ac_users s')). admin_in s' u" by blast
  qed
qed (use ok in auto)

end
