(* ===== verification/Logins.thy ===== *)
theory Logins
  imports Accounts
begin

text \<open>
  The accounts in operation: logins, sign-outs, requests, and the administration of users, groups
  and invites, in any order, as the step relation \<open>actstep\<close>.  Each operation is one step; what can
  go wrong when the statements of two of them mix is shown on examples at the end.  Before setup
  the only account that is made is the first one.
\<close>

section \<open>Steps\<close>

text \<open>
  \<open>aw_given\<close> tells whose each session ever started is and when it expires, \<open>aw_ended\<close> lists those that were ended
  by a sign-out, a new password, a disabled or a deleted account.
\<close>

record aworld =
  aw_s :: accounts
  aw_now :: time
  aw_given :: "string \<Rightarrow> (int64 \<times> time) option"
  aw_ended :: "string list"

definition went :: "accounts \<Rightarrow> accounts \<Rightarrow> string list" where
  "went s s' = filter (\<lambda>i. i \<notin> sn_id ` set (ac_sessions s')) (map sn_id (ac_sessions s))"

definition moved :: "accounts \<Rightarrow> aworld \<Rightarrow> aworld" where
  "moved s' w = w\<lparr>aw_s := s', aw_ended := went (aw_s w) s' @ aw_ended w\<rparr>"

definition given :: "string \<Rightarrow> aworld \<Rightarrow> aworld" where
  "given i w =
     (case find (\<lambda>x. sn_id x = i) (ac_sessions (aw_s w)) of
        None \<Rightarrow> w
      | Some x \<Rightarrow> w\<lparr>aw_given := (aw_given w)(i \<mapsto> (sn_user_id x, sn_expires_at x))\<rparr>)"

inductive actstep :: "crypto \<Rightarrow> aworld \<Rightarrow> aworld \<Rightarrow> bool" for cr :: crypto where
  logged_in: "aw_given w rnd = None \<Longrightarrow> Login cr (aw_now w) rnd name pass ip agent (aw_s w) = (s', r) \<Longrightarrow> actstep cr w (given rnd (moved s' w))"
| session_started: "aw_given w rnd = None \<Longrightarrow> StartSession (aw_now w) rnd uid ip agent (aw_s w) = (s', c) \<Longrightarrow> actstep cr w (given rnd (moved s' w))"
| requested: "Authenticate cr (aw_now w) req (aw_s w) = (s', p) \<Longrightarrow> actstep cr w (moved s' w)"
| signed_out: "actstep cr w (moved (EndSession i (aw_s w)) w)"
| revoked: "actstep cr w (moved (RevokeSessions uid keep (aw_s w)) w)"
| new_password: "SetPassword cr salt uid pass keep (aw_s w) = (s', e) \<Longrightarrow> actstep cr w (moved s' w)"
| user_created: "CreateUser cr (aw_now w) salt inp (aw_s w) = (s', r) \<Longrightarrow> (NeedsSetup (aw_s w) \<Longrightarrow> nu_group_id inp = 0) \<Longrightarrow> actstep cr w (moved s' w)"
| redeemed: "Redeem cr (aw_now w) salt token inp (aw_s w) = (s', r) \<Longrightarrow> \<not> NeedsSetup (aw_s w) \<Longrightarrow> actstep cr w (moved s' w)"
| invite_created: "CreateInvite cr (aw_now w) token gid memo n expires by_user (aw_s w) = (s', v) \<Longrightarrow> actstep cr w (moved s' w)"
| user_updated: "users_update me i displayName gid rid disable (aw_s w) = (s', e) \<Longrightarrow> actstep cr w (moved s' w)"
| user_deleted: "users_delete me i (aw_s w) = (s', e) \<Longrightarrow> actstep cr w (moved s' w)"
| group_created: "groups_create (aw_now w) name perms incl excl roots auto (aw_s w) = (s', e) \<Longrightarrow> actstep cr w (moved s' w)"
| group_updated: "groups_update i name perms incl excl roots auto (aw_s w) = (s', e) \<Longrightarrow> actstep cr w (moved s' w)"
| group_deleted: "groups_delete (aw_now w) i (aw_s w) = (s', e) \<Longrightarrow> actstep cr w (moved s' w)"
| purged: "actstep cr w (w\<lparr>aw_s := PurgeSessions (aw_now w) (aw_s w)\<rparr>)"
| time_passes: "aw_now w \<le> t \<Longrightarrow> actstep cr w (w\<lparr>aw_now := t\<rparr>)"

text \<open>The server starts with the sessions of its database and an empty cache.\<close>

definition opened :: "time \<Rightarrow> accounts \<Rightarrow> aworld" where
  "opened now s = \<lparr>aw_s = s, aw_now = now, aw_given = map_of (map (\<lambda>x. (sn_id x, sn_user_id x, sn_expires_at x)) (ac_sessions s)), aw_ended = []\<rparr>"

section \<open>What a principal depends on\<close>

lemma find_append: "find P (xs @ ys) = (case find P xs of None \<Rightarrow> find P ys | Some x \<Rightarrow> Some x)"
  by (induction xs) auto

lemma tget_append: "rows t' = rows t @ xs \<Longrightarrow> tget rid i t = Some r \<Longrightarrow> tget rid i t' = Some r"
  by (simp add: tget_def find_append)

lemma UserPrincipal_cong:
  assumes "ac_users s' = ac_users s" "ac_groups s' = ac_groups s"
  shows "UserPrincipal uid s' = UserPrincipal uid s"
  unfolding UserPrincipal_def assms ..

lemma UserPrincipal_eq:
  assumes "tget u_id uid (ac_users s) = Some x" "tget g_id (u_group_id x) (ac_groups s) = Some h"
  shows "UserPrincipal uid s = (if u_disabled x then None else Some (principal_of x h))"
  unfolding UserPrincipal_def assms option.case ..

lemma principal_grows:
  assumes ok: "accounts_ok s" and u: "rows (ac_users s') = rows (ac_users s) @ us" and g: "rows (ac_groups s') = rows (ac_groups s) @ gs"
    and p: "UserPrincipal uid s = Some p"
  shows "UserPrincipal uid s' = Some p"
proof -
  obtain x where x: "tget u_id uid (ac_users s) = Some x" using p by (auto simp: UserPrincipal_def split: option.splits)
  have "x \<in> set (rows (ac_users s))" using tget_Some [OF x] by simp
  then obtain h where h: "h \<in> set (rows (ac_groups s))" "g_id h = u_group_id x" using accounts_okD(4) [OF ok] by fastforce
  have hs: "tget g_id (u_group_id x) (ac_groups s) = Some h"
    using groups_table.get_member [OF accounts_okD(2) [OF ok] h(1)] h(2) by simp
  show ?thesis using p unfolding UserPrincipal_eq [OF x hs] UserPrincipal_eq [OF tget_append [OF u x] tget_append [OF g hs]] .
qed

lemma principal_login:
  "UserPrincipal uid (upd_user i (\<lambda>u. u\<lparr>u_last_login_at := t\<rparr>) s) = UserPrincipal uid s"
proof -
  have g: "tget u_id uid (ac_users (upd_user i (\<lambda>u. u\<lparr>u_last_login_at := t\<rparr>) s)) =
      map_option (\<lambda>u. if u_id u = i then u\<lparr>u_last_login_at := t\<rparr> else u) (tget u_id uid (ac_users s))"
    unfolding upd_user_def by (simp add: users_table.get_update)
  have p: "principal_of (u\<lparr>u_last_login_at := t\<rparr>) h = principal_of u h" for u h by (simp add: principal_of_def)
  show ?thesis
    unfolding UserPrincipal_def g by (cases "tget u_id uid (ac_users s)") (simp_all add: p)
qed

lemma principal_user: "UserPrincipal uid s = Some p \<Longrightarrow> pr_user_id p = uid \<and> pr_session_id p = [] \<and> pr_kind p = KindUser"
proof -
  assume p: "UserPrincipal uid s = Some p"
  then obtain x where x: "tget u_id uid (ac_users s) = Some x" by (cases "tget u_id uid (ac_users s)") (simp_all add: UserPrincipal_def)
  obtain g where g: "(case tget g_id (u_group_id x) (ac_groups s) of None \<Rightarrow> zero_group | Some g \<Rightarrow> g) = g" by blast
  have "p = principal_of x g" using p unfolding UserPrincipal_def x option.case g by (cases "u_disabled x") simp_all
  then show ?thesis using tget_Some [OF x] by (simp add: principal_of_def Let_def)
qed

section \<open>The cache agrees with the database\<close>

definition cache_entry_ok :: "aworld \<Rightarrow> string \<Rightarrow> cached \<Rightarrow> bool" where
  "cache_entry_ok w i e \<longleftrightarrow> i \<notin> set (aw_ended w) \<and> ca_loaded e \<le> aw_now w \<and>
     (\<exists>x. aw_given w i = Some (pr_user_id (ca_principal e), x) \<and> ca_loaded e \<le> x) \<and>
     (\<exists>p. UserPrincipal (pr_user_id (ca_principal e)) (aw_s w) = Some p \<and> ca_principal e = p\<lparr>pr_session_id := i\<rparr>)"

definition coherent :: "aworld \<Rightarrow> bool" where
  "coherent w \<longleftrightarrow> accounts_ok (aw_s w) \<and>
     (\<forall>x \<in> set (ac_sessions (aw_s w)). aw_given w (sn_id x) = Some (sn_user_id x, sn_expires_at x) \<and> sn_id x \<notin> set (aw_ended w)) \<and>
     (\<forall>i \<in> set (aw_ended w). aw_given w i \<noteq> None) \<and>
     (\<forall>i e. map_of (ac_cache (aw_s w)) i = Some e \<longrightarrow> cache_entry_ok w i e)"

lemma coherentI:
  assumes "accounts_ok (aw_s w)"
    "\<And>x. x \<in> set (ac_sessions (aw_s w)) \<Longrightarrow> aw_given w (sn_id x) = Some (sn_user_id x, sn_expires_at x) \<and> sn_id x \<notin> set (aw_ended w)"
    "\<And>i. i \<in> set (aw_ended w) \<Longrightarrow> aw_given w i \<noteq> None"
    "\<And>i e. map_of (ac_cache (aw_s w)) i = Some e \<Longrightarrow> cache_entry_ok w i e"
  shows "coherent w"
  using assms by (simp add: coherent_def)

lemma coherentD:
  assumes "coherent w"
  shows "accounts_ok (aw_s w)" "x \<in> set (ac_sessions (aw_s w)) \<Longrightarrow> aw_given w (sn_id x) = Some (sn_user_id x, sn_expires_at x)"
    "x \<in> set (ac_sessions (aw_s w)) \<Longrightarrow> sn_id x \<notin> set (aw_ended w)" "i \<in> set (aw_ended w) \<Longrightarrow> aw_given w i \<noteq> None"
    "map_of (ac_cache (aw_s w)) i = Some e \<Longrightarrow> cache_entry_ok w i e"
  using assms unfolding coherent_def by simp_all

definition session_key :: "session \<Rightarrow> string \<times> int64 \<times> time" where
  "session_key x = (sn_id x, sn_user_id x, sn_expires_at x)"

text \<open>
  An operation that adds no session: its sessions are among the old ones, and every principal it
  leaves in the cache was there, of a session it did not end, and is what the database still says.
\<close>

lemma coherent_moved:
  assumes co: "coherent w" and ok: "accounts_ok s'"
    and ses: "session_key ` set (ac_sessions s') \<subseteq> session_key ` set (ac_sessions (aw_s w))"
    and cache: "\<And>i e. map_of (ac_cache s') i = Some e \<Longrightarrow> \<exists>d. map_of (ac_cache (aw_s w)) i = Some d \<and> ca_principal d = ca_principal e \<and>
      ca_loaded d = ca_loaded e \<and> i \<notin> set (went (aw_s w) s')"
    and up: "\<And>i e uid p. map_of (ac_cache s') i = Some e \<Longrightarrow> UserPrincipal uid (aw_s w) = Some p \<Longrightarrow> UserPrincipal uid s' = Some p"
  shows "coherent (moved s' w)"
proof (rule coherentI)
  note d = coherentD [OF co]
  show "accounts_ok (aw_s (moved s' w))" using ok by (simp add: moved_def)
  have old: "aw_given w (sn_id x) = Some (sn_user_id x, sn_expires_at x) \<and> sn_id x \<notin> set (aw_ended w)" if "x \<in> set (ac_sessions s')" for x
  proof -
    have "session_key x \<in> session_key ` set (ac_sessions (aw_s w))" by (rule subsetD [OF ses imageI [OF that]])
    then obtain y where "y \<in> set (ac_sessions (aw_s w))" "session_key x = session_key y" by (rule imageE)
    then show ?thesis using d(2,3) [of y] by (simp add: session_key_def)
  qed
  show "x \<in> set (ac_sessions (aw_s (moved s' w))) \<Longrightarrow> aw_given (moved s' w) (sn_id x) = Some (sn_user_id x, sn_expires_at x) \<and> sn_id x \<notin> set (aw_ended (moved s' w))" for x
    using old [of x] by (auto simp: moved_def went_def)
  show "i \<in> set (aw_ended (moved s' w)) \<Longrightarrow> aw_given (moved s' w) i \<noteq> None" for i
    using d(2,4) by (auto simp: moved_def went_def)
  show "cache_entry_ok (moved s' w) i e" if e: "map_of (ac_cache (aw_s (moved s' w))) i = Some e" for i e
  proof -
    have e: "map_of (ac_cache s') i = Some e" using e by (simp add: moved_def)
    obtain c where c: "map_of (ac_cache (aw_s w)) i = Some c" "ca_principal c = ca_principal e" "ca_loaded c = ca_loaded e" "i \<notin> set (went (aw_s w) s')"
      using cache [OF e] by blast
    show ?thesis using d(5) [OF c(1)] c(2-4) up [OF e] by (auto simp: cache_entry_ok_def moved_def)
  qed
qed

lemma coherent_cleared:
  assumes "coherent w" and "accounts_ok s'" and "set (ac_sessions s') \<subseteq> set (ac_sessions (aw_s w))" and "ac_cache s' = []"
  shows "coherent (moved s' w)"
  by (rule coherent_moved [OF assms(1,2)]) (use assms(3,4) in auto)

lemma coherent_kept:
  assumes "coherent w" and "accounts_ok s'" and "ac_sessions s' = ac_sessions (aw_s w)" and "ac_cache s' = ac_cache (aw_s w)"
    and "\<And>uid p. UserPrincipal uid (aw_s w) = Some p \<Longrightarrow> UserPrincipal uid s' = Some p"
  shows "coherent (moved s' w)"
proof (rule coherent_moved [OF assms(1,2)])
  have w: "went (aw_s w) s' = []" by (auto simp: went_def assms(3) filter_empty_conv)
  show "map_of (ac_cache s') i = Some e \<Longrightarrow> \<exists>d. map_of (ac_cache (aw_s w)) i = Some d \<and> ca_principal d = ca_principal e \<and>
      ca_loaded d = ca_loaded e \<and> i \<notin> set (went (aw_s w) s')" for i e
    unfolding w assms(4) by auto
qed (use assms(3,5) in auto)

text \<open>Sessions that were purged stay in the cache; nothing else changes.\<close>

lemma coherent_purged:
  assumes "coherent w"
  shows "coherent (w\<lparr>aw_s := PurgeSessions (aw_now w) (aw_s w)\<rparr>)"
proof (rule coherentI)
  note d = coherentD [OF assms]
  let ?w = "w\<lparr>aw_s := PurgeSessions (aw_now w) (aw_s w)\<rparr>"
  show "accounts_ok (aw_s ?w)" using accounts_ok_same [OF d(1), of "PurgeSessions (aw_now w) (aw_s w)"] by simp
  have s: "ac_sessions (aw_s ?w) = filter (\<lambda>x. \<not> sn_expires_at x < aw_now w) (ac_sessions (aw_s w))" "ac_cache (aw_s ?w) = ac_cache (aw_s w)"
    by (simp_all add: PurgeSessions_def)
  show "x \<in> set (ac_sessions (aw_s ?w)) \<Longrightarrow> aw_given ?w (sn_id x) = Some (sn_user_id x, sn_expires_at x) \<and> sn_id x \<notin> set (aw_ended ?w)" for x
    unfolding s using d(2,3) by simp
  show "i \<in> set (aw_ended ?w) \<Longrightarrow> aw_given ?w i \<noteq> None" for i using d(4) by simp
  have "UserPrincipal uid (PurgeSessions (aw_now w) (aw_s w)) = UserPrincipal uid (aw_s w)" for uid by (rule UserPrincipal_cong) simp_all
  then show "map_of (ac_cache (aw_s ?w)) i = Some e \<Longrightarrow> cache_entry_ok ?w i e" for i e
    unfolding s using d(5) by (simp add: cache_entry_ok_def)
qed

lemma coherent_later: "coherent w \<Longrightarrow> aw_now w \<le> t \<Longrightarrow> coherent (w\<lparr>aw_now := t\<rparr>)"
  unfolding coherent_def cache_entry_ok_def by fastforce

text \<open>A session that starts has an id that was never given.\<close>

lemma coherent_given:
  assumes co: "coherent w" and new: "aw_given w rnd = None" and key: "aw_given (given rnd w') = (aw_given w)(rnd \<mapsto> k)"
    and w': "aw_s (given rnd w') = s'" "aw_now (given rnd w') = aw_now w" "aw_ended (given rnd w') = aw_ended w"
    and ok: "accounts_ok s'" and ses: "ac_sessions s' = ac_sessions (aw_s w) @ [x]" "sn_id x = rnd" "k = (sn_user_id x, sn_expires_at x)"
    and cache: "ac_cache s' = ac_cache (aw_s w)" and up: "\<And>uid. UserPrincipal uid s' = UserPrincipal uid (aw_s w)"
  shows "coherent (given rnd w')"
proof (rule coherentI)
  note d = coherentD [OF co]
  have ended: "rnd \<notin> set (aw_ended w)" using d(4) [of rnd] new by auto
  show "accounts_ok (aw_s (given rnd w'))" using ok w' by simp
  show "i \<in> set (aw_ended (given rnd w')) \<Longrightarrow> aw_given (given rnd w') i \<noteq> None" for i using d(4) [of i] w' key by simp
  show "y \<in> set (ac_sessions (aw_s (given rnd w'))) \<Longrightarrow>
      aw_given (given rnd w') (sn_id y) = Some (sn_user_id y, sn_expires_at y) \<and> sn_id y \<notin> set (aw_ended (given rnd w'))" for y
    using d(2,3) [of y] w' key ses ended new by auto
  show "cache_entry_ok (given rnd w') i e" if e: "map_of (ac_cache (aw_s (given rnd w'))) i = Some e" for i e
  proof -
    have "cache_entry_ok w i e" using d(5) e w' cache by simp
    then show ?thesis using new unfolding cache_entry_ok_def w' key up by (cases "i = rnd") auto
  qed
qed

lemma coherent_started:
  assumes co: "coherent w" and new: "aw_given w rnd = None"
    and st: "StartSession (aw_now w) rnd uid ip agent ((aw_s w)\<lparr>ac_limiter := l\<rparr>) = (s', c)"
  shows "coherent (given rnd (moved s' w))"
proof (rule StartSession_cases [OF st])
  note d = coherentD [OF co]
  have no: "rnd \<notin> sn_id ` set (ac_sessions (aw_s w))" using d(2) new by fastforce
  {
    assume s': "s' = (aw_s w)\<lparr>ac_limiter := l\<rparr>"
    have "find (\<lambda>x. sn_id x = rnd) (ac_sessions s') = None" using no by (auto simp: find_None_iff s')
    then have "given rnd (moved s' w) = moved s' w" by (simp add: given_def moved_def)
    moreover have "coherent (moved s' w)"
      by (rule coherent_kept [OF co accounts_ok_same [OF d(1)]]) (simp_all add: s' UserPrincipal_cong [of "(aw_s w)\<lparr>ac_limiter := l\<rparr>" "aw_s w"])
    ultimately show ?thesis by simp
  next
    let ?x = "new_session (aw_now w) rnd uid ip agent"
    let ?t = "(aw_s w)\<lparr>ac_limiter := l, ac_sessions := ac_sessions (aw_s w) @ [?x]\<rparr>"
    assume s': "s' = upd_user uid (\<lambda>u. u\<lparr>u_last_login_at := Some (aw_now w)\<rparr>)
        ((aw_s w)\<lparr>ac_limiter := l, ac_sessions := ac_sessions ((aw_s w)\<lparr>ac_limiter := l\<rparr>) @ [?x]\<rparr>)"
    have ses: "ac_sessions s' = ac_sessions (aw_s w) @ [?x]" and ca: "ac_cache s' = ac_cache (aw_s w)" by (simp_all add: s')
    have x: "sn_id ?x = rnd" by (simp add: new_session_def)
    have f: "find (\<lambda>x. sn_id x = rnd) (ac_sessions s') = Some ?x"
    proof -
      have "find (\<lambda>x. sn_id x = rnd) (ac_sessions (aw_s w)) = None" using no by (auto simp: find_None_iff)
      then show ?thesis unfolding ses by (simp add: find_append x)
    qed
    have went: "went (aw_s w) s' = []" by (auto simp: went_def ses filter_empty_conv)
    have g: "aw_given (given rnd (moved s' w)) = (aw_given w)(rnd \<mapsto> (sn_user_id ?x, sn_expires_at ?x))"
      "aw_s (given rnd (moved s' w)) = s'" "aw_now (given rnd (moved s' w)) = aw_now w" "aw_ended (given rnd (moved s' w)) = aw_ended w"
      using f by (simp_all add: given_def moved_def went)
    show ?thesis
    proof (rule coherent_given [OF co new g _ ses x refl ca])
      show "accounts_ok s'" by (rule StartSession_ok [OF st accounts_ok_same [OF d(1)]]) simp_all
      show "UserPrincipal i s' = UserPrincipal i (aw_s w)" for i
        unfolding s' principal_login by (rule UserPrincipal_cong) simp_all
    qed
  }
qed

section \<open>Requests\<close>

lemma Authenticate_cases:
  assumes "Authenticate cr now r s = (s', p)"
  obtains (other) "ac_users s' = ac_users s" "ac_groups s' = ac_groups s" "ac_sessions s' = ac_sessions s" "ac_cache s' = ac_cache s"
      "\<And>q. p = Some q \<Longrightarrow> pr_kind q \<noteq> KindUser"
  | (cookie) "sessionPrincipal now (ra_cookie r) s = (s', p)"
proof (cases "has_prefix (request_key r) WorkerKeyPrefix")
  case True
  obtain t w where t: "WorkerByKey cr (request_key r) s = (t, w)" by (metis surj_pair)
  have f: "ac_users t = ac_users s" "ac_groups t = ac_groups s" "ac_sessions t = ac_sessions s" "ac_cache t = ac_cache s"
    using t by (auto simp: WorkerByKey_def loadWorkers_def Let_def split: option.splits)
  have touch: "ac_users (touchWorker now i ip t) = ac_users t" "ac_groups (touchWorker now i ip t) = ac_groups t"
    "ac_sessions (touchWorker now i ip t) = ac_sessions t" "ac_cache (touchWorker now i ip t) = ac_cache t" for i ip
    by (simp_all add: touchWorker_def)
  have "(s' = t \<and> p = None) \<or> (\<exists>v. s' = touchWorker now (w_id v) (ra_ip r) t \<and> p = Some (WorkerPrincipal v))"
    using assms True by (cases w) (simp_all add: Authenticate_def Let_def t split: if_splits, blast+)
  then show ?thesis using other f touch by (auto simp: WorkerPrincipal_def)
next
  case False
  show ?thesis
  proof (cases "ac_disabled s \<or> request_key r \<noteq> [] \<or> ra_cookie r = []")
    case True
    then have "s' = s" "\<And>q. p = Some q \<Longrightarrow> pr_kind q \<noteq> KindUser"
      using assms False by (auto simp: Authenticate_def Let_def AdminPrincipal_def split: if_splits)
    then show ?thesis using other by simp
  next
    case False2: False
    then have "sessionPrincipal now (ra_cookie r) s = (s', p)" using assms False by (simp add: Authenticate_def Let_def)
    then show ?thesis by (rule cookie)
  qed
qed

lemma see_session_frames [simp]:
  "ac_users (see_session now i s) = ac_users s" "ac_groups (see_session now i s) = ac_groups s" "ac_cache (see_session now i s) = ac_cache s"
  "session_key ` set (ac_sessions (see_session now i s)) = session_key ` set (ac_sessions s)"
  "sn_id ` set (ac_sessions (see_session now i s)) = sn_id ` set (ac_sessions s)"
proof -
  let ?f = "\<lambda>x. if sn_id x = i then x\<lparr>sn_last_seen_at := now\<rparr> else x"
  have r: "set (ac_sessions (see_session now i s)) = ?f ` set (ac_sessions s)" by (simp add: see_session_def)
  show "session_key ` set (ac_sessions (see_session now i s)) = session_key ` set (ac_sessions s)"
    unfolding r image_image by (rule image_cong) (simp_all add: session_key_def)
  show "sn_id ` set (ac_sessions (see_session now i s)) = sn_id ` set (ac_sessions s)"
    unfolding r image_image by (rule image_cong) simp_all
qed (simp_all add: see_session_def)

lemma load_session_Some:
  assumes "load_session now i s = Some q"
  obtains x p where "x \<in> set (ac_sessions s)" "sn_id x = i" "now \<le> sn_expires_at x" "UserPrincipal (sn_user_id x) s = Some p"
    "q = p\<lparr>pr_session_id := i\<rparr>"
proof -
  obtain x where x: "find (\<lambda>x. sn_id x = i) (ac_sessions s) = Some x"
    using assms by (cases "find (\<lambda>x. sn_id x = i) (ac_sessions s)") (simp_all add: load_session_def)
  have e: "\<not> now > sn_expires_at x" using assms by (auto simp: load_session_def x)
  have "map_option (\<lambda>p. p\<lparr>pr_session_id := i\<rparr>) (UserPrincipal (sn_user_id x) s) = Some q" using assms e by (simp add: load_session_def x)
  then obtain p where p: "UserPrincipal (sn_user_id x) s = Some p" "q = p\<lparr>pr_session_id := i\<rparr>" by auto
  have m: "x \<in> set (ac_sessions s)" "sn_id x = i" using x by (auto simp: find_Some_iff)
  show ?thesis by (rule that [OF m _ p]) (use e in simp)
qed

text \<open>What a session makes of a request: its entry of the cache, or what the database says.\<close>

lemma sessionPrincipal_cases:
  assumes "sessionPrincipal now i s = (s', r)"
  obtains (hit) e where "map_of (ac_cache s) i = Some e" "now - ca_loaded e < cacheTTL" "r = Some (ca_principal e)"
      "s' = s \<or> s' = see_session now i (s\<lparr>ac_cache := AList.update i (e\<lparr>ca_last_seen := now\<rparr>) (ac_cache s)\<rparr>)"
  | (refused) "s' = s" "r = None"
  | (loaded) q where "load_session now i s = Some q" "r = Some q" "s' = store_session now i q s"
proof (cases "fresh_entry now i s")
  case (Some e)
  then have "map_of (ac_cache s) i = Some e" "now - ca_loaded e < cacheTTL" by (auto simp: fresh_entry_def split: option.splits if_splits)
  with assms Some show ?thesis using hit by (auto simp: sessionPrincipal_def split: if_splits)
next
  case None
  with assms show ?thesis using refused loaded by (auto simp: sessionPrincipal_def split: option.splits)
qed

text \<open>A principal that comes from the cache or the database is what the database says now.\<close>

lemma coherent_principal:
  assumes co: "coherent w" and sp: "sessionPrincipal (aw_now w) i (aw_s w) = (s', Some q)"
  shows "\<exists>p x. UserPrincipal (pr_user_id q) (aw_s w) = Some p \<and> q = p\<lparr>pr_session_id := i\<rparr> \<and> i \<notin> set (aw_ended w) \<and>
    aw_given w i = Some (pr_user_id q, x) \<and> aw_now w < x + cacheTTL"
  using sp
proof (cases rule: sessionPrincipal_cases)
  case (hit e)
  have q: "q = ca_principal e" using hit(3) by simp
  have e: "cache_entry_ok w i e" by (rule coherentD(5) [OF co hit(1)])
  then obtain p x where "UserPrincipal (pr_user_id q) (aw_s w) = Some p" "q = p\<lparr>pr_session_id := i\<rparr>"
    "aw_given w i = Some (pr_user_id q, x)" "ca_loaded e \<le> x" unfolding cache_entry_ok_def q by blast
  moreover have "i \<notin> set (aw_ended w)" using e by (simp add: cache_entry_ok_def)
  ultimately show ?thesis using hit(2) by (intro exI [of _ p] exI [of _ x]) simp
next
  case refused
  then show ?thesis by simp
next
  case (loaded q')
  then have "load_session (aw_now w) i (aw_s w) = Some q" by simp
  then obtain x p where x: "x \<in> set (ac_sessions (aw_s w))" "sn_id x = i" "aw_now w \<le> sn_expires_at x"
      "UserPrincipal (sn_user_id x) (aw_s w) = Some p" "q = p\<lparr>pr_session_id := i\<rparr>" by (rule load_session_Some)
  have u: "pr_user_id q = sn_user_id x" using principal_user [OF x(4)] x(5) by simp
  have "aw_given w i = Some (sn_user_id x, sn_expires_at x)" "i \<notin> set (aw_ended w)" using coherentD(2,3) [OF co x(1)] x(2) by simp_all
  then show ?thesis unfolding u using x(3-5) by (intro exI [of _ p] exI [of _ "sn_expires_at x"]) (simp add: cacheTTL_def go_defs)
qed

lemma went_nil: "sn_id ` set (ac_sessions s') = sn_id ` set (ac_sessions s) \<Longrightarrow> went s s' = []"
  by (auto simp: went_def filter_empty_conv)

lemma coherent_seen:
  assumes co: "coherent w" and e: "map_of (ac_cache (aw_s w)) i = Some e"
  shows "coherent (moved (see_session now i ((aw_s w)\<lparr>ac_cache := AList.update i (e\<lparr>ca_last_seen := now\<rparr>) (ac_cache (aw_s w))\<rparr>)) w)"
    (is "coherent (moved ?s w)")
proof (rule coherent_moved [OF co])
  show "accounts_ok ?s" by (rule accounts_ok_same [OF coherentD(1) [OF co]]) simp_all
  show "session_key ` set (ac_sessions ?s) \<subseteq> session_key ` set (ac_sessions (aw_s w))" by simp
  have n: "went (aw_s w) ?s = []" by (rule went_nil) simp
  show "\<exists>d. map_of (ac_cache (aw_s w)) j = Some d \<and> ca_principal d = ca_principal f \<and> ca_loaded d = ca_loaded f \<and> j \<notin> set (went (aw_s w) ?s)"
    if "map_of (ac_cache ?s) j = Some f" for j f
    using that e unfolding n by (cases "j = i") (auto simp: update_conv)
  show "UserPrincipal uid (aw_s w) = Some p \<Longrightarrow> UserPrincipal uid ?s = Some p" for uid p
    using UserPrincipal_cong [of ?s "aw_s w" uid] by simp
qed

lemma coherent_loaded:
  assumes co: "coherent w" and q: "load_session (aw_now w) i (aw_s w) = Some q"
  shows "coherent (moved (store_session (aw_now w) i q (aw_s w)) w)" (is "coherent (moved ?s w)")
proof (rule coherentI)
  note d = coherentD [OF co]
  have f: "ac_users ?s = ac_users (aw_s w)" "ac_groups ?s = ac_groups (aw_s w)" "sn_id ` set (ac_sessions ?s) = sn_id ` set (ac_sessions (aw_s w))"
    "session_key ` set (ac_sessions ?s) = session_key ` set (ac_sessions (aw_s w))"
    "ac_cache ?s = AList.update i \<lparr>ca_principal = q, ca_loaded = aw_now w, ca_last_seen = aw_now w\<rparr> (ac_cache (aw_s w))"
    by (simp_all add: store_session_def)
  have m: "aw_s (moved ?s w) = ?s" "aw_given (moved ?s w) = aw_given w" "aw_ended (moved ?s w) = aw_ended w" "aw_now (moved ?s w) = aw_now w"
    using went_nil [OF f(3)] by (simp_all add: moved_def)
  have up: "UserPrincipal uid ?s = UserPrincipal uid (aw_s w)" for uid by (rule UserPrincipal_cong [OF f(1,2)])
  show "accounts_ok (aw_s (moved ?s w))" unfolding m by (rule accounts_ok_same [OF d(1) f(1,2)])
  show "aw_given (moved ?s w) (sn_id x) = Some (sn_user_id x, sn_expires_at x) \<and> sn_id x \<notin> set (aw_ended (moved ?s w))"
    if x: "x \<in> set (ac_sessions (aw_s (moved ?s w)))" for x
  proof -
    have "session_key x \<in> session_key ` set (ac_sessions (aw_s w))" using x unfolding f(4) [symmetric] m by (rule imageI)
    then obtain y where "y \<in> set (ac_sessions (aw_s w))" "session_key x = session_key y" by (rule imageE)
    then show ?thesis using d(2,3) [of y] by (simp add: session_key_def m)
  qed
  show "j \<in> set (aw_ended (moved ?s w)) \<Longrightarrow> aw_given (moved ?s w) j \<noteq> None" for j unfolding m by (rule d(4))
  show "cache_entry_ok (moved ?s w) j e" if e: "map_of (ac_cache (aw_s (moved ?s w))) j = Some e" for j e
  proof (cases "j = i")
    case False
    then have "cache_entry_ok w j e" using e d(5) by (simp add: m f update_conv)
    then show ?thesis unfolding cache_entry_ok_def m up .
  next
    case True
    then have e: "e = \<lparr>ca_principal = q, ca_loaded = aw_now w, ca_last_seen = aw_now w\<rparr>" using e by (simp add: m f update_conv)
    obtain x p where x: "x \<in> set (ac_sessions (aw_s w))" "sn_id x = i" "aw_now w \<le> sn_expires_at x"
        "UserPrincipal (sn_user_id x) (aw_s w) = Some p" "q = p\<lparr>pr_session_id := i\<rparr>" using q by (rule load_session_Some)
    have "pr_user_id q = sn_user_id x" using principal_user [OF x(4)] x(5) by simp
    then show ?thesis unfolding cache_entry_ok_def m up e using d(2,3) [OF x(1)] x(2-5) True by simp
  qed
qed

lemma coherent_requested:
  assumes co: "coherent w" and a: "Authenticate cr (aw_now w) req (aw_s w) = (s', p)"
  shows "coherent (moved s' w)"
  using a
proof (cases rule: Authenticate_cases)
  case other
  show ?thesis by (rule coherent_kept [OF co accounts_ok_same [OF coherentD(1) [OF co] other(1,2)] other(3,4)])
      (simp add: UserPrincipal_cong [OF other(1,2)])
next
  case cookie
  have same: "coherent (moved (aw_s w) w)" by (rule coherent_kept [OF co coherentD(1) [OF co]]) simp_all
  from cookie show ?thesis
  proof (cases rule: sessionPrincipal_cases)
    case (hit e)
    then show ?thesis using same coherent_seen [OF co hit(1)] by auto
  next
    case refused
    then show ?thesis using same by simp
  next
    case (loaded q)
    then show ?thesis using coherent_loaded [OF co loaded(1)] by simp
  qed
qed

section \<open>Every operation keeps the cache right\<close>

lemma coherent_grown:
  assumes co: "coherent w" and ok: "accounts_ok s'" and "rows (ac_users s') = rows (ac_users (aw_s w)) @ us"
    and "rows (ac_groups s') = rows (ac_groups (aw_s w)) @ gs" and "ac_sessions s' = ac_sessions (aw_s w)" and "ac_cache s' = ac_cache (aw_s w)"
  shows "coherent (moved s' w)"
  by (rule coherent_kept [OF co ok assms(5,6)]) (rule principal_grows [OF coherentD(1) [OF co] assms(3,4)])

lemma more_groups_grown:
  assumes "more_groups s s'"
  obtains gs where "rows (ac_groups s') = rows (ac_groups s) @ gs" "rows (ac_users s') = rows (ac_users s) @ []"
    "ac_sessions s' = ac_sessions s" "ac_cache s' = ac_cache s"
  using assms by (auto simp: more_groups_def)

lemma coherent_more_groups:
  assumes "coherent w" "accounts_ok s'" "more_groups (aw_s w) s'"
  shows "coherent (moved s' w)"
proof -
  from assms(3) obtain gs where "rows (ac_groups s') = rows (ac_groups (aw_s w)) @ gs" "rows (ac_users s') = rows (ac_users (aw_s w)) @ []"
    "ac_sessions s' = ac_sessions (aw_s w)" "ac_cache s' = ac_cache (aw_s w)" by (rule more_groups_grown)
  then show ?thesis by (intro coherent_grown [OF assms(1,2)])
qed

lemma CreateUser_grows:
  assumes "CreateUser cr now salt inp s = (s', r)" and "accounts_ok s"
  shows "\<exists>us gs. rows (ac_users s') = rows (ac_users s) @ us \<and> rows (ac_groups s') = rows (ac_groups s) @ gs \<and>
    ac_sessions s' = ac_sessions s \<and> ac_cache s' = ac_cache s"
  using assms
proof (cases rule: CreateUser_cases)
  case (made t u v b)
  from made(2) obtain gs where t: "rows (ac_groups t) = rows (ac_groups s) @ gs" "rows (ac_users t) = rows (ac_users s) @ []"
    "ac_sessions t = ac_sessions s" "ac_cache t = ac_cache s" by (rule more_groups_grown)
  then show ?thesis using insert_user_rows [OF made(3)] by simp
next
  case (failed e)
  from failed(2) show ?thesis by (rule more_groups_grown) auto
qed simp

lemma Redeem_grows:
  assumes "Redeem cr now salt token inp s = (s', r)" and ok: "accounts_ok s"
  shows "\<exists>us gs. rows (ac_users s') = rows (ac_users s) @ us \<and> rows (ac_groups s') = rows (ac_groups s) @ gs \<and>
    ac_sessions s' = ac_sessions s \<and> ac_cache s' = ac_cache s"
  using assms(1)
proof (cases rule: Redeem_cases)
  case (tried v t)
  have "accounts_ok (fst (count_use (inv_id v) s))" by (rule accounts_ok_same [OF ok]) simp_all
  with tried(2) have "\<exists>us gs. rows (ac_users t) = rows (ac_users s) @ us \<and> rows (ac_groups t) = rows (ac_groups s) @ gs \<and>
    ac_sessions t = ac_sessions s \<and> ac_cache t = ac_cache s" using CreateUser_grows by fastforce
  then show ?thesis using tried(3) by auto
qed auto

lemma sessions_left:
  "ac_sessions (RevokeSessions uid keep s) = filter (\<lambda>x. \<not> (sn_user_id x = uid \<and> sn_id x \<noteq> keep)) (ac_sessions s)"
  "ac_sessions (EndSession i s) = filter (\<lambda>x. sn_id x \<noteq> i) (ac_sessions s)" "ac_cache (EndSession i s) = AList.delete i (ac_cache s)"
  by (simp_all add: RevokeSessions_def EndSession_def Invalidate_def)

lemma coherent_signed_out:
  assumes co: "coherent w"
  shows "coherent (moved (EndSession i (aw_s w)) w)"
proof (rule coherent_moved [OF co])
  show "accounts_ok (EndSession i (aw_s w))" by (rule accounts_ok_same [OF coherentD(1) [OF co]]) simp_all
  show "session_key ` set (ac_sessions (EndSession i (aw_s w))) \<subseteq> session_key ` set (ac_sessions (aw_s w))" by (auto simp: sessions_left)
  have "set (went (aw_s w) (EndSession i (aw_s w))) \<subseteq> {i}" by (auto simp: went_def sessions_left)
  then show "map_of (ac_cache (EndSession i (aw_s w))) j = Some e \<Longrightarrow> \<exists>d. map_of (ac_cache (aw_s w)) j = Some d \<and>
      ca_principal d = ca_principal e \<and> ca_loaded d = ca_loaded e \<and> j \<notin> set (went (aw_s w) (EndSession i (aw_s w)))" for j e
    by (cases "j = i") (auto simp: sessions_left delete_conv)
  show "UserPrincipal uid (aw_s w) = Some p \<Longrightarrow> UserPrincipal uid (EndSession i (aw_s w)) = Some p" for uid p
    using UserPrincipal_cong [of "EndSession i (aw_s w)" "aw_s w" uid] by simp
qed

lemma coherent_same: "coherent w \<Longrightarrow> coherent (moved (aw_s w) w)"
  by (rule coherent_kept) (simp_all add: coherentD(1))

lemma coherent_new_password:
  assumes co: "coherent w" and st: "SetPassword cr salt uid pass keep (aw_s w) = (s', e)"
  shows "coherent (moved s' w)"
proof (cases "s' = aw_s w")
  case True
  then show ?thesis using coherent_same [OF co] by simp
next
  case False
  then obtain h where s': "s' = RevokeSessions uid keep (upd_user uid (\<lambda>u. u\<lparr>u_password_hash := h\<rparr>) (aw_s w))"
    using st by (auto simp: SetPassword_def split: if_splits option.splits)
  have "accounts_ok (upd_user uid (\<lambda>u. u\<lparr>u_password_hash := h\<rparr>) (aw_s w))"
    by (rule upd_user_ok [OF _ coherentD(1) [OF co]]) (simp add: account_key_def)
  then have "accounts_ok s'" unfolding s' by (rule accounts_ok_same) simp_all
  then show ?thesis by (rule coherent_cleared [OF co]) (auto simp: s' sessions_left)
qed

lemma coherent_user_updated:
  assumes co: "coherent w" and st: "users_update me i displayName gid rid disable (aw_s w) = (s', e)"
  shows "coherent (moved s' w)"
  using st
proof (cases rule: users_update_cases)
  case 1
  then show ?thesis using coherent_same [OF co] by simp
next
  case (2 u g t)
  show ?thesis by (rule coherent_cleared [OF co users_update_ok [OF st coherentD(1) [OF co]]]) (simp_all add: 2(5,6) sessions_left)
qed

lemma coherent_user_deleted:
  assumes co: "coherent w" and st: "users_delete me i (aw_s w) = (s', e)"
  shows "coherent (moved s' w)"
  using st
proof (cases rule: users_delete_cases)
  case 1
  then show ?thesis using coherent_same [OF co] by simp
next
  case (2 u)
  show ?thesis by (rule coherent_cleared [OF co users_delete_ok [OF st coherentD(1) [OF co]]]) (auto simp: 2(4))
qed

lemma coherent_group_updated:
  assumes co: "coherent w" and st: "groups_update i name perms incl excl roots auto (aw_s w) = (s', e)"
  shows "coherent (moved s' w)"
  using st
proof (cases rule: groups_update_cases)
  case 1
  then show ?thesis using coherent_same [OF co] by simp
next
  case (2 g)
  show ?thesis by (rule coherent_cleared [OF co groups_update_ok [OF st coherentD(1) [OF co]]]) (simp_all add: 2(3))
qed

lemma coherent_group_deleted:
  assumes co: "coherent w" and st: "groups_delete now i (aw_s w) = (s', e)"
  shows "coherent (moved s' w)"
proof (rule groups_delete_cases [OF st coherentD(1) [OF co]])
  show "s' = aw_s w \<Longrightarrow> ?thesis" using coherent_same [OF co] by simp
  show "accounts_ok s' \<Longrightarrow> more_groups (aw_s w) s' \<Longrightarrow> ?thesis" by (rule coherent_more_groups [OF co])
  fix t v
  assume "more_groups (aw_s w) t" and "s' = Invalidate (t\<lparr>ac_users := upd_where (\<lambda>u. u_group_id u = i) (\<lambda>u. u\<lparr>u_group_id := v\<rparr>) (ac_users t),
        ac_groups := del_where (\<lambda>g. g_id g = i) (ac_groups t), ac_invites := del_where (\<lambda>v. inv_group_id v = i) (ac_invites t)\<rparr>)"
  then have "ac_sessions s' = ac_sessions (aw_s w)" "ac_cache s' = []" using more_groups_frames(4) by simp_all
  then show ?thesis by (intro coherent_cleared [OF co groups_delete_ok [OF st coherentD(1) [OF co]]]) simp_all
qed

lemma coherent_logged_in:
  assumes co: "coherent w" and new: "aw_given w rnd = None"
    and st: "Login cr (aw_now w) rnd name pass ip agent (aw_s w) = (s', r)"
  shows "coherent (given rnd (moved s' w))"
  using st
proof (cases rule: Login_cases)
  case (accepted l u c)
  show ?thesis by (rule coherent_started [OF co new accepted(1)])
next
  case (refused l)
  note d = coherentD [OF co]
  have "rnd \<notin> sn_id ` set (ac_sessions (aw_s w))" using d(2) new by fastforce
  then have "find (\<lambda>x. sn_id x = rnd) (ac_sessions s') = None" by (auto simp: find_None_iff refused(1))
  then have "given rnd (moved s' w) = moved s' w" by (simp add: given_def moved_def)
  moreover have "coherent (moved s' w)" unfolding refused(1)
    by (rule coherent_kept [OF co accounts_ok_same [OF d(1)]]) (simp_all add: UserPrincipal_cong [of "(aw_s w)\<lparr>ac_limiter := l\<rparr>" "aw_s w"])
  ultimately show ?thesis by simp
qed

theorem actstep_coherent: "actstep cr x y \<Longrightarrow> coherent x \<Longrightarrow> coherent y"
proof (induction rule: actstep.induct)
  case (logged_in w rnd name pass ip agent s' r)
  then show ?case using coherent_logged_in by blast
next
  case (session_started w rnd uid ip agent s' c)
  show ?case by (rule coherent_started [OF session_started(3,1), of uid ip agent "ac_limiter (aw_s w)" s' c]) (use session_started(2) in simp)
next
  case (requested w req s' p)
  then show ?case using coherent_requested by blast
next
  case (signed_out w i)
  then show ?case by (rule coherent_signed_out)
next
  case (revoked w uid keep)
  show ?case by (rule coherent_cleared [OF revoked accounts_ok_same [OF coherentD(1) [OF revoked]]]) (simp_all add: sessions_left)
next
  case (new_password salt uid pass keep w s' e)
  then show ?case using coherent_new_password by blast
next
  case (user_created w salt inp s' r)
  note ok = coherentD(1) [OF user_created(3)]
  obtain us gs where "rows (ac_users s') = rows (ac_users (aw_s w)) @ us" "rows (ac_groups s') = rows (ac_groups (aw_s w)) @ gs"
    "ac_sessions s' = ac_sessions (aw_s w)" "ac_cache s' = ac_cache (aw_s w)" using CreateUser_grows [OF user_created(1) ok] by blast
  with coherent_grown [OF user_created(3) CreateUser_ok [OF user_created(1) ok]] user_created(2) show ?case by blast
next
  case (redeemed w salt token inp s' r)
  note ok = coherentD(1) [OF redeemed(3)]
  obtain us gs where "rows (ac_users s') = rows (ac_users (aw_s w)) @ us" "rows (ac_groups s') = rows (ac_groups (aw_s w)) @ gs"
    "ac_sessions s' = ac_sessions (aw_s w)" "ac_cache s' = ac_cache (aw_s w)" using Redeem_grows [OF redeemed(1) ok] by blast
  with coherent_grown [OF redeemed(3) Redeem_ok [OF redeemed(1) ok redeemed(2)]] show ?case by blast
next
  case (invite_created w token gid memo n expires by_user s' v)
  then have s': "ac_users s' = ac_users (aw_s w)" "ac_groups s' = ac_groups (aw_s w)" "ac_sessions s' = ac_sessions (aw_s w)" "ac_cache s' = ac_cache (aw_s w)"
    by (auto simp: CreateInvite_def Let_def split: if_splits)
  show ?case by (rule coherent_kept [OF invite_created(2) accounts_ok_same [OF coherentD(1) [OF invite_created(2)] s'(1,2)] s'(3,4)])
      (simp add: UserPrincipal_cong [OF s'(1,2)])
next
  case (user_updated me i displayName gid rid disable w s' e)
  then show ?case using coherent_user_updated by blast
next
  case (user_deleted me i w s' e)
  then show ?case using coherent_user_deleted by blast
next
  case (group_created w name perms incl excl roots auto s' e)
  note ok = groups_create_ok [OF group_created(1) coherentD(1) [OF group_created(2)]]
  show ?case by (rule coherent_more_groups [OF group_created(2) ok])
next
  case (group_updated i name perms incl excl roots auto w s' e)
  then show ?case using coherent_group_updated by blast
next
  case (group_deleted w i s' e)
  then show ?case using coherent_group_deleted by blast
next
  case (purged w)
  then show ?case by (rule coherent_purged)
next
  case (time_passes w t)
  then show ?case by (simp add: coherent_later)
qed

interpretation accounts_steps: step_invariant "actstep cr" coherent for cr
  by unfold_locales (rule actstep_coherent)

lemma coherent_opened:
  assumes "accounts_ok s" "ac_cache s = []" "distinct (map sn_id (ac_sessions s))"
  shows "coherent (opened now s)"
proof (rule coherentI)
  let ?f = "\<lambda>x. (sn_id x, sn_user_id x, sn_expires_at x)"
  have "map fst (map ?f (ac_sessions s)) = map sn_id (ac_sessions s)" by (simp add: o_def)
  then have d: "distinct (map fst (map ?f (ac_sessions s)))" using assms(3) by (simp only:)
  show "x \<in> set (ac_sessions (aw_s (opened now s))) \<Longrightarrow>
      aw_given (opened now s) (sn_id x) = Some (sn_user_id x, sn_expires_at x) \<and> sn_id x \<notin> set (aw_ended (opened now s))" for x
    using map_of_is_SomeI [OF d, of "sn_id x" "(sn_user_id x, sn_expires_at x)"] by (simp add: opened_def)
qed (use assms in \<open>simp_all add: opened_def\<close>)

lemma distinct_map_rows: "distinct (map f xs) \<Longrightarrow> distinct xs"
  by (simp add: distinct_map)

lemma distinct_keys:
  assumes "distinct xs" "\<And>x y. x \<in> set xs \<Longrightarrow> y \<in> set xs \<Longrightarrow> f x = f y \<Longrightarrow> f x \<noteq> [] \<Longrightarrow> x = y"
  shows "distinct (filter (\<lambda>b. b \<noteq> []) (map f xs))"
  using assms
proof (induction xs)
  case (Cons a xs)
  have "f a \<notin> f ` set xs" if "f a \<noteq> []"
  proof
    assume "f a \<in> f ` set xs"
    then obtain y where "y \<in> set xs" "f a = f y" by blast
    with Cons.prems(2) [of a y] that have "a = y" by simp
    with \<open>y \<in> set xs\<close> Cons.prems(1) show False by simp
  qed
  moreover have "distinct (filter (\<lambda>b. b \<noteq> []) (map f xs))"
    by (rule Cons.IH) (use Cons.prems(1) in simp, rule Cons.prems(2), simp_all)
  ultimately show ?case by simp
qed simp

section \<open>Claims\<close>


text \<open>
  C36: In every such history the tables stay well typed: ids of users and of groups are unique,
  names of users differ in more than their case, every user's group exists, and there is one
  built-in group of each kind.
\<close>

theorem accounts_well_typed:
  assumes "accounts_ok s" "ac_cache s = []" "distinct (map sn_id (ac_sessions s))"
    and "(actstep cr)\<^sup>*\<^sup>* (opened start s) w"
  shows "distinct (map u_id (rows (ac_users (aw_s w)))) \<and> distinct (map g_id (rows (ac_groups (aw_s w)))) \<and>
    distinct (map (\<lambda>u. to_lower (u_username u)) (rows (ac_users (aw_s w)))) \<and>
    list_all (\<lambda>u. tget g_id (u_group_id u) (ac_groups (aw_s w)) \<noteq> None) (rows (ac_users (aw_s w))) \<and>
    distinct (filter (\<lambda>b. b \<noteq> []) (map g_builtin (rows (ac_groups (aw_s w)))))"
proof -
  have ok: "accounts_ok (aw_s w)"
    by (rule coherentD(1) [OF accounts_steps.reachable [OF assms(4) coherent_opened [OF assms(1-3)]]])
  note d = accounts_okD [OF ok]
  have u: "distinct (map u_id (rows (ac_users (aw_s w))))" and g: "distinct (map g_id (rows (ac_groups (aw_s w))))" using d(1,2) by (simp_all add: twf_def)
  have "tget g_id (u_group_id x) (ac_groups (aw_s w)) \<noteq> None" if x: "x \<in> set (rows (ac_users (aw_s w)))" for x
  proof -
    obtain h where h: "h \<in> set (rows (ac_groups (aw_s w)))" "u_group_id x = g_id h" using d(4) [OF x] by (rule imageE)
    show ?thesis using groups_table.get_member [OF d(2) h(1)] h(2) by simp
  qed
  moreover have "distinct (filter (\<lambda>b. b \<noteq> []) (map g_builtin (rows (ac_groups (aw_s w)))))"
    by (rule distinct_keys [OF distinct_map_rows [OF g]]) (rule d(5))
  ultimately show ?thesis using u g d(3) by (simp add: list_all_iff)
qed


section \<open>Passwords\<close>

text \<open>
  bcrypt compares at most 72 bytes and ends a password at no byte but 0: it tells the passwords
  below apart.
\<close>

definition plain :: "string \<Rightarrow> bool" where
  "plain p \<longleftrightarrow> length p \<le> 72 \<and> CHR 0x00 \<notin> set p"

definition cookie_request :: "string \<Rightarrow> request_auth" where
  "cookie_request c = \<lparr>ra_header_key = [], ra_query_key = [], ra_authorization = [], ra_cookie = c, ra_ip = []\<rparr>"

lemma user_named_Some:
  assumes "accounts_ok s" "u \<in> set (rows (ac_users s))" "to_lower n = to_lower (u_username u)"
  shows "user_named n s = Some u"
proof (cases "user_named n s")
  case None
  then show ?thesis using assms(2,3) by (auto simp: user_named_None)
next
  case (Some v)
  then have "v \<in> set (rows (ac_users s))" "to_lower (u_username v) = to_lower (u_username u)" using assms(3) by (auto simp: user_named_def find_Some_iff)
  then have "v = u" using accounts_okD(3) [OF assms(1)] assms(2) by (auto simp: distinct_map inj_on_def)
  with Some show ?thesis by simp
qed

lemma Login_checked:
  "Locked_keys now (LoginKeys ip name) (ac_limiter s) = (l, None) \<Longrightarrow>
    Login cr now rnd name pass ip agent s = checked_login cr now rnd name pass ip agent (s\<lparr>ac_limiter := l\<rparr>)"
  by (simp add: Login_def)

lemma checked_login_refused:
  "Verify cr name pass s = Inl InvalidCredentials \<Longrightarrow> snd (checked_login cr now rnd name pass ip agent s) = LoginRefused InvalidCredentials"
  by (simp add: checked_login_def Let_def)

lemma checked_login_accepted:
  assumes "Verify cr name pass s = Inr u" "tget u_id (u_id u) (ac_users s) = Some u" "rnd \<notin> sn_id ` set (ac_sessions s)"
  shows "\<exists>l. checked_login cr now rnd name pass ip agent s =
    (upd_user (u_id u) (\<lambda>u. u\<lparr>u_last_login_at := Some now\<rparr>)
       (s\<lparr>ac_limiter := l, ac_sessions := ac_sessions s @ [new_session now rnd (u_id u) ip agent]\<rparr>), LoggedIn u (Some rnd))"
proof -
  obtain l where l: "Reset [hd (LoginKeys ip name)] (ac_limiter s) = l" by blast
  have "\<not> list_ex (\<lambda>x. sn_id x = rnd) (ac_sessions s)" using assms(3) by (auto simp: list_ex_iff)
  then show ?thesis
    unfolding checked_login_def Let_def assms(1) sum.case l StartSession_def by (intro exI [of _ l]) (simp add: assms(2))
qed

lemma Verify_named:
  assumes "user_named (trim_space name) s = Some u" "u_password_hash u \<noteq> []" "\<not> u_disabled u"
  shows "Verify cr name pass s = (if cr_match cr (u_password_hash u) pass then Inr u else Inl InvalidCredentials)"
  using assms by (simp add: Verify_def)

text \<open>A session that is in the table and not in the cache.\<close>

lemma Authenticate_cookie:
  assumes "c \<noteq> []" "\<not> ac_disabled s" "ac_cache s = []" "find (\<lambda>x. sn_id x = c) (ac_sessions s) = Some x" "t \<le> sn_expires_at x"
    "UserPrincipal (sn_user_id x) s = Some p"
  shows "snd (Authenticate cr t (cookie_request c) s) = Some (p\<lparr>pr_session_id := c\<rparr>)"
proof -
  have "request_key (cookie_request c) = []" by (simp add: request_key_def cookie_request_def)
  moreover have "load_session t c s = Some (p\<lparr>pr_session_id := c\<rparr>)" using assms(4-6) by (simp add: load_session_def)
  then have "snd (sessionPrincipal t c s) = Some (p\<lparr>pr_session_id := c\<rparr>)" using assms(3) by (simp add: sessionPrincipal_def fresh_entry_def)
  ultimately show ?thesis using assms(1,2) by (simp add: Authenticate_def WorkerKeyPrefix_def cookie_request_def)
qed

lemma session_authenticates:
  assumes "accounts_ok s" "ac_cache s = []" "\<not> ac_disabled s" "u \<in> set (rows (ac_users s))" "\<not> u_disabled u"
    and "rnd \<notin> sn_id ` set (ac_sessions s)" "rnd \<noteq> []" "t \<le> now + sessionTTL"
    and s': "s' = upd_user (u_id u) (\<lambda>u. u\<lparr>u_last_login_at := Some now\<rparr>)
       (s\<lparr>ac_limiter := l, ac_sessions := ac_sessions s @ [new_session now rnd (u_id u) ip agent]\<rparr>)"
  shows "\<exists>q. snd (Authenticate cr t (cookie_request rnd) s') = Some q \<and> pr_kind q = KindUser \<and> pr_user_id q = u_id u"
proof -
  note d = accounts_okD [OF assms(1)]
  let ?x = "new_session now rnd (u_id u) ip agent"
  have t: "tget u_id (u_id u) (ac_users s) = Some u" by (rule users_table.get_member [OF d(1) assms(4)])
  obtain p where "UserPrincipal (u_id u) s = Some p" using assms(5) by (simp add: UserPrincipal_def t)
  moreover have "UserPrincipal (u_id u) s' = UserPrincipal (u_id u) s"
    unfolding s' principal_login by (rule UserPrincipal_cong) simp_all
  ultimately have p: "UserPrincipal (sn_user_id ?x) s' = Some p" by (simp add: new_session_def)
  have "find (\<lambda>x. sn_id x = rnd) (ac_sessions s) = None" using assms(6) by (auto simp: find_None_iff)
  then have x: "find (\<lambda>x. sn_id x = rnd) (ac_sessions s') = Some ?x" by (simp add: s' find_append new_session_def)
  have "ac_disabled s' = ac_disabled s" "ac_cache s' = []" using assms(2) by (simp_all add: s' upd_user_def)
  then have "snd (Authenticate cr t (cookie_request rnd) s') = Some (p\<lparr>pr_session_id := rnd\<rparr>)"
    using assms(3,8) by (intro Authenticate_cookie [OF assms(7) _ _ x _ p]) (simp_all add: new_session_def)
  then show ?thesis using principal_user [OF p] by (simp add: new_session_def)
qed

text \<open>
  C37: After \<open>SetPassword\<close> the new password logs the user in, under the user's name in any case, and
  until it expires the session this starts makes requests that user's; a different password that
  bcrypt can tell apart is refused.
\<close>

theorem password_roundtrip:
  assumes law: "\<forall>salt p h q. cr_hash cr salt p = Some h \<longrightarrow> plain q \<longrightarrow> h \<noteq> [] \<and> (cr_match cr h q \<longleftrightarrow> p = q)"
    and ok: "accounts_ok s" and u: "tget u_id uid (ac_users s) = Some u" "\<not> u_disabled u" and on: "\<not> ac_disabled s"
    and set_pass: "SetPassword cr salt uid pass keep s = (s1, None)"
    and name: "to_lower (trim_space name) = to_lower (u_username u)" and plain: "plain pass" "plain other" "other \<noteq> pass"
    and free: "Locked_keys now (LoginKeys ip name) (ac_limiter s) = (l, None)" and rnd: "rnd \<notin> sn_id ` set (ac_sessions s1)" "rnd \<noteq> []"
    and t: "t \<le> now + sessionTTL"
  shows "(\<exists>v s2 q. Login cr now rnd name pass ip agent s1 = (s2, LoggedIn v (Some rnd)) \<and> u_id v = uid \<and>
      snd (Authenticate cr t (cookie_request rnd) s2) = Some q \<and> pr_kind q = KindUser \<and> pr_user_id q = uid) \<and>
    snd (Login cr now rnd name other ip agent s1) = LoginRefused InvalidCredentials"
proof -
  obtain h where h: "cr_hash cr salt pass = Some h" and s1: "s1 = RevokeSessions uid keep (upd_user uid (\<lambda>u. u\<lparr>u_password_hash := h\<rparr>) s)"
    using set_pass by (auto simp: SetPassword_def split: if_splits option.splits)
  have hp: "h \<noteq> []" "cr_match cr h pass" "\<not> cr_match cr h other" using law h plain by metis+
  let ?u = "u\<lparr>u_password_hash := h\<rparr>" and ?s = "s1\<lparr>ac_limiter := l\<rparr>"
  have "accounts_ok (upd_user uid (\<lambda>u. u\<lparr>u_password_hash := h\<rparr>) s)" by (rule upd_user_ok [OF _ ok]) (simp add: account_key_def)
  then have ok2: "accounts_ok ?s" by (rule accounts_ok_same) (simp_all add: s1)
  note um = tget_Some [OF u(1)]
  have "ac_users ?s = upd_where (\<lambda>u. u_id u = uid) (\<lambda>u. u\<lparr>u_password_hash := h\<rparr>) (ac_users s)" by (simp add: s1 upd_user_def)
  then have m: "?u \<in> set (rows (ac_users ?s))" using um by (force simp: set_upd_where image_iff)
  have tg: "tget u_id (u_id ?u) (ac_users ?s) = Some ?u" by (rule users_table.get_member [OF accounts_okD(1) [OF ok2] m])
  have id: "u_id ?u = uid" using um by simp
  have named: "user_named (trim_space name) ?s = Some ?u" by (rule user_named_Some [OF ok2 m]) (simp add: name)
  have v: "Verify cr name p ?s = (if cr_match cr h p then Inr ?u else Inl InvalidCredentials)" for p
    using Verify_named [OF named, of cr p] hp(1) u(2) by simp
  have lim: "ac_limiter s1 = ac_limiter s" by (simp add: s1 RevokeSessions_def Invalidate_def upd_user_def)
  note login = Login_checked [OF free [folded lim], of cr rnd _ agent]
  have other: "snd (Login cr now rnd name other ip agent s1) = LoginRefused InvalidCredentials"
    unfolding login by (rule checked_login_refused) (simp add: v hp)
  have r: "rnd \<notin> sn_id ` set (ac_sessions ?s)" using rnd(1) by simp
  have "Verify cr name pass ?s = Inr ?u" by (simp add: v hp)
  from checked_login_accepted [OF this tg r] obtain l2 s2 where
    l2: "checked_login cr now rnd name pass ip agent ?s = (s2, LoggedIn ?u (Some rnd))"
    "s2 = upd_user (u_id ?u) (\<lambda>u. u\<lparr>u_last_login_at := Some now\<rparr>)
       (?s\<lparr>ac_limiter := l2, ac_sessions := ac_sessions ?s @ [new_session now rnd (u_id ?u) ip agent]\<rparr>)" by metis
  have "ac_cache ?s = []" "\<not> ac_disabled ?s" using on by (simp_all add: s1 RevokeSessions_def Invalidate_def upd_user_def)
  from session_authenticates [OF ok2 this m _ r rnd(2) t l2(2), of cr] u(2) id obtain q where
    "snd (Authenticate cr t (cookie_request rnd) s2) = Some q" "pr_kind q = KindUser" "pr_user_id q = uid" by auto
  then have "Login cr now rnd name pass ip agent s1 = (s2, LoggedIn ?u (Some rnd)) \<and> u_id ?u = uid \<and>
      snd (Authenticate cr t (cookie_request rnd) s2) = Some q \<and> pr_kind q = KindUser \<and> pr_user_id q = uid"
    using l2(1) id unfolding login by blast
  with other show ?thesis by blast
qed

section \<open>Examples\<close>

text \<open>Alice, an administrator with a session, and Bob, an ordinary user with one.\<close>

definition ex_crypto :: crypto where
  "ex_crypto = \<lparr>cr_hash = (\<lambda>salt p. Some (take 1 (salt @ ''s'') @ p)), cr_match = (\<lambda>h p. h \<noteq> [] \<and> drop 1 h = p), cr_sha256 = (\<lambda>k. k)\<rparr>"

definition ex_user :: "int64 \<Rightarrow> string \<Rightarrow> int64 \<Rightarrow> user" where
  "ex_user i name gid = \<lparr>u_id = i, u_username = name, u_password_hash = ''spassword'', u_display_name = [], u_group_id = gid, u_reader_id = i,
     u_disabled = False, u_last_login_at = None, u_oidc_subject = [], u_created_by = 0, u_created_at = 0\<rparr>"

definition ex_group :: "int64 \<Rightarrow> string \<Rightarrow> string \<Rightarrow> string list \<Rightarrow> group" where
  "ex_group i name key perms = \<lparr>g_id = i, g_name = name, g_builtin = key, g_permissions = perms, g_include_tags = [], g_exclude_tags = [],
     g_root_folders = [], g_auto_approve = False, g_created_at = 0\<rparr>"

definition ex_accounts :: accounts where
  "ex_accounts = \<lparr>ac_users = \<lparr>rows = [ex_user 1 ''Alice'' 1, ex_user 2 ''Bob'' 2], seq = 2\<rparr>,
     ac_groups = \<lparr>rows = [ex_group 1 ''Admins'' GroupAdmins [AdminPerm], ex_group 2 ''Users'' GroupUsers UsersDefault], seq = 2\<rparr>,
     ac_readers = \<lparr>rows = [], seq = 2\<rparr>, ac_invites = \<lparr>rows = [], seq = 0\<rparr>,
     ac_sessions = [new_session 0 ''a1'' 1 [] [], new_session 0 ''b1'' 2 [] []], ac_workers = \<lparr>rows = [], seq = 0\<rparr>, ac_disabled = False,
     ac_api_key = [], ac_limiter = NewLimiter, ac_cache = [], ac_worker_keys = None, ac_worker_seen = []\<rparr>"

lemmas ex_account_defs = ex_accounts_def ex_user_def ex_group_def new_session_def GroupAdmins_def GroupUsers_def

lemma ex_accounts_ok: "accounts_ok ex_accounts"
  by (simp add: accounts_ok_def twf_def admin_in_def ex_account_defs, code_simp)

lemma ex_accounts_start: "ac_cache ex_accounts = []" "distinct (map sn_id (ac_sessions ex_accounts))"
  by (simp_all add: ex_account_defs)

text \<open>Bob makes a request; a minute less a second later Alice disables him; his next request is nobody's.\<close>

definition ex_disabled :: accounts where
  "ex_disabled = fst (users_update 1 2 [] 2 0 True (fst (Authenticate ex_crypto 5 (cookie_request ''b1'') ex_accounts)))"

lemma disabled_is_out:
  "map_option pr_username (snd (Authenticate ex_crypto 5 (cookie_request ''b1'') ex_accounts)) = Some ''Bob''"
  "snd (Authenticate ex_crypto (5 + 59 * second) (cookie_request ''b1'') ex_disabled) = None"
  by code_simp+

text \<open>
  The cache is filled after the database was read, in another critical section.  When the account
  is disabled in between, the cleared cache is filled with the old principal, and for a minute its
  requests go on as if nothing had happened.
\<close>

lemma disabled_between_read_and_store:
  assumes "load_session 5 ''b1'' ex_accounts = Some q"
  shows "map_option pr_username (snd (Authenticate ex_crypto (5 + 59 * second) (cookie_request ''b1'')
    (store_session 5 ''b1'' q (SetDisabled 2 True ex_accounts)))) = Some ''Bob''"
proof -
  have "q = the (load_session 5 ''b1'' ex_accounts)" using assms by simp
  then show ?thesis by (simp only:) code_simp
qed

text \<open>
  Two administrators who demote each other at the same moment: both checks see two
  administrators, and after both changes there is none.
\<close>

definition ex_two_admins :: accounts where
  "ex_two_admins = ex_accounts\<lparr>ac_users := \<lparr>rows = [ex_user 1 ''Alice'' 1, ex_user 2 ''Bob'' 1], seq = 2\<rparr>\<rparr>"

lemma admins_demote_each_other:
  "keepAnAdmin (ex_user 1 ''Alice'' 1) False ex_two_admins \<and> keepAnAdmin (ex_user 2 ''Bob'' 1) False ex_two_admins \<and>
   Admins ex_two_admins = 2 \<and>
   Admins (upd_user 1 (edited_user [] 2 1 False) (upd_user 2 (edited_user [] 2 2 False) ex_two_admins)) = 0"
  by code_simp

section \<open>Witnesses\<close>

definition ex_history :: aworld where
  "ex_history = (let w = opened 0 ex_accounts in
     (moved (fst (Authenticate ex_crypto (aw_now w) (cookie_request ''b1'') (aw_s w))) w)\<lparr>aw_now := 5 * second\<rparr>)"

lemma ex_history_reached: "(actstep ex_crypto)\<^sup>*\<^sup>* (opened 0 ex_accounts) ex_history"
proof -
  let ?w = "opened 0 ex_accounts"
  let ?v = "moved (fst (Authenticate ex_crypto (aw_now ?w) (cookie_request ''b1'') (aw_s ?w))) ?w"
  have "actstep ex_crypto ?w ?v" by (rule requested) (rule prod.collapse [symmetric])
  moreover have "actstep ex_crypto ?v (?v\<lparr>aw_now := 5 * second\<rparr>)" by (rule time_passes) (simp add: moved_def opened_def go_defs)
  ultimately show ?thesis unfolding ex_history_def Let_def by (rule converse_rtranclp_into_rtranclp [OF _ r_into_rtranclp])
qed


theorem accounts_well_typed_witness:
  "distinct (map (\<lambda>u. to_lower (u_username u)) (rows (ac_users (aw_s ex_history))))"
  using accounts_well_typed [OF ex_accounts_ok ex_accounts_start ex_history_reached] by blast


text \<open>Bob's new password, typed with his name in other case.\<close>

definition ex_changed :: accounts where
  "ex_changed = fst (SetPassword ex_crypto ''t'' 2 ''new password'' [] ex_accounts)"

theorem password_roundtrip_witness:
  "(\<exists>v s2 q. Login ex_crypto 100 ''b2'' '' BOB'' ''new password'' [] [] ex_changed = (s2, LoggedIn v (Some ''b2'')) \<and> u_id v = 2 \<and>
      snd (Authenticate ex_crypto (100 + hour) (cookie_request ''b2'') s2) = Some q \<and> pr_kind q = KindUser \<and> pr_user_id q = 2) \<and>
    snd (Login ex_crypto 100 ''b2'' '' BOB'' ''password'' [] [] ex_changed) = LoginRefused InvalidCredentials"
proof -
  have law: "\<forall>salt p h q. cr_hash ex_crypto salt p = Some h \<longrightarrow> plain q \<longrightarrow> h \<noteq> [] \<and> (cr_match ex_crypto h q \<longleftrightarrow> p = q)"
  proof (intro allI)
    fix salt p h q
    show "cr_hash ex_crypto salt p = Some h \<longrightarrow> plain q \<longrightarrow> h \<noteq> [] \<and> (cr_match ex_crypto h q \<longleftrightarrow> p = q)"
      by (cases salt) (auto simp: ex_crypto_def)
  qed
  have u: "tget u_id 2 (ac_users ex_accounts) = Some (ex_user 2 ''Bob'' 2)" "\<not> u_disabled (ex_user 2 ''Bob'' 2)" by code_simp+
  have "snd (SetPassword ex_crypto ''t'' 2 ''new password'' [] ex_accounts) = None" by code_simp
  then have set_pass: "SetPassword ex_crypto ''t'' 2 ''new password'' [] ex_accounts = (ex_changed, None)" unfolding ex_changed_def by (metis prod.collapse)
  have d: "\<not> ac_disabled ex_accounts" by (simp add: ex_account_defs)
  have name: "to_lower (trim_space '' BOB'') = to_lower (u_username (ex_user 2 ''Bob'' 2))" by code_simp
  have plain: "plain ''new password''" "plain ''password''" "''password'' \<noteq> ''new password''" by code_simp+
  have free: "Locked_keys 100 (LoginKeys [] '' BOB'') (ac_limiter ex_accounts) = (NewLimiter, None)" by (simp add: ex_accounts_def LoginKeys_def NewLimiter_def)
  have rnd: "''b2'' \<notin> sn_id ` set (ac_sessions ex_changed)" "''b2'' \<noteq> []" by code_simp+
  have t: "100 + hour \<le> 100 + sessionTTL" by (simp add: go_defs)
  show ?thesis by (rule password_roundtrip [OF law ex_accounts_ok u d set_pass name plain free rnd t])
qed

end
