(* ===== verification/Invites.thy ===== *)
theory Invites
  imports Accounts
begin

text \<open>
  Invites under concurrent registrations (\<open>internal/auth/invites.go\<close>).  \<open>Redeem\<close> is three
  statements: the use is counted if one is left, the account is created, and the use is given back
  if that fails.  Any number of registrations run these with each other's statements in between,
  while accounts are made in other ways and groups are deleted with their invites.
\<close>

section \<open>Interleaved registrations\<close>

text \<open>
  The invites whose registrations have counted a use and not created an account yet, those whose
  account was refused and whose use is not given back yet, and one entry per account created.
\<close>

record registrations =
  rg_s :: accounts
  rg_counted :: "int64 list"
  rg_refused :: "int64 list"
  rg_made :: "int64 list"

inductive regstep :: "crypto \<Rightarrow> registrations \<Rightarrow> registrations \<Rightarrow> bool" for cr :: crypto where
  counted: "count_use i (rg_s w) = (s', True) \<Longrightarrow> regstep cr w (w\<lparr>rg_s := s', rg_counted := i # rg_counted w\<rparr>)"
| none_left: "count_use i (rg_s w) = (s', False) \<Longrightarrow> regstep cr w (w\<lparr>rg_s := s'\<rparr>)"
| made: "i \<in> set (rg_counted w) \<Longrightarrow> CreateUser cr now salt (invited v inp) (rg_s w) = (s', Inr u) \<Longrightarrow>
    regstep cr w (w\<lparr>rg_s := s', rg_counted := remove1 i (rg_counted w), rg_made := i # rg_made w\<rparr>)"
| refused: "i \<in> set (rg_counted w) \<Longrightarrow> CreateUser cr now salt (invited v inp) (rg_s w) = (s', Inl e) \<Longrightarrow>
    regstep cr w (w\<lparr>rg_s := s', rg_counted := remove1 i (rg_counted w), rg_refused := i # rg_refused w\<rparr>)"
| gave_back: "i \<in> set (rg_refused w) \<Longrightarrow> regstep cr w (w\<lparr>rg_s := give_use_back i (rg_s w), rg_refused := remove1 i (rg_refused w)\<rparr>)"
| invite_created: "CreateInvite cr now token gid memo n expires by_user (rg_s w) = (s', v) \<Longrightarrow> regstep cr w (w\<lparr>rg_s := s'\<rparr>)"
| group_deleted: "groups_delete now i (rg_s w) = (s', e) \<Longrightarrow> regstep cr w (w\<lparr>rg_s := s'\<rparr>)"
| other_account: "CreateUser cr now salt inp (rg_s w) = (s', r) \<Longrightarrow> regstep cr w (w\<lparr>rg_s := s'\<rparr>)"
| elsewhere: "ac_invites s' = ac_invites (rg_s w) \<Longrightarrow> regstep cr w (w\<lparr>rg_s := s'\<rparr>)"

definition reg_start :: "accounts \<Rightarrow> registrations" where
  "reg_start s = \<lparr>rg_s = s, rg_counted = [], rg_refused = [], rg_made = []\<rparr>"

text \<open>How often an invite had been used when the history starts.\<close>

definition used_before :: "accounts \<Rightarrow> int64 \<Rightarrow> int" where
  "used_before s i = (case tget inv_id i (ac_invites s) of None \<Rightarrow> 0 | Some v \<Rightarrow> inv_uses v)"

section \<open>What operations leave of the invites\<close>

lemma ensure_group_invites: "ensure_group now key name perms s = (s', r) \<Longrightarrow> ac_invites s' = ac_invites s"
  by (erule ensure_group_cases) (simp_all add: put_group_def)

lemma EnsureGroups_invites:
  assumes "EnsureGroups now s = (s', r)"
  shows "ac_invites s' = ac_invites s"
proof -
  obtain s1 r1 where 1: "ensure_group now GroupAdmins ''Admins'' [AdminPerm] s = (s1, r1)" by (metis surj_pair)
  obtain s2 r2 where 2: "ensure_group now GroupUsers ''Users'' UsersDefault s1 = (s2, r2)" by (metis surj_pair)
  have "s' = s1 \<or> s' = s2" using assms by (auto simp: EnsureGroups_def 1 2 split: option.splits)
  then show ?thesis using ensure_group_invites [OF 1] ensure_group_invites [OF 2] by auto
qed

lemma CreateUser_invites:
  assumes "CreateUser cr now salt inp s = (s', r)"
  shows "ac_invites s' = ac_invites s"
proof -
  obtain t q where t: "EnsureGroups now s = (t, q)" by (metis surj_pair)
  have iu: "ac_invites (fst (insert_user now u b t)) = ac_invites t" for u b
    using insert_user_rows(8) [of now u b t] by (cases "insert_user now u b t") simp
  have "s' = s \<or> s' = t \<or> (\<exists>u b. s' = fst (insert_user now u b t))"
    using assms unfolding CreateUser_def Let_def t prod.case
    by (auto split: if_splits option.splits prod.splits) (metis fst_conv)+
  then show ?thesis using EnsureGroups_invites [OF t] iu by auto
qed

lemma CreateInvite_invites:
  assumes "CreateInvite cr now token gid memo n expires by_user s = (s', r)"
  shows "ac_invites s' = ac_invites s \<or>
    (\<exists>v. ac_invites s' = tinsert (\<lambda>i v. v\<lparr>inv_id := i\<rparr>) v (ac_invites s) \<and> inv_uses v = 0 \<and> 0 < inv_max_uses v)"
  using assms by (auto simp: CreateInvite_def Let_def split: if_splits)

lemma groups_delete_invites:
  assumes "groups_delete now i s = (s', r)"
  shows "ac_invites s' = ac_invites s \<or> ac_invites s' = del_where (\<lambda>v. inv_group_id v = i) (ac_invites s)"
proof -
  obtain t q where t: "EnsureGroups now s = (t, q)" by (metis surj_pair)
  have "s' = s \<or> s' = t \<or> ac_invites s' = del_where (\<lambda>v. inv_group_id v = i) (ac_invites t)"
    using assms unfolding groups_delete_def t prod.case
    by (auto simp: Invalidate_def split: if_splits option.splits prod.splits)
  then show ?thesis using EnsureGroups_invites [OF t] by auto
qed

section \<open>Uses are counted\<close>

definition uses_held :: "registrations \<Rightarrow> int64 \<Rightarrow> nat" where
  "uses_held w i = count_list (rg_counted w) i + count_list (rg_refused w) i + count_list (rg_made w) i"

text \<open>
  The column of uses is what was used before plus what is counted, refused or made; it keeps to
  the limit of the invite, and ids of invites are not given twice.
\<close>

definition uses_ok :: "(int64 \<Rightarrow> int) \<Rightarrow> registrations \<Rightarrow> bool" where
  "uses_ok base w \<longleftrightarrow> twf inv_id (ac_invites (rg_s w)) \<and>
     (\<forall>v \<in> set (rows (ac_invites (rg_s w))). inv_uses v = base (inv_id v) + int (uses_held w (inv_id v)) \<and> inv_uses v \<le> inv_max_uses v) \<and>
     (\<forall>i. seq (ac_invites (rg_s w)) < i \<longrightarrow> base i = 0 \<and> uses_held w i = 0)"

lemma uses_okD:
  assumes "uses_ok base w"
  shows "twf inv_id (ac_invites (rg_s w))"
    "v \<in> set (rows (ac_invites (rg_s w))) \<Longrightarrow> inv_uses v = base (inv_id v) + int (uses_held w (inv_id v))"
    "v \<in> set (rows (ac_invites (rg_s w))) \<Longrightarrow> inv_uses v \<le> inv_max_uses v"
    "seq (ac_invites (rg_s w)) < i \<Longrightarrow> base i = 0" "seq (ac_invites (rg_s w)) < i \<Longrightarrow> uses_held w i = 0"
  using assms by (auto simp: uses_ok_def)

lemma uses_okI:
  assumes "twf inv_id (ac_invites (rg_s w))"
    "\<And>v. v \<in> set (rows (ac_invites (rg_s w))) \<Longrightarrow> inv_uses v = base (inv_id v) + int (uses_held w (inv_id v)) \<and> inv_uses v \<le> inv_max_uses v"
    "\<And>i. seq (ac_invites (rg_s w)) < i \<Longrightarrow> base i = 0 \<and> uses_held w i = 0"
  shows "uses_ok base w"
  unfolding uses_ok_def using assms by blast

lemma uses_ok_same:
  assumes "uses_ok base w" "ac_invites (rg_s w') = ac_invites (rg_s w)" "\<And>i. uses_held w' i = uses_held w i"
  shows "uses_ok base w'"
  using assms(1) unfolding uses_ok_def assms(2,3) .

lemma count_remove1: "i \<in> set xs \<Longrightarrow> count_list (remove1 i xs) j + (if j = i then 1 else 0) = count_list xs j"
  by (induction xs) auto

lemma uses_moved:
  "i \<in> set (rg_counted w) \<Longrightarrow> uses_held (w\<lparr>rg_s := s', rg_counted := remove1 i (rg_counted w), rg_made := i # rg_made w\<rparr>) j = uses_held w j"
  "i \<in> set (rg_counted w) \<Longrightarrow> uses_held (w\<lparr>rg_s := s', rg_counted := remove1 i (rg_counted w), rg_refused := i # rg_refused w\<rparr>) j = uses_held w j"
  using count_remove1 [of i "rg_counted w" j] by (auto simp: uses_held_def split: if_splits)

lemma count_use_invites:
  assumes "count_use i s = (s', b)"
  shows "ac_invites s' = upd_where (\<lambda>v. inv_id v = i \<and> inv_uses v < inv_max_uses v) (\<lambda>v. v\<lparr>inv_uses := inv_uses v + 1\<rparr>) (ac_invites s)"
    "b \<longleftrightarrow> (\<exists>v \<in> set (rows (ac_invites s)). inv_id v = i \<and> inv_uses v < inv_max_uses v)"
  using assms by (auto simp: count_use_def Let_def n_where_def filter_empty_conv)

lemma uses_ok_counted:
  assumes ok: "uses_ok base w" and c: "count_use i (rg_s w) = (s', True)"
  shows "uses_ok base (w\<lparr>rg_s := s', rg_counted := i # rg_counted w\<rparr>)" (is "uses_ok base ?w")
proof (rule uses_okI)
  note d = uses_okD [OF ok] and e = count_use_invites [OF c]
  have inv: "ac_invites (rg_s ?w) = upd_where (\<lambda>v. inv_id v = i \<and> inv_uses v < inv_max_uses v) (\<lambda>v. v\<lparr>inv_uses := inv_uses v + 1\<rparr>) (ac_invites (rg_s w))"
    using e(1) by simp
  have held: "uses_held ?w j = uses_held w j + (if j = i then 1 else 0)" for j by (simp add: uses_held_def)
  obtain x where x: "x \<in> set (rows (ac_invites (rg_s w)))" "inv_id x = i" "inv_uses x < inv_max_uses x" using e(2) by blast
  show "twf inv_id (ac_invites (rg_s ?w))" unfolding inv by (rule invites_table.wf_update [OF _ d(1)]) simp
  show "inv_uses v = base (inv_id v) + int (uses_held ?w (inv_id v)) \<and> inv_uses v \<le> inv_max_uses v"
    if v: "v \<in> set (rows (ac_invites (rg_s ?w)))" for v
  proof -
    obtain u where u: "u \<in> set (rows (ac_invites (rg_s w)))"
        "v = (if inv_id u = i \<and> inv_uses u < inv_max_uses u then u\<lparr>inv_uses := inv_uses u + 1\<rparr> else u)"
      using v unfolding inv set_upd_where by blast
    have "inv_id u = i \<Longrightarrow> u = x" using invites_table.unique [OF d(1) u(1) x(1)] x(2) by simp
    then show ?thesis using d(2,3) [OF u(1)] u(2) x(2,3) unfolding held by (cases "inv_id u = i") auto
  qed
  have "i \<le> seq (ac_invites (rg_s w))" using d(1) x(1,2) by (auto simp: twf_def)
  then show "seq (ac_invites (rg_s ?w)) < j \<Longrightarrow> base j = 0 \<and> uses_held ?w j = 0" for j
    unfolding inv held using d(4,5) by simp
qed

lemma uses_ok_none_left:
  assumes "uses_ok base w" "count_use i (rg_s w) = (s', False)"
  shows "uses_ok base (w\<lparr>rg_s := s'\<rparr>)"
proof (rule uses_ok_same [OF assms(1)])
  have n: "\<forall>v \<in> set (rows (ac_invites (rg_s w))). \<not> (inv_id v = i \<and> inv_uses v < inv_max_uses v)" using count_use_invites(2) [OF assms(2)] by blast
  have "upd_where P f t = t" if "\<forall>v \<in> set (rows t). \<not> P v" for P f and t :: "invite table"
    using that by (cases t) (auto simp: upd_where_def intro: map_idI)
  from this [OF n] show "ac_invites (rg_s (w\<lparr>rg_s := s'\<rparr>)) = ac_invites (rg_s w)" using count_use_invites(1) [OF assms(2)] by simp
qed (simp add: uses_held_def)

lemma uses_ok_gave_back:
  assumes ok: "uses_ok base w" and i: "i \<in> set (rg_refused w)"
  shows "uses_ok base (w\<lparr>rg_s := give_use_back i (rg_s w), rg_refused := remove1 i (rg_refused w)\<rparr>)" (is "uses_ok base ?w")
proof (rule uses_okI)
  note d = uses_okD [OF ok]
  have inv: "ac_invites (rg_s ?w) = upd_where (\<lambda>v. inv_id v = i) (\<lambda>v. v\<lparr>inv_uses := inv_uses v - 1\<rparr>) (ac_invites (rg_s w))"
    by (simp add: give_use_back_def)
  have held: "uses_held ?w j + (if j = i then 1 else 0) = uses_held w j" for j
    using count_remove1 [OF i, of j] by (auto simp: uses_held_def split: if_splits)
  show "twf inv_id (ac_invites (rg_s ?w))" unfolding inv by (rule invites_table.wf_update [OF _ d(1)]) simp
  show "inv_uses v = base (inv_id v) + int (uses_held ?w (inv_id v)) \<and> inv_uses v \<le> inv_max_uses v"
    if v: "v \<in> set (rows (ac_invites (rg_s ?w)))" for v
  proof -
    obtain u where u: "u \<in> set (rows (ac_invites (rg_s w)))" "v = (if inv_id u = i then u\<lparr>inv_uses := inv_uses u - 1\<rparr> else u)"
      using v unfolding inv set_upd_where by blast
    then show ?thesis using d(2,3) [OF u(1)] held [of "inv_id u"] by (cases "inv_id u = i") auto
  qed
  show "seq (ac_invites (rg_s ?w)) < j \<Longrightarrow> base j = 0 \<and> uses_held ?w j = 0" for j
    unfolding inv using d(4,5) [of j] held [of j] by (auto split: if_splits)
qed

lemma uses_ok_step: "regstep cr x y \<Longrightarrow> uses_ok base x \<Longrightarrow> uses_ok base y"
proof (induction rule: regstep.induct)
  case (counted i w s')
  then show ?case using uses_ok_counted by blast
next
  case (none_left i w s')
  then show ?case using uses_ok_none_left by blast
next
  case (made i w now salt v inp s' u)
  show ?case by (rule uses_ok_same [OF made(3)]) (simp_all add: CreateUser_invites [OF made(2)] uses_moved [OF made(1)])
next
  case (refused i w now salt v inp s' e)
  show ?case by (rule uses_ok_same [OF refused(3)]) (simp_all add: CreateUser_invites [OF refused(2)] uses_moved [OF refused(1)])
next
  case (gave_back i w)
  then show ?case using uses_ok_gave_back by blast
next
  case (invite_created now token gid memo n expires by_user w s' r)
  note d = uses_okD [OF invite_created(2)]
  have held: "uses_held (w\<lparr>rg_s := s'\<rparr>) j = uses_held w j" for j by (simp add: uses_held_def)
  show ?case
  proof (cases "ac_invites s' = ac_invites (rg_s w)")
    case True
    then show ?thesis by (intro uses_ok_same [OF invite_created(2)]) (simp_all add: held)
  next
    case False
    then obtain v where v: "ac_invites s' = tinsert (\<lambda>i v. v\<lparr>inv_id := i\<rparr>) v (ac_invites (rg_s w))" "inv_uses v = 0" "0 < inv_max_uses v"
      using CreateInvite_invites [OF invite_created(1)] by blast
    show ?thesis
    proof (rule uses_okI)
      show "twf inv_id (ac_invites (rg_s (w\<lparr>rg_s := s'\<rparr>)))" using invites_table.wf_insert [OF d(1)] by (simp add: v(1))
      show "u \<in> set (rows (ac_invites (rg_s (w\<lparr>rg_s := s'\<rparr>)))) \<Longrightarrow>
          inv_uses u = base (inv_id u) + int (uses_held (w\<lparr>rg_s := s'\<rparr>) (inv_id u)) \<and> inv_uses u \<le> inv_max_uses u" for u
        using d(2,3) [of u] d(4,5) [of "seq (ac_invites (rg_s w)) + 1"] v(2,3) unfolding held by (auto simp: v(1) set_tinsert)
      show "seq (ac_invites (rg_s (w\<lparr>rg_s := s'\<rparr>))) < j \<Longrightarrow> base j = 0 \<and> uses_held (w\<lparr>rg_s := s'\<rparr>) j = 0" for j
        unfolding held using d(4,5) [of j] by (simp add: v(1) tinsert_def)
    qed
  qed
next
  case (group_deleted now i w s' e)
  note d = uses_okD [OF group_deleted(2)]
  have held: "uses_held (w\<lparr>rg_s := s'\<rparr>) j = uses_held w j" for j by (simp add: uses_held_def)
  show ?case
  proof (cases "ac_invites s' = ac_invites (rg_s w)")
    case True
    then show ?thesis by (intro uses_ok_same [OF group_deleted(2)]) (simp_all add: held)
  next
    case False
    then have v: "ac_invites s' = del_where (\<lambda>v. inv_group_id v = i) (ac_invites (rg_s w))"
      using groups_delete_invites [OF group_deleted(1)] by blast
    have "twf inv_id (ac_invites s')" unfolding v by (rule invites_table.wf_delete [OF d(1)])
    then show ?thesis using d(2-5) unfolding uses_ok_def held by (auto simp: v set_del_where)
  qed
next
  case (other_account now salt inp w s' r)
  show ?case by (rule uses_ok_same [OF other_account(2)]) (simp_all add: CreateUser_invites [OF other_account(1)] uses_held_def)
next
  case (elsewhere s' w)
  show ?case by (rule uses_ok_same [OF elsewhere(2)]) (simp_all add: elsewhere(1) uses_held_def)
qed

interpretation registering: step_invariant "regstep cr" "uses_ok base" for cr base
  by unfold_locales (rule uses_ok_step)

text \<open>\<open>Redeem\<close> runs these statements one after the other.\<close>

lemma Redeem_steps:
  assumes "Redeem cr now salt token inp s = (s', r)"
  shows "\<exists>w. (regstep cr)\<^sup>*\<^sup>* (reg_start s) w \<and> rg_s w = s' \<and> rg_counted w = [] \<and> rg_refused w = [] \<and>
    length (rg_made w) = (case r of Inl _ \<Rightarrow> 0 | Inr _ \<Rightarrow> 1)"
proof (cases "Invite_of cr now token s")
  case None
  then show ?thesis using assms by (intro exI [of _ "reg_start s"]) (auto simp: Redeem_def reg_start_def)
next
  case (Some v)
  let ?w = "reg_start s"
  obtain t b where b: "count_use (inv_id v) s = (t, b)" by (metis surj_pair)
  show ?thesis
  proof (cases b)
    case False
    then have "regstep cr ?w (?w\<lparr>rg_s := t\<rparr>)" using b by (intro none_left) (simp add: reg_start_def)
    then show ?thesis using assms Some b False
      by (intro exI [of _ "?w\<lparr>rg_s := t\<rparr>"]) (auto simp: Redeem_def reg_start_def)
  next
    case True
    let ?v = "?w\<lparr>rg_s := t, rg_counted := [inv_id v]\<rparr>"
    have 1: "regstep cr ?w ?v" using counted [of "inv_id v" ?w t cr] b True by (simp add: reg_start_def)
    obtain c q where c: "CreateUser cr now salt (invited v inp) t = (c, q)" by (metis surj_pair)
    show ?thesis
    proof (cases q)
      case (Inr u)
      have "regstep cr ?v (?v\<lparr>rg_s := c, rg_counted := [], rg_made := [inv_id v]\<rparr>)"
        using made [of "inv_id v" ?v cr now salt v inp c u] c Inr by (simp add: reg_start_def)
      with 1 have "(regstep cr)\<^sup>*\<^sup>* ?w (?v\<lparr>rg_s := c, rg_counted := [], rg_made := [inv_id v]\<rparr>)" by (meson converse_rtranclp_into_rtranclp r_into_rtranclp)
      then show ?thesis using assms Some b True c Inr by (intro exI conjI) (auto simp: Redeem_def reg_start_def)
    next
      case (Inl e)
      let ?r = "?v\<lparr>rg_s := c, rg_counted := [], rg_refused := [inv_id v]\<rparr>"
      let ?g = "?r\<lparr>rg_s := give_use_back (inv_id v) c, rg_refused := []\<rparr>"
      have "regstep cr ?v ?r" using refused [of "inv_id v" ?v cr now salt v inp c e] c Inl by (simp add: reg_start_def)
      moreover have "regstep cr ?r ?g" using gave_back [of "inv_id v" ?r cr] by (simp add: reg_start_def)
      ultimately have "(regstep cr)\<^sup>*\<^sup>* ?w ?g" using 1 by (meson converse_rtranclp_into_rtranclp r_into_rtranclp)
      then show ?thesis using assms Some b True c Inl by (intro exI conjI) (auto simp: Redeem_def reg_start_def)
    qed
  qed
qed

text \<open>
  C38: However the statements of concurrent registrations interleave with each other and with the
  rest, an invite never makes more accounts than its limit, and once no registration is under way
  its counter is what it was plus the accounts it made: a refused registration costs nothing.
\<close>

theorem invites_limited:
  assumes "twf inv_id (ac_invites s)" and "\<forall>v \<in> set (rows (ac_invites s)). inv_uses v \<le> inv_max_uses v"
    and "(regstep cr)\<^sup>*\<^sup>* (reg_start s) w" and "v \<in> set (rows (ac_invites (rg_s w)))"
  shows "used_before s (inv_id v) + int (count_list (rg_made w) (inv_id v)) \<le> inv_max_uses v \<and>
    (rg_counted w = [] \<longrightarrow> rg_refused w = [] \<longrightarrow> inv_uses v = used_before s (inv_id v) + int (count_list (rg_made w) (inv_id v)))"
proof -
  have "uses_ok (used_before s) (reg_start s)"
  proof (rule uses_okI)
    have h: "uses_held (reg_start s) i = 0" for i by (simp add: uses_held_def reg_start_def)
    have r: "rg_s (reg_start s) = s" by (simp add: reg_start_def)
    show "twf inv_id (ac_invites (rg_s (reg_start s)))" unfolding r by (rule assms(1))
    show "inv_uses x = used_before s (inv_id x) + int (uses_held (reg_start s) (inv_id x)) \<and> inv_uses x \<le> inv_max_uses x"
      if "x \<in> set (rows (ac_invites (rg_s (reg_start s))))" for x
      using that assms(2) invites_table.get_member [OF assms(1), of x] by (simp add: r h used_before_def)
    show "used_before s i = 0 \<and> uses_held (reg_start s) i = 0" if "seq (ac_invites (rg_s (reg_start s))) < i" for i
    proof -
      have "tget inv_id i (ac_invites s) = None"
        using that assms(1) tget_Some [of inv_id i "ac_invites s"] by (cases "tget inv_id i (ac_invites s)") (auto simp: r twf_def)
      then show ?thesis by (simp add: h used_before_def)
    qed
  qed
  then have "uses_ok (used_before s) w" by (rule registering.reachable [OF assms(3)])
  from uses_okD(2,3) [OF this assms(4)] show ?thesis by (simp add: uses_held_def)
qed

text \<open>An invite for one account, redeemed twice.\<close>

definition ex_invited :: accounts where
  "ex_invited = \<lparr>ac_users = \<lparr>rows = [], seq = 0\<rparr>, ac_groups = \<lparr>rows = [], seq = 0\<rparr>, ac_readers = \<lparr>rows = [], seq = 0\<rparr>,
     ac_invites = \<lparr>rows = [\<lparr>inv_id = 1, inv_token_hash = ''t'', inv_group_id = 0, inv_note = [], inv_max_uses = 1, inv_uses = 0,
       inv_expires_at = None, inv_created_by = 0, inv_created_at = 0\<rparr>], seq = 1\<rparr>,
     ac_sessions = [], ac_workers = \<lparr>rows = [], seq = 0\<rparr>, ac_disabled = False, ac_api_key = [], ac_limiter = NewLimiter, ac_cache = [],
     ac_worker_keys = None, ac_worker_seen = []\<rparr>"

definition ex_plain_crypto :: crypto where
  "ex_plain_crypto = \<lparr>cr_hash = (\<lambda>salt p. Some (CHR ''h'' # p)), cr_match = (\<lambda>h p. h = CHR ''h'' # p), cr_sha256 = (\<lambda>k. k)\<rparr>"

definition ex_newcomer :: "string \<Rightarrow> new_user" where
  "ex_newcomer name = \<lparr>nu_username = name, nu_password = ''password'', nu_display_name = [], nu_group_id = 0, nu_created_by = 0, nu_oidc_subject = []\<rparr>"

lemma second_registration_refused:
  "map u_username (rows (ac_users (fst (Redeem ex_plain_crypto 5 [] ''t'' (ex_newcomer ''Bob'') ex_invited)))) = [''Bob'']"
  "snd (Redeem ex_plain_crypto 6 [] ''t'' (ex_newcomer ''Eve'') (fst (Redeem ex_plain_crypto 5 [] ''t'' (ex_newcomer ''Bob'') ex_invited)))
    = Inl InviteInvalid"
  by code_simp+

theorem invites_limited_witness:
  "\<exists>w. (regstep ex_plain_crypto)\<^sup>*\<^sup>* (reg_start ex_invited) w \<and> length (rg_made w) = 1 \<and>
    (\<forall>v \<in> set (rows (ac_invites (rg_s w))). count_list (rg_made w) (inv_id v) \<le> 1)"
proof -
  have w: "twf inv_id (ac_invites ex_invited)" "\<forall>v \<in> set (rows (ac_invites ex_invited)). inv_uses v \<le> inv_max_uses v"
    by (simp_all add: ex_invited_def twf_def)
  obtain s' r where r: "Redeem ex_plain_crypto 5 [] ''t'' (ex_newcomer ''Bob'') ex_invited = (s', r)" by (metis surj_pair)
  have "case_sum (\<lambda>_. False) (\<lambda>_. True) (snd (Redeem ex_plain_crypto 5 [] ''t'' (ex_newcomer ''Bob'') ex_invited))" by code_simp
  then have ok: "case_sum (\<lambda>_. False) (\<lambda>_. True) r" by (simp add: r)
  have "map inv_max_uses (rows (ac_invites (fst (Redeem ex_plain_crypto 5 [] ''t'' (ex_newcomer ''Bob'') ex_invited)))) = [1]"
    "used_before ex_invited 1 = 0" "map inv_id (rows (ac_invites (fst (Redeem ex_plain_crypto 5 [] ''t'' (ex_newcomer ''Bob'') ex_invited)))) = [1]"
    by code_simp+
  then have m: "v \<in> set (rows (ac_invites s')) \<Longrightarrow> inv_max_uses v = 1 \<and> inv_id v = 1" and b: "used_before ex_invited 1 = 0" for v by (auto simp: r)
  obtain x where x: "(regstep ex_plain_crypto)\<^sup>*\<^sup>* (reg_start ex_invited) x" "rg_s x = s'" "length (rg_made x) = 1"
    using Redeem_steps [OF r] ok by (auto split: sum.splits)
  have "count_list (rg_made x) (inv_id v) \<le> 1" if "v \<in> set (rows (ac_invites (rg_s x)))" for v
    using invites_limited [OF w x(1) that] m [of v] that x(2) b by auto
  with x show ?thesis by blast
qed

section \<open>The handlers\<close>

definition invites_create :: "crypto \<Rightarrow> time \<Rightarrow> string \<Rightarrow> int64 \<Rightarrow> string \<Rightarrow> int \<Rightarrow> int \<Rightarrow> int64 \<Rightarrow> accounts \<Rightarrow> accounts \<times> invite option" where
  "invites_create cr now token gid note maxUses expireDays by_user s =
     (case (if gid = 0 then (case EnsureGroups now s of (s, r) \<Rightarrow> (s, map_option snd r)) else (s, Some gid)) of
        (s, None) \<Rightarrow> (s, None)
      | (s, Some gid) \<Rightarrow>
          CreateInvite cr now token gid (trim_space note) maxUses (if expireDays > 0 then Some (now + expireDays * 24 * hour) else None) by_user s)"

definition invites_delete :: "int64 \<Rightarrow> accounts \<Rightarrow> accounts" where
  "invites_delete i s = s\<lparr>ac_invites := del_where (\<lambda>v. inv_id v = i) (ac_invites s)\<rparr>"

text \<open>Looking at an invite and redeeming it count against the address like failed logins.\<close>

datatype invite_answer = TooManyAttempts | UseSSO | BadInvite | BadAccount user_error | InviteFor invite | SignedIn user "string option"

definition invite_get :: "crypto \<Rightarrow> time \<Rightarrow> string \<Rightarrow> string \<Rightarrow> accounts \<Rightarrow> accounts \<times> invite_answer" where
  "invite_get cr now ip token s =
     (case Locked_keys now [ip_key ip] (ac_limiter s) of
        (l, Some until) \<Rightarrow> (s\<lparr>ac_limiter := l\<rparr>, TooManyAttempts)
      | (l, None) \<Rightarrow>
          (case Invite_of cr now token s of
             None \<Rightarrow> (s\<lparr>ac_limiter := fst (Fail now [ip_key ip] l)\<rparr>, BadInvite)
           | Some v \<Rightarrow> (s\<lparr>ac_limiter := l\<rparr>, InviteFor v)))"

definition invite_redeem :: "crypto \<Rightarrow> time \<Rightarrow> string \<Rightarrow> string \<Rightarrow> bool \<Rightarrow> string \<Rightarrow> string \<Rightarrow> string \<Rightarrow> new_user \<Rightarrow> accounts \<Rightarrow> accounts \<times> invite_answer" where
  "invite_redeem cr now salt rnd sso_only ip agent token inp s =
     (case Locked_keys now [ip_key ip] (ac_limiter s) of
        (l, Some until) \<Rightarrow> (s\<lparr>ac_limiter := l\<rparr>, TooManyAttempts)
      | (l, None) \<Rightarrow>
          let s = s\<lparr>ac_limiter := l\<rparr> in
          if sso_only then (s, UseSSO)
          else
            (case Redeem cr now salt token inp s of
               (s, Inl e) \<Rightarrow>
                 if e = InviteInvalid then (s\<lparr>ac_limiter := fst (Fail now [ip_key ip] (ac_limiter s))\<rparr>, BadInvite) else (s, BadAccount e)
             | (s, Inr u) \<Rightarrow> (let (s, c) = StartSession now rnd (u_id u) ip agent s in (s, SignedIn u c))))"

lemma redeemed_in_group:
  assumes "Redeem cr now salt token inp s = (s', Inr u)" and ok: "accounts_ok s"
  shows "\<exists>v. Invite_of cr now token s = Some v \<and> (inv_group_id v \<noteq> 0 \<longrightarrow> u_group_id u = inv_group_id v)"
  using assms(1)
proof (cases rule: Redeem_cases)
  case (tried v t)
  have "accounts_ok (fst (count_use (inv_id v) s))" by (rule accounts_ok_same [OF ok]) simp_all
  from tried(2) this show ?thesis
  proof (cases rule: CreateUser_cases)
    case (made x y z b)
    then have "u_group_id u = u_group_id y" "inv_group_id v \<noteq> 0 \<Longrightarrow> u_group_id y = inv_group_id v"
      using insert_user_rows(5) [OF made(3)] made(4,9) by (simp_all add: invited_def)
    then show ?thesis using tried(1) by auto
  qed simp_all
qed simp

end
