(* ===== verification/AccountSetup.thy ===== *)
theory AccountSetup
  imports Accounts
begin

text \<open>
  Bringing accounts from before groups up to date when the server starts (\<open>Upgrade\<close> of
  \<open>internal/auth/auth.go\<close>) and making worker keys (\<open>internal/auth/workers.go\<close>).  A \<open>NULL\<close> group or
  reader of a user is 0.
\<close>

section \<open>Upgrading accounts\<close>

text \<open>
  \<open>None\<close> is the error of a reader that does not exist.  A reader that a backup import made is
  renamed after the user unless another reader has the name.
\<close>

definition renameImportedReader :: "int64 \<Rightarrow> user \<Rightarrow> accounts \<Rightarrow> accounts option" where
  "renameImportedReader readerID u s =
     (case tget rd_id readerID (ac_readers s) of
        None \<Rightarrow> None
      | Some r \<Rightarrow>
          if rd_name r \<noteq> ''Mihon backup'' \<and> rd_name r \<noteq> ''Aidoku backup'' then Some s
          else
            let name = trim_space (u_display_name u);
                name = (if name = [] then u_username u else name)
            in if name = [] then Some s
               else if list_ex (\<lambda>x. rd_name x = name \<and> rd_id x \<noteq> readerID) (rows (ac_readers s)) then Some s
               else Some (s\<lparr>ac_readers := upd_where (\<lambda>x. rd_id x = readerID) (\<lambda>x. x\<lparr>rd_name := name\<rparr>) (ac_readers s)\<rparr>))"

text \<open>The transaction for one user without a reader; the preferred reader goes to the first of them.\<close>

definition give_reader :: "time \<Rightarrow> int64 \<Rightarrow> int64 \<Rightarrow> user \<Rightarrow> accounts \<Rightarrow> accounts option" where
  "give_reader now admins preferred u s =
     (let adopt = (preferred > 0 \<and> \<not> list_ex (\<lambda>v. u_reader_id v = preferred) (rows (ac_users s)));
          got = (if adopt then map_option (\<lambda>s. (s, preferred)) (renameImportedReader preferred u s)
                 else Some (newReader now u (u_group_id u = admins) s))
      in case got of
           None \<Rightarrow> None
         | Some (s, rid) \<Rightarrow> Some (upd_user (u_id u) (\<lambda>v. v\<lparr>u_reader_id := rid\<rparr>) s))"

fun give_readers :: "time \<Rightarrow> int64 \<Rightarrow> int64 \<Rightarrow> user list \<Rightarrow> accounts \<Rightarrow> accounts \<times> bool" where
  "give_readers now admins preferred [] s = (s, True)"
| "give_readers now admins preferred (u # us) s =
     (case give_reader now admins preferred u s of
        None \<Rightarrow> (s, False)
      | Some s \<Rightarrow> give_readers now admins preferred us s)"

definition without_reader :: "accounts \<Rightarrow> user list" where
  "without_reader s = stable_sort (\<lambda>a b. u_id a < u_id b) (filter (\<lambda>u. u_reader_id u = 0) (rows (ac_users s)))"

definition put_in_admins :: "int64 \<Rightarrow> accounts \<Rightarrow> accounts" where
  "put_in_admins admins s = s\<lparr>ac_users := upd_where (\<lambda>u. u_group_id u = 0) (\<lambda>u. u\<lparr>u_group_id := admins\<rparr>) (ac_users s)\<rparr>"

text \<open>\<open>keys\<close> are the owners of the device keys; those of nobody go to the first administrator.\<close>

definition give_keys :: "int64 \<Rightarrow> accounts \<Rightarrow> int64 list \<Rightarrow> int64 list" where
  "give_keys admins s keys =
     (case stable_sort (\<lambda>a b. u_id a < u_id b) (filter (\<lambda>u. u_group_id u = admins) (rows (ac_users s))) of
        [] \<Rightarrow> keys
      | admin # _ \<Rightarrow> map (\<lambda>k. if k = 0 then u_id admin else k) keys)"

definition Upgrade :: "time \<Rightarrow> int64 \<Rightarrow> accounts \<Rightarrow> int64 list \<Rightarrow> (accounts \<times> int64 list) \<times> bool" where
  "Upgrade now preferred s keys =
     (case EnsureGroups now s of
        (s, None) \<Rightarrow> ((s, keys), False)
      | (s, Some (admins, users)) \<Rightarrow>
          let s = put_in_admins admins s in
          (case give_readers now admins preferred (without_reader s) s of
             (s, False) \<Rightarrow> ((s, keys), False)
           | (s, True) \<Rightarrow> ((Invalidate s, give_keys admins s keys), True)))"

section \<open>Everyone has a reader of their own\<close>

text \<open>Readers of users exist, and no two users share one (0 is no reader).\<close>

definition readers_ok :: "accounts \<Rightarrow> bool" where
  "readers_ok s \<longleftrightarrow> twf rd_id (ac_readers s) \<and> twf u_id (ac_users s) \<and>
     (\<forall>u \<in> set (rows (ac_users s)). 0 \<le> u_reader_id u \<and> u_reader_id u \<le> seq (ac_readers s)) \<and>
     (\<forall>u \<in> set (rows (ac_users s)). \<forall>v \<in> set (rows (ac_users s)). u_reader_id u = u_reader_id v \<longrightarrow> u_reader_id u \<noteq> 0 \<longrightarrow> u = v)"

definition readerless :: "accounts \<Rightarrow> int64 set" where
  "readerless s = u_id ` {u \<in> set (rows (ac_users s)). u_reader_id u = 0}"

lemma readers_okD:
  assumes "readers_ok s"
  shows "twf rd_id (ac_readers s)" "twf u_id (ac_users s)"
    "u \<in> set (rows (ac_users s)) \<Longrightarrow> 0 \<le> u_reader_id u" "u \<in> set (rows (ac_users s)) \<Longrightarrow> u_reader_id u \<le> seq (ac_readers s)"
    "u \<in> set (rows (ac_users s)) \<Longrightarrow> v \<in> set (rows (ac_users s)) \<Longrightarrow> u_reader_id u = u_reader_id v \<Longrightarrow> u_reader_id u \<noteq> 0 \<Longrightarrow> u = v"
  using assms unfolding readers_ok_def by blast+

lemma readers_okI:
  assumes "twf rd_id (ac_readers s)" "twf u_id (ac_users s)"
    "\<And>u. u \<in> set (rows (ac_users s)) \<Longrightarrow> 0 \<le> u_reader_id u \<and> u_reader_id u \<le> seq (ac_readers s)"
    "\<And>u v. u \<in> set (rows (ac_users s)) \<Longrightarrow> v \<in> set (rows (ac_users s)) \<Longrightarrow> u_reader_id u = u_reader_id v \<Longrightarrow> u_reader_id u \<noteq> 0 \<Longrightarrow> u = v"
  shows "readers_ok s"
  using assms unfolding readers_ok_def by blast

text \<open>A reader nobody has goes to one user.\<close>

lemma give_fresh_reader:
  assumes ok: "readers_ok s" and t: "ac_users t = ac_users s" "twf rd_id (ac_readers t)" "seq (ac_readers s) \<le> seq (ac_readers t)"
    and rid: "0 < rid" "rid \<le> seq (ac_readers t)" "\<And>v. v \<in> set (rows (ac_users s)) \<Longrightarrow> u_reader_id v \<noteq> rid"
  shows "readers_ok (upd_user i (\<lambda>v. v\<lparr>u_reader_id := rid\<rparr>) t)" "readerless (upd_user i (\<lambda>v. v\<lparr>u_reader_id := rid\<rparr>) t) = readerless s - {i}"
proof -
  note d = readers_okD [OF ok]
  let ?t = "upd_user i (\<lambda>v. v\<lparr>u_reader_id := rid\<rparr>) t" and ?f = "\<lambda>v. if u_id v = i then v\<lparr>u_reader_id := rid\<rparr> else v"
  have r: "set (rows (ac_users ?t)) = ?f ` set (rows (ac_users s))" by (simp add: upd_user_def set_upd_where t(1))
  have q: "ac_readers ?t = ac_readers t" by (simp add: upd_user_def)
  show "readers_ok ?t"
  proof (rule readers_okI)
    show "twf rd_id (ac_readers ?t)" using t(2) q by simp
    show "twf u_id (ac_users ?t)" using users_table.wf_update [OF _ d(2)] by (simp add: upd_user_def t(1))
    show "u \<in> set (rows (ac_users ?t)) \<Longrightarrow> 0 \<le> u_reader_id u \<and> u_reader_id u \<le> seq (ac_readers ?t)" for u
      unfolding r q using d(3,4) t(3) rid(1,2) by fastforce
    show "u = v" if uv: "u \<in> set (rows (ac_users ?t))" "v \<in> set (rows (ac_users ?t))" "u_reader_id u = u_reader_id v" "u_reader_id u \<noteq> 0" for u v
    proof -
      obtain x y where x: "x \<in> set (rows (ac_users s))" "u = ?f x" and y: "y \<in> set (rows (ac_users s))" "v = ?f y"
        using uv(1,2) unfolding r by blast
      show ?thesis
      proof (cases "u_id x = i \<or> u_id y = i")
        case True
        then have "u_id x = u_id y" using x y uv(3) rid(3) [of x] rid(3) [of y] by (auto split: if_splits)
        then have "x = y" using users_table.unique [OF d(2) x(1) y(1)] by simp
        then show ?thesis using x(2) y(2) by simp
      next
        case False
        then show ?thesis using d(5) [OF x(1) y(1)] uv(3,4) x(2) y(2) by simp
      qed
    qed
  qed
  show "readerless ?t = readerless s - {i}"
  proof (rule set_eqI)
    fix j
    have "j \<in> readerless ?t \<longleftrightarrow> (\<exists>x \<in> set (rows (ac_users s)). u_reader_id (?f x) = 0 \<and> j = u_id (?f x))"
      unfolding readerless_def r by blast
    also have "\<dots> \<longleftrightarrow> (\<exists>x \<in> set (rows (ac_users s)). u_id x \<noteq> i \<and> u_reader_id x = 0 \<and> j = u_id x)"
      by (rule bex_cong) (use rid(1) in auto)
    also have "\<dots> \<longleftrightarrow> j \<in> readerless s - {i}" unfolding readerless_def by blast
    finally show "j \<in> readerless ?t \<longleftrightarrow> j \<in> readerless s - {i}" .
  qed
qed

definition membership :: "accounts \<Rightarrow> (int64 \<times> int64) list" where
  "membership s = map (\<lambda>u. (u_id u, u_group_id u)) (rows (ac_users s))"

lemma membership_upd: "ac_users t = ac_users s \<Longrightarrow> membership (upd_user i (\<lambda>v. v\<lparr>u_reader_id := rid\<rparr>) t) = membership s"
  by (simp add: membership_def upd_user_def upd_where_def)

lemma newReader_spec:
  assumes "newReader now u b s = (s', i)" and "twf rd_id (ac_readers s)"
  shows "ac_users s' = ac_users s" "twf rd_id (ac_readers s')" "seq (ac_readers s') = seq (ac_readers s) + 1" "i = seq (ac_readers s) + 1"
    "0 \<le> seq (ac_readers s)"
proof -
  obtain r where "s' = s\<lparr>ac_readers := tinsert (\<lambda>i r. r\<lparr>rd_id := i\<rparr>) r (ac_readers s)\<rparr>" "i = seq (ac_readers s) + 1"
    using assms(1) unfolding newReader_def Let_def by blast
  then show "ac_users s' = ac_users s" "twf rd_id (ac_readers s')" "seq (ac_readers s') = seq (ac_readers s) + 1" "i = seq (ac_readers s) + 1"
    using readers_table.wf_insert [OF assms(2)] by (simp_all add: tinsert_def)
  show "0 \<le> seq (ac_readers s)" using assms(2) by (simp add: twf_def)
qed

lemma renameImportedReader_spec:
  assumes "renameImportedReader i u s = Some s'"
  shows "ac_users s' = ac_users s" "twf rd_id (ac_readers s) \<Longrightarrow> twf rd_id (ac_readers s')" "seq (ac_readers s') = seq (ac_readers s)"
    "twf rd_id (ac_readers s) \<Longrightarrow> 0 < i \<and> i \<le> seq (ac_readers s)"
proof -
  obtain r where r: "tget rd_id i (ac_readers s) = Some r" using assms by (auto simp: renameImportedReader_def split: option.splits)
  have "s' = s \<or> (\<exists>n. s' = s\<lparr>ac_readers := upd_where (\<lambda>x. rd_id x = i) (\<lambda>x. x\<lparr>rd_name := n\<rparr>) (ac_readers s)\<rparr>)"
    using assms by (auto simp: renameImportedReader_def r Let_def split: if_splits)
  moreover have "twf rd_id (upd_where (\<lambda>x. rd_id x = i) (\<lambda>x. x\<lparr>rd_name := n\<rparr>) (ac_readers s))" if "twf rd_id (ac_readers s)" for n
    by (rule readers_table.wf_update [OF _ that]) simp
  ultimately show "ac_users s' = ac_users s" "twf rd_id (ac_readers s) \<Longrightarrow> twf rd_id (ac_readers s')" "seq (ac_readers s') = seq (ac_readers s)"
    by auto
  show "twf rd_id (ac_readers s) \<Longrightarrow> 0 < i \<and> i \<le> seq (ac_readers s)" using tget_Some [OF r] by (auto simp: twf_def)
qed

lemma give_reader_spec:
  assumes "give_reader now admins preferred u s = Some s'" and ok: "readers_ok s"
  shows "readers_ok s' \<and> readerless s' = readerless s - {u_id u} \<and> ac_groups s' = ac_groups s \<and> membership s' = membership s"
proof (cases "preferred > 0 \<and> \<not> list_ex (\<lambda>v. u_reader_id v = preferred) (rows (ac_users s))")
  case True
  then obtain t where t: "renameImportedReader preferred u s = Some t" "s' = upd_user (u_id u) (\<lambda>v. v\<lparr>u_reader_id := preferred\<rparr>) t"
    using assms(1) by (auto simp: give_reader_def Let_def split: option.splits)
  note r = renameImportedReader_spec [OF t(1)] and d = readers_okD [OF ok]
  have "ac_groups t = ac_groups s" using t(1) by (auto simp: renameImportedReader_def Let_def split: option.splits if_splits)
  moreover have "v \<in> set (rows (ac_users s)) \<Longrightarrow> u_reader_id v \<noteq> preferred" for v using True by (auto simp: list_ex_iff)
  ultimately show ?thesis
    using give_fresh_reader [OF ok r(1) r(2) [OF d(1)], of preferred "u_id u"] r(3) r(4) [OF d(1)] t(2) membership_upd [OF r(1)] by simp
next
  case False
  obtain t i where t: "newReader now u (u_group_id u = admins) s = (t, i)" by (metis surj_pair)
  have s': "s' = upd_user (u_id u) (\<lambda>v. v\<lparr>u_reader_id := i\<rparr>) t" using assms(1) False by (auto simp: give_reader_def Let_def t)
  note d = readers_okD [OF ok] and r = newReader_spec [OF t readers_okD(1) [OF ok]]
  have n: "v \<in> set (rows (ac_users s)) \<Longrightarrow> u_reader_id v \<noteq> i" for v using d(4) [of v] r(4) by auto
  show ?thesis
    using give_fresh_reader [OF ok r(1,2) _ _ _ n, of "u_id u"] r(3-5) newReader_frames(2) [OF t] s' membership_upd [OF r(1)] by simp
qed

lemma give_readers_spec:
  "give_readers now admins preferred us s = (s', True) \<Longrightarrow> readers_ok s \<Longrightarrow>
    readers_ok s' \<and> readerless s' = readerless s - u_id ` set us \<and> ac_groups s' = ac_groups s \<and>
    membership s' = membership s"
proof (induction us arbitrary: s)
  case (Cons u us)
  obtain t where t: "give_reader now admins preferred u s = Some t" using Cons.prems(1) by (cases "give_reader now admins preferred u s") simp_all
  have "give_readers now admins preferred us t = (s', True)" using Cons.prems(1) t by simp
  from Cons.IH [OF this] give_reader_spec [OF t Cons.prems(2)] show ?case by auto
qed simp

text \<open>The built-in groups, also of accounts from before groups.\<close>

lemma EnsureGroups_admins:
  assumes "EnsureGroups now s = (s', Some (a, v))" and "twf g_id (ac_groups s)"
  shows "twf g_id (ac_groups s')" "\<exists>g \<in> set (rows (ac_groups s')). g_id g = a \<and> g_builtin g = GroupAdmins" "ac_users s' = ac_users s"
    "ac_readers s' = ac_readers s"
proof -
  have spec: "twf g_id (ac_groups t) \<and> set (rows (ac_groups x)) \<subseteq> set (rows (ac_groups t)) \<and> ac_users t = ac_users x \<and> ac_readers t = ac_readers x \<and>
      (\<forall>i. r = Some i \<longrightarrow> (\<exists>g \<in> set (rows (ac_groups t)). g_id g = i \<and> g_builtin g = key))"
    if en: "ensure_group now key name perms x = (t, r)" and wf: "twf g_id (ac_groups x)" for key name perms x t r
    using en
  proof (cases rule: ensure_group_cases)
    case (new n)
    let ?g = "new_group now n key perms [] [] [] False"
    have "ac_readers (put_group ?g x) = ac_readers x" "twf g_id (ac_groups (put_group ?g x))" "g_builtin ?g = key"
      using groups_table.wf_insert [OF wf] by (simp_all add: put_group_def new_group_def)
    then show ?thesis using new put_group_rows [of ?g x] by (auto intro!: bexI [of _ "?g\<lparr>g_id := seq (ac_groups x) + 1\<rparr>"])
  qed (use wf in auto)
  obtain s1 r1 where 1: "ensure_group now GroupAdmins ''Admins'' [AdminPerm] s = (s1, r1)" by (metis surj_pair)
  obtain s2 r2 where 2: "ensure_group now GroupUsers ''Users'' UsersDefault s1 = (s2, r2)" by (metis surj_pair)
  have e: "s' = s2" "r1 = Some a" using assms(1) by (auto simp: EnsureGroups_def 1 2 split: option.splits)
  note a = spec [OF 1 assms(2)]
  have "twf g_id (ac_groups s1)" using a by blast
  note b = spec [OF 2 this]
  show "twf g_id (ac_groups s')" "\<exists>g \<in> set (rows (ac_groups s')). g_id g = a \<and> g_builtin g = GroupAdmins" "ac_users s' = ac_users s"
    "ac_readers s' = ac_readers s"
    using a b e by auto
qed

text \<open>
  After a successful upgrade every user has a reader, no two users share one, nobody is without
  a group, and exactly the users who had none are put with the administrators.
\<close>

theorem upgrade_completes:
  assumes "Upgrade now preferred s keys = ((s', keys'), True)" and "readers_ok s" and "twf g_id (ac_groups s)"
  shows "distinct (map u_reader_id (rows (ac_users s'))) \<and> 0 \<notin> set (map u_reader_id (rows (ac_users s'))) \<and>
    (\<exists>g \<in> set (rows (ac_groups s')). g_builtin g = GroupAdmins \<and> g_id g \<noteq> 0 \<and>
       membership s' = map (\<lambda>(i, gid). (i, if gid = 0 then g_id g else gid)) (membership s))"
proof -
  obtain t r where e: "EnsureGroups now s = (t, r)" by (metis surj_pair)
  obtain a v where r: "r = Some (a, v)" using assms(1) e by (cases r) (auto simp: Upgrade_def)
  note g = EnsureGroups_admins [OF e [unfolded r] assms(3)]
  let ?t = "put_in_admins a t"
  obtain x where x: "give_readers now a preferred (without_reader ?t) ?t = (x, True)" "s' = Invalidate x"
    using assms(1) by (auto simp: Upgrade_def e r Let_def split: prod.splits bool.splits)
  let ?f = "\<lambda>u. if u_group_id u = 0 then u\<lparr>u_group_id := a\<rparr> else u"
  have rt: "rows (ac_users ?t) = map ?f (rows (ac_users s))" by (simp add: put_in_admins_def g(3) upd_where_def)
  note d = readers_okD [OF assms(2)]
  have ok: "readers_ok ?t"
  proof (rule readers_okI)
    show "twf rd_id (ac_readers ?t)" using d(1) g(4) by (simp add: put_in_admins_def)
    show "twf u_id (ac_users ?t)" using users_table.wf_update [OF _ d(2)] by (simp add: put_in_admins_def g(3))
    show "u \<in> set (rows (ac_users ?t)) \<Longrightarrow> 0 \<le> u_reader_id u \<and> u_reader_id u \<le> seq (ac_readers ?t)" for u
      using d(3,4) g(4) unfolding rt by (auto simp: put_in_admins_def)
    show "u = w" if uw: "u \<in> set (rows (ac_users ?t))" "w \<in> set (rows (ac_users ?t))" "u_reader_id u = u_reader_id w" "u_reader_id u \<noteq> 0" for u w
    proof -
      obtain y z where y: "y \<in> set (rows (ac_users s))" "u = ?f y" and z: "z \<in> set (rows (ac_users s))" "w = ?f z"
        using uw(1,2) unfolding rt by auto
      have "y = z" using d(5) [OF y(1) z(1)] uw(3,4) y(2) z(2) by (auto split: if_splits)
      then show ?thesis using y(2) z(2) by simp
    qed
  qed
  note sp = give_readers_spec [OF x(1) ok]
  have "u_id ` set (without_reader ?t) = readerless ?t" by (simp add: without_reader_def readerless_def)
  then have none: "readerless x = {}" and okx: "readers_ok x" using sp by auto
  have z: "0 \<notin> set (map u_reader_id (rows (ac_users x)))" using none by (auto simp: readerless_def)
  have "inj_on u_reader_id (set (rows (ac_users x)))"
  proof (rule inj_onI)
    fix y w assume yw: "y \<in> set (rows (ac_users x))" "w \<in> set (rows (ac_users x))" "u_reader_id y = u_reader_id w"
    then have "u_reader_id y \<noteq> 0" using z by force
    then show "y = w" by (rule readers_okD(5) [OF okx yw])
  qed
  then have "distinct (map u_reader_id (rows (ac_users x)))" using readers_okD(2) [OF okx] by (simp add: distinct_map twf_def)
  moreover have m: "membership x = map (\<lambda>(i, gid). (i, if gid = 0 then a else gid)) (membership s)"
    using sp by (simp add: membership_def rt)
  moreover obtain h where "h \<in> set (rows (ac_groups t))" "g_id h = a" "g_builtin h = GroupAdmins" "g_id h \<noteq> 0"
    using g(1,2) by (auto simp: twf_def)
  moreover have "ac_groups x = ac_groups t" using sp by (simp add: put_in_admins_def)
  ultimately show ?thesis using z x(2) by (auto simp: membership_def intro!: bexI [of _ h])
qed

text \<open>A user of before groups and readers, and the reader a Mihon backup brought.\<close>

definition ex_old :: accounts where
  "ex_old = \<lparr>ac_users = \<lparr>rows = [\<lparr>u_id = 1, u_username = ''ann'', u_password_hash = ''h'', u_display_name = [], u_group_id = 0, u_reader_id = 0,
       u_disabled = False, u_last_login_at = None, u_oidc_subject = [], u_created_by = 0, u_created_at = 0\<rparr>], seq = 1\<rparr>,
     ac_groups = \<lparr>rows = [], seq = 0\<rparr>,
     ac_readers = \<lparr>rows = [\<lparr>rd_id = 1, rd_name = ''Mihon backup'', rd_count_for_cleanup = False, rd_created_at = 0\<rparr>], seq = 1\<rparr>,
     ac_invites = \<lparr>rows = [], seq = 0\<rparr>, ac_sessions = [], ac_workers = \<lparr>rows = [], seq = 0\<rparr>, ac_disabled = False,
     ac_api_key = [], ac_limiter = NewLimiter, ac_cache = [], ac_worker_keys = None, ac_worker_seen = []\<rparr>"

lemma ex_old_upgraded:
  "map rd_name (rows (ac_readers (fst (fst (Upgrade 5 1 ex_old [0, 7]))))) = [''ann'']" "map u_reader_id (rows (ac_users (fst (fst (Upgrade 5 1 ex_old [0, 7]))))) = [1]"
  "snd (fst (Upgrade 5 1 ex_old [0, 7])) = [1, 7]"
  by code_simp+

theorem upgrade_completes_witness:
  "\<exists>s' keys. Upgrade 5 1 ex_old [0, 7] = ((s', keys), True) \<and> distinct (map u_reader_id (rows (ac_users s'))) \<and> 0 \<notin> set (map u_reader_id (rows (ac_users s')))"
proof -
  obtain s' keys b where u: "Upgrade 5 1 ex_old [0, 7] = ((s', keys), b)" by (metis surj_pair)
  have "snd (Upgrade 5 1 ex_old [0, 7])" by code_simp
  then have "Upgrade 5 1 ex_old [0, 7] = ((s', keys), True)" using u by simp
  moreover have "readers_ok ex_old" "twf g_id (ac_groups ex_old)" by (simp_all add: readers_ok_def twf_def ex_old_def)
  ultimately show ?thesis using upgrade_completes by blast
qed

section \<open>Worker keys\<close>

datatype worker_error = NoWorkerName | NoWorkerRoles | WorkerExists

definition role_of :: "string \<Rightarrow> task_kind option" where
  "role_of r = (if r = ''download'' then Some TaskDownload else if r = ''upscale'' then Some TaskUpscale
     else if r = ''encode'' then Some TaskEncode else None)"

fun known_roles :: "string list \<Rightarrow> task_kind list \<Rightarrow> task_kind list" where
  "known_roles [] kept = kept"
| "known_roles (r # rs) kept =
     (case role_of r of
        None \<Rightarrow> known_roles rs kept
      | Some k \<Rightarrow> known_roles rs (if k \<in> set kept then kept else kept @ [k]))"

definition new_worker :: "crypto \<Rightarrow> time \<Rightarrow> string \<Rightarrow> string \<Rightarrow> task_kind list \<Rightarrow> int64 \<Rightarrow> worker" where
  "new_worker cr now key name roles by_user = \<lparr>w_id = 0, w_name = name, w_key_hash = cr_sha256 cr key, w_prefix = take 12 key,
     w_roles = roles, w_enabled = True, w_priority = 100, w_concurrent = 0, w_page_concurrency = 0, w_upscale_model = [],
     w_version = [], w_platform = [], w_info = \<lparr>wi_models = [], wi_process = False\<rparr>, w_last_ip = [], w_created_by = by_user,
     w_created_at = now, w_last_seen_at = None, w_tasks_done = 0, w_tasks_failed = 0, w_pages_done = 0, w_bytes_in = 0, w_bytes_out = 0, w_busy_seconds = 0\<rparr>"

text \<open>\<open>key\<close> is the new random key: the prefix of worker keys and 40 hexadecimal digits.\<close>

definition CreateWorker :: "crypto \<Rightarrow> time \<Rightarrow> string \<Rightarrow> string \<Rightarrow> string list \<Rightarrow> int64 \<Rightarrow> accounts \<Rightarrow> accounts \<times> (worker_error + worker)" where
  "CreateWorker cr now key name roles by_user s =
     (let name = trim_space name; kept = known_roles roles [] in
      if name = [] then (s, Inl NoWorkerName)
      else if kept = [] then (s, Inl NoWorkerRoles)
      else if list_ex (\<lambda>w. w_name w = name) (rows (ac_workers s)) then (s, Inl WorkerExists)
      else
        let w = new_worker cr now key name kept by_user
        in (InvalidateWorkers (s\<lparr>ac_workers := tinsert (\<lambda>i w. w\<lparr>w_id := i\<rparr>) w (ac_workers s)\<rparr>), Inr (w\<lparr>w_id := seq (ac_workers s) + 1\<rparr>)))"

definition key_request :: "string \<Rightarrow> request_auth" where
  "key_request k = \<lparr>ra_header_key = [], ra_query_key = [], ra_authorization = ''Bearer '' @ k, ra_cookie = [], ra_ip = []\<rparr>"

text \<open>
  The key of a worker that was just created authenticates exactly that worker, with its name and
  no permission at all, even where logins are switched off for people.
\<close>

theorem worker_key_roundtrip:
  assumes "CreateWorker cr now key name roles by_user s = (s', Inr w)" and "has_prefix key WorkerKeyPrefix"
  shows "\<exists>p. snd (Authenticate cr t (key_request key) s') = Some p \<and> pr_kind p = KindWorker \<and> pr_worker_id p = w_id w \<and>
    pr_username p = trim_space name \<and> Permissions (Some p) = []"
proof -
  let ?w = "new_worker cr now key (trim_space name) (known_roles roles []) by_user"
  have e: "s' = InvalidateWorkers (s\<lparr>ac_workers := tinsert (\<lambda>i w. w\<lparr>w_id := i\<rparr>) ?w (ac_workers s)\<rparr>)" "w = ?w\<lparr>w_id := seq (ac_workers s) + 1\<rparr>"
    using assms(1) by (auto simp: CreateWorker_def Let_def split: if_splits)
  have k: "request_key (key_request key) = key" using assms(2) by (cases key) (simp_all add: request_key_def key_request_def WorkerKeyPrefix_def)
  have "w_key_hash w = cr_sha256 cr key" "w_enabled w" by (simp_all add: e(2) new_worker_def)
  then have "snd (WorkerByKey cr key s') = Some w"
    by (simp add: WorkerByKey_def loadWorkers_def InvalidateWorkers_def e(1) tinsert_def Let_def flip: e(2))
  then obtain x where "WorkerByKey cr key s' = (x, Some w)" by (metis prod.collapse)
  then have "snd (Authenticate cr t (key_request key) s') = Some (WorkerPrincipal w)"
    using assms(2) \<open>w_enabled w\<close> by (simp add: Authenticate_def k)
  moreover have "w_name w = trim_space name" by (simp add: e(2) new_worker_def)
  ultimately show ?thesis by (simp add: WorkerPrincipal_def Permissions_def Can_def All_permissions_def)
qed

definition ex_key :: string where
  "ex_key = ''mgw_0123456789abcdef0123456789abcdef01234567''"

definition ex_sha :: crypto where
  "ex_sha = \<lparr>cr_hash = (\<lambda>salt p. Some (salt @ p)), cr_match = (\<lambda>h p. h = p), cr_sha256 = rev\<rparr>"

theorem worker_key_roundtrip_witness:
  "\<exists>s' w p. CreateWorker ex_sha 5 ex_key '' gpu box'' [''encode'', ''encode'', ''fax''] 1 ex_old = (s', Inr w) \<and>
    snd (Authenticate ex_sha 9 (key_request ex_key) s') = Some p \<and> pr_username p = ''gpu box'' \<and> Permissions (Some p) = []"
proof -
  let ?c = "CreateWorker ex_sha 5 ex_key '' gpu box'' [''encode'', ''encode'', ''fax''] 1 ex_old"
  have "case_sum (\<lambda>_. False) (\<lambda>_. True) (snd ?c)" by code_simp
  then obtain s' w where w: "?c = (s', Inr w)" by (cases ?c) (auto split: sum.splits)
  have "has_prefix ex_key WorkerKeyPrefix" "trim_space '' gpu box'' = ''gpu box''" by code_simp+
  with worker_key_roundtrip [OF w, of 9] w show ?thesis by auto
qed

end
