(* ===== verification/Reading.thy ===== *)
theory Reading
  imports Model
begin

text \<open>
  Reading progress (\<open>internal/reading/progress.go\<close>, \<open>events.go\<close>): what reading apps report about
  chapters, the read states it leaves, the log of reports, and the summary that trackers see.  The
  unique index on reader and chapter makes an insert fail.
\<close>

section \<open>Reports\<close>

record change =
  ch_chapter :: int64
  ch_series :: int64
  ch_completed :: bool
  ch_page :: int
  ch_unread :: bool

record reporter =
  by_origin :: string
  by_client :: string
  by_device :: string

record outcome =
  oc_change :: change
  oc_result :: outcome_result

record read_event =
  re_id :: int64
  re_reader :: int64
  re_series :: int64
  re_chapter :: int64
  re_chapters :: int
  re_completed :: bool
  re_page :: int
  re_origin :: string
  re_client :: string
  re_device :: string
  re_outcome :: outcome_result
  re_at :: time

text \<open>\<open>ProgressChanged\<close>, published per series.\<close>

record announcement =
  an_reader :: int64
  an_series :: int64
  an_chapters :: "int64 list"
  an_deleted :: bool
  an_origin :: string

record progress_db =
  pd_states :: "chapter_read_state table"
  pd_events :: "read_event table"
  pd_announced :: "announcement list"

definition state_of :: "int64 \<Rightarrow> int64 \<Rightarrow> chapter_read_state table \<Rightarrow> chapter_read_state option" where
  "state_of reader chapter t = find (\<lambda>x. rs_reader_id x = reader \<and> rs_chapter_id x = chapter) (rows t)"

text \<open>
  \<open>apply_change\<close> is \<open>apply\<close>.  \<open>cur\<close> holds the states that \<open>Record\<close> read before its transaction; an
  update changes its entry too, which is a pointer.  \<open>None\<close> is the error of a second row for the
  same chapter.
\<close>

definition new_state :: "time \<Rightarrow> int64 \<Rightarrow> change \<Rightarrow> chapter_read_state" where
  "new_state now reader c = \<lparr>rs_id = 0, rs_reader_id = reader, rs_chapter_id = ch_chapter c, rs_series_id = ch_series c,
     rs_completed = ch_completed c, rs_page = max (ch_page c) 0, rs_read_at = (if ch_completed c then Some now else None),
     rs_synced_at = now, rs_origin = ReadOriginApp\<rparr>"

definition changed_state :: "time \<Rightarrow> change \<Rightarrow> chapter_read_state \<Rightarrow> chapter_read_state" where
  "changed_state now c st =
     st\<lparr>rs_read_at := (if ch_completed c \<and> \<not> rs_completed st then Some now else rs_read_at st), rs_completed := ch_completed c,
        rs_page := (if ch_page c > 0 then ch_page c else rs_page st), rs_synced_at := now, rs_origin := ReadOriginApp\<rparr>"

definition write_state :: "chapter_read_state \<Rightarrow> chapter_read_state \<Rightarrow> chapter_read_state" where
  "write_state st x = x\<lparr>rs_completed := rs_completed st, rs_page := rs_page st, rs_read_at := rs_read_at st,
     rs_synced_at := rs_synced_at st, rs_origin := rs_origin st\<rparr>"

type_synonym known = "int64 \<Rightarrow> chapter_read_state option"

definition apply_change :: "time \<Rightarrow> int64 \<Rightarrow> change \<Rightarrow> chapter_read_state table \<times> known \<Rightarrow>
    ((chapter_read_state table \<times> known) \<times> outcome_result) option" where
  "apply_change now reader c s =
     (let (t, cur) = s in
      case cur (ch_chapter c) of
        None \<Rightarrow>
          if ch_unread c \<or> \<not> ch_completed c \<and> ch_page c \<le> 0 then Some (s, OutcomeUnchanged)
          else if state_of reader (ch_chapter c) t \<noteq> None then None
          else Some ((tinsert (\<lambda>i x. x\<lparr>rs_id := i\<rparr>) (new_state now reader c) t, cur), OutcomeApplied)
      | Some st \<Rightarrow>
          if ch_unread c then Some ((del_where (\<lambda>x. rs_id x = rs_id st) t, cur), OutcomeUnread)
          else if rs_completed st \<and> \<not> ch_completed c then Some (s, OutcomeKept)
          else if rs_completed st = ch_completed c \<and> (ch_page c \<le> 0 \<or> ch_page c = rs_page st) then Some (s, OutcomeUnchanged)
          else
            let st = changed_state now c st
            in Some ((upd_where (\<lambda>x. rs_id x = rs_id st) (write_state st) t, cur(ch_chapter c \<mapsto> st)), OutcomeApplied))"

fun apply_all :: "time \<Rightarrow> int64 \<Rightarrow> change list \<Rightarrow> chapter_read_state table \<times> known \<Rightarrow>
    ((chapter_read_state table \<times> known) \<times> outcome list) option" where
  "apply_all now reader [] s = Some (s, [])"
| "apply_all now reader (c # cs) s =
     (case apply_change now reader c s of
        None \<Rightarrow> None
      | Some (s, res) \<Rightarrow>
          (case apply_all now reader cs s of
             None \<Rightarrow> None
           | Some (s, out) \<Rightarrow> Some (s, \<lparr>oc_change = c, oc_result = res\<rparr> # out)))"

section \<open>The log of reports\<close>

definition eventMergeWindow :: duration where [go_defs]: "eventMergeWindow = 10 * minute"
definition EventRetention :: duration where [go_defs]: "EventRetention = 30 * 24 * hour"

definition first_of_each :: "'a list \<Rightarrow> 'a list" where
  "first_of_each ks = rev (remdups (rev ks))"

definition announce_key :: "outcome \<Rightarrow> int64 \<times> bool" where
  "announce_key o' = (ch_series (oc_change o'), oc_result o' = OutcomeUnread)"

definition announce :: "int64 \<Rightarrow> outcome list \<Rightarrow> reporter \<Rightarrow> progress_db \<Rightarrow> progress_db" where
  "announce reader out by_whom s =
     (let told = filter (\<lambda>x. oc_result x = OutcomeApplied \<or> oc_result x = OutcomeUnread) out;
          msg = (\<lambda>k. \<lparr>an_reader = reader, an_series = fst k,
                       an_chapters = map (\<lambda>x. ch_chapter (oc_change x)) (filter (\<lambda>x. announce_key x = k) told),
                       an_deleted = snd k, an_origin = by_origin by_whom\<rparr>)
      in s\<lparr>pd_announced := pd_announced s @ map msg (first_of_each (map announce_key told))\<rparr>)"

definition event_key :: "outcome \<Rightarrow> int64 \<times> outcome_result \<times> bool" where
  "event_key x = (ch_series (oc_change x), oc_result x, ch_completed (oc_change x) \<and> oc_result x \<noteq> OutcomeUnread)"

definition merges :: "read_event \<Rightarrow> read_event \<Rightarrow> bool" where
  "merges ev prev \<longleftrightarrow>
     (if re_origin prev \<noteq> re_origin ev \<or> re_client prev \<noteq> re_client ev \<or> re_device prev \<noteq> re_device ev \<or> re_outcome prev \<noteq> re_outcome ev then False
      else case re_outcome ev of
             OutcomeKept \<Rightarrow> re_at ev - re_at prev \<le> 24 * hour
           | OutcomeApplied \<Rightarrow> \<not> (re_completed prev \<or> re_chapters prev \<noteq> 1 \<or> re_at ev - re_at prev > eventMergeWindow)
           | _ \<Rightarrow> False)"

definition mergeEvent :: "read_event \<Rightarrow> read_event table \<Rightarrow> read_event table option" where
  "mergeEvent ev t =
     (case find (\<lambda>x. re_reader x = re_reader ev \<and> re_chapter x = re_chapter ev) (rev (rows t)) of
        None \<Rightarrow> None
      | Some prev \<Rightarrow>
          if merges ev prev
          then Some (upd_where (\<lambda>x. re_id x = re_id prev)
                 (\<lambda>x. x\<lparr>re_page := re_page ev, re_completed := re_completed ev, re_chapters := re_chapters ev, re_at := re_at ev\<rparr>) t)
          else None)"

definition group_event :: "time \<Rightarrow> int64 \<Rightarrow> reporter \<Rightarrow> int64 \<times> outcome_result \<times> bool \<Rightarrow> outcome list \<Rightarrow> read_event" where
  "group_event now reader by_whom k g =
     \<lparr>re_id = 0, re_reader = reader, re_series = fst k, re_chapter = ch_chapter (oc_change (last g)), re_chapters = int (length g),
      re_completed = snd (snd k), re_page = ch_page (oc_change (last g)), re_origin = by_origin by_whom, re_client = by_client by_whom,
      re_device = by_device by_whom, re_outcome = fst (snd k), re_at = now\<rparr>"

definition log_group :: "time \<Rightarrow> int64 \<Rightarrow> reporter \<Rightarrow> outcome list \<Rightarrow> int64 \<times> outcome_result \<times> bool \<Rightarrow> read_event table \<Rightarrow> read_event table" where
  "log_group now reader by_whom out k t =
     (let g = filter (\<lambda>x. event_key x = k) out;
          ev = group_event now reader by_whom k g;
          may = (fst (snd k) = OutcomeKept \<or> length g = 1 \<and> fst (snd k) = OutcomeApplied)
      in case (if may then mergeEvent ev t else None) of
           Some t \<Rightarrow> t
         | None \<Rightarrow> tinsert (\<lambda>i x. x\<lparr>re_id := i\<rparr>) ev t)"

definition logOutcomes :: "time \<Rightarrow> int64 \<Rightarrow> outcome list \<Rightarrow> reporter \<Rightarrow> progress_db \<Rightarrow> progress_db" where
  "logOutcomes now reader out by_whom s =
     (let out = filter (\<lambda>x. oc_result x \<noteq> OutcomeUnchanged) out
      in s\<lparr>pd_events := fold (log_group now reader by_whom out) (first_of_each (map event_key out)) (pd_events s)\<rparr>)"

definition PruneEvents :: "time \<Rightarrow> progress_db \<Rightarrow> progress_db" where
  "PruneEvents now s = s\<lparr>pd_events := del_where (\<lambda>x. re_at x < now - EventRetention) (pd_events s)\<rparr>"

definition Observe :: "time \<Rightarrow> (int64 \<Rightarrow> float64) \<Rightarrow> int64 \<Rightarrow> outcome list \<Rightarrow> reporter \<Rightarrow> progress_db \<Rightarrow> progress_db" where
  "Observe now num reader out by_whom s =
     (if out = [] then s
      else
        let out = stable_sort (\<lambda>a b. num (ch_chapter (oc_change a)) < num (ch_chapter (oc_change b))) out
        in announce reader out by_whom (logOutcomes now reader out by_whom s))"

section \<open>Recording\<close>

definition known_states :: "int64 \<Rightarrow> change list \<Rightarrow> chapter_read_state table \<Rightarrow> known" where
  "known_states reader changes t c = (if c \<in> ch_chapter ` set changes then state_of reader c t else None)"

text \<open>The transaction of \<open>Record\<close> and what follows it, with the states read before.\<close>

definition record_tx :: "time \<Rightarrow> int64 \<Rightarrow> change list \<Rightarrow> reporter \<Rightarrow> known \<Rightarrow> progress_db \<Rightarrow> progress_db \<times> outcome list option" where
  "record_tx now reader changes by_whom cur s =
     (case apply_all now reader changes (pd_states s, cur) of
        None \<Rightarrow> (s, None)
      | Some ((t, _), out) \<Rightarrow> (announce reader out by_whom (logOutcomes now reader out by_whom (s\<lparr>pd_states := t\<rparr>)), Some out))"

definition Record_progress :: "time \<Rightarrow> int64 \<Rightarrow> change list \<Rightarrow> reporter \<Rightarrow> progress_db \<Rightarrow> progress_db \<times> outcome list option" where
  "Record_progress now reader changes by_whom s =
     (if changes = [] then (s, Some [])
      else record_tx now reader changes by_whom (known_states reader changes (pd_states s)) s)"

section \<open>Marking chapters\<close>

text \<open>
  The chapters of a series in reading order with the reader's states; \<open>None\<close> when the series does
  not exist or the viewer may not see it.
\<close>

record chapter_at =
  ca_id :: int64
  ca_number :: float64
  ca_state :: "chapter_read_state option"

definition reading_order :: "chapter_row \<Rightarrow> chapter_row \<Rightarrow> bool" where
  "reading_order a b \<longleftrightarrow> c_number_sort a < c_number_sort b \<or> c_number_sort a = c_number_sort b \<and> c_id a < c_id b"

definition seriesStates :: "bool \<Rightarrow> chapter_row list \<Rightarrow> int64 \<Rightarrow> int64 \<Rightarrow> progress_db \<Rightarrow> chapter_at list option" where
  "seriesStates visible chapters reader series s =
     (if \<not> visible then None
      else Some (map (\<lambda>c. \<lparr>ca_id = c_id c, ca_number = c_number_sort c,
                            ca_state = (case state_of reader (c_id c) (pd_states s) of
                                          None \<Rightarrow> None
                                        | Some st \<Rightarrow> if rs_series_id st = series then Some st else None)\<rparr>)
             (stable_sort reading_order (filter (\<lambda>c. c_series_id c = series) chapters))))"

definition not_finished :: "chapter_at \<Rightarrow> bool" where
  "not_finished c \<longleftrightarrow> (case ca_state c of None \<Rightarrow> True | Some st \<Rightarrow> \<not> rs_completed st)"

definition finish :: "int64 \<Rightarrow> chapter_at \<Rightarrow> change" where
  "finish series c = \<lparr>ch_chapter = ca_id c, ch_series = series, ch_completed = True, ch_page = 0, ch_unread = False\<rparr>"

definition unfinish :: "int64 \<Rightarrow> chapter_at \<Rightarrow> change" where
  "unfinish series c = \<lparr>ch_chapter = ca_id c, ch_series = series, ch_completed = False, ch_page = 0, ch_unread = True\<rparr>"

definition marks :: "bool \<Rightarrow> int64 \<Rightarrow> chapter_at list \<Rightarrow> change list" where
  "marks read series list =
     (if read then map (finish series) (filter not_finished list)
      else map (unfinish series) (filter (\<lambda>c. ca_state c \<noteq> None) list))"

definition MarkSeries :: "time \<Rightarrow> bool \<Rightarrow> chapter_row list \<Rightarrow> int64 \<Rightarrow> int64 \<Rightarrow> bool \<Rightarrow> reporter \<Rightarrow> progress_db \<Rightarrow> progress_db \<times> outcome list option" where
  "MarkSeries now visible chapters reader series read by_whom s =
     (case seriesStates visible chapters reader series s of
        None \<Rightarrow> (s, None)
      | Some list \<Rightarrow> Record_progress now reader (marks read series list) by_whom s)"

definition MarkReadUpTo :: "time \<Rightarrow> bool \<Rightarrow> chapter_row list \<Rightarrow> int64 \<Rightarrow> int64 \<Rightarrow> float64 \<Rightarrow> reporter \<Rightarrow> progress_db \<Rightarrow> progress_db \<times> outcome list option" where
  "MarkReadUpTo now visible chapters reader series number by_whom s =
     (case seriesStates visible chapters reader series s of
        None \<Rightarrow> (s, None)
      | Some list \<Rightarrow> Record_progress now reader (map (finish series) (filter (\<lambda>c. ca_number c \<le> number \<and> not_finished c) list)) by_whom s)"

definition index_of_chapter :: "int64 \<Rightarrow> chapter_at list \<Rightarrow> nat" where
  "index_of_chapter chapter list = length (takeWhile (\<lambda>c. ca_id c \<noteq> chapter) list)"

definition MarkBeforeChapter :: "time \<Rightarrow> bool \<Rightarrow> chapter_row list \<Rightarrow> int64 \<Rightarrow> int64 \<Rightarrow> int64 \<Rightarrow> bool \<Rightarrow> reporter \<Rightarrow> progress_db \<Rightarrow> progress_db \<times> outcome list option" where
  "MarkBeforeChapter now visible chapters reader series chapter read by_whom s =
     (case seriesStates visible chapters reader series s of
        None \<Rightarrow> (s, None)
      | Some list \<Rightarrow>
          let i = index_of_chapter chapter list
          in if i = length list then (s, None) else Record_progress now reader (marks read series (take i list)) by_whom s)"

definition MarkReadUpToIndex :: "time \<Rightarrow> bool \<Rightarrow> chapter_row list \<Rightarrow> int64 \<Rightarrow> int64 \<Rightarrow> int \<Rightarrow> reporter \<Rightarrow> progress_db \<Rightarrow> progress_db \<times> outcome list option" where
  "MarkReadUpToIndex now visible chapters reader series index by_whom s =
     (case seriesStates visible chapters reader series s of
        None \<Rightarrow> (s, None)
      | Some list \<Rightarrow> Record_progress now reader (map (finish series) (filter not_finished (take (nat index) list))) by_whom s)"

section \<open>What a tracker sees\<close>

record series_progress =
  sp_books :: nat
  sp_read :: nat
  sp_unread :: nat
  sp_in_progress :: nat
  sp_last :: float64
  sp_last_index :: nat
  sp_max :: float64

definition read_run :: "chapter_at list \<Rightarrow> chapter_at list" where
  "read_run list = takeWhile (\<lambda>c. \<not> not_finished c) (dropWhile (\<lambda>c. ca_state c = None) list)"

definition in_progress :: "chapter_at \<Rightarrow> bool" where
  "in_progress c \<longleftrightarrow> (case ca_state c of None \<Rightarrow> False | Some st \<Rightarrow> \<not> rs_completed st \<and> rs_page st > 0)"

definition Progress_of :: "chapter_at list \<Rightarrow> series_progress" where
  "Progress_of list =
     (let start = length (takeWhile (\<lambda>c. ca_state c = None) list); run = read_run list
      in \<lparr>sp_books = length list,
          sp_read = length (filter (\<lambda>c. \<not> not_finished c) list),
          sp_unread = length (filter (\<lambda>c. not_finished c \<and> \<not> in_progress c) list),
          sp_in_progress = length (filter in_progress list),
          sp_last = (if run = [] then 0 else ca_number (last run)),
          sp_last_index = (if run = [] then 0 else start + length run),
          sp_max = fold (\<lambda>c m. max m (ca_number c)) list 0\<rparr>)"

definition Progress :: "bool \<Rightarrow> chapter_row list \<Rightarrow> int64 \<Rightarrow> int64 \<Rightarrow> progress_db \<Rightarrow> series_progress option" where
  "Progress visible chapters reader series s = map_option Progress_of (seriesStates visible chapters reader series s)"

section \<open>What a report does to a chapter\<close>

text \<open>
  The contract of \<open>Record\<close>, over what a reader has of a chapter: finished or not, and the page.  An
  explicit unread forgets it, a page never un-finishes it, and otherwise the report wins.
\<close>

type_synonym seen = "(bool \<times> int) option"

definition told :: "change \<Rightarrow> seen \<Rightarrow> seen" where
  "told c s =
     (if ch_unread c then None
      else case s of
             None \<Rightarrow> if ch_completed c \<or> ch_page c > 0 then Some (ch_completed c, max (ch_page c) 0) else None
           | Some (finished, page) \<Rightarrow>
               if finished \<and> \<not> ch_completed c then Some (finished, page)
               else Some (ch_completed c, if ch_page c > 0 then ch_page c else page))"

definition seen_by :: "int64 \<Rightarrow> int64 \<Rightarrow> progress_db \<Rightarrow> seen" where
  "seen_by reader chapter s = map_option (\<lambda>st. (rs_completed st, rs_page st)) (state_of reader chapter (pd_states s))"

definition states_ok :: "chapter_read_state table \<Rightarrow> bool" where
  "states_ok t \<longleftrightarrow> twf rs_id t \<and> distinct (map (\<lambda>x. (rs_reader_id x, rs_chapter_id x)) (rows t))"

lemma state_of_iff:
  assumes "states_ok t"
  shows "state_of r d t = Some x \<longleftrightarrow> x \<in> set (rows t) \<and> rs_reader_id x = r \<and> rs_chapter_id x = d"
proof
  show "state_of r d t = Some x \<Longrightarrow> x \<in> set (rows t) \<and> rs_reader_id x = r \<and> rs_chapter_id x = d"
    by (auto simp: state_of_def find_Some_iff)
  assume x: "x \<in> set (rows t) \<and> rs_reader_id x = r \<and> rs_chapter_id x = d"
  then obtain y where y: "state_of r d t = Some y" by (cases "state_of r d t") (auto simp: state_of_def find_None_iff)
  then have "y \<in> set (rows t)" "rs_reader_id y = r" "rs_chapter_id y = d" by (auto simp: state_of_def find_Some_iff)
  moreover have "inj_on (\<lambda>x. (rs_reader_id x, rs_chapter_id x)) (set (rows t))" using assms by (simp add: states_ok_def distinct_map)
  ultimately have "y = x" using x by (auto dest: inj_onD)
  with y show "state_of r d t = Some x" by simp
qed

lemma state_of_None: "state_of r d t = None \<longleftrightarrow> (\<forall>x \<in> set (rows t). \<not> (rs_reader_id x = r \<and> rs_chapter_id x = d))"
  by (auto simp: state_of_def find_None_iff)

lemma state_row:
  assumes ok: "states_ok t" and st: "state_of r d t = Some st" and x: "x \<in> set (rows t)"
  shows "rs_reader_id x = r \<and> rs_chapter_id x = d \<longleftrightarrow> x = st" "rs_id x = rs_id st \<longleftrightarrow> x = st"
proof -
  have m: "st \<in> set (rows t)" "rs_reader_id st = r" "rs_chapter_id st = d" using st unfolding state_of_iff [OF ok] by simp_all
  have "rs_reader_id x = r \<and> rs_chapter_id x = d \<Longrightarrow> state_of r d t = Some x" unfolding state_of_iff [OF ok] using x by simp
  with st m show "rs_reader_id x = r \<and> rs_chapter_id x = d \<longleftrightarrow> x = st" by auto
  have "twf rs_id t" using ok by (simp add: states_ok_def)
  from states_table.unique [OF this x m(1)] show "rs_id x = rs_id st \<longleftrightarrow> x = st" by auto
qed

lemma option_eqI: "(\<And>x. a = Some x \<longleftrightarrow> b = Some x) \<Longrightarrow> a = b"
  by (cases a; cases b) auto

lemma states_insert:
  assumes ok: "states_ok t" and "state_of r d t = None" and st: "rs_reader_id st = r" "rs_chapter_id st = d"
  shows "states_ok (tinsert (\<lambda>i x. x\<lparr>rs_id := i\<rparr>) st t)"
    "state_of a b (tinsert (\<lambda>i x. x\<lparr>rs_id := i\<rparr>) st t) = (if a = r \<and> b = d then Some (st\<lparr>rs_id := seq t + 1\<rparr>) else state_of a b t)"
proof -
  have n: "(r, d) \<notin> (\<lambda>x. (rs_reader_id x, rs_chapter_id x)) ` set (rows t)" using assms(2) by (auto simp: state_of_None)
  have "rows (tinsert (\<lambda>i x. x\<lparr>rs_id := i\<rparr>) st t) = rows t @ [st\<lparr>rs_id := seq t + 1\<rparr>]" by (simp add: tinsert_def)
  then show s: "states_ok (tinsert (\<lambda>i x. x\<lparr>rs_id := i\<rparr>) st t)"
    using ok n st states_table.wf_insert [of t st] by (simp add: states_ok_def)
  show "state_of a b (tinsert (\<lambda>i x. x\<lparr>rs_id := i\<rparr>) st t) = (if a = r \<and> b = d then Some (st\<lparr>rs_id := seq t + 1\<rparr>) else state_of a b t)"
  proof (rule option_eqI)
    fix x
    let ?n = "st\<lparr>rs_id := seq t + 1\<rparr>"
    have "state_of a b (tinsert (\<lambda>i x. x\<lparr>rs_id := i\<rparr>) st t) = Some x \<longleftrightarrow>
        (x = ?n \<or> x \<in> set (rows t)) \<and> rs_reader_id x = a \<and> rs_chapter_id x = b"
      unfolding state_of_iff [OF s] set_tinsert by simp
    also have "\<dots> \<longleftrightarrow> (if a = r \<and> b = d then Some ?n else state_of a b t) = Some x"
    proof (cases "a = r \<and> b = d")
      case True
      have "x \<in> set (rows t) \<Longrightarrow> \<not> (rs_reader_id x = a \<and> rs_chapter_id x = b)" using True assms(2) by (simp add: state_of_None)
      then show ?thesis using True st by auto
    next
      case False
      have "x = ?n \<Longrightarrow> \<not> (rs_reader_id x = a \<and> rs_chapter_id x = b)" using False st by auto
      then show ?thesis unfolding if_not_P [OF False] state_of_iff [OF ok] by blast
    qed
    finally show "state_of a b (tinsert (\<lambda>i x. x\<lparr>rs_id := i\<rparr>) st t) = Some x \<longleftrightarrow>
        (if a = r \<and> b = d then Some ?n else state_of a b t) = Some x" .
  qed
qed

lemma states_delete:
  assumes ok: "states_ok t" and st: "state_of r d t = Some st"
  shows "states_ok (del_where (\<lambda>x. rs_id x = rs_id st) t)"
    "state_of a b (del_where (\<lambda>x. rs_id x = rs_id st) t) = (if a = r \<and> b = d then None else state_of a b t)"
proof -
  have m: "st \<in> set (rows t)" "rs_reader_id st = r" "rs_chapter_id st = d" using st by (simp_all add: state_of_iff [OF ok])
  have w: "twf rs_id t" using ok by (simp add: states_ok_def)
  show s: "states_ok (del_where (\<lambda>x. rs_id x = rs_id st) t)"
    using ok states_table.wf_delete [OF w, of "\<lambda>x. rs_id x = rs_id st"] by (simp add: states_ok_def del_where_def distinct_map_filter)
  show "state_of a b (del_where (\<lambda>x. rs_id x = rs_id st) t) = (if a = r \<and> b = d then None else state_of a b t)"
  proof (rule option_eqI)
    fix x
    have "state_of a b (del_where (\<lambda>x. rs_id x = rs_id st) t) = Some x \<longleftrightarrow>
        x \<in> set (rows t) \<and> x \<noteq> st \<and> rs_reader_id x = a \<and> rs_chapter_id x = b"
      unfolding state_of_iff [OF s] set_del_where using state_row(2) [OF ok st, of x] by blast
    also have "\<dots> \<longleftrightarrow> (if a = r \<and> b = d then None else state_of a b t) = Some x"
    proof (cases "a = r \<and> b = d")
      case True
      then show ?thesis using state_row(1) [OF ok st, of x] by auto
    next
      case False
      have "x = st \<Longrightarrow> \<not> (rs_reader_id x = a \<and> rs_chapter_id x = b)" using False m by auto
      then show ?thesis unfolding if_not_P [OF False] state_of_iff [OF ok] by blast
    qed
    finally show "state_of a b (del_where (\<lambda>x. rs_id x = rs_id st) t) = Some x \<longleftrightarrow> (if a = r \<and> b = d then None else state_of a b t) = Some x" .
  qed
qed

lemma states_update:
  assumes ok: "states_ok t" and st: "state_of r d t = Some st"
  shows "states_ok (upd_where (\<lambda>x. rs_id x = rs_id st) (write_state v) t)"
    "state_of a b (upd_where (\<lambda>x. rs_id x = rs_id st) (write_state v) t) = (if a = r \<and> b = d then Some (write_state v st) else state_of a b t)"
proof -
  let ?t = "upd_where (\<lambda>x. rs_id x = rs_id st) (write_state v) t"
  have m: "st \<in> set (rows t)" "rs_reader_id st = r" "rs_chapter_id st = d" using st by (simp_all add: state_of_iff [OF ok])
  have w: "twf rs_id t" using ok by (simp add: states_ok_def)
  have k: "rs_id (write_state v x) = rs_id x" "rs_reader_id (write_state v x) = rs_reader_id x" "rs_chapter_id (write_state v x) = rs_chapter_id x" for x
    by (simp_all add: write_state_def)
  have "map (\<lambda>x. (rs_reader_id x, rs_chapter_id x)) (rows ?t) = map (\<lambda>x. (rs_reader_id x, rs_chapter_id x)) (rows t)"
    by (simp add: upd_where_def k)
  then show s: "states_ok ?t" using ok states_table.wf_update [OF _ w, of _ "write_state v"] k(1) by (simp add: states_ok_def)
  show "state_of a b ?t = (if a = r \<and> b = d then Some (write_state v st) else state_of a b t)"
  proof (rule option_eqI)
    fix y
    have "state_of a b ?t = Some y \<longleftrightarrow> y \<in> (\<lambda>x. if rs_id x = rs_id st then write_state v x else x) ` set (rows t) \<and> rs_reader_id y = a \<and> rs_chapter_id y = b"
      unfolding state_of_iff [OF s] set_upd_where ..
    also have "\<dots> \<longleftrightarrow> y \<in> (\<lambda>x. if x = st then write_state v x else x) ` set (rows t) \<and> rs_reader_id y = a \<and> rs_chapter_id y = b"
      using image_cong [OF refl, of "set (rows t)" "\<lambda>x. if rs_id x = rs_id st then write_state v x else x" "\<lambda>x. if x = st then write_state v x else x"]
        state_row(2) [OF ok st] by simp
    also have "\<dots> \<longleftrightarrow> (if a = r \<and> b = d then Some (write_state v st) else state_of a b t) = Some y"
    proof (cases "a = r \<and> b = d")
      case True
      have "y \<in> (\<lambda>x. if x = st then write_state v x else x) ` set (rows t) \<and> rs_reader_id y = a \<and> rs_chapter_id y = b \<longleftrightarrow> y = write_state v st"
      proof
        assume "y = write_state v st"
        then show "y \<in> (\<lambda>x. if x = st then write_state v x else x) ` set (rows t) \<and> rs_reader_id y = a \<and> rs_chapter_id y = b"
          using m True k by (intro conjI image_eqI [of _ _ st]) simp_all
      next
        assume y: "y \<in> (\<lambda>x. if x = st then write_state v x else x) ` set (rows t) \<and> rs_reader_id y = a \<and> rs_chapter_id y = b"
        then obtain x where x: "x \<in> set (rows t)" "y = (if x = st then write_state v x else x)" by blast
        then have "rs_reader_id x = r \<and> rs_chapter_id x = d" using y True k by (cases "x = st") simp_all
        then show "y = write_state v st" using state_row(1) [OF ok st x(1)] x(2) by simp
      qed
      then show ?thesis unfolding if_P [OF True] by auto
    next
      case False
      have "y \<in> (\<lambda>x. if x = st then write_state v x else x) ` set (rows t) \<and> rs_reader_id y = a \<and> rs_chapter_id y = b \<longleftrightarrow>
          y \<in> set (rows t) \<and> rs_reader_id y = a \<and> rs_chapter_id y = b"
      proof
        assume y: "y \<in> (\<lambda>x. if x = st then write_state v x else x) ` set (rows t) \<and> rs_reader_id y = a \<and> rs_chapter_id y = b"
        then obtain x where x: "x \<in> set (rows t)" "y = (if x = st then write_state v x else x)" by blast
        then show "y \<in> set (rows t) \<and> rs_reader_id y = a \<and> rs_chapter_id y = b" using y False k m by (cases "x = st") auto
      next
        assume y: "y \<in> set (rows t) \<and> rs_reader_id y = a \<and> rs_chapter_id y = b"
        then have "y \<noteq> st" using False m by auto
        with y show "y \<in> (\<lambda>x. if x = st then write_state v x else x) ` set (rows t) \<and> rs_reader_id y = a \<and> rs_chapter_id y = b"
          by (intro conjI image_eqI [of _ _ y]) simp_all
      qed
      then show ?thesis unfolding if_not_P [OF False] state_of_iff [OF ok] .
    qed
    finally show "state_of a b ?t = Some y \<longleftrightarrow> (if a = r \<and> b = d then Some (write_state v st) else state_of a b t) = Some y" .
  qed
qed

definition shown :: "int64 \<Rightarrow> int64 \<Rightarrow> chapter_read_state table \<Rightarrow> seen" where
  "shown r d t = map_option (\<lambda>st. (rs_completed st, rs_page st)) (state_of r d t)"

lemma apply_change_spec:
  assumes ok: "states_ok t" and cur: "cur (ch_chapter c) = state_of reader (ch_chapter c) t"
  obtains t' cur' res where "apply_change now reader c (t, cur) = Some ((t', cur'), res)" "states_ok t'"
    "\<And>a b. \<not> (a = reader \<and> b = ch_chapter c) \<Longrightarrow> state_of a b t' = state_of a b t"
    "shown reader (ch_chapter c) t' = told c (shown reader (ch_chapter c) t)" "\<And>d. d \<noteq> ch_chapter c \<Longrightarrow> cur' d = cur d"
proof (cases "state_of reader (ch_chapter c) t")
  case None
  let ?st = "new_state now reader c"
  show ?thesis
  proof (cases "ch_unread c \<or> \<not> ch_completed c \<and> ch_page c \<le> 0")
    case True
    show ?thesis by (rule that [of t cur OutcomeUnchanged]) (use True None cur ok in \<open>auto simp: apply_change_def shown_def told_def\<close>)
  next
    case False
    have st: "rs_reader_id ?st = reader" "rs_chapter_id ?st = ch_chapter c" by (simp_all add: new_state_def)
    note i = states_insert [OF ok None st]
    show ?thesis
      by (rule that [of "tinsert (\<lambda>i x. x\<lparr>rs_id := i\<rparr>) ?st t" cur OutcomeApplied])
        (use False None cur i in \<open>auto simp: apply_change_def shown_def told_def new_state_def\<close>)
  qed
next
  case (Some st)
  consider (unread) "ch_unread c" | (kept) "\<not> ch_unread c" "rs_completed st \<and> \<not> ch_completed c"
    | (same) "\<not> ch_unread c" "\<not> (rs_completed st \<and> \<not> ch_completed c)" "rs_completed st = ch_completed c \<and> (ch_page c \<le> 0 \<or> ch_page c = rs_page st)"
    | (new) "\<not> ch_unread c" "\<not> (rs_completed st \<and> \<not> ch_completed c)" "\<not> (rs_completed st = ch_completed c \<and> (ch_page c \<le> 0 \<or> ch_page c = rs_page st))"
    by blast
  then show ?thesis
  proof cases
    case unread
    note i = states_delete [OF ok Some]
    show ?thesis by (rule that [of "del_where (\<lambda>x. rs_id x = rs_id st) t" cur OutcomeUnread])
        (use unread Some cur i in \<open>auto simp: apply_change_def shown_def told_def\<close>)
  next
    case kept
    show ?thesis by (rule that [of t cur OutcomeKept]) (use kept Some cur ok in \<open>auto simp: apply_change_def shown_def told_def\<close>)
  next
    case same
    show ?thesis by (rule that [of t cur OutcomeUnchanged]) (use same Some cur ok in \<open>auto simp: apply_change_def shown_def told_def\<close>)
  next
    case new
    let ?v = "changed_state now c st"
    note i = states_update [OF ok Some, where v = ?v]
    have v: "rs_completed (write_state ?v st) = ch_completed c" "rs_page (write_state ?v st) = (if ch_page c > 0 then ch_page c else rs_page st)"
      by (simp_all add: write_state_def changed_state_def)
    have e: "apply_change now reader c (t, cur) = Some ((upd_where (\<lambda>x. rs_id x = rs_id st) (write_state ?v) t, cur(ch_chapter c \<mapsto> ?v)), OutcomeApplied)"
      using new Some cur by (simp add: apply_change_def Let_def changed_state_def)
    show ?thesis
    proof (rule that [OF e i(1)])
      show "shown reader (ch_chapter c) (upd_where (\<lambda>x. rs_id x = rs_id st) (write_state ?v) t) = told c (shown reader (ch_chapter c) t)"
        using new(1,2) v by (simp add: shown_def i(2) Some told_def)
      show "\<not> (a = reader \<and> b = ch_chapter c) \<Longrightarrow> state_of a b (upd_where (\<lambda>x. rs_id x = rs_id st) (write_state ?v) t) = state_of a b t" for a b
        unfolding i(2) by auto
    qed simp
  qed
qed

text \<open>The changes of a batch are to different chapters.\<close>

definition told_all :: "change list \<Rightarrow> int64 \<Rightarrow> seen \<Rightarrow> seen" where
  "told_all changes chapter s = (case find (\<lambda>c. ch_chapter c = chapter) changes of None \<Rightarrow> s | Some c \<Rightarrow> told c s)"

lemma apply_all_spec:
  assumes "states_ok t" and "distinct (map ch_chapter cs)" and "\<And>c. c \<in> set cs \<Longrightarrow> cur (ch_chapter c) = state_of reader (ch_chapter c) t"
  shows "\<exists>t' cur' out. apply_all now reader cs (t, cur) = Some ((t', cur'), out) \<and> states_ok t' \<and> map oc_change out = cs \<and>
    (\<forall>a b. shown a b t' = (if a = reader then told_all cs b (shown a b t) else shown a b t))"
  using assms
proof (induction cs arbitrary: t cur)
  case (Cons c cs)
  have "cur (ch_chapter c) = state_of reader (ch_chapter c) t" using Cons.prems(3) by simp
  from apply_change_spec [where reader = reader and c = c and now = now and cur = cur, OF Cons.prems(1) this] obtain t1 cur1 res where
    a: "apply_change now reader c (t, cur) = Some ((t1, cur1), res)" "states_ok t1"
      "\<And>a b. \<not> (a = reader \<and> b = ch_chapter c) \<Longrightarrow> state_of a b t1 = state_of a b t"
      "shown reader (ch_chapter c) t1 = told c (shown reader (ch_chapter c) t)" "\<And>d. d \<noteq> ch_chapter c \<Longrightarrow> cur1 d = cur d" by blast
  have "cur1 (ch_chapter d) = state_of reader (ch_chapter d) t1" if "d \<in> set cs" for d
  proof -
    have "ch_chapter d \<in> ch_chapter ` set cs" using that by (rule imageI)
    then have "ch_chapter d \<noteq> ch_chapter c" using Cons.prems(2) by auto
    then show ?thesis using a(3) [of reader "ch_chapter d"] a(5) Cons.prems(3) [of d] that by simp
  qed
  then obtain t' cur' out where
    i: "apply_all now reader cs (t1, cur1) = Some ((t', cur'), out)" "states_ok t'" "map oc_change out = cs"
      "\<And>a b. shown a b t' = (if a = reader then told_all cs b (shown a b t1) else shown a b t1)"
    using Cons.IH [OF a(2), of cur1] Cons.prems(2) by auto
  have n: "find (\<lambda>x. ch_chapter x = ch_chapter c) cs = None" using Cons.prems(2) by (auto simp: find_None_iff intro: rev_image_eqI)
  have s1: "shown x y t1 = (if x = reader \<and> y = ch_chapter c then told c (shown x y t) else shown x y t)" for x y
    using a(3) [of x y] a(4) by (auto simp: shown_def)
  have "shown x y t' = (if x = reader then told_all (c # cs) y (shown x y t) else shown x y t)" for x y
    unfolding i(4) s1 using n by (auto simp: told_all_def)
  then show ?case using a(1) i(1-3) by (intro exI [of _ t'] exI [of _ cur'] exI [of _ "\<lparr>oc_change = c, oc_result = res\<rparr> # out"]) simp
qed (simp add: told_all_def)

lemma logged_states [simp]:
  "pd_states (announce reader out by_whom s) = pd_states s" "pd_states (logOutcomes now reader out by_whom s) = pd_states s"
  by (simp_all add: announce_def logOutcomes_def Let_def)

lemma Record_spec:
  assumes "states_ok (pd_states s)" and "distinct (map ch_chapter changes)"
  shows "\<exists>s' out. Record_progress now reader changes by_whom s = (s', Some out) \<and> map oc_change out = changes \<and> states_ok (pd_states s') \<and>
    (\<forall>r chapter. seen_by r chapter s' = (if r = reader then told_all changes chapter (seen_by r chapter s) else seen_by r chapter s))"
proof (cases "changes = []")
  case True
  then show ?thesis using assms(1) by (simp add: Record_progress_def told_all_def)
next
  case False
  let ?cur = "known_states reader changes (pd_states s)"
  have "?cur (ch_chapter c) = state_of reader (ch_chapter c) (pd_states s)" if "c \<in> set changes" for c using that by (simp add: known_states_def)
  from apply_all_spec [OF assms this] obtain t' cur' out where
    a: "apply_all now reader changes (pd_states s, ?cur) = Some ((t', cur'), out)" "states_ok t'" "map oc_change out = changes"
      "\<And>a b. shown a b t' = (if a = reader then told_all changes b (shown a b (pd_states s)) else shown a b (pd_states s))" by blast
  have "seen_by r d x = shown r d (pd_states x)" for r d x by (simp add: seen_by_def shown_def)
  then show ?thesis using False a by (simp add: Record_progress_def record_tx_def)
qed


section \<open>Trackers\<close>

text \<open>The series of a read state is the one its chapter belongs to.\<close>

definition series_ok :: "(int64 \<Rightarrow> int64) \<Rightarrow> chapter_read_state table \<Rightarrow> bool" where
  "series_ok ser t \<longleftrightarrow> (\<forall>x \<in> set (rows t). rs_series_id x = ser (rs_chapter_id x))"

lemma apply_change_series:
  assumes "apply_change now reader c (t, cur) = Some ((t', cur'), res)" and "series_ok ser t" and "ch_series c = ser (ch_chapter c)"
  shows "series_ok ser t'"
proof -
  have "t' = t \<or> t' = tinsert (\<lambda>i x. x\<lparr>rs_id := i\<rparr>) (new_state now reader c) t \<or> (\<exists>P. t' = del_where P t) \<or>
      (\<exists>P v. t' = upd_where P (write_state v) t)"
    using assms(1) by (auto simp: apply_change_def Let_def split: option.splits if_splits)
  then show ?thesis
    using assms(2,3) by (auto simp: series_ok_def set_tinsert set_del_where set_upd_where new_state_def write_state_def)
qed

lemma apply_all_series:
  "apply_all now reader cs (t, cur) = Some ((t', cur'), out) \<Longrightarrow> series_ok ser t \<Longrightarrow> (\<And>c. c \<in> set cs \<Longrightarrow> ch_series c = ser (ch_chapter c)) \<Longrightarrow>
    series_ok ser t'"
proof (induction cs arbitrary: t cur out)
  case (Cons c cs)
  obtain t1 cur1 res where a: "apply_change now reader c (t, cur) = Some ((t1, cur1), res)"
    using Cons.prems(1) by (cases "apply_change now reader c (t, cur)") auto
  then obtain out' where "apply_all now reader cs (t1, cur1) = Some ((t', cur'), out')"
    using Cons.prems(1) by (auto split: option.splits)
  then show ?case
    by (rule Cons.IH) (use apply_change_series [OF a Cons.prems(2)] Cons.prems(3) in auto)
qed simp

lemma Record_series:
  assumes "Record_progress now reader cs by_whom s = (s', r)" and "series_ok ser (pd_states s)" and "\<And>c. c \<in> set cs \<Longrightarrow> ch_series c = ser (ch_chapter c)"
  shows "series_ok ser (pd_states s')"
proof -
  have "s' = s \<or> (\<exists>t cur out. apply_all now reader cs (pd_states s, known_states reader cs (pd_states s)) = Some ((t, cur), out) \<and> pd_states s' = t)"
    using assms(1) by (auto simp: Record_progress_def record_tx_def split: if_splits option.splits)
  then show ?thesis using apply_all_series [OF _ assms(2,3)] assms(2) by blast
qed

lemma finish_told: "told (finish series c) x \<noteq> None" "told (finish series c) x = Some (f, p) \<Longrightarrow> f"
  by (auto simp: told_def finish_def split: option.splits)

interpretation reading: weak_order reading_order
  by (rule weak_order_keyI [where key = "\<lambda>c. (c_number_sort c, c_id c)"]) (auto simp: reading_order_def)

lemma in_order:
  "sorted_wrt (\<lambda>a b. c_number_sort a \<le> c_number_sort b) (stable_sort reading_order xs)"
  by (rule sorted_wrt_mono_rel [OF _ reading.sort_sorted]) (auto simp: reading_order_def not_less)

text \<open>A run of finished chapters at the start.\<close>

lemma read_run_prefix:
  assumes "ps \<noteq> []" "\<And>c. c \<in> set ps \<Longrightarrow> \<not> not_finished c"
  shows "\<exists>qs. read_run (ps @ rs) = ps @ qs \<and> (\<exists>ts. rs = qs @ ts)" "takeWhile (\<lambda>c. ca_state c = None) (ps @ rs) = []"
proof -
  have h: "ca_state (hd ps) \<noteq> None" using assms(2) [of "hd ps"] assms(1) by (auto simp: not_finished_def split: option.splits)
  then show "takeWhile (\<lambda>c. ca_state c = None) (ps @ rs) = []" using assms(1) by (cases ps) simp_all
  have "dropWhile (\<lambda>c. ca_state c = None) (ps @ rs) = ps @ rs" using h assms(1) by (simp add: dropWhile_eq_self_iff)
  then have "read_run (ps @ rs) = ps @ takeWhile (\<lambda>c. \<not> not_finished c) rs"
    using assms(2) by (simp add: read_run_def takeWhile_append2)
  then show "\<exists>qs. read_run (ps @ rs) = ps @ qs \<and> (\<exists>ts. rs = qs @ ts)" by (metis takeWhile_dropWhile_id)
qed

definition at_state :: "int64 \<Rightarrow> int64 \<Rightarrow> progress_db \<Rightarrow> chapter_row \<Rightarrow> chapter_at" where
  "at_state reader series s c = \<lparr>ca_id = c_id c, ca_number = c_number_sort c,
     ca_state = (case state_of reader (c_id c) (pd_states s) of
                   None \<Rightarrow> None
                 | Some st \<Rightarrow> if rs_series_id st = series then Some st else None)\<rparr>"

lemma seriesStates_at:
  "seriesStates True chapters reader series s =
    Some (map (at_state reader series s) (stable_sort reading_order (filter (\<lambda>c. c_series_id c = series) chapters)))"
  by (simp add: seriesStates_def at_state_def)

lemma at_state_simps [simp]: "ca_id (at_state reader series s c) = c_id c" "ca_number (at_state reader series s c) = c_number_sort c"
  by (simp_all add: at_state_def)

lemma finished_seen:
  assumes "states_ok (pd_states s)" "series_ok ser (pd_states s)" "ser (c_id c) = series"
  shows "not_finished (at_state reader series s c) \<longleftrightarrow> \<not> (\<exists>p. seen_by reader (c_id c) s = Some (True, p))"
proof (cases "state_of reader (c_id c) (pd_states s)")
  case None
  then show ?thesis by (simp add: at_state_def not_finished_def seen_by_def)
next
  case (Some st)
  then have "rs_series_id st = series" using assms unfolding state_of_iff [OF assms(1)] series_ok_def by auto
  with Some show ?thesis by (auto simp: at_state_def not_finished_def seen_by_def)
qed

lemma sorted_number_split:
  assumes "sorted_wrt (\<lambda>a b. c_number_sort a \<le> c_number_sort b) cs"
  shows "takeWhile (\<lambda>c. c_number_sort c \<le> n) cs = filter (\<lambda>c. c_number_sort c \<le> n) cs"
  using assms
proof (induction cs)
  case (Cons c cs)
  have "filter (\<lambda>c. c_number_sort c \<le> n) cs = []" if "\<not> c_number_sort c \<le> n"
    using Cons.prems that by (force simp: filter_empty_conv)
  with Cons show ?case by simp
qed simp

lemma sorted_last: "sorted_wrt (\<lambda>a b. f a \<le> f b) xs \<Longrightarrow> x \<in> set xs \<Longrightarrow> f x \<le> (f (last xs) :: 'k::linorder)"
  by (induction xs) auto


section \<open>Examples and witnesses\<close>

text \<open>Three chapters of series 9; reader 1 is on page 5 of the first.\<close>

definition ex_chapter :: "int64 \<Rightarrow> float64 \<Rightarrow> chapter_row" where
  "ex_chapter i n = \<lparr>c_id = i, c_series_id = 9, c_number_key = [], c_number_sort = n, c_volume = [], c_title = [], c_monitored = True,
     c_state = ChapterImported, c_file_id = None, c_cleaned_at = None, c_release_date = None, c_first_seen_at = 0, c_updated_at = 0\<rparr>"

definition ex_chapters :: "chapter_row list" where
  "ex_chapters = [ex_chapter 3 (21/2), ex_chapter 1 1, ex_chapter 2 2]"

definition ex_progress :: progress_db where
  "ex_progress = \<lparr>pd_states = \<lparr>rows = [\<lparr>rs_id = 1, rs_reader_id = 1, rs_chapter_id = 1, rs_series_id = 9, rs_completed = False, rs_page = 5,
       rs_read_at = None, rs_synced_at = 0, rs_origin = ReadOriginApp\<rparr>], seq = 1\<rparr>, pd_events = \<lparr>rows = [], seq = 0\<rparr>, pd_announced = []\<rparr>"

definition ex_phone :: reporter where
  "ex_phone = \<lparr>by_origin = ''app'', by_client = ''Mihon'', by_device = ''phone''\<rparr>"

definition ex_page :: "int64 \<Rightarrow> int \<Rightarrow> bool \<Rightarrow> change" where
  "ex_page i n completed = \<lparr>ch_chapter = i, ch_series = 9, ch_completed = completed, ch_page = n, ch_unread = False\<rparr>"

lemma ex_progress_ok: "states_ok (pd_states ex_progress)" "series_ok (\<lambda>_. 9) (pd_states ex_progress)"
  by (simp_all add: states_ok_def twf_def series_ok_def ex_progress_def)

lemma ex_tracked:
  "map_option (\<lambda>p. (sp_read p, sp_unread p, sp_last p, sp_last_index p))
     (Progress True ex_chapters 1 9 (fst (MarkReadUpTo 100 True ex_chapters 1 9 2 ex_phone ex_progress))) = Some (2, 1, 2, 2)"
  by code_simp

text \<open>
  The states are read before the transaction.  When another device finishes the chapter in between,
  a page report un-finishes it; and of two first reports the second fails on the unique index.
\<close>

lemma page_report_unfinishes:
  "seen_by 1 1 (fst (Record_progress 100 1 [ex_page 1 0 True] ex_phone ex_progress)) = Some (True, 5)"
  "seen_by 1 1 (fst (record_tx 101 1 [ex_page 1 6 False] ex_phone (known_states 1 [ex_page 1 6 False] (pd_states ex_progress))
     (fst (Record_progress 100 1 [ex_page 1 0 True] ex_phone ex_progress)))) = Some (False, 6)"
  by code_simp+

lemma first_reports_collide:
  "snd (record_tx 101 1 [ex_page 2 1 False] ex_phone (known_states 1 [ex_page 2 1 False] (pd_states ex_progress))
     (fst (Record_progress 100 1 [ex_page 2 1 False] ex_phone ex_progress))) = None"
  by code_simp



end
