(* ===== verification/Cleanup.thy ===== *)
theory Cleanup
  imports Searcher
begin

text \<open>
  Cleanup (\<open>internal/cleanup/cleanup.go\<close>): which chapters every required reader has finished, the
  plan over the library, removing their files, and restoring.  The folder of a series, free space and
  the outcome of deleting a file are parameters; so is the order of equal elements after \<open>sort.Slice\<close>,
  which is not stable: the sort is any function that sorts by chapter number.
\<close>

section \<open>The rules for one series\<close>

record rules =
  ru_enabled :: bool
  ru_statuses :: "string list"
  ru_required_readers :: "int64 list"
  ru_ignore_not_started :: bool
  ru_keep_last_read :: int
  ru_grace_days :: int

record chapter_data =
  cd_chapter :: chapter_row
  cd_file :: chapter_file

record series_data =
  sd_series :: series
  sd_chapters :: "chapter_data list"
  sd_states :: "chapter_read_state list"

record cleanup_candidate =
  cn_series_id :: int64
  cn_series_title :: string
  cn_chapter_id :: int64
  cn_chapter :: string
  cn_file_id :: int64
  cn_path :: string
  cn_size :: int64
  cn_last_read_at :: time

datatype skip_reason = CleanupDisabled | StatusOutOfScope | NoReaderStarted | NothingFinished | KeepingLast int | WithinGrace int
  | EnoughSpace string | TaggedWith string

definition status_name :: "series_status \<Rightarrow> string" where
  "status_name s = (case s of StatusUnknown \<Rightarrow> ''unknown'' | StatusOngoing \<Rightarrow> ''ongoing'' | StatusCompleted \<Rightarrow> ''completed''
     | StatusHiatus \<Rightarrow> ''hiatus'' | StatusCancelled \<Rightarrow> ''cancelled'')"

definition contains_fold :: "string list \<Rightarrow> string \<Rightarrow> bool" where
  "contains_fold xs s \<longleftrightarrow> list_ex (\<lambda>x. equal_fold x s) xs"

text \<open>The map of states by chapter and reader; a later row of the same two replaces the earlier.\<close>

definition read_state :: "series_data \<Rightarrow> int64 \<Rightarrow> int64 \<Rightarrow> chapter_read_state option" where
  "read_state sd chapter reader = find (\<lambda>st. rs_chapter_id st = chapter \<and> rs_reader_id st = reader) (rev (sd_states sd))"

definition has_started :: "series_data \<Rightarrow> int64 \<Rightarrow> bool" where
  "has_started sd reader \<longleftrightarrow>
     list_ex (\<lambda>x. rs_reader_id x = reader \<and>
        (case read_state sd (rs_chapter_id x) reader of None \<Rightarrow> False | Some st \<Rightarrow> rs_completed st \<or> rs_page st > 0)) (sd_states sd)"

definition required_readers :: "rules \<Rightarrow> series_data \<Rightarrow> int64 list" where
  "required_readers r sd = (if ru_ignore_not_started r then filter (has_started sd) (ru_required_readers r) else ru_required_readers r)"

definition read_time :: "chapter_read_state \<Rightarrow> time" where
  "read_time st = (case rs_read_at st of None \<Rightarrow> rs_synced_at st | Some t \<Rightarrow> t)"

text \<open>The loop over the required readers: the latest time one finished the chapter, if all did.\<close>

fun last_read :: "(int64 \<Rightarrow> chapter_read_state option) \<Rightarrow> time \<Rightarrow> int64 list \<Rightarrow> time option" where
  "last_read by_reader t [] = Some t"
| "last_read by_reader t (rid # rs) =
     (case by_reader rid of
        None \<Rightarrow> None
      | Some st \<Rightarrow>
          if \<not> rs_completed st then None else last_read by_reader (if read_time st > t then read_time st else t) rs)"

type_synonym finished = "(chapter_data \<times> time) list"

definition completed_chapters :: "int64 list \<Rightarrow> series_data \<Rightarrow> finished" where
  "completed_chapters required sd =
     List.map_filter (\<lambda>cd. map_option (\<lambda>t. (cd, t)) (last_read (read_state sd (c_id (cd_chapter cd))) 0 required)) (sd_chapters sd)"

definition candidate_of :: "series_data \<Rightarrow> chapter_data \<times> time \<Rightarrow> cleanup_candidate" where
  "candidate_of sd x =
     \<lparr>cn_series_id = s_id (sd_series sd), cn_series_title = s_title (sd_series sd), cn_chapter_id = c_id (cd_chapter (fst x)),
      cn_chapter = c_number_key (cd_chapter (fst x)), cn_file_id = f_id (cd_file (fst x)), cn_path = [], cn_size = f_size (cd_file (fst x)),
      cn_last_read_at = snd x\<rparr>"

text \<open>
  \<open>time.Duration(r.GraceDays) * 24 * time.Hour\<close> wraps at 64 bits, and \<open>Sub\<close> saturates; the zero
  time is \<open>0\<close>.
\<close>

definition grace_of :: "int \<Rightarrow> duration" where
  "grace_of days = signed_take_bit 63 (days * 24 * hour)"

definition time_sub :: "time \<Rightarrow> time \<Rightarrow> duration" where
  "time_sub a b = max (- (2 ^ 63)) (min (2 ^ 63 - 1) (a - b))"

definition Evaluate_cleanup :: "(finished \<Rightarrow> finished) \<Rightarrow> rules \<Rightarrow> series_data \<Rightarrow> time \<Rightarrow> skip_reason + cleanup_candidate list" where
  "Evaluate_cleanup srt r sd now =
     (let required = required_readers r sd; done_ones = completed_chapters required sd; keep = max (ru_keep_last_read r) 0 in
      if \<not> ru_enabled r then Inl CleanupDisabled
      else if ru_statuses r \<noteq> [] \<and> \<not> contains_fold (ru_statuses r) (status_name (s_status (sd_series sd))) then Inl StatusOutOfScope
      else if required = [] then Inl NoReaderStarted
      else if done_ones = [] then Inl NothingFinished
      else if keep \<ge> int (length done_ones) then Inl (KeepingLast keep)
      else
        let out = filter (\<lambda>x. \<not> time_sub now (snd x) < grace_of (ru_grace_days r)) (take (length done_ones - nat keep) (srt done_ones))
        in if out = [] then Inl (WithinGrace (ru_grace_days r)) else Inr (map (candidate_of sd) out))"

section \<open>The plan\<close>

record cleanup_settings =
  cu_enabled :: bool
  cu_dry_run :: bool
  cu_statuses :: "string list"
  cu_reader_ids :: "int64 list"
  cu_ignore_not_started :: bool
  cu_keep_last_read :: int
  cu_grace_days :: int
  cu_min_free_gb :: int
  cu_exclude_tags :: "string list"
  cu_recycle :: bool

text \<open>
  The tables a plan reads besides the chapters and files, the folder of a series (\<open>None\<close>: an error),
  and the free bytes at a path.
\<close>

record cleanup_env =
  ce_settings :: cleanup_settings
  ce_series :: "series table"
  ce_profiles :: "profile table"
  ce_readers :: "reader list"
  ce_tags :: "(int64 \<times> string) list"
  ce_roots :: "(int64 \<times> string) list"
  ce_states :: "chapter_read_state table"
  ce_free :: "string \<Rightarrow> int option"
  ce_dir :: "series \<Rightarrow> string option"
  ce_sort :: "finished \<Rightarrow> finished"
  ce_delete :: "bool \<Rightarrow> string \<Rightarrow> string option"

record cleaner =
  cl_q :: queue_state
  cl_files :: "chapter_file table"
  cl_disk :: "string list"
  cl_recycled :: "string list"
  cl_written :: "(int64 \<times> string) list"

record cleanup_plan =
  cp_enabled :: bool
  cp_dry_run :: bool
  cp_candidates :: "cleanup_candidate list"
  cp_skipped :: "(int64 \<times> string \<times> skip_reason) list"
  cp_total_size :: int64

definition required_of :: "cleanup_settings \<Rightarrow> reader list \<Rightarrow> int64 list" where
  "required_of cs readers =
     map rd_id (filter (\<lambda>r. rd_count_for_cleanup r \<and> (cu_reader_ids cs \<noteq> [] \<longrightarrow> rd_id r \<in> set (cu_reader_ids cs))) readers)"

definition rules_for :: "cleanup_env \<Rightarrow> series \<Rightarrow> rules" where
  "rules_for E s =
     (let cs = ce_settings E;
          dflt = \<lparr>ru_enabled = cu_enabled cs, ru_statuses = cu_statuses cs, ru_required_readers = required_of cs (ce_readers E),
                   ru_ignore_not_started = cu_ignore_not_started cs, ru_keep_last_read = cu_keep_last_read cs, ru_grace_days = cu_grace_days cs\<rparr>
      in case tget pr_id (s_profile_id s) (ce_profiles E) of
           None \<Rightarrow> dflt
         | Some p \<Rightarrow>
             let o' = pc_cleanup (pr_config p)
             in dflt\<lparr>ru_enabled := (case co_enabled o' of None \<Rightarrow> ru_enabled dflt | Some b \<Rightarrow> b),
                     ru_keep_last_read := (case co_keep_last_read o' of None \<Rightarrow> ru_keep_last_read dflt | Some n \<Rightarrow> n),
                     ru_grace_days := (case co_grace_days o' of None \<Rightarrow> ru_grace_days dflt | Some n \<Rightarrow> n)\<rparr>)"

definition GiB :: int where "GiB = 1073741824"

definition root_skip :: "cleanup_env \<Rightarrow> int64 \<Rightarrow> skip_reason option" where
  "root_skip E rf =
     (if cu_min_free_gb (ce_settings E) \<le> 0 then None
      else case map_of (ce_roots E) rf of
             None \<Rightarrow> None
           | Some path \<Rightarrow>
               (case ce_free E path of
                  None \<Rightarrow> None
                | Some free \<Rightarrow> if free \<ge> (cu_min_free_gb (ce_settings E) * GiB) mod 2 ^ 64 then Some (EnoughSpace path) else None))"

definition tag_label :: "(int64 \<times> string) list \<Rightarrow> int64 \<Rightarrow> string" where
  "tag_label tags i = (case map_of (rev tags) i of None \<Rightarrow> [] | Some l \<Rightarrow> l)"

definition excludedTag :: "int64 list \<Rightarrow> (int64 \<times> string) list \<Rightarrow> string list \<Rightarrow> string" where
  "excludedTag ids tags excluded =
     (case find (\<lambda>i. contains_fold excluded (tag_label tags i)) ids of None \<Rightarrow> [] | Some i \<Rightarrow> tag_label tags i)"

definition loadSeries :: "cleanup_env \<Rightarrow> cleaner \<Rightarrow> series \<Rightarrow> series_data" where
  "loadSeries E c s =
     \<lparr>sd_series = s,
      sd_chapters = List.map_filter (\<lambda>ch.
         case c_file_id ch of None \<Rightarrow> None | Some f \<Rightarrow> map_option (\<lambda>f. \<lparr>cd_chapter = ch, cd_file = f\<rparr>) (tget f_id f (cl_files c)))
         (filter (\<lambda>ch. c_series_id ch = s_id s) (rows (q_chapters (cl_q c)))),
      sd_states = filter (\<lambda>st. rs_series_id st = s_id s) (rows (ce_states E))\<rparr>"

text \<open>\<open>filepath.Join\<close> of a folder and a clean relative path: no folder leaves the relative path.\<close>

definition join_path :: "string option \<Rightarrow> string \<Rightarrow> string" where
  "join_path dir rel = (case dir of None \<Rightarrow> rel | Some d \<Rightarrow> if d = [] then rel else d @ ''/'' @ rel)"

definition with_path :: "cleanup_env \<Rightarrow> series_data \<Rightarrow> cleanup_candidate \<Rightarrow> cleanup_candidate" where
  "with_path E sd cd =
     (case find (\<lambda>ch. c_id (cd_chapter ch) = cn_chapter_id cd) (rev (sd_chapters sd)) of
        None \<Rightarrow> cd
      | Some ch \<Rightarrow> cd\<lparr>cn_path := join_path (ce_dir E (sd_series sd)) (f_relative_path (cd_file ch))\<rparr>)"

definition plan_series :: "time \<Rightarrow> cleanup_env \<Rightarrow> cleaner \<Rightarrow> series \<Rightarrow> cleanup_plan \<Rightarrow> cleanup_plan" where
  "plan_series now E c s p =
     (let r = rules_for E s; skip = (\<lambda>why. p\<lparr>cp_skipped := cp_skipped p @ [(s_id s, s_title s, why)]\<rparr>);
          tag = excludedTag (s_tags s) (ce_tags E) (cu_exclude_tags (ce_settings E)); sd = loadSeries E c s
      in if \<not> ru_enabled r then p
         else case root_skip E (s_root_folder_id s) of
                Some why \<Rightarrow> skip why
              | None \<Rightarrow>
                  if tag \<noteq> [] then skip (TaggedWith tag)
                  else
                    (case Evaluate_cleanup (ce_sort E) r sd now of
                       Inl why \<Rightarrow> skip why
                     | Inr cands \<Rightarrow>
                         let cands = map (with_path E sd) cands
                         in p\<lparr>cp_candidates := cp_candidates p @ cands, cp_total_size := cp_total_size p + sum_list (map cn_size cands)\<rparr>))"

definition Plan :: "time \<Rightarrow> cleanup_env \<Rightarrow> cleaner \<Rightarrow> cleanup_plan" where
  "Plan now E c =
     fold (plan_series now E c) (stable_sort (\<lambda>a b. s_sort_title a < s_sort_title b) (rows (ce_series E)))
       \<lparr>cp_enabled = cu_enabled (ce_settings E), cp_dry_run = cu_dry_run (ce_settings E), cp_candidates = [], cp_skipped = [], cp_total_size = 0\<rparr>"

section \<open>Removing\<close>

definition base_name :: "string \<Rightarrow> string" where
  "base_name p = (if p = [] then ''.'' else rev (takeWhile (\<lambda>ch. ch \<noteq> CHR ''/'') (rev p)))"

definition drop_file :: "cleanup_env \<Rightarrow> bool \<Rightarrow> string \<Rightarrow> cleaner \<Rightarrow> string + cleaner" where
  "drop_file E recycle path c =
     (if path \<notin> set (cl_disk c) then Inr c
      else case ce_delete E recycle path of
             Some e \<Rightarrow> Inl e
           | None \<Rightarrow> Inr (c\<lparr>cl_disk := filter (\<lambda>p. p \<noteq> path) (cl_disk c),
                              cl_recycled := (if recycle then cl_recycled c @ [path] else cl_recycled c)\<rparr>))"

definition forget_file :: "time \<Rightarrow> cleanup_candidate \<Rightarrow> bool \<Rightarrow> history_event \<Rightarrow> cleaner \<Rightarrow> cleaner" where
  "forget_file now cd recycle event c =
     (let data = [(''size'', format_int (cn_size cd)), (''recycled'', boolStr recycle)] @ (if event = HistoryDeleted then [(''reason'', ''manual'')] else []);
          q = cl_q c;
          q = q\<lparr>q_chapters := upd_where (\<lambda>ch. c_id ch = cn_chapter_id cd)
                  (\<lambda>ch. ch\<lparr>c_file_id := None, c_state := ChapterCleaned, c_cleaned_at := Some now, c_updated_at := now\<rparr>) (q_chapters q)\<rparr>
      in c\<lparr>cl_files := del_where (\<lambda>f. f_id f = cn_file_id cd) (cl_files c),
           cl_q := Record now (cn_series_id cd) (Some (cn_chapter_id cd)) event (base_name (cn_path cd)) data q\<rparr>)"

definition remove_candidate :: "time \<Rightarrow> cleanup_env \<Rightarrow> cleanup_candidate \<Rightarrow> bool \<Rightarrow> history_event \<Rightarrow> cleaner \<Rightarrow> cleaner \<times> string option" where
  "remove_candidate now E cd recycle event c =
     (case tget s_id (cn_series_id cd) (ce_series E) of
        None \<Rightarrow> (c, Some ''sql: no rows in result set'')
      | Some s \<Rightarrow>
          (case drop_file E recycle (cn_path cd) c of
             Inl e \<Rightarrow> (c, Some e)
           | Inr c \<Rightarrow>
               let c = forget_file now cd recycle event c
               in (c\<lparr>cl_written := cl_written c @ [(cn_series_id cd, cn_path cd)],
                     cl_q := changed ''chapter'' ''updated'' (cn_chapter_id cd) (cl_q c)\<rparr>, None)))"

fun remove_all_of :: "time \<Rightarrow> cleanup_env \<Rightarrow> bool \<Rightarrow> history_event \<Rightarrow> cleanup_candidate list \<Rightarrow> cleaner \<Rightarrow> cleaner \<times> cleanup_candidate list \<times> string list" where
  "remove_all_of now E recycle event [] c = (c, [], [])"
| "remove_all_of now E recycle event (cd # cds) c =
     (case remove_candidate now E cd recycle event c of
        (c, Some e) \<Rightarrow> (case remove_all_of now E recycle event cds c of (c, ok, errs) \<Rightarrow> (c, ok, e # errs))
      | (c, None) \<Rightarrow> (case remove_all_of now E recycle event cds c of (c, ok, errs) \<Rightarrow> (c, cd # ok, errs)))"

definition Run_cleanup :: "time \<Rightarrow> cleanup_env \<Rightarrow> bool \<Rightarrow> cleaner \<Rightarrow> cleaner \<times> cleanup_plan \<times> nat \<times> string list" where
  "Run_cleanup now E force c =
     (let plan = Plan now E c in
      if cp_candidates plan = [] \<or> cp_dry_run plan \<and> \<not> force then (c, plan, 0, [])
      else
        (case remove_all_of now E (cu_recycle (ce_settings E)) HistoryCleaned (cp_candidates plan) c of
           (c, ok, errs) \<Rightarrow> (c, plan, length ok, errs)))"

record remove_result =
  rr_requested :: nat
  rr_removed :: nat
  rr_skipped :: nat
  rr_freed :: int64

text \<open>The rows of the query: chapters with a file and no unfinished job, with their series.\<close>

definition removable :: "cleanup_env \<Rightarrow> cleaner \<Rightarrow> chapter_row \<Rightarrow> (series \<times> chapter_row \<times> chapter_file) option" where
  "removable E c ch =
     (case (tget s_id (c_series_id ch) (ce_series E), c_file_id ch) of
        (Some s, Some f) \<Rightarrow>
          (case tget f_id f (cl_files c) of
             None \<Rightarrow> None
           | Some f \<Rightarrow>
               if list_ex (\<lambda>j. j_chapter_id j = c_id ch \<and> j_status j \<notin> {JobCompleted, JobFailed}) (rows (q_jobs (cl_q c))) then None
               else Some (s, ch, f))
      | _ \<Rightarrow> None)"

definition removal :: "cleanup_env \<Rightarrow> series \<times> chapter_row \<times> chapter_file \<Rightarrow> cleanup_candidate option" where
  "removal E x =
     (case x of (s, ch, f) \<Rightarrow>
        map_option (\<lambda>dir. \<lparr>cn_series_id = s_id s, cn_series_title = s_title s, cn_chapter_id = c_id ch, cn_chapter = c_number_key ch,
             cn_file_id = f_id f, cn_path = join_path (Some dir) (f_relative_path f), cn_size = f_size f, cn_last_read_at = 0\<rparr>) (ce_dir E s))"

definition RemoveChapters :: "time \<Rightarrow> cleanup_env \<Rightarrow> int64 list \<Rightarrow> cleaner \<Rightarrow> cleaner \<times> remove_result \<times> bool" where
  "RemoveChapters now E chapterIDs c =
     (let ids = remdups (filter (\<lambda>i. i > 0) chapterIDs);
          none = \<lparr>rr_requested = length ids, rr_removed = 0, rr_skipped = 0, rr_freed = 0\<rparr> in
      if ids = [] then (c, none, True)
      else if length ids > 1000 then (c, none, False)
      else
        let found = List.map_filter (removable E c) (filter (\<lambda>ch. c_id ch \<in> set ids) (rows (q_chapters (cl_q c))));
            cands = List.map_filter (removal E) found
        in case remove_all_of now E (cu_recycle (ce_settings E)) HistoryDeleted cands c of
             (c, ok, errs) \<Rightarrow>
               let failed = length found - length cands + length errs
               in (c, none\<lparr>rr_removed := length ok, rr_skipped := (length ids - length found) + failed, rr_freed := sum_list (map cn_size ok)\<rparr>,
                   failed = 0))"

definition Restore_chapter :: "time \<Rightarrow> int64 \<Rightarrow> cleaner \<Rightarrow> cleaner \<times> chapter_row option" where
  "Restore_chapter now chapterID c =
     (case tget c_id chapterID (q_chapters (cl_q c)) of
        None \<Rightarrow> (c, None)
      | Some ch \<Rightarrow>
          if c_state ch \<noteq> ChapterCleaned then (c, Some ch)
          else
            let back = (\<lambda>ch. ch\<lparr>c_state := ChapterMissing, c_cleaned_at := None, c_monitored := True, c_updated_at := now\<rparr>);
                q = (cl_q c)\<lparr>q_chapters := upd_where (\<lambda>x. c_id x = c_id ch) back (q_chapters (cl_q c))\<rparr>;
                q = Record now (c_series_id ch) (Some (c_id ch)) HistoryRestored [] [] q
            in (c\<lparr>cl_q := changed ''chapter'' ''updated'' (c_id ch) q\<rparr>, Some (back ch)))"

section \<open>What a cleanup may remove\<close>

lemma last_read_Some:
  "last_read f t rs = Some u \<Longrightarrow>
     t \<le> u \<and> (\<forall>r \<in> set rs. \<exists>st. f r = Some st \<and> rs_completed st \<and> read_time st \<le> u)"
proof (induction rs arbitrary: t)
  case (Cons a rs)
  then obtain st where st: "f a = Some st" "rs_completed st"
    "last_read f (if read_time st > t then read_time st else t) rs = Some u" by (auto split: option.splits if_splits)
  from Cons.IH [OF st(3)] st(1,2) show ?case by (auto split: if_splits)
qed simp

lemma last_read_None:
  "last_read f t rs = None \<longleftrightarrow> \<not> (\<forall>r \<in> set rs. \<exists>st. f r = Some st \<and> rs_completed st)"
  by (induction rs arbitrary: t) (auto split: option.splits)

lemma grace_of_small: "0 \<le> d \<Longrightarrow> d \<le> 106751 \<Longrightarrow> grace_of d = d * 24 * hour"
  by (simp add: grace_of_def hour_def signed_take_bit_int_eq_self)

text \<open>A setting of 106752 days and more wraps: such a grace period is negative.\<close>

lemma grace_overflows: "grace_of 106752 < 0" "grace_of 999999 < 0"
  by code_simp+

text \<open>Every required reader finished the chapter, the last of them at least the grace period ago.\<close>

definition finished_long_ago :: "rules \<Rightarrow> series_data \<Rightarrow> time \<Rightarrow> int64 \<Rightarrow> bool" where
  "finished_long_ago r sd now chapter \<longleftrightarrow>
     required_readers r sd \<noteq> [] \<and>
     (\<forall>rid \<in> set (required_readers r sd). \<exists>st. read_state sd chapter rid = Some st \<and> rs_completed st
        \<and> now - read_time st \<ge> ru_grace_days r * 24 * hour)"

lemma completed_chapters_iff:
  "x \<in> set (completed_chapters required sd) \<longleftrightarrow>
     fst x \<in> set (sd_chapters sd) \<and> last_read (read_state sd (c_id (cd_chapter (fst x)))) 0 required = Some (snd x)"
  by (cases x) (auto simp: completed_chapters_def List.map_filter_def image_iff)

lemma time_sub_grace:
  assumes "\<not> time_sub now t < grace_of d" and "0 \<le> d" and "d \<le> 106751"
  shows "d * 24 * hour \<le> now - t"
  using assms by (auto simp: time_sub_def grace_of_small hour_def min_def max_def split: if_splits)

definition sorts :: "(finished \<Rightarrow> finished) \<Rightarrow> bool" where
  "sorts srt \<longleftrightarrow> (\<forall>xs. mset (srt xs) = mset xs \<and> sorted (map (\<lambda>x. c_number_sort (cd_chapter (fst x))) (srt xs)))"

lemma Evaluate_cleanup_Inr:
  assumes "Evaluate_cleanup srt r sd now = Inr cands"
  shows "ru_enabled r" and "required_readers r sd \<noteq> []"
    and "cands = map (candidate_of sd) (filter (\<lambda>x. \<not> time_sub now (snd x) < grace_of (ru_grace_days r))
           (take (length (completed_chapters (required_readers r sd) sd) - nat (max (ru_keep_last_read r) 0))
             (srt (completed_chapters (required_readers r sd) sd))))"
    and "max (ru_keep_last_read r) 0 < int (length (completed_chapters (required_readers r sd) sd))"
    and "ru_statuses r = [] \<or> contains_fold (ru_statuses r) (status_name (s_status (sd_series sd)))"
  using assms by (auto simp: Evaluate_cleanup_def Let_def split: if_splits)

lemma Evaluate_cleanup_finished:
  assumes ev: "Evaluate_cleanup srt r sd now = Inr cands" and so: "sorts srt"
    and days: "0 \<le> ru_grace_days r" "ru_grace_days r \<le> 106751" and cand: "cn \<in> set cands"
  shows "\<exists>cd \<in> set (sd_chapters sd). cn_chapter_id cn = c_id (cd_chapter cd) \<and> cn_file_id cn = f_id (cd_file cd)
           \<and> cn_series_id cn = s_id (sd_series sd) \<and> finished_long_ago r sd now (c_id (cd_chapter cd))"
proof -
  let ?all = "completed_chapters (required_readers r sd) sd"
  obtain x where x: "x \<in> set (srt ?all)" "\<not> time_sub now (snd x) < grace_of (ru_grace_days r)" "cn = candidate_of sd x"
    using cand Evaluate_cleanup_Inr(3) [OF ev] by (auto dest: in_set_takeD)
  have "x \<in> set ?all" using x(1) so by (metis sorts_def set_mset_mset)
  then have m: "fst x \<in> set (sd_chapters sd)"
    "last_read (read_state sd (c_id (cd_chapter (fst x)))) 0 (required_readers r sd) = Some (snd x)"
    by (simp_all add: completed_chapters_iff)
  have "finished_long_ago r sd now (c_id (cd_chapter (fst x)))"
    using last_read_Some [OF m(2)] time_sub_grace [OF x(2) days] Evaluate_cleanup_Inr(2) [OF ev]
    by (fastforce simp: finished_long_ago_def)
  then show ?thesis using m(1) x(3) by (auto simp: candidate_of_def)
qed

text \<open>
  C24: What the rules leave alone: when an evaluation proposes candidates, the chapters every required
  reader has finished are the candidates' ones and the kept ones, where exactly the configured number
  of them is kept, none of the kept ones comes before a candidate, and each candidate was finished by
  every required reader (there is one) at least the grace period ago.  A grace period up to 106751
  days is meant; a longer one overflows.
\<close>

theorem cleanup_exact:
  assumes "Evaluate_cleanup srt r sd now = Inr cands" and "sorts srt" and "0 \<le> ru_grace_days r" and "ru_grace_days r \<le> 106751"
  shows "\<exists>gone kept. mset (completed_chapters (required_readers r sd) sd) = mset (gone @ kept)
      \<and> int (length kept) = max (ru_keep_last_read r) 0
      \<and> (\<forall>x \<in> set gone. \<forall>y \<in> set kept. c_number_sort (cd_chapter (fst x)) \<le> c_number_sort (cd_chapter (fst y)))
      \<and> cands = map (candidate_of sd) (filter (\<lambda>x. ru_grace_days r * 24 * hour \<le> time_sub now (snd x)) gone)
      \<and> (\<forall>cn \<in> set cands. finished_long_ago r sd now (cn_chapter_id cn))"
proof -
  let ?all = "completed_chapters (required_readers r sd) sd"
  let ?n = "length ?all - nat (max (ru_keep_last_read r) 0)"
  let ?num = "\<lambda>x. c_number_sort (cd_chapter (fst x))"
  have ms: "mset (srt ?all) = mset ?all" and so: "sorted (map ?num (srt ?all))" using assms(2) by (auto simp: sorts_def)
  have len: "length (srt ?all) = length ?all" using ms by (metis size_mset)
  have keep: "nat (max (ru_keep_last_read r) 0) < length ?all" using Evaluate_cleanup_Inr(4) [OF assms(1)] by linarith
  have "sorted (map ?num (take ?n (srt ?all)) @ map ?num (drop ?n (srt ?all)))"
    using so by (metis append_take_drop_id map_append)
  then have le: "\<forall>x \<in> set (take ?n (srt ?all)). \<forall>y \<in> set (drop ?n (srt ?all)). ?num x \<le> ?num y"
    by (auto simp: sorted_append)
  have l: "int (length (drop ?n (srt ?all))) = max (ru_keep_last_read r) 0" using len keep by simp
  have c: "cands = map (candidate_of sd) (filter (\<lambda>x. ru_grace_days r * 24 * hour \<le> time_sub now (snd x)) (take ?n (srt ?all)))"
    using Evaluate_cleanup_Inr(3) [OF assms(1)] by (simp add: grace_of_small [OF assms(3,4)] not_less)
  have f: "\<forall>cn \<in> set cands. finished_long_ago r sd now (cn_chapter_id cn)"
    using Evaluate_cleanup_finished [OF assms] by fastforce
  have "mset ?all = mset (take ?n (srt ?all) @ drop ?n (srt ?all))" using ms by simp
  with le l c f show ?thesis by blast
qed

section \<open>The plan and the run\<close>

text \<open>A chapter of a series that the rules of the series allow to remove.\<close>

definition may_remove :: "time \<Rightarrow> cleanup_env \<Rightarrow> cleaner \<Rightarrow> cleanup_candidate \<Rightarrow> bool" where
  "may_remove now E c cn \<longleftrightarrow>
     (\<exists>s \<in> set (rows (ce_series E)). \<exists>cd \<in> set (sd_chapters (loadSeries E c s)).
        ru_enabled (rules_for E s) \<and> root_skip E (s_root_folder_id s) = None
        \<and> excludedTag (s_tags s) (ce_tags E) (cu_exclude_tags (ce_settings E)) = []
        \<and> cn_series_id cn = s_id s \<and> cn_chapter_id cn = c_id (cd_chapter cd) \<and> cn_file_id cn = f_id (cd_file cd)
        \<and> finished_long_ago (rules_for E s) (loadSeries E c s) now (c_id (cd_chapter cd)))"

definition sane_rules :: "cleanup_env \<Rightarrow> bool" where
  "sane_rules E \<longleftrightarrow> sorts (ce_sort E) \<and>
     (\<forall>s \<in> set (rows (ce_series E)). 0 \<le> ru_grace_days (rules_for E s) \<and> ru_grace_days (rules_for E s) \<le> 106751)"

lemma with_path_frames [simp]:
  "cn_series_id (with_path E sd cn) = cn_series_id cn" "cn_chapter_id (with_path E sd cn) = cn_chapter_id cn"
  "cn_file_id (with_path E sd cn) = cn_file_id cn" "cn_size (with_path E sd cn) = cn_size cn"
  by (simp_all add: with_path_def split: option.split)

lemma sd_series_load [simp]: "sd_series (loadSeries E c s) = s"
  by (simp add: loadSeries_def)

lemma in_map_filter: "y \<in> set (List.map_filter f xs) \<longleftrightarrow> (\<exists>x \<in> set xs. f x = Some y)"
  by (force simp: List.map_filter_def)

lemma loadSeries_member:
  assumes "cd \<in> set (sd_chapters (loadSeries E c s))"
  shows "cd_chapter cd \<in> set (rows (q_chapters (cl_q c))) \<and> c_series_id (cd_chapter cd) = s_id s
    \<and> c_file_id (cd_chapter cd) = Some (f_id (cd_file cd)) \<and> cd_file cd \<in> set (rows (cl_files c))"
proof -
  obtain ch i f where ch: "ch \<in> set (rows (q_chapters (cl_q c)))" "c_series_id ch = s_id s" "c_file_id ch = Some i"
    "tget f_id i (cl_files c) = Some f" "cd = \<lparr>cd_chapter = ch, cd_file = f\<rparr>"
    using assms by (auto simp: loadSeries_def in_map_filter split: option.splits)
  then show ?thesis by (auto simp: tget_def find_Some_iff)
qed

lemma plan_series_candidates:
  assumes "sane_rules E" and "s \<in> set (rows (ce_series E))" and "cn \<in> set (cp_candidates (plan_series now E c s p))"
  shows "cn \<in> set (cp_candidates p) \<or> may_remove now E c cn"
proof (cases "cn \<in> set (cp_candidates p)")
  case False
  then obtain cands x where x: "ru_enabled (rules_for E s)" "root_skip E (s_root_folder_id s) = None"
    "excludedTag (s_tags s) (ce_tags E) (cu_exclude_tags (ce_settings E)) = []"
    "Evaluate_cleanup (ce_sort E) (rules_for E s) (loadSeries E c s) now = Inr cands"
    "x \<in> set cands" "cn = with_path E (loadSeries E c s) x"
    using assms(3) by (auto simp: plan_series_def Let_def split: if_splits option.splits sum.splits)
  from assms(1,2) have d: "sorts (ce_sort E)" "0 \<le> ru_grace_days (rules_for E s)" "ru_grace_days (rules_for E s) \<le> 106751"
    by (auto simp: sane_rules_def)
  from Evaluate_cleanup_finished [OF x(4) d x(5)] obtain cd where
    "cd \<in> set (sd_chapters (loadSeries E c s))" "cn_chapter_id x = c_id (cd_chapter cd)" "cn_file_id x = f_id (cd_file cd)"
    "cn_series_id x = s_id s" "finished_long_ago (rules_for E s) (loadSeries E c s) now (c_id (cd_chapter cd))" by auto
  then show ?thesis using x(1,2,3,6) assms(2) unfolding may_remove_def by auto
qed simp

lemma plan_fold_candidates:
  assumes "sane_rules E" and "set ss \<subseteq> set (rows (ce_series E))" and "cn \<in> set (cp_candidates (fold (plan_series now E c) ss p))"
  shows "cn \<in> set (cp_candidates p) \<or> may_remove now E c cn"
  using assms(2,3)
proof (induction ss arbitrary: p)
  case (Cons s ss)
  then have "cn \<in> set (cp_candidates (plan_series now E c s p)) \<or> may_remove now E c cn" by simp
  then show ?case using plan_series_candidates [OF assms(1), of s] Cons.prems(1) by auto
qed simp

lemma Plan_candidates: "sane_rules E \<Longrightarrow> cn \<in> set (cp_candidates (Plan now E c)) \<Longrightarrow> may_remove now E c cn"
  using plan_fold_candidates [of E "stable_sort (\<lambda>a b. s_sort_title a < s_sort_title b) (rows (ce_series E))" cn now c]
  by (fastforce simp: Plan_def)

lemma drop_file_frames:
  assumes "drop_file E recycle path c = Inr c'"
  shows "cl_q c' = cl_q c" "cl_files c' = cl_files c" "path \<notin> set (cl_disk c')" "set (cl_disk c) - {path} \<subseteq> set (cl_disk c')"
  using assms by (auto simp: drop_file_def split: if_splits option.splits)

lemma remove_candidate_frames:
  assumes "remove_candidate now E cn recycle event c = (c', e)"
  shows "e = None \<Longrightarrow> rows (cl_files c') = filter (\<lambda>f. f_id f \<noteq> cn_file_id cn) (rows (cl_files c)) \<and> cn_path cn \<notin> set (cl_disk c')"
    and "e \<noteq> None \<Longrightarrow> c' = c"
    and "q_jobs (cl_q c') = q_jobs (cl_q c)"
    and "e = None \<Longrightarrow> q_chapters (cl_q c') = upd_where (\<lambda>ch. c_id ch = cn_chapter_id cn)
          (\<lambda>ch. ch\<lparr>c_file_id := None, c_state := ChapterCleaned, c_cleaned_at := Some now, c_updated_at := now\<rparr>) (q_chapters (cl_q c))"
  using assms by (auto simp: remove_candidate_def forget_file_def drop_file_def Let_def del_where_def changed_def
      split: option.splits sum.splits if_splits)

lemma queue_ok_chapters:
  assumes "queue_ok q" and "\<And>ch. P ch \<Longrightarrow> c_id (f ch) = c_id ch"
  shows "queue_ok (q\<lparr>q_chapters := upd_where P f (q_chapters q)\<rparr>)"
  using assms chapters_table.wf_update [of P f "q_chapters q"] by (simp add: queue_ok_def)

lemma queue_ok_changed: "queue_ok (changed r a i q) = queue_ok q"
  by (simp add: queue_ok_def changed_def)

lemma remove_candidate_ok:
  assumes "queue_ok (cl_q c)" and "remove_candidate now E cn recycle event c = (c', e)"
  shows "queue_ok (cl_q c')"
proof (cases e)
  case None
  then obtain c1 where c1: "drop_file E recycle (cn_path cn) c = Inr c1"
    "c' = (forget_file now cn recycle event c1)\<lparr>cl_written := cl_written (forget_file now cn recycle event c1) @ [(cn_series_id cn, cn_path cn)],
       cl_q := changed ''chapter'' ''updated'' (cn_chapter_id cn) (cl_q (forget_file now cn recycle event c1))\<rparr>"
    using assms(2) by (auto simp: remove_candidate_def Let_def split: option.splits sum.splits)
  have "queue_ok (cl_q (forget_file now cn recycle event c1))"
    using queue_ok_chapters [OF assms(1)] drop_file_frames(1) [OF c1(1)] by (simp add: forget_file_def Let_def Record_ok)
  then show ?thesis by (simp add: c1(2) queue_ok_changed)
next
  case (Some x)
  then show ?thesis using remove_candidate_frames(2) [OF assms(2)] assms(1) by simp
qed

lemma remove_all_of_spec:
  assumes "remove_all_of now E recycle event cds c = (c', ok, errs)"
  shows "set ok \<subseteq> set cds \<and> length ok + length errs = length cds
    \<and> rows (cl_files c') = filter (\<lambda>f. f_id f \<notin> cn_file_id ` set ok) (rows (cl_files c))
    \<and> q_jobs (cl_q c') = q_jobs (cl_q c)"
  using assms
proof (induction cds arbitrary: c c' ok errs)
  case (Cons cn cds)
  obtain c1 e where r: "remove_candidate now E cn recycle event c = (c1, e)" by fastforce
  obtain c2 ok2 errs2 where r2: "remove_all_of now E recycle event cds c1 = (c2, ok2, errs2)" using prod_cases3 by blast
  have ih: "set ok2 \<subseteq> set cds" "length ok2 + length errs2 = length cds"
    "rows (cl_files c2) = filter (\<lambda>f. f_id f \<notin> cn_file_id ` set ok2) (rows (cl_files c1))" "q_jobs (cl_q c2) = q_jobs (cl_q c1)"
    using Cons.IH [OF r2] by auto
  show ?case
  proof (cases e)
    case None
    with Cons.prems r r2 have eq: "c' = c2" "ok = cn # ok2" "errs = errs2" by auto
    have "rows (cl_files c1) = filter (\<lambda>f. f_id f \<noteq> cn_file_id cn) (rows (cl_files c))"
      using remove_candidate_frames(1) [OF r None] by simp
    then show ?thesis using ih eq remove_candidate_frames(3) [OF r] by (auto intro!: filter_cong)
  next
    case (Some x)
    with Cons.prems r r2 have eq: "c' = c2" "ok = ok2" "errs = x # errs2" by auto
    then show ?thesis using ih remove_candidate_frames(2) [OF r] Some by auto
  qed
qed auto

lemma Run_cleanup_removed:
  assumes "Run_cleanup now E force c = (c', p, n, errs)" and "f \<in> set (rows (cl_files c))" and "f \<notin> set (rows (cl_files c'))"
  shows "\<exists>cn \<in> set (cp_candidates (Plan now E c)). cn_file_id cn = f_id f"
proof (cases "cp_candidates (Plan now E c) = [] \<or> cp_dry_run (Plan now E c) \<and> \<not> force")
  case True
  then show ?thesis using assms by (auto simp: Run_cleanup_def Let_def)
next
  case False
  obtain c1 ok1 errs1 where r: "remove_all_of now E (cu_recycle (ce_settings E)) HistoryCleaned (cp_candidates (Plan now E c)) c = (c1, ok1, errs1)"
    using prod_cases3 by blast
  have "c' = c1" using assms(1) False r by (simp add: Run_cleanup_def Let_def)
  then show ?thesis using remove_all_of_spec [OF r] assms(2,3) by auto
qed


section \<open>Cleaned chapters stay away until restored\<close>

lemma evaluated_grabs:
  assumes "queue_ok s" and "small_queue (q_jobs s) (length (rows (q_chapters s)) + 1)" and "cache_ok compile cache"
    and "EvaluateAt compile t db cache s sid ids explicit priority = (s', cache', n, e)"
    and "j \<in> set (rows (q_jobs s'))" and "j_id j \<notin> set (order (q_jobs s))"
  shows "\<exists>st. load db s sid ids = Some st \<and> grabbed_ok compile t st explicit j"
proof (cases "load db s sid ids")
  case None
  with assms(4-6) show ?thesis by (auto simp: EvaluateAt_def order_queue_list)
next
  case (Some st)
  have sm: "small_queue (q_jobs s) (length (st_chapters st) + 1)"
    using assms(2) load_chapters [OF Some] by (simp add: small_queue_def)
  have ev: "evaluate_chapters compile t st sid explicit priority (st_chapters st) s cache 0 = (s', cache', n, e)"
    using assms(4) Some by (simp add: EvaluateAt_def)
  from evaluate_chapters_spec [OF ev assms(1) sm assms(3) subset_refl] obtain f new where
    S: "carries f" "rows (q_jobs s') = map f (rows (q_jobs s)) @ new" "\<forall>j \<in> set new. grabbed_ok compile t st explicit j"
    by (auto simp: search_step_def)
  have "j \<in> set new" using assms(5,6) S(1,2) by (auto simp: order_queue_list carries_def)
  with S(3) Some show ?thesis by blast
qed


section \<open>A concrete library\<close>

text \<open>
  Three chapters with files; the only reader has finished the first two, one keeps the last read one,
  and a month has passed.
\<close>

definition ex_cleanup_chapter :: "int64 \<Rightarrow> chapter_row" where
  "ex_cleanup_chapter i = sample_chapter\<lparr>c_id := i, c_number_sort := of_int i, c_state := ChapterImported, c_file_id := Some i\<rparr>"

definition ex_cleanup_state :: "int64 \<Rightarrow> chapter_read_state" where
  "ex_cleanup_state i = sample_read_state\<lparr>rs_id := i, rs_chapter_id := i\<rparr>"

definition ex_cleaner :: cleaner where
  "ex_cleaner = \<lparr>cl_q = ex_idle\<lparr>q_chapters := \<lparr>rows = map ex_cleanup_chapter [1, 2, 3], seq = 3\<rparr>\<rparr>,
     cl_files = \<lparr>rows = map (\<lambda>i. sample_file\<lparr>f_id := i, f_chapter_id := i, f_relative_path := ''c'' @ format_int i\<rparr>) [1, 2, 3], seq = 3\<rparr>,
     cl_disk = [''/m/c1'', ''/m/c2'', ''/m/c3''], cl_recycled = [], cl_written = []\<rparr>"

definition by_number :: "finished \<Rightarrow> finished" where
  "by_number = sort_key (\<lambda>x. c_number_sort (cd_chapter (fst x)))"

definition ex_cleanup :: cleanup_env where
  "ex_cleanup = \<lparr>ce_settings = \<lparr>cu_enabled = True, cu_dry_run = False, cu_statuses = [], cu_reader_ids = [],
       cu_ignore_not_started = True, cu_keep_last_read = 1, cu_grace_days = 7, cu_min_free_gb = 0, cu_exclude_tags = [], cu_recycle = True\<rparr>,
     ce_series = \<lparr>rows = [sample_series], seq = 1\<rparr>, ce_profiles = \<lparr>rows = [sample_profile], seq = 1\<rparr>,
     ce_readers = [\<lparr>rd_id = 1, rd_name = ''me'', rd_count_for_cleanup = True, rd_created_at = 1\<rparr>], ce_tags = [], ce_roots = [],
     ce_states = \<lparr>rows = map ex_cleanup_state [1, 2], seq = 2\<rparr>, ce_free = (\<lambda>_. None), ce_dir = (\<lambda>_. Some ''/m''),
     ce_sort = by_number, ce_delete = (\<lambda>_ _. None)\<rparr>"

definition ex_month :: time where
  "ex_month = 5 + 31 * 24 * hour"

lemma by_number_sorts: "sorts by_number"
  by (simp add: sorts_def by_number_def)

lemma ex_sane: "sane_rules ex_cleanup"
  by (simp add: sane_rules_def ex_cleanup_def by_number_sorts rules_for_def tget_def samples Let_def)

lemmas ex_cleanup_eval = ex_cleanup_def ex_cleaner_def ex_cleanup_chapter_def ex_cleanup_state_def ex_idle_def ex_queue_def samples tget_def
  List.map_filter_def Let_def

lemma ex_load: "loadSeries ex_cleanup ex_cleaner sample_series =
   \<lparr>sd_series = sample_series,
    sd_chapters = map (\<lambda>i. \<lparr>cd_chapter = ex_cleanup_chapter i,
        cd_file = sample_file\<lparr>f_id := i, f_chapter_id := i, f_relative_path := ''c'' @ format_int i\<rparr>\<rparr>) [1, 2, 3],
    sd_states = map ex_cleanup_state [1, 2]\<rparr>"
  by (simp add: loadSeries_def ex_cleanup_eval)

lemma ex_rules: "rules_for ex_cleanup sample_series =
   \<lparr>ru_enabled = True, ru_statuses = [], ru_required_readers = [1], ru_ignore_not_started = True, ru_keep_last_read = 1, ru_grace_days = 7\<rparr>"
  by (simp add: rules_for_def required_of_def ex_cleanup_def samples tget_def Let_def)

lemma ex_grace: "grace_of 7 = 604800000000000" "time_sub ex_month 5 = 2678400000000000"
  by code_simp+

definition ex_cd :: "int64 \<Rightarrow> chapter_data" where
  "ex_cd i = \<lparr>cd_chapter = ex_cleanup_chapter i,
     cd_file = sample_file\<lparr>f_id := i, f_chapter_id := i, f_relative_path := ''c'' @ format_int i\<rparr>\<rparr>"

lemma ex_cd_simps [simp]:
  "c_id (cd_chapter (ex_cd i)) = i" "c_number_sort (cd_chapter (ex_cd i)) = of_int i" "f_id (cd_file (ex_cd i)) = i"
  "c_id (ex_cleanup_chapter i) = i"
  by (simp_all add: ex_cd_def ex_cleanup_chapter_def samples)

lemma ex_state_simps [simp]:
  "rs_chapter_id (ex_cleanup_state i) = i" "rs_reader_id (ex_cleanup_state i) = 1" "rs_completed (ex_cleanup_state i)"
  "read_time (ex_cleanup_state i) = 5"
  by (simp_all add: ex_cleanup_state_def read_time_def samples)

lemma ex_completed:
  "completed_chapters [1] (loadSeries ex_cleanup ex_cleaner sample_series) = [(ex_cd 1, 5), (ex_cd 2, 5)]"
  by (simp add: completed_chapters_def ex_load read_state_def List.map_filter_def) (simp add: ex_cd_def)

lemma ex_required: "required_readers (rules_for ex_cleanup sample_series) (loadSeries ex_cleanup ex_cleaner sample_series) = [1]"
  by (simp add: required_readers_def ex_rules has_started_def read_state_def ex_load)

lemma ex_evaluated:
  "Evaluate_cleanup by_number (rules_for ex_cleanup sample_series) (loadSeries ex_cleanup ex_cleaner sample_series) ex_month =
     Inr [candidate_of (loadSeries ex_cleanup ex_cleaner sample_series) (ex_cd 1, 5)]"
proof -
  have "by_number [(ex_cd 1, 5), (ex_cd 2, 5)] = [(ex_cd 1, 5), (ex_cd 2, 5 :: time)]" by (simp add: by_number_def)
  then show ?thesis
    unfolding Evaluate_cleanup_def ex_required ex_completed Let_def by (simp add: ex_rules ex_grace)
qed

theorem cleanup_exact_witness:
  "\<exists>gone kept. mset (completed_chapters [1] (loadSeries ex_cleanup ex_cleaner sample_series)) = mset (gone @ kept)
      \<and> int (length kept) = 1
      \<and> finished_long_ago (rules_for ex_cleanup sample_series) (loadSeries ex_cleanup ex_cleaner sample_series) ex_month 1"
proof -
  have g: "0 \<le> ru_grace_days (rules_for ex_cleanup sample_series)" "ru_grace_days (rules_for ex_cleanup sample_series) \<le> 106751"
    by (simp_all add: ex_rules)
  have k: "max (ru_keep_last_read (rules_for ex_cleanup sample_series)) 0 = 1" by (simp add: ex_rules)
  from cleanup_exact [OF ex_evaluated by_number_sorts g] show ?thesis
    unfolding ex_required k by (auto simp: candidate_of_def)
qed


lemma ex_cleaner_ok:
  "queue_ok (cl_q ex_cleaner)" "small_queue (q_jobs (cl_q ex_cleaner)) (length (rows (q_chapters (cl_q ex_cleaner))) + 1)"
  by (auto simp: queue_ok_def ranks_ok_def one_active_def twf_def small_queue_def ex_cleaner_def ex_idle_def ex_queue_def)

definition ex_candidate :: cleanup_candidate where
  "ex_candidate = (candidate_of (loadSeries ex_cleanup ex_cleaner sample_series) (ex_cd 1, 5))\<lparr>cn_path := ''/m/c1''\<rparr>"

lemma ex_removed: "\<exists>c'. remove_candidate ex_month ex_cleanup ex_candidate True HistoryCleaned ex_cleaner = (c', None)"
  by (simp add: remove_candidate_def drop_file_def ex_candidate_def candidate_of_def ex_load ex_cleanup_def tget_def
      sample_series_def Let_def)


text \<open>
  A series whose folder cannot be found: the plan's path is the relative one, nothing is at that path,
  and the removal records the chapter as cleaned with its file still on the disk.
\<close>

lemma folder_unknown_forgets_file:
  assumes "cn_path (with_path E sd cn) \<notin> set (cl_disk c)" and "tget s_id (cn_series_id cn) (ce_series E) = Some s'"
  shows "\<exists>c'. remove_candidate now E (with_path E sd cn) recycle event c = (c', None) \<and> cl_disk c' = cl_disk c
      \<and> cn_file_id cn \<notin> f_id ` set (rows (cl_files c'))"
  using assms by (simp add: remove_candidate_def drop_file_def forget_file_def Let_def del_where_def image_iff)

lemma folder_unknown_path:
  "ce_dir E (sd_series sd) = None \<Longrightarrow> find (\<lambda>ch. c_id (cd_chapter ch) = cn_chapter_id cn) (rev (sd_chapters sd)) = Some cd \<Longrightarrow>
   cn_path (with_path E sd cn) = f_relative_path (cd_file cd)"
  by (simp add: with_path_def join_path_def)

end
