(* ===== verification/Requests.thy ===== *)
theory Requests
  imports Accounts Samples
begin

text \<open>
  Requests for series (\<open>internal/requests/requests.go\<close>, \<open>internal/model/requests.go\<close>): asking,
  joining an open request, linking to a series, declining, withdrawing, the automatic add, and what
  each caller is shown.  The metadata modules, the quick search and the series service's add are
  arguments.  An operation that reads before it writes is split into the read and the write, so that
  the step relation covers every interleaving of them.  The rows of \<open>request_users\<close> and
  \<open>follows\<close> have no identifier of their own; their primary keys and the cascades of
  \<open>00012_requests.sql\<close> are part of the statements.
\<close>

section \<open>Data\<close>

record request_metadata =
  rm_module_id :: int64
  rm_provider :: string
  rm_id :: string
  rm_alt_titles :: "string list"
  rm_year :: int
  rm_format :: string
  rm_status :: string
  rm_description :: string
  rm_cover_url :: string
  rm_url :: string
  rm_genres :: "string list"
  rm_adult :: bool
  rm_external_ids :: "(string \<times> string) list"

datatype request_status = RequestPending | RequestApproved | RequestAvailable | RequestDeclined

record request =
  rq_id :: int64
  rq_title :: string
  rq_metadata :: request_metadata
  rq_status :: request_status
  rq_reason :: string
  rq_series_id :: "int64 option"
  rq_handled_by :: "int64 option"
  rq_created_at :: time
  rq_updated_at :: time
  rq_handled_at :: "time option"
  rq_available_at :: "time option"

record request_user =
  ru_request_id :: int64
  ru_user_id :: int64
  ru_note :: string
  ru_created_at :: time

record follow_row =
  fo_user_id :: int64
  fo_series_id :: int64
  fo_created_at :: time

record told =
  to_users :: "int64 list"
  to_series :: int64
  to_title :: string
  to_body :: string

text \<open>The tables, the messages sent, the announcements and the automatic adds that were started.\<close>

record requests_db =
  rb_requests :: "request table"
  rb_askers :: "request_user list"
  rb_follows :: "follow_row list"
  rb_series :: "series table"
  rb_files :: "chapter_file table"
  rb_accounts :: "user table"
  rb_groups :: "group table"
  rb_told :: "told list"
  rb_bus :: "(string \<times> string \<times> int64) list"
  rb_created :: "(string \<times> string) list"
  rb_auto :: "int64 list"

datatype request_error = SignInToRequest | LookupFailed string | AvailableError int64 | RequestNotFound | SeriesNotFound | RowGone

interpretation requests_table: id_table rq_id "\<lambda>i r. r\<lparr>rq_id := i\<rparr>"
  by unfold_locales simp

section \<open>What a metadata module says\<close>

record provider_answer =
  pa_provider :: string
  pa_id :: string
  pa_title :: string
  pa_alt_titles :: "string list"
  pa_description :: string
  pa_status :: string
  pa_year :: int
  pa_genres :: "string list"
  pa_cover_url :: string
  pa_external_ids :: "(string \<times> string) list"
  pa_adult :: bool
  pa_format :: string
  pa_url :: string

text \<open>A configured module: its implementation's name and its \<open>Get\<close>; or why it cannot be used.\<close>

type_synonym metadata_modules = "int64 \<Rightarrow> string + (string \<times> (string \<Rightarrow> string + provider_answer))"

definition Lookup :: "metadata_modules \<Rightarrow> int64 \<Rightarrow> string \<Rightarrow> string + (request_metadata \<times> string)" where
  "Lookup mods moduleID i =
     (case mods moduleID of
        Inl e \<Rightarrow> Inl (''metadata module: '' @ e)
      | Inr (impl, get) \<Rightarrow>
          (case get i of
             Inl e \<Rightarrow> Inl e
           | Inr md \<Rightarrow>
               let provider = (if pa_provider md = [] then impl else pa_provider md);
                   ids = (provider, pa_id md) # filter (\<lambda>kv. fst kv \<noteq> provider) (pa_external_ids md)
               in Inr (\<lparr>rm_module_id = moduleID, rm_provider = provider, rm_id = pa_id md, rm_alt_titles = pa_alt_titles md,
                         rm_year = pa_year md, rm_format = pa_format md, rm_status = pa_status md,
                         rm_description = take 2000 (pa_description md), rm_cover_url = pa_cover_url md, rm_url = pa_url md,
                         rm_genres = pa_genres md, rm_adult = pa_adult md, rm_external_ids = ids\<rparr>, pa_title md)))"

definition sameSeries :: "(string \<times> string) list \<Rightarrow> (string \<times> string) list \<Rightarrow> bool" where
  "sameSeries a b \<longleftrightarrow> list_ex (\<lambda>(k, v). k \<noteq> ''mal'' \<and> v \<noteq> [] \<and> map_of b k = Some v) a"

section \<open>Rows of askers and followers\<close>

definition insert_asker :: "request_user \<Rightarrow> requests_db \<Rightarrow> requests_db option" where
  "insert_asker ru db =
     (if tget rq_id (ru_request_id ru) (rb_requests db) = None then None
      else if list_ex (\<lambda>x. ru_request_id x = ru_request_id ru \<and> ru_user_id x = ru_user_id ru) (rb_askers db) then Some db
      else Some (db\<lparr>rb_askers := rb_askers db @ [ru]\<rparr>))"

text \<open>A follow that a missing series refuses is only logged.\<close>

definition follow :: "time \<Rightarrow> int64 \<Rightarrow> int64 \<Rightarrow> requests_db \<Rightarrow> requests_db" where
  "follow now seriesID userID db =
     (if tget s_id seriesID (rb_series db) = None
        \<or> list_ex (\<lambda>f. fo_user_id f = userID \<and> fo_series_id f = seriesID) (rb_follows db) then db
      else db\<lparr>rb_follows := rb_follows db @ [\<lparr>fo_user_id = userID, fo_series_id = seriesID, fo_created_at = now\<rparr>]\<rparr>)"

definition requesters :: "requests_db \<Rightarrow> int64 \<Rightarrow> int64 list" where
  "requesters db i = map ru_user_id (filter (\<lambda>ru. ru_request_id ru = i) (rb_askers db))"

definition tell :: "int64 list \<Rightarrow> int64 \<Rightarrow> string \<Rightarrow> string \<Rightarrow> requests_db \<Rightarrow> requests_db" where
  "tell users seriesID title body db =
     (if users = [] then db
      else db\<lparr>rb_told := rb_told db @ [\<lparr>to_users = users, to_series = seriesID, to_title = title, to_body = body\<rparr>]\<rparr>)"

definition announce_request :: "string \<Rightarrow> int64 \<Rightarrow> requests_db \<Rightarrow> requests_db" where
  "announce_request action i db = db\<lparr>rb_bus := rb_bus db @ [(''request'', action, i)]\<rparr>"

section \<open>What a caller is shown\<close>

record requester =
  re_user_id :: int64
  re_name :: string
  re_note :: string
  re_at :: time

record request_view =
  rv_request :: request
  rv_series_title :: string
  rv_handled_by :: string
  rv_requesters :: "requester list"
  rv_count :: nat
  rv_mine :: bool

definition Manages :: "principal option \<Rightarrow> bool" where
  "Manages p \<longleftrightarrow> Can p RequestsManage \<or> Can p LibraryManage"

definition asks :: "principal option \<Rightarrow> int64" where
  "asks p = (case p of None \<Rightarrow> 0 | Some q \<Rightarrow> pr_user_id q)"

definition shown_name :: "requests_db \<Rightarrow> int64 \<Rightarrow> string" where
  "shown_name db i =
     (case tget u_id i (rb_accounts db) of None \<Rightarrow> [] | Some u \<Rightarrow> if u_display_name u \<noteq> [] then u_display_name u else u_username u)"

definition view :: "requests_db \<Rightarrow> principal option \<Rightarrow> request \<Rightarrow> request_view" where
  "view db p r =
     (let rus = filter (\<lambda>ru. ru_request_id ru = rq_id r) (stable_sort (\<lambda>a b. ru_created_at a < ru_created_at b) (rb_askers db));
          mine = (\<lambda>ru. ru_user_id ru = asks p \<and> ru_user_id ru \<noteq> 0)
      in \<lparr>rv_request = r,
          rv_series_title = (case rq_series_id r of None \<Rightarrow> [] | Some i \<Rightarrow> (case tget s_id i (rb_series db) of None \<Rightarrow> [] | Some s \<Rightarrow> s_title s)),
          rv_handled_by = (case rq_handled_by r of None \<Rightarrow> [] | Some i \<Rightarrow> shown_name db i),
          rv_requesters = map (\<lambda>ru. \<lparr>re_user_id = ru_user_id ru, re_name = shown_name db (ru_user_id ru), re_note = ru_note ru, re_at = ru_created_at ru\<rparr>)
            (filter (\<lambda>ru. Manages p \<or> mine ru) rus),
          rv_count = length rus, rv_mine = list_ex mine rus\<rparr>)"

definition Get_request :: "requests_db \<Rightarrow> principal option \<Rightarrow> int64 \<Rightarrow> request_error + request_view" where
  "Get_request db p i =
     (case tget rq_id i (rb_requests db) of
        None \<Rightarrow> Inl RequestNotFound
      | Some r \<Rightarrow>
          let v = view db p r in if \<not> rv_mine v \<and> \<not> Manages p then Inl RequestNotFound else Inr v)"

definition newest_first :: "request \<Rightarrow> request \<Rightarrow> bool" where
  "newest_first a b \<longleftrightarrow> rq_created_at a > rq_created_at b \<or> rq_created_at a = rq_created_at b \<and> rq_id a > rq_id b"

definition List_requests :: "requests_db \<Rightarrow> principal option \<Rightarrow> request_status option \<Rightarrow> bool \<Rightarrow> request_view list" where
  "List_requests db p status everyone =
     map (view db p) (take 500 (stable_sort newest_first (filter
       (\<lambda>r. (case status of None \<Rightarrow> True | Some st \<Rightarrow> rq_status r = st)
          \<and> ((\<not> everyone \<or> \<not> Manages p) \<longrightarrow> list_ex (\<lambda>ru. ru_request_id ru = rq_id r \<and> ru_user_id ru = asks p) (rb_askers db)))
       (rows (rb_requests db)))))"

definition Pending_requests :: "requests_db \<Rightarrow> nat" where
  "Pending_requests db = n_where (\<lambda>r. rq_status r = RequestPending) (rb_requests db)"

section \<open>Asking\<close>

definition autoApproves :: "requests_db \<Rightarrow> int64 \<Rightarrow> bool" where
  "autoApproves db groupID = (case tget g_id groupID (rb_groups db) of None \<Rightarrow> False | Some g \<Rightarrow> g_auto_approve g)"

definition create_note :: "string \<Rightarrow> string" where
  "create_note note = take 500 (trim_space note)"

definition join_request :: "time \<Rightarrow> principal \<Rightarrow> string \<Rightarrow> request \<Rightarrow> requests_db \<Rightarrow> requests_db \<times> (request_error + request_view)" where
  "join_request now p note r db =
     (case insert_asker \<lparr>ru_request_id = rq_id r, ru_user_id = pr_user_id p, ru_note = note, ru_created_at = now\<rparr> db of
        None \<Rightarrow> (db, Inl RowGone)
      | Some db \<Rightarrow>
          let db = (case rq_series_id r of None \<Rightarrow> db | Some i \<Rightarrow> follow now i (pr_user_id p) db);
              db = announce_request ''updated'' (rq_id r) db
          in (db, Get_request db (Some p) (rq_id r)))"

definition request_body :: "principal \<Rightarrow> string \<Rightarrow> int \<Rightarrow> string \<Rightarrow> string" where
  "request_body p title year note =
     (if pr_display_name p = [] then pr_username p else pr_display_name p) @ '' asked for '' @ title
     @ (if year > 0 then '' ('' @ format_int year @ '')'' else []) @ (if note \<noteq> [] then '': '' @ note else [])"

definition new_request :: "time \<Rightarrow> principal \<Rightarrow> string \<Rightarrow> request_metadata \<Rightarrow> string \<Rightarrow> requests_db \<Rightarrow> requests_db \<times> (request_error + request_view)" where
  "new_request now p title md note db =
     (let r = \<lparr>rq_id = 0, rq_title = title, rq_metadata = md, rq_status = RequestPending, rq_reason = [], rq_series_id = None,
               rq_handled_by = None, rq_created_at = now, rq_updated_at = now, rq_handled_at = None, rq_available_at = None\<rparr>;
          i = seq (rb_requests db) + 1;
          db = db\<lparr>rb_requests := tinsert (\<lambda>i r. r\<lparr>rq_id := i\<rparr>) r (rb_requests db),
                  rb_askers := rb_askers db @ [\<lparr>ru_request_id = i, ru_user_id = pr_user_id p, ru_note = note, ru_created_at = now\<rparr>],
                  rb_created := rb_created db @ [(''New request: '' @ title, request_body p title (rm_year md) note)]\<rparr>;
          db = announce_request ''created'' i db;
          db = (if autoApproves db (pr_group_id p) then db\<lparr>rb_auto := rb_auto db @ [i]\<rparr> else db)
      in (db, Get_request db (Some p) i))"

definition Create_request ::
  "time \<Rightarrow> metadata_modules \<Rightarrow> principal option \<Rightarrow> int64 \<Rightarrow> string \<Rightarrow> string \<Rightarrow> requests_db \<Rightarrow> requests_db \<times> (request_error + request_view \<times> bool)" where
  "Create_request now mods who moduleID metaID note db =
     (case who of
        None \<Rightarrow> (db, Inl SignInToRequest)
      | Some p \<Rightarrow>
          if pr_kind p \<noteq> KindUser then (db, Inl SignInToRequest)
          else
            (case Lookup mods moduleID metaID of
               Inl e \<Rightarrow> (db, Inl (LookupFailed e))
             | Inr (md, title) \<Rightarrow>
                 (case find (\<lambda>s. sameSeries (rm_external_ids md) (sm_external_ids (s_metadata s)) \<and> Sees (Some p) s) (rows (rb_series db)) of
                    Some s \<Rightarrow> (db, Inl (AvailableError (s_id s)))
                  | None \<Rightarrow>
                      let joining = find (\<lambda>r. rq_status r \<in> {RequestPending, RequestApproved}
                            \<and> sameSeries (rm_external_ids md) (rm_external_ids (rq_metadata r))) (rows (rb_requests db));
                          (db, v) = (case joining of
                              Some r \<Rightarrow> join_request now p (create_note note) r db
                            | None \<Rightarrow> new_request now p title md (create_note note) db)
                      in (db, map_sum id (\<lambda>v. (v, joining \<noteq> None)) v))))"

section \<open>Handling\<close>

definition link_read :: "requests_db \<Rightarrow> int64 \<Rightarrow> int64 \<Rightarrow> request_error + (request \<times> series \<times> nat)" where
  "link_read db i seriesID =
     (case tget rq_id i (rb_requests db) of
        None \<Rightarrow> Inl RequestNotFound
      | Some r \<Rightarrow>
          (case tget s_id seriesID (rb_series db) of
             None \<Rightarrow> Inl SeriesNotFound
           | Some s \<Rightarrow> Inr (r, s, n_where (\<lambda>f. f_series_id f = seriesID) (rb_files db))))"

definition handler_id :: "principal option \<Rightarrow> int64 option" where
  "handler_id handler = (case handler of None \<Rightarrow> None | Some h \<Rightarrow> if pr_kind h = KindUser then Some (pr_user_id h) else None)"

definition linked_to :: "int64 \<Rightarrow> request \<Rightarrow> bool" where
  "linked_to seriesID r \<longleftrightarrow> rq_series_id r = Some seriesID \<and> rq_status r \<in> {RequestApproved, RequestAvailable}"

definition link_columns :: "time \<Rightarrow> request \<times> series \<times> nat \<Rightarrow> principal option \<Rightarrow> request \<Rightarrow> request" where
  "link_columns now x handler row =
     (case x of (r, s, files) \<Rightarrow>
        row\<lparr>rq_series_id := Some (s_id s), rq_status := (if files > 0 then RequestAvailable else RequestApproved), rq_reason := [],
            rq_handled_by := handler_id handler, rq_handled_at := Some now,
            rq_available_at := (if files > 0 then Some now else rq_available_at r), rq_updated_at := now\<rparr>)"

definition link_write :: "time \<Rightarrow> int64 \<Rightarrow> request \<times> series \<times> nat \<Rightarrow> principal option \<Rightarrow> requests_db \<Rightarrow> requests_db \<times> request_error option" where
  "link_write now i x handler db =
     (case x of (r, s, files) \<Rightarrow>
        let sid = s_id s; fresh = (\<lambda>row. rq_id row = i \<and> \<not> linked_to sid row) in
        if n_where fresh (rb_requests db) = 0 then
          (case handler_id handler of
             None \<Rightarrow> (db, None)
           | Some u \<Rightarrow> (db\<lparr>rb_requests := upd_where (\<lambda>row. rq_id row = i \<and> rq_handled_by row = None) (\<lambda>row. row\<lparr>rq_handled_by := Some u\<rparr>) (rb_requests db)\<rparr>, None))
        else if tget s_id sid (rb_series db) = None then (db, Some RowGone)
        else
          let db = db\<lparr>rb_requests := upd_where fresh (link_columns now x handler) (rb_requests db)\<rparr>;
              users = requesters db i;
              db = fold (follow now sid) users db;
              db = announce_request ''updated'' i db
          in (if files > 0 then tell users sid (''Available: '' @ s_title s) ''The series you asked for is in the library.'' db
              else tell users sid (''Approved: '' @ s_title s) (''The series you asked for was added; you'' @ [CHR 0x27] @ ''ll hear when its first chapter arrives.'') db, None))"

definition Link_request :: "time \<Rightarrow> int64 \<Rightarrow> int64 \<Rightarrow> principal option \<Rightarrow> requests_db \<Rightarrow> requests_db \<times> request_error option" where
  "Link_request now i seriesID handler db =
     (case link_read db i seriesID of Inl e \<Rightarrow> (db, Some e) | Inr x \<Rightarrow> link_write now i x handler db)"

definition Decline_request :: "time \<Rightarrow> int64 \<Rightarrow> string \<Rightarrow> principal option \<Rightarrow> requests_db \<Rightarrow> requests_db \<times> request_error option" where
  "Decline_request now i reason handler db =
     (case tget rq_id i (rb_requests db) of
        None \<Rightarrow> (db, Some RequestNotFound)
      | Some r \<Rightarrow>
          let reason = trim_space reason; by_whom = (case handler_id handler of None \<Rightarrow> rq_handled_by r | Some u \<Rightarrow> Some u);
              db = db\<lparr>rb_requests := upd_where (\<lambda>x. rq_id x = i)
                (\<lambda>x. x\<lparr>rq_status := RequestDeclined, rq_reason := reason, rq_handled_by := by_whom, rq_handled_at := Some now, rq_updated_at := now\<rparr>)
                (rb_requests db)\<rparr>;
              db = announce_request ''updated'' i db
          in (tell (requesters db i) 0 (''Declined: '' @ rq_title r)
                (if reason \<noteq> [] then ''Your request was declined: '' @ reason else ''Your request was declined.'') db, None))"

text \<open>Deleting a request row deletes who asked for it.\<close>

definition delete_requests :: "(request \<Rightarrow> bool) \<Rightarrow> requests_db \<Rightarrow> requests_db" where
  "delete_requests P db =
     db\<lparr>rb_requests := del_where P (rb_requests db),
        rb_askers := filter (\<lambda>ru. \<not> list_ex (\<lambda>r. P r \<and> rq_id r = ru_request_id ru) (rows (rb_requests db))) (rb_askers db)\<rparr>"

definition withdraw_name :: "int64 \<Rightarrow> int64 \<Rightarrow> requests_db \<Rightarrow> requests_db" where
  "withdraw_name i userID db = db\<lparr>rb_askers := filter (\<lambda>ru. \<not> (ru_request_id ru = i \<and> ru_user_id ru = userID)) (rb_askers db)\<rparr>"

definition withdraw_empty :: "int64 \<Rightarrow> nat \<Rightarrow> requests_db \<Rightarrow> requests_db" where
  "withdraw_empty i left db =
     announce_request ''deleted'' i (if left = 0 then delete_requests (\<lambda>r. rq_id r = i \<and> rq_status r = RequestPending) db else db)"

definition Withdraw :: "int64 \<Rightarrow> int64 \<Rightarrow> requests_db \<Rightarrow> requests_db \<times> request_error option" where
  "Withdraw i userID db =
     (if \<not> list_ex (\<lambda>ru. ru_request_id ru = i \<and> ru_user_id ru = userID) (rb_askers db) then (db, Some RequestNotFound)
      else let db = withdraw_name i userID db in (withdraw_empty i (length (requesters db i)) db, None))"

definition Delete_request :: "int64 \<Rightarrow> requests_db \<Rightarrow> requests_db \<times> request_error option" where
  "Delete_request i db =
     (if n_where (\<lambda>r. rq_id r = i) (rb_requests db) = 0 then (db, Some RequestNotFound)
      else (announce_request ''deleted'' i (delete_requests (\<lambda>r. rq_id r = i) db), None))"

section \<open>Following the library\<close>

definition seriesAdded :: "time \<Rightarrow> int64 \<Rightarrow> requests_db \<Rightarrow> requests_db" where
  "seriesAdded now seriesID db =
     (case tget s_id seriesID (rb_series db) of
        None \<Rightarrow> db
      | Some s \<Rightarrow>
          if sm_external_ids (s_metadata s) = [] then db
          else fold (\<lambda>r db. if sameSeries (rm_external_ids (rq_metadata r)) (sm_external_ids (s_metadata s))
                            then fst (Link_request now (rq_id r) seriesID None db) else db)
                 (filter (\<lambda>r. rq_status r = RequestPending) (rows (rb_requests db))) db)"

definition make_available :: "time \<Rightarrow> int64 \<Rightarrow> request \<Rightarrow> requests_db \<Rightarrow> requests_db" where
  "make_available now seriesID r db =
     (let ready = (\<lambda>x. rq_id x = rq_id r \<and> rq_status x = RequestApproved) in
      if n_where ready (rb_requests db) = 0 then db
      else
        let db = db\<lparr>rb_requests := upd_where ready
              (\<lambda>x. x\<lparr>rq_status := RequestAvailable, rq_available_at := Some now, rq_updated_at := now\<rparr>) (rb_requests db)\<rparr>;
            db = announce_request ''updated'' (rq_id r) db;
            title = (case tget s_id seriesID (rb_series db) of None \<Rightarrow> rq_title r | Some s \<Rightarrow> s_title s)
        in tell (requesters db (rq_id r)) seriesID (''Available: '' @ title) ''The first chapter of the series you asked for is here.'' db)"

definition chapterImported :: "time \<Rightarrow> int64 \<Rightarrow> requests_db \<Rightarrow> requests_db" where
  "chapterImported now seriesID db =
     fold (make_available now seriesID) (filter (\<lambda>r. rq_status r = RequestApproved \<and> rq_series_id r = Some seriesID) (rows (rb_requests db))) db"

section \<open>The automatic add\<close>

text \<open>
  \<open>utf8.DecodeRune\<close>: the length of the character a string starts with, 0 when its first byte starts no
  valid one; \<open>strings.ToValidUTF8(s, "")\<close> leaves out the bytes that belong to no character.
\<close>

definition utf8_lead :: "nat \<Rightarrow> nat \<times> nat \<times> nat" where
  "utf8_lead b =
     (if b < 0x80 then (1, 0, 0)
      else if 0xC2 \<le> b \<and> b \<le> 0xDF then (2, 0x80, 0xBF)
      else if 0xE0 \<le> b \<and> b \<le> 0xEF then (3, if b = 0xE0 then 0xA0 else 0x80, if b = 0xED then 0x9F else 0xBF)
      else if 0xF0 \<le> b \<and> b \<le> 0xF4 then (4, if b = 0xF0 then 0x90 else 0x80, if b = 0xF4 then 0x8F else 0xBF)
      else (0, 0, 0))"

definition byte_within :: "nat \<Rightarrow> nat \<Rightarrow> char \<Rightarrow> bool" where
  "byte_within lo hi c \<longleftrightarrow> lo \<le> of_char c \<and> of_char c \<le> hi"

definition utf8_length :: "string \<Rightarrow> nat" where
  "utf8_length s =
     (case s of
        [] \<Rightarrow> 0
      | c # cs \<Rightarrow>
          (case utf8_lead (of_char c) of (n, lo, hi) \<Rightarrow>
             if n \<le> 1 then n
             else if n \<le> length s \<and> byte_within lo hi (cs ! 0) \<and> list_all (byte_within 0x80 0xBF) (take (n - 2) (drop 1 cs)) then n
             else 0))"

function ToValidUTF8 :: "string \<Rightarrow> string" where
  "ToValidUTF8 s =
     (if s = [] then []
      else if utf8_length s = 0 then ToValidUTF8 (drop 1 s)
      else take (utf8_length s) s @ ToValidUTF8 (drop (utf8_length s) s))"
  by pat_completeness auto

termination by (relation "measure length") auto

function valid_utf8 :: "string \<Rightarrow> bool" where
  "valid_utf8 s = (if s = [] then True else if utf8_length s = 0 then False else valid_utf8 (drop (utf8_length s) s))"
  by pat_completeness auto

termination by (relation "measure length") auto

declare ToValidUTF8.simps [simp del] valid_utf8.simps [simp del]

definition attempt_message :: "string \<Rightarrow> string option \<Rightarrow> string" where
  "attempt_message message cause =
     (let m = trim_space (case cause of None \<Rightarrow> message | Some e \<Rightarrow> message @ '' '' @ e)
      in if length m > 500 then ToValidUTF8 (take 500 m) else m)"

definition attemptFailed :: "time \<Rightarrow> int64 \<Rightarrow> string \<Rightarrow> string option \<Rightarrow> requests_db \<Rightarrow> requests_db" where
  "attemptFailed now i message cause db =
     announce_request ''updated'' i
       (db\<lparr>rb_requests := upd_where (\<lambda>r. rq_id r = i \<and> rq_status r = RequestPending)
          (\<lambda>r. r\<lparr>rq_reason := attempt_message message cause, rq_updated_at := now\<rparr>) (rb_requests db)\<rparr>)"

record quick_match =
  qm_module_id :: int64
  qm_source_id :: string
  qm_url :: string
  qm_engine_ref :: string
  qm_title :: string
  qm_source_name :: string
  qm_lang :: string

definition firstLang :: "string \<Rightarrow> string \<Rightarrow> string" where
  "firstLang catalog searched =
     (let l = to_lower (trim_space catalog) in if l \<noteq> [] \<and> l \<noteq> ''all'' \<and> l \<noteq> ''multi'' then l else searched)"

text \<open>
  The services the add runs on: the edition languages (or an error), the quick search of a title in a
  language (an error finds nothing), and the series service's add, which answers with the editions
  it made and an error.
\<close>

record add_services =
  av_languages :: "string + string list"
  av_quick :: "string \<Rightarrow> string list \<Rightarrow> string \<Rightarrow> quick_match option"
  av_add :: "request_metadata \<Rightarrow> quick_match list \<Rightarrow> requests_db \<Rightarrow> requests_db \<times> int64 list \<times> string option"

definition auto_links :: "add_services \<Rightarrow> request \<Rightarrow> string list \<Rightarrow> quick_match list" where
  "auto_links S r langs =
     List.map_filter (\<lambda>lang. map_option (\<lambda>m. m\<lparr>qm_lang := firstLang (qm_lang m) lang\<rparr>)
       (av_quick S (rq_title r) (rq_title r # rm_alt_titles (rq_metadata r)) lang)) langs"

definition error_text :: "request_error \<Rightarrow> string" where
  "error_text e = (case e of RequestNotFound \<Rightarrow> ''request not found'' | SeriesNotFound \<Rightarrow> ''series: request not found''
     | RowGone \<Rightarrow> ''FOREIGN KEY constraint failed'' | LookupFailed x \<Rightarrow> x | AvailableError _ \<Rightarrow> ''already in the library''
     | SignInToRequest \<Rightarrow> ''sign in as a user to request series'')"

text \<open>What follows once the request was read as pending; minutes may pass in the search.\<close>

definition auto_rest :: "time \<Rightarrow> add_services \<Rightarrow> request \<Rightarrow> requests_db \<Rightarrow> requests_db" where
  "auto_rest now S r db =
     (let i = rq_id r; no_lang = (\<lambda>e. attemptFailed now i ''Set a language on a root folder (or default search languages) so requests know where to go; choose sources and retry Add.'' e db) in
      case av_languages S of
        Inl e \<Rightarrow> no_lang (Some e)
      | Inr langs \<Rightarrow>
          if langs = [] then no_lang None
          else if auto_links S r langs = [] then attemptFailed now i ''No confident source match was found; choose a source and retry Add.'' None db
          else
            (case av_add S (rq_metadata r) (auto_links S r langs) db of
               (db, editions, e) \<Rightarrow>
                 (case editions of
                    [] \<Rightarrow> attemptFailed now i ''Automatic add failed.'' e db
                  | sid # _ \<Rightarrow>
                      (case Link_request now i sid None db of
                         (db, None) \<Rightarrow> db
                       | (db, Some e) \<Rightarrow>
                           attemptFailed now i (''Series '' @ format_int sid @ '' was added, but request fulfilment failed; use Link to retry.'') (Some (error_text e)) db))))"

definition autoAdd :: "time \<Rightarrow> add_services \<Rightarrow> int64 \<Rightarrow> requests_db \<Rightarrow> requests_db" where
  "autoAdd now S i db =
     (case tget rq_id i (rb_requests db) of
        None \<Rightarrow> db
      | Some r \<Rightarrow> if rq_status r \<noteq> RequestPending then db else auto_rest now S r db)"

section \<open>Following by hand\<close>

datatype follow_error = SignInToFollow | SeriesHidden

text \<open>A user follows or unfollows a series they can see.\<close>

definition set_follow :: "time \<Rightarrow> principal option \<Rightarrow> int64 \<Rightarrow> bool \<Rightarrow> requests_db \<Rightarrow> requests_db \<times> follow_error option" where
  "set_follow now who i on db =
     (case who of
        None \<Rightarrow> (db, Some SignInToFollow)
      | Some p \<Rightarrow>
          if pr_kind p \<noteq> KindUser then (db, Some SignInToFollow)
          else
            (case tget s_id i (rb_series db) of
               None \<Rightarrow> (db, Some SeriesHidden)
             | Some s \<Rightarrow>
                 if \<not> Sees (Some p) s then (db, Some SeriesHidden)
                 else (if on then follow now i (pr_user_id p) db
                       else db\<lparr>rb_follows := filter (\<lambda>f. \<not> (fo_user_id f = pr_user_id p \<and> fo_series_id f = i)) (rb_follows db)\<rparr>, None)))"

definition Followers :: "(int64 \<Rightarrow> principal option) \<Rightarrow> int64 \<Rightarrow> requests_db \<Rightarrow> int64 list" where
  "Followers lookup i db =
     (case tget s_id i (rb_series db) of
        None \<Rightarrow> []
      | Some s \<Rightarrow> filter (\<lambda>u. lookup u \<noteq> None \<and> Sees (lookup u) s) (map fo_user_id (filter (\<lambda>f. fo_series_id f = i) (rb_follows db))))"

section \<open>The shape of the rows\<close>

definition requests_ok :: "requests_db \<Rightarrow> bool" where
  "requests_ok db \<longleftrightarrow> twf rq_id (rb_requests db)
     \<and> distinct (map (\<lambda>ru. (ru_request_id ru, ru_user_id ru)) (rb_askers db))
     \<and> (\<forall>ru \<in> set (rb_askers db). ru_request_id ru \<in> rq_id ` set (rows (rb_requests db)))
     \<and> distinct (map (\<lambda>f. (fo_user_id f, fo_series_id f)) (rb_follows db))
     \<and> (\<forall>f \<in> set (rb_follows db). tget s_id (fo_series_id f) (rb_series db) \<noteq> None)
     \<and> (\<forall>r \<in> set (rows (rb_requests db)).
          (rq_status r = RequestPending \<longrightarrow> rq_series_id r = None \<and> rq_handled_at r = None \<and> rq_available_at r = None)
          \<and> (rq_status r = RequestAvailable \<longrightarrow> rq_available_at r \<noteq> None)
          \<and> (rq_status r \<noteq> RequestPending \<longrightarrow> rq_handled_at r \<noteq> None))"

text \<open>The part of the invariant about one request row, and the updates that keep all of it.\<close>

definition row_ok :: "request \<Rightarrow> bool" where
  "row_ok r \<longleftrightarrow> (rq_status r = RequestPending \<longrightarrow> rq_series_id r = None \<and> rq_handled_at r = None \<and> rq_available_at r = None)
     \<and> (rq_status r = RequestAvailable \<longrightarrow> rq_available_at r \<noteq> None) \<and> (rq_status r \<noteq> RequestPending \<longrightarrow> rq_handled_at r \<noteq> None)"

definition asked_of :: "int64 set \<Rightarrow> request_user list \<Rightarrow> bool" where
  "asked_of ids rus \<longleftrightarrow> distinct (map (\<lambda>ru. (ru_request_id ru, ru_user_id ru)) rus) \<and> (\<forall>ru \<in> set rus. ru_request_id ru \<in> ids)"

definition follows_ok :: "series table \<Rightarrow> follow_row list \<Rightarrow> bool" where
  "follows_ok ss fs \<longleftrightarrow> distinct (map (\<lambda>f. (fo_user_id f, fo_series_id f)) fs) \<and> (\<forall>f \<in> set fs. tget s_id (fo_series_id f) ss \<noteq> None)"

lemma requests_ok_parts:
  "requests_ok db \<longleftrightarrow> twf rq_id (rb_requests db) \<and> asked_of (rq_id ` set (rows (rb_requests db))) (rb_askers db)
     \<and> follows_ok (rb_series db) (rb_follows db) \<and> (\<forall>r \<in> set (rows (rb_requests db)). row_ok r)"
  unfolding requests_ok_def asked_of_def follows_ok_def row_ok_def by blast

lemma announce_ok [simp]: "requests_ok (announce_request a i db) = requests_ok db"
  by (simp add: requests_ok_def announce_request_def)

lemma tell_ok [simp]: "requests_ok (tell us i t b db) = requests_ok db"
  by (simp add: requests_ok_def tell_def)

lemma update_requests_ok:
  assumes "requests_ok db" and "\<And>r. P r \<Longrightarrow> rq_id (f r) = rq_id r" and "\<And>r. P r \<Longrightarrow> row_ok r \<Longrightarrow> row_ok (f r)"
  shows "requests_ok (db\<lparr>rb_requests := upd_where P f (rb_requests db)\<rparr>)"
proof -
  have "rq_id ` set (rows (upd_where P f (rb_requests db))) = rq_id ` set (rows (rb_requests db))"
    using requests_table.map_rid_update [of P f "rb_requests db", OF assms(2)] by (metis list.set_map)
  moreover have "twf rq_id (upd_where P f (rb_requests db))"
    by (rule requests_table.wf_update [OF assms(2)]) (use assms(1) in \<open>simp_all add: requests_ok_parts\<close>)
  ultimately show ?thesis using assms(1,3) by (auto simp: requests_ok_parts set_upd_where)
qed

lemma follow_ok: "requests_ok db \<Longrightarrow> requests_ok (follow now i u db)"
  by (auto simp: requests_ok_parts follow_def follows_ok_def list_ex_iff)

lemma follow_fold_ok: "requests_ok db \<Longrightarrow> requests_ok (fold (follow now i) us db)"
  by (induction us arbitrary: db) (simp_all add: follow_ok)

lemma tget_id: "tget rid i t \<noteq> None \<Longrightarrow> i \<in> rid ` set (rows t)"
  by (auto simp: tget_def find_Some_iff)

lemma insert_asker_ok:
  assumes "requests_ok db" and "insert_asker ru db = Some db'" shows "requests_ok db'"
proof -
  have "ru_request_id ru \<in> rq_id ` set (rows (rb_requests db))"
    using assms(2) by (intro tget_id) (auto simp: insert_asker_def split: if_splits)
  with assms show ?thesis
    by (fastforce simp: requests_ok_parts insert_asker_def asked_of_def list_ex_iff split: if_splits)
qed

lemma join_ok:
  assumes "requests_ok db" and "join_request now p note r db = (db', v)" shows "requests_ok db'"
  using assms insert_asker_ok [OF assms(1)]
  by (auto simp: join_request_def Let_def follow_ok split: option.splits)

lemma new_request_ok:
  assumes "requests_ok db" and "new_request now p title md note db = (db', v)" shows "requests_ok db'"
proof -
  let ?r = "\<lparr>rq_id = 0, rq_title = title, rq_metadata = md, rq_status = RequestPending, rq_reason = [], rq_series_id = None,
      rq_handled_by = None, rq_created_at = now, rq_updated_at = now, rq_handled_at = None, rq_available_at = None\<rparr>"
  let ?t = "tinsert (\<lambda>i r. r\<lparr>rq_id := i\<rparr>) ?r (rb_requests db)"
  have w: "twf rq_id ?t" using assms(1) by (intro requests_table.wf_insert) (simp add: requests_ok_parts)
  have fresh: "seq (rb_requests db) + 1 \<notin> rq_id ` set (rows (rb_requests db))"
    using w by (auto simp: twf_def tinsert_def)
  have "requests_ok (db\<lparr>rb_requests := ?t, rb_askers := rb_askers db @ [\<lparr>ru_request_id = seq (rb_requests db) + 1, ru_user_id = pr_user_id p,
      ru_note = note, ru_created_at = now\<rparr>]\<rparr>)"
    using assms(1) w fresh by (fastforce simp: requests_ok_parts asked_of_def set_tinsert row_ok_def)
  then have "requests_ok (db'\<lparr>rb_created := rb_created db, rb_bus := rb_bus db, rb_auto := rb_auto db\<rparr>)"
    using assms(2) by (auto simp: new_request_def Let_def announce_request_def split: if_splits)
  then show ?thesis by (simp add: requests_ok_def)
qed

lemma Create_ok: "requests_ok db \<Longrightarrow> Create_request now mods who m i note db = (db', v) \<Longrightarrow> requests_ok db'"
  by (auto simp: Create_request_def Let_def split: option.splits sum.splits prod.splits if_splits intro: join_ok new_request_ok)

lemma link_write_ok:
  assumes "requests_ok db" and "link_write now i x handler db = (db', e)" shows "requests_ok db'"
proof -
  obtain r s files where x: "x = (r, s, files)" by (cases x)
  have a: "requests_ok (db\<lparr>rb_requests := upd_where P (\<lambda>row. row\<lparr>rq_handled_by := u\<rparr>) (rb_requests db)\<rparr>)" for P u
    by (rule update_requests_ok [OF assms(1)]) (simp_all add: row_ok_def)
  have b: "requests_ok (db\<lparr>rb_requests := upd_where P (link_columns now x handler) (rb_requests db)\<rparr>)" for P
    by (rule update_requests_ok [OF assms(1)]) (auto simp: row_ok_def link_columns_def x split: if_splits)
  show ?thesis
    using assms(1) assms(2) [unfolded x] a follow_fold_ok [OF b [unfolded x]]
    by (auto simp: link_write_def Let_def split: if_splits option.splits)
qed

lemma Link_ok: "requests_ok db \<Longrightarrow> Link_request now i sid handler db = (db', e) \<Longrightarrow> requests_ok db'"
  by (auto simp: Link_request_def split: sum.splits intro: link_write_ok)

lemma Decline_ok:
  assumes "requests_ok db" and "Decline_request now i reason handler db = (db', e)" shows "requests_ok db'"
proof -
  have "requests_ok (db\<lparr>rb_requests := upd_where P (\<lambda>x. x\<lparr>rq_status := RequestDeclined, rq_reason := a, rq_handled_by := b, rq_handled_at := Some now,
      rq_updated_at := now\<rparr>) (rb_requests db)\<rparr>)" for P a b
    by (rule update_requests_ok [OF assms(1)]) (simp_all add: row_ok_def)
  with assms show ?thesis by (auto simp: Decline_request_def Let_def split: option.splits)
qed

lemma delete_requests_ok:
  assumes "requests_ok db" shows "requests_ok (delete_requests P db)"
proof -
  have "ru_request_id ru \<in> rq_id ` {r \<in> set (rows (rb_requests db)). \<not> P r}"
    if "ru \<in> set (rb_askers db)" "\<forall>r \<in> set (rows (rb_requests db)). P r \<longrightarrow> rq_id r \<noteq> ru_request_id ru" for ru
  proof -
    have "ru_request_id ru \<in> rq_id ` set (rows (rb_requests db))" using that(1) assms by (auto simp: requests_ok_def)
    with that(2) show ?thesis by auto
  qed
  then show ?thesis using assms requests_table.wf_delete [of "rb_requests db" P]
    by (auto simp: requests_ok_parts delete_requests_def asked_of_def distinct_map set_del_where list_ex_iff inj_on_def)
qed

lemma withdraw_name_ok: "requests_ok db \<Longrightarrow> requests_ok (withdraw_name i u db)"
  by (auto simp: requests_ok_parts withdraw_name_def asked_of_def distinct_map inj_on_def)

lemma withdraw_empty_ok: "requests_ok db \<Longrightarrow> requests_ok (withdraw_empty i left db)"
  by (simp add: withdraw_empty_def delete_requests_ok)

lemma attemptFailed_ok: "requests_ok db \<Longrightarrow> requests_ok (attemptFailed now i m e db)"
  unfolding attemptFailed_def announce_ok by (rule update_requests_ok) (simp_all add: row_ok_def)

lemma make_available_ok:
  assumes "requests_ok db" shows "requests_ok (make_available now sid r db)"
proof -
  have "requests_ok (db\<lparr>rb_requests := upd_where P (\<lambda>x. x\<lparr>rq_status := RequestAvailable, rq_available_at := Some now, rq_updated_at := now\<rparr>) (rb_requests db)\<rparr>)"
    if "\<And>x. P x \<Longrightarrow> rq_status x = RequestApproved" for P
    using that by (intro update_requests_ok [OF assms]) (auto simp: row_ok_def)
  from this [of "\<lambda>x. rq_id x = rq_id r \<and> rq_status x = RequestApproved"] show ?thesis
    using assms by (simp add: make_available_def Let_def)
qed

lemma chapterImported_ok: "requests_ok db \<Longrightarrow> requests_ok (chapterImported now sid db)"
proof -
  have "requests_ok db \<Longrightarrow> requests_ok (fold (make_available now sid) rs db)" for rs
    by (induction rs arbitrary: db) (simp_all add: make_available_ok)
  then show "requests_ok db \<Longrightarrow> ?thesis" by (simp add: chapterImported_def)
qed

lemma seriesAdded_ok:
  assumes "requests_ok db" shows "requests_ok (seriesAdded now sid db)"
proof -
  have "requests_ok db \<Longrightarrow> requests_ok (fold (\<lambda>r db. if Q r then fst (Link_request now (rq_id r) sid None db) else db) rs db)" for Q rs db
    by (induction rs arbitrary: db) (auto simp: Link_ok dest: surjective_pairing [THEN Link_ok [rotated]] intro: Link_ok [OF _ surjective_pairing])
  with assms show ?thesis by (auto simp: seriesAdded_def split: option.split)
qed

section \<open>Steps\<close>

text \<open>
  Everything that writes the tables, each write with whatever its operation read before; \<open>library\<close>
  is the rest of the program adding series and files, \<open>series_gone\<close> and \<open>user_gone\<close> the cascades of the
  schema when a series or a user is deleted.
\<close>

definition series_gone :: "int64 \<Rightarrow> requests_db \<Rightarrow> requests_db" where
  "series_gone i db =
     db\<lparr>rb_series := del_where (\<lambda>s. s_id s = i) (rb_series db),
        rb_requests := upd_where (\<lambda>r. rq_series_id r = Some i) (\<lambda>r. r\<lparr>rq_series_id := None\<rparr>) (rb_requests db),
        rb_follows := filter (\<lambda>f. fo_series_id f \<noteq> i) (rb_follows db)\<rparr>"

definition user_gone :: "int64 \<Rightarrow> requests_db \<Rightarrow> requests_db" where
  "user_gone u db =
     db\<lparr>rb_accounts := del_where (\<lambda>x. u_id x = u) (rb_accounts db),
        rb_requests := upd_where (\<lambda>r. rq_handled_by r = Some u) (\<lambda>r. r\<lparr>rq_handled_by := None\<rparr>) (rb_requests db),
        rb_askers := filter (\<lambda>ru. ru_user_id ru \<noteq> u) (rb_askers db),
        rb_follows := filter (\<lambda>f. fo_user_id f \<noteq> u) (rb_follows db)\<rparr>"

inductive request_step :: "requests_db \<Rightarrow> requests_db \<Rightarrow> bool" where
  create: "Create_request now mods who m i note db = (db', v) \<Longrightarrow> request_step db db'"
| join: "join_request now p note r db = (db', v) \<Longrightarrow> request_step db db'"
| new: "new_request now p title md note db = (db', v) \<Longrightarrow> request_step db db'"
| link: "link_write now i x handler db = (db', e) \<Longrightarrow> request_step db db'"
| decline: "Decline_request now i reason handler db = (db', e) \<Longrightarrow> request_step db db'"
| withdraw: "request_step db (withdraw_name i u db)"
| withdrawn: "request_step db (withdraw_empty i left db)"
| delete: "request_step db (delete_requests P db)"
| added: "request_step db (seriesAdded now sid db)"
| imported: "request_step db (chapterImported now sid db)"
| failed: "request_step db (attemptFailed now i m e db)"
| by_hand: "set_follow now who i on db = (db', e) \<Longrightarrow> request_step db db'"
| library: "(\<And>f. f \<in> set (rb_follows db) \<Longrightarrow> tget s_id (fo_series_id f) ss \<noteq> None) \<Longrightarrow> request_step db (db\<lparr>rb_series := ss, rb_files := fs\<rparr>)"
| series: "request_step db (series_gone i db)"
| person: "request_step db (user_gone u db)"

text \<open>No request that was handled waits again: a pending one was pending before, or is new.\<close>

definition settles :: "request table \<Rightarrow> request table \<Rightarrow> bool" where
  "settles t t' \<longleftrightarrow> seq t \<le> seq t' \<and>
     (\<forall>r' \<in> set (rows t'). rq_status r' = RequestPending \<longrightarrow>
        rq_id r' > seq t \<or> (\<exists>r \<in> set (rows t). rq_id r = rq_id r' \<and> rq_status r = RequestPending))"

lemma settles_refl [simp]: "settles t t"
  by (auto simp: settles_def)

lemma settles_trans:
  assumes "settles t u" and "settles u v" shows "settles t v"
proof -
  have "rq_id r' > seq t \<or> (\<exists>r \<in> set (rows t). rq_id r = rq_id r' \<and> rq_status r = RequestPending)"
    if r': "r' \<in> set (rows v)" "rq_status r' = RequestPending" for r'
  proof (cases "rq_id r' > seq u")
    case True
    with assms(1) show ?thesis by (simp add: settles_def)
  next
    case False
    with assms(2) r' obtain r where "r \<in> set (rows u)" "rq_id r = rq_id r'" "rq_status r = RequestPending"
      by (auto simp: settles_def)
    with assms(1) show ?thesis by (fastforce simp: settles_def)
  qed
  with assms show ?thesis by (simp add: settles_def)
qed

lemma settles_upd:
  "(\<And>r. P r \<Longrightarrow> rq_id (f r) = rq_id r \<and> (rq_status (f r) = RequestPending \<longrightarrow> rq_status r = RequestPending)) \<Longrightarrow> settles t (upd_where P f t)"
  by (auto simp: settles_def set_upd_where)

lemma settles_del: "settles t (del_where P t)"
  by (auto simp: settles_def set_del_where del_where_def)

lemma settles_insert: "settles t (tinsert (\<lambda>i r. r\<lparr>rq_id := i\<rparr>) r t)"
  by (auto simp: settles_def tinsert_def)

lemma requests_frames [simp]:
  "rb_requests (announce_request a i db) = rb_requests db" "rb_requests (tell us i t b db) = rb_requests db"
  "rb_requests (follow now i u db) = rb_requests db" "rb_requests (fold (follow now i) us db) = rb_requests db"
proof -
  show f: "rb_requests (follow now i u db) = rb_requests db" for now i u db by (simp add: follow_def)
  show "rb_requests (fold (follow now i) us db) = rb_requests db" by (induction us arbitrary: db) (simp_all add: f)
qed (simp_all add: announce_request_def tell_def)

lemma insert_asker_requests: "insert_asker ru db = Some db' \<Longrightarrow> rb_requests db' = rb_requests db"
  by (auto simp: insert_asker_def split: if_splits)

lemma join_requests: "join_request now p note r db = (db', v) \<Longrightarrow> rb_requests db' = rb_requests db"
  by (auto simp: join_request_def Let_def dest: insert_asker_requests split: option.splits)

lemma new_settles: "new_request now p title md note db = (db', v) \<Longrightarrow> settles (rb_requests db) (rb_requests db')"
  by (auto simp: new_request_def Let_def settles_insert split: if_splits)

lemma create_settles: "Create_request now mods who m i note db = (db', v) \<Longrightarrow> settles (rb_requests db) (rb_requests db')"
  by (auto simp: Create_request_def Let_def dest: join_requests new_settles split: option.splits sum.splits prod.splits if_splits)

lemma link_write_settles:
  "link_write now i x handler db = (db', e) \<Longrightarrow> settles (rb_requests db) (rb_requests db')" (is "_ \<Longrightarrow> ?thesis")
proof -
  obtain r s files where x: "x = (r, s, files)" by (cases x)
  have a: "settles t (upd_where P (\<lambda>row. row\<lparr>rq_handled_by := u\<rparr>) t)" for P u t by (rule settles_upd) simp
  have b: "settles t (upd_where P (link_columns now y handler) t)" for P t y
    by (rule settles_upd) (simp add: link_columns_def split: prod.split)
  show "link_write now i x handler db = (db', e) \<Longrightarrow> ?thesis"
    unfolding x by (auto simp: link_write_def Let_def a b split: if_splits option.splits)
qed

lemma link_settles: "settles (rb_requests db) (rb_requests (fst (Link_request now i sid handler db)))"
proof -
  obtain db' e where "Link_request now i sid handler db = (db', e)" by fastforce
  then show ?thesis by (auto simp: Link_request_def dest: link_write_settles split: sum.splits)
qed

lemma make_available_requests:
  "rb_requests (make_available now sid r db) = upd_where (\<lambda>x. rq_id x = rq_id r \<and> rq_status x = RequestApproved)
     (\<lambda>x. x\<lparr>rq_status := RequestAvailable, rq_available_at := Some now, rq_updated_at := now\<rparr>) (rb_requests db)"
  by (simp add: make_available_def Let_def upd_where_none)

lemma fold_settles:
  assumes "\<And>x db. settles (rb_requests db) (rb_requests (f x db))"
  shows "settles (rb_requests db) (rb_requests (fold f xs db))"
  by (induction xs arbitrary: db) (auto intro: settles_trans assms)

lemma seriesAdded_settles: "settles (rb_requests db) (rb_requests (seriesAdded now sid db))"
  by (auto simp: seriesAdded_def link_settles intro!: fold_settles split: option.split)

lemma filter_follows_ok:
  assumes "follows_ok ss fs" and "\<And>f. f \<in> set fs \<Longrightarrow> P f \<Longrightarrow> tget s_id (fo_series_id f) ss' = tget s_id (fo_series_id f) ss"
  shows "follows_ok ss' (filter P fs)"
  using assms by (auto simp: follows_ok_def distinct_map inj_on_def)

lemma tget_del_other: "i \<noteq> j \<Longrightarrow> tget s_id i (del_where (\<lambda>s. s_id s = j) t) = tget s_id i t"
proof -
  have "i \<noteq> j \<Longrightarrow> find (\<lambda>s. s_id s = i) (filter (\<lambda>s. s_id s \<noteq> j) xs) = find (\<lambda>s. s_id s = i) xs" for xs
    by (induction xs) auto
  then show "i \<noteq> j \<Longrightarrow> ?thesis" by (simp add: tget_def del_where_def)
qed

lemma series_gone_ok:
  assumes "requests_ok db" shows "requests_ok (series_gone i db)"
proof -
  have "requests_ok (db\<lparr>rb_requests := rb_requests (series_gone i db)\<rparr>)"
    unfolding series_gone_def by simp (rule update_requests_ok [OF assms], auto simp: row_ok_def)
  then show ?thesis
    by (auto simp: requests_ok_parts series_gone_def tget_del_other intro: filter_follows_ok)
qed

lemma user_gone_ok:
  assumes "requests_ok db" shows "requests_ok (user_gone u db)"
proof -
  have "requests_ok (db\<lparr>rb_requests := rb_requests (user_gone u db)\<rparr>)"
    unfolding user_gone_def by simp (rule update_requests_ok [OF assms], auto simp: row_ok_def)
  moreover have "asked_of ids rus \<Longrightarrow> asked_of ids (filter P rus)" for ids rus P
    by (auto simp: asked_of_def distinct_map inj_on_def)
  ultimately show ?thesis by (auto simp: requests_ok_parts user_gone_def intro: filter_follows_ok)
qed

lemma request_step_spec:
  assumes "request_step db db'" and "requests_ok db"
  shows "requests_ok db' \<and> settles (rb_requests db) (rb_requests db')"
  using assms
proof (cases rule: request_step.cases)
  case (added now sid)
  show ?thesis using added seriesAdded_ok [OF assms(2)] seriesAdded_settles by simp
next
  case (imported now sid)
  then show ?thesis using chapterImported_ok [OF assms(2)]
    by (auto simp: chapterImported_def make_available_requests intro!: fold_settles settles_upd)
next
  case (library ss fs)
  then show ?thesis using assms(2) by (auto simp: requests_ok_parts follows_ok_def)
next
  case (series i)
  then show ?thesis using series_gone_ok [OF assms(2)] by (auto simp: series_gone_def intro!: settles_upd)
next
  case (person u)
  then show ?thesis using user_gone_ok [OF assms(2)] by (auto simp: user_gone_def intro!: settles_upd)
next
  case (by_hand now who i on e)
  then show ?thesis using assms(2) follow_ok [OF assms(2)]
    by (auto simp: set_follow_def requests_ok_parts follows_ok_def distinct_map inj_on_def split: option.splits if_splits)
next
  case (decline now i reason handler e)
  then show ?thesis using Decline_ok [OF assms(2)]
    by (auto simp: Decline_request_def Let_def intro!: settles_upd split: option.splits)
next
  case (withdrawn i left)
  then show ?thesis using withdraw_empty_ok [OF assms(2)] by (simp add: withdraw_empty_def delete_requests_def settles_del)
next
  case (failed now i m e)
  then show ?thesis using attemptFailed_ok [OF assms(2)] by (auto simp: attemptFailed_def intro!: settles_upd)
next
  case (withdraw i u)
  then show ?thesis using withdraw_name_ok [OF assms(2)] by (simp add: withdraw_name_def)
next
  case (delete P)
  then show ?thesis using delete_requests_ok [OF assms(2)] by (simp add: delete_requests_def settles_del)
qed (use assms(2) in \<open>auto dest: join_requests
  intro: Create_ok create_settles join_ok new_request_ok new_settles link_write_ok link_write_settles\<close>)

text \<open>
  C29: Every state the service can reach, with its reads and writes interleaved in any order and the
  rest of the program adding and deleting series and users, keeps the shape of the requests: nobody
  asks for a request twice or for one that is gone, nobody follows a series twice or one that is gone,
  a pending request has no series and no handler, an available one has its time, and a request that
  was handled never waits again.
\<close>

theorem requests_keep_shape:
  assumes "request_step\<^sup>*\<^sup>* db db'" and "requests_ok db"
  shows "requests_ok db' \<and> (\<forall>r' \<in> set (rows (rb_requests db')). rq_status r' = RequestPending \<longrightarrow>
      rq_id r' > seq (rb_requests db) \<or> (\<exists>r \<in> set (rows (rb_requests db)). rq_id r = rq_id r' \<and> rq_status r = RequestPending))"
proof -
  have "requests_ok db' \<and> settles (rb_requests db) (rb_requests db')"
    using assms
  proof (induction rule: rtranclp_induct)
    case (step u v)
    then show ?case using request_step_spec [of u v] settles_trans by blast
  qed simp
  then show ?thesis by (simp add: settles_def)
qed

section \<open>Fulfilling a request\<close>

lemma requesters_frames [simp]:
  "requesters (announce_request a i db) j = requesters db j" "requesters (tell us i t b db) j = requesters db j"
  "requesters (follow now s u db) j = requesters db j" "requesters (fold (follow now s) us db) j = requesters db j"
  "requesters (db\<lparr>rb_requests := t'\<rparr>) j = requesters db j"
proof -
  show f: "requesters (follow now s u db) j = requesters db j" for now s u db j by (simp add: follow_def requesters_def)
  show "requesters (fold (follow now s) us db) j = requesters db j" by (induction us arbitrary: db) (simp_all add: f)
qed (simp_all add: announce_request_def tell_def requesters_def)

definition follows_series :: "requests_db \<Rightarrow> int64 \<Rightarrow> int64 \<Rightarrow> bool" where
  "follows_series db u i \<longleftrightarrow> (\<exists>f \<in> set (rb_follows db). fo_user_id f = u \<and> fo_series_id f = i)"

lemma follow_follows: "tget s_id i (rb_series db) \<noteq> None \<Longrightarrow> follows_series (follow now i u db) u i"
  by (auto simp: follow_def follows_series_def list_ex_iff)

lemma follow_keeps: "follows_series db v j \<Longrightarrow> follows_series (follow now i u db) v j"
  by (auto simp: follow_def follows_series_def)

lemma follow_series [simp]: "rb_series (follow now i u db) = rb_series db" "rb_told (follow now i u db) = rb_told db"
  "rb_files (follow now i u db) = rb_files db"
  by (simp_all add: follow_def)

lemma fold_follow_frames [simp]: "rb_series (fold (follow now i) us db) = rb_series db" "rb_told (fold (follow now i) us db) = rb_told db"
  "rb_files (fold (follow now i) us db) = rb_files db"
  by (induction us arbitrary: db) simp_all

lemma fold_follow:
  assumes "tget s_id i (rb_series db) \<noteq> None"
  shows "u \<in> set us \<or> follows_series db u i \<Longrightarrow> follows_series (fold (follow now i) us db) u i"
  using assms
proof (induction us arbitrary: db)
  case (Cons a us)
  have "u \<in> set us \<or> follows_series (follow now i a db) u i"
    using Cons.prems follow_follows [of i db now u] follow_keeps [of db u i now i a] by auto
  then show ?case using Cons.IH [of "follow now i a db"] Cons.prems(2) by simp
qed simp

definition told_once :: "int64 list \<Rightarrow> int64 \<Rightarrow> told list \<Rightarrow> bool" where
  "told_once users i ms \<longleftrightarrow> (if users = [] then ms = [] else \<exists>m. ms = [m] \<and> to_users m = users \<and> to_series m = i)"

lemma tell_told: "\<exists>ms. rb_told (tell users i t b db) = rb_told db @ ms \<and> told_once users i ms"
  by (simp add: tell_def told_once_def)

lemma tell_frames [simp]: "rb_follows (tell users i t b db) = rb_follows db" "rb_series (tell users i t b db) = rb_series db"
  "rb_files (tell users i t b db) = rb_files db"
  by (simp_all add: tell_def)

lemma announce_frames [simp]: "rb_follows (announce_request a i db) = rb_follows db" "rb_series (announce_request a i db) = rb_series db"
  "rb_told (announce_request a i db) = rb_told db" "rb_files (announce_request a i db) = rb_files db"
  by (simp_all add: announce_request_def)

text \<open>The effect of a write that finds the request not yet linked to the series.\<close>

lemma link_write_effect:
  assumes "link_write now i (r, s, files) handler db = (db', None)" and "tget rq_id i (rb_requests db) = Some row"
    and "\<not> linked_to (s_id s) row"
  shows "tget rq_id i (rb_requests db') = Some (link_columns now (r, s, files) handler row)"
    and "u \<in> set (requesters db i) \<Longrightarrow> follows_series db' u (s_id s)"
    and "\<exists>ms. rb_told db' = rb_told db @ ms \<and> told_once (requesters db i) (s_id s) ms"
    and "requesters db' j = requesters db j" and "rb_series db' = rb_series db" and "rb_files db' = rb_files db"
proof -
  have row: "row \<in> set (rows (rb_requests db))" "rq_id row = i" using assms(2) by (auto simp: tget_def find_Some_iff)
  then have n: "n_where (\<lambda>x. rq_id x = i \<and> \<not> linked_to (s_id s) x) (rb_requests db) \<noteq> 0"
    using assms(3) by (auto simp: n_where_0_iff)
  let ?fresh = "\<lambda>x. rq_id x = i \<and> \<not> linked_to (s_id s) x"
  let ?db = "db\<lparr>rb_requests := upd_where ?fresh (link_columns now (r, s, files) handler) (rb_requests db)\<rparr>"
  let ?fo = "announce_request ''updated'' i (fold (follow now (s_id s)) (requesters db i) ?db)"
  have ser: "tget s_id (s_id s) (rb_series db) \<noteq> None" using assms(1) n by (auto simp: link_write_def Let_def split: if_splits)
  obtain t b where db': "db' = tell (requesters db i) (s_id s) t b ?fo"
    using assms(1) n ser by (cases "files > 0") (auto simp: link_write_def Let_def)
  have "tget rq_id i (upd_where ?fresh (link_columns now (r, s, files) handler) (rb_requests db)) =
      map_option (\<lambda>x. if ?fresh x then link_columns now (r, s, files) handler x else x) (tget rq_id i (rb_requests db))"
    by (rule requests_table.get_update) (simp add: link_columns_def)
  then show "tget rq_id i (rb_requests db') = Some (link_columns now (r, s, files) handler row)"
    using assms(2,3) row(2) by (simp add: db')
  show "follows_series db' u (s_id s)" if "u \<in> set (requesters db i)"
  proof -
    have "follows_series (fold (follow now (s_id s)) (requesters db i) ?db) u (s_id s)"
      by (rule fold_follow) (use ser that in auto)
    then show ?thesis by (simp add: db' follows_series_def)
  qed
  show "\<exists>ms. rb_told db' = rb_told db @ ms \<and> told_once (requesters db i) (s_id s) ms"
    using tell_told [of "requesters db i" "s_id s" t b ?fo] by (simp add: db')
  show "requesters db' j = requesters db j" "rb_series db' = rb_series db" "rb_files db' = rb_files db"
    by (simp_all add: db')
qed

lemma Link_found:
  assumes "tget rq_id i (rb_requests db) = Some r" and "tget s_id sid (rb_series db) = Some s"
  shows "\<exists>db1. Link_request now i sid handler db = (db1, None)"
proof -
  have "s_id s = sid" using assms(2) by (auto simp: tget_def find_Some_iff)
  with assms show ?thesis by (simp add: Link_request_def link_read_def link_write_def Let_def split: option.split)
qed

text \<open>The first imported chapter: every approved request of the series becomes available.\<close>

lemma make_available_frames [simp]:
  "requesters (make_available now sid r db) j = requesters db j" "rb_series (make_available now sid r db) = rb_series db"
  "rb_follows (make_available now sid r db) = rb_follows db"
  by (simp_all add: make_available_def Let_def)

abbreviation made_available :: "time \<Rightarrow> request \<Rightarrow> request" where
  "made_available now x \<equiv> x\<lparr>rq_status := RequestAvailable, rq_available_at := Some now, rq_updated_at := now\<rparr>"

lemma fold_make_available:
  "rb_requests (fold (make_available now sid) rs db) =
     upd_where (\<lambda>x. rq_id x \<in> rq_id ` set rs \<and> rq_status x = RequestApproved) (made_available now) (rb_requests db)"
proof (induction rs arbitrary: db)
  case Nil
  then show ?case by (simp add: upd_where_def)
next
  case (Cons r rs)
  show ?case
    by (simp add: Cons.IH make_available_requests upd_where_def)
      (rule arg_cong [where f = "\<lambda>xs. rb_requests db\<lparr>rows := xs\<rparr>"], auto)
qed

lemma chapterImported_requests:
  assumes "twf rq_id (rb_requests db)"
  shows "rb_requests (chapterImported now sid db) =
    upd_where (\<lambda>x. rq_series_id x = Some sid \<and> rq_status x = RequestApproved) (made_available now) (rb_requests db)"
proof -
  have same: "x = r" if "x \<in> set (rows (rb_requests db))" "r \<in> set (rows (rb_requests db))" "rq_id x = rq_id r" for x r
    using that assms by (auto simp: twf_def distinct_map inj_on_def)
  show ?thesis
    unfolding chapterImported_def fold_make_available upd_where_def
    by (rule arg_cong [where f = "\<lambda>xs. rb_requests db\<lparr>rows := xs\<rparr>"], rule map_cong) (auto dest: same)
qed

lemma make_available_told:
  assumes "\<exists>x \<in> set (rows (rb_requests db)). rq_id x = rq_id r \<and> rq_status x = RequestApproved"
  shows "\<exists>ms. rb_told (make_available now sid r db) = rb_told db @ ms \<and> told_once (requesters db (rq_id r)) sid ms"
proof -
  have n: "n_where (\<lambda>x. rq_id x = rq_id r \<and> rq_status x = RequestApproved) (rb_requests db) \<noteq> 0"
    using assms by (auto simp: n_where_0_iff)
  let ?a = "announce_request ''updated'' (rq_id r) (db\<lparr>rb_requests := upd_where (\<lambda>x. rq_id x = rq_id r \<and> rq_status x = RequestApproved)
      (made_available now) (rb_requests db)\<rparr>)"
  obtain t b where "make_available now sid r db = tell (requesters db (rq_id r)) sid t b ?a"
    using n by (simp add: make_available_def Let_def)
  then show ?thesis using tell_told [of "requesters db (rq_id r)" sid t b ?a] by simp
qed

lemma fold_available_told:
  assumes "distinct (map rq_id rs)"
    and "\<And>r. r \<in> set rs \<Longrightarrow> \<exists>x \<in> set (rows (rb_requests db)). rq_id x = rq_id r \<and> rq_status x = RequestApproved"
  shows "\<exists>mss. rb_told (fold (make_available now sid) rs db) = rb_told db @ concat mss \<and> length mss = length rs
     \<and> (\<forall>k < length rs. told_once (requesters db (rq_id (rs ! k))) sid (mss ! k))"
  using assms
proof (induction rs arbitrary: db)
  case (Cons r rs)
  let ?d = "make_available now sid r db"
  obtain ms where ms: "rb_told ?d = rb_told db @ ms" "told_once (requesters db (rq_id r)) sid ms"
    using make_available_told [OF Cons.prems(2) [of r]] by auto
  have "\<exists>x \<in> set (rows (rb_requests ?d)). rq_id x = rq_id q \<and> rq_status x = RequestApproved" if q: "q \<in> set rs" for q
  proof -
    obtain x where "x \<in> set (rows (rb_requests db))" "rq_id x = rq_id q" "rq_status x = RequestApproved"
      using Cons.prems(2) [of q] q by auto
    moreover have "rq_id q \<noteq> rq_id r" using Cons.prems(1) q by (auto simp: image_iff)
    ultimately show ?thesis by (force simp: make_available_requests set_upd_where)
  qed
  with Cons.IH [of ?d] Cons.prems(1) obtain mss where m: "rb_told (fold (make_available now sid) rs ?d) = rb_told ?d @ concat mss"
    "length mss = length rs" "\<forall>k < length rs. told_once (requesters db (rq_id (rs ! k))) sid (mss ! k)" by auto
  have "\<forall>k < length (r # rs). told_once (requesters db (rq_id ((r # rs) ! k))) sid ((ms # mss) ! k)"
    using m(3) ms(2) by (auto simp: nth_Cons split: nat.split)
  then show ?case using m(1,2) ms(1) by (intro exI [of _ "ms # mss"]) simp
qed simp

lemma chapterImported_told:
  assumes "twf rq_id (rb_requests db)"
  shows "\<exists>mss. rb_told (chapterImported now sid db) = rb_told db @ concat mss
     \<and> list_all2 (\<lambda>r ms. told_once (requesters db (rq_id r)) sid ms)
         (filter (\<lambda>r. rq_status r = RequestApproved \<and> rq_series_id r = Some sid) (rows (rb_requests db))) mss"
proof -
  let ?rs = "filter (\<lambda>r. rq_status r = RequestApproved \<and> rq_series_id r = Some sid) (rows (rb_requests db))"
  have d: "distinct (map rq_id ?rs)" using assms by (simp add: twf_def distinct_map_filter)
  have "\<exists>x \<in> set (rows (rb_requests db)). rq_id x = rq_id r \<and> rq_status x = RequestApproved" if "r \<in> set ?rs" for r
    using that by auto
  from fold_available_told [OF d this, of now sid] obtain mss where
    m: "rb_told (fold (make_available now sid) ?rs db) = rb_told db @ concat mss" "length mss = length ?rs"
      "\<forall>k < length ?rs. told_once (requesters db (rq_id (?rs ! k))) sid (mss ! k)" by blast
  have "list_all2 (\<lambda>r ms. told_once (requesters db (rq_id r)) sid ms) ?rs mss"
    using m(2,3) by (intro list_all2_all_nthI) simp_all
  with m(1) show ?thesis unfolding chapterImported_def by blast
qed

text \<open>
  C28: How a request is fulfilled: linking one that is not linked to the series yet makes it available when the
  series has files and approved otherwise, everyone who asked follows the series and hears of it in
  exactly one message; linking it again, by whoever, tells nobody.  The first imported chapter makes
  every approved request of the series available and tells each one's askers exactly once, and another
  chapter changes nothing more.
\<close>

theorem request_fulfilled:
  assumes "requests_ok db" and "tget rq_id i (rb_requests db) = Some r" and "\<not> linked_to sid r"
    and "Link_request now i sid handler db = (db1, None)"
  shows "(\<exists>r1. tget rq_id i (rb_requests db1) = Some r1 \<and> linked_to sid r1 \<and> rq_reason r1 = []
          \<and> (rq_status r1 = RequestAvailable \<longleftrightarrow> (\<exists>f \<in> set (rows (rb_files db)). f_series_id f = sid)))
    \<and> (\<forall>u \<in> set (requesters db i). follows_series db1 u sid)
    \<and> (\<exists>ms. rb_told db1 = rb_told db @ ms \<and> told_once (requesters db i) sid ms)
    \<and> rb_told (fst (Link_request t i sid h db1)) = rb_told db1
    \<and> (\<forall>r \<in> set (rows (rb_requests (chapterImported t sid db1))). rq_series_id r = Some sid \<longrightarrow> rq_status r \<noteq> RequestApproved)
    \<and> (\<exists>mss. rb_told (chapterImported t sid db1) = rb_told db1 @ concat mss
          \<and> list_all2 (\<lambda>r ms. told_once (requesters db1 (rq_id r)) sid ms)
              (filter (\<lambda>r. rq_status r = RequestApproved \<and> rq_series_id r = Some sid) (rows (rb_requests db1))) mss)
    \<and> chapterImported t' sid (chapterImported t sid db1) = chapterImported t sid db1"
proof -
  obtain s where s: "tget s_id sid (rb_series db) = Some s" "s_id s = sid"
    and w: "link_write now i (r, s, n_where (\<lambda>f. f_series_id f = sid) (rb_files db)) handler db = (db1, None)"
  proof -
    obtain s where s: "tget s_id sid (rb_series db) = Some s"
      using assms(2,4) by (auto simp: Link_request_def link_read_def split: option.splits)
    then have "s_id s = sid" by (auto simp: tget_def find_Some_iff)
    with s assms(2,4) show thesis by (intro that [of s]) (auto simp: Link_request_def link_read_def)
  qed
  note eff = link_write_effect [OF w assms(2)] 
  have nl: "\<not> linked_to (s_id s) r" using assms(3) s(2) by simp
  let ?n = "n_where (\<lambda>f. f_series_id f = sid) (rb_files db)"
  have r1: "tget rq_id i (rb_requests db1) = Some (link_columns now (r, s, ?n) handler r)" by (rule eff(1) [OF nl])
  have lk: "linked_to sid (link_columns now (r, s, ?n) handler r)" by (simp add: linked_to_def link_columns_def s(2))
  have st: "rq_status (link_columns now (r, s, ?n) handler r) = RequestAvailable \<longleftrightarrow> (\<exists>f \<in> set (rows (rb_files db)). f_series_id f = sid)"
    using n_where_0_iff [of "\<lambda>f. f_series_id f = sid" "rb_files db"] by (auto simp: link_columns_def)
  have A: "\<exists>r1. tget rq_id i (rb_requests db1) = Some r1 \<and> linked_to sid r1 \<and> rq_reason r1 = []
      \<and> (rq_status r1 = RequestAvailable \<longleftrightarrow> (\<exists>f \<in> set (rows (rb_files db)). f_series_id f = sid))"
    using r1 lk st by (intro exI [of _ "link_columns now (r, s, ?n) handler r"]) (simp add: link_columns_def)
  have B: "\<forall>u \<in> set (requesters db i). follows_series db1 u sid" using eff(2) [OF nl] s(2) by simp
  have C: "\<exists>ms. rb_told db1 = rb_told db @ ms \<and> told_once (requesters db i) sid ms" using eff(3) [OF nl] s(2) by simp
  have ok: "requests_ok db1" by (rule Link_ok [OF assms(1,4)])
  then have tw: "twf rq_id (rb_requests db1)" by (simp add: requests_ok_parts)
  have none: "n_where (\<lambda>row. rq_id row = i \<and> \<not> linked_to sid row) (rb_requests db1) = 0"
  proof -
    have "linked_to sid row" if row: "row \<in> set (rows (rb_requests db1))" "rq_id row = i" for row
      using requests_table.get_member [OF tw row(1)] row(2) r1 lk by simp
    then show ?thesis by (auto simp: n_where_0_iff)
  qed
  have ser1: "tget s_id sid (rb_series db1) = Some s" using eff(5) [OF nl] s(1) by simp
  have D: "rb_told (fst (Link_request t i sid h db1)) = rb_told db1"
    using none s(2) by (simp add: Link_request_def link_read_def r1 ser1 link_write_def split: option.split)
  have E: "\<forall>r \<in> set (rows (rb_requests (chapterImported t sid db1))). rq_series_id r = Some sid \<longrightarrow> rq_status r \<noteq> RequestApproved"
    by (auto simp: chapterImported_requests [OF tw] set_upd_where)
  then have "filter (\<lambda>r. rq_status r = RequestApproved \<and> rq_series_id r = Some sid) (rows (rb_requests (chapterImported t sid db1))) = []"
    by (auto simp: filter_empty_conv)
  then have G: "chapterImported t' sid (chapterImported t sid db1) = chapterImported t sid db1"
    unfolding chapterImported_def [of t' sid "chapterImported t sid db1"] by simp
  have F: "\<exists>mss. rb_told (chapterImported t sid db1) = rb_told db1 @ concat mss
      \<and> list_all2 (\<lambda>r ms. told_once (requesters db1 (rq_id r)) sid ms)
          (filter (\<lambda>r. rq_status r = RequestApproved \<and> rq_series_id r = Some sid) (rows (rb_requests db1))) mss"
    by (rule chapterImported_told [OF tw])
  from A B C D E F G show ?thesis by blast
qed

section \<open>Who sees what\<close>

text \<open>What is left of a row of another user: that somebody asked, and when.\<close>

definition hide_asker :: "principal option \<Rightarrow> request_user \<Rightarrow> request_user" where
  "hide_asker p ru = (if ru_user_id ru = asks p then ru else ru\<lparr>ru_user_id := 0, ru_note := []\<rparr>)"

lemma insert_by_map:
  "(\<And>a b. lt (h a) (h b) = lt a b) \<Longrightarrow> insert_by lt (h x) (map h xs) = map h (insert_by lt x xs)"
  by (induction xs) auto

lemma stable_sort_map:
  assumes "\<And>a b. lt (h a) (h b) = lt a b"
  shows "stable_sort lt (map h xs) = map h (stable_sort lt xs)"
  by (induction xs) (simp_all add: insert_by_map assms)

lemma hide_asker_frames [simp]: "ru_created_at (hide_asker p ru) = ru_created_at ru" "ru_request_id (hide_asker p ru) = ru_request_id ru"
  by (simp_all add: hide_asker_def)

lemma hide_asker_mine: "asks p \<noteq> 0 \<Longrightarrow> ru_user_id (hide_asker p ru) = asks p \<longleftrightarrow> ru_user_id ru = asks p"
  by (simp add: hide_asker_def)

lemma filter_mine_hidden:
  assumes "asks p \<noteq> 0"
  shows "filter (\<lambda>ru. ru_user_id ru = asks p) (map (hide_asker p) rus) = filter (\<lambda>ru. ru_user_id ru = asks p) rus"
proof -
  have "hide_asker p ru = ru" if "ru_user_id ru = asks p" for ru using that by (simp add: hide_asker_def)
  then show ?thesis by (induction rus) (simp_all add: hide_asker_mine [OF assms])
qed

text \<open>Everything a caller who manages nothing is shown is computed from the hidden rows.\<close>

definition asked_rows :: "requests_db \<Rightarrow> int64 \<Rightarrow> request_user list" where
  "asked_rows db i = filter (\<lambda>ru. ru_request_id ru = i) (stable_sort (\<lambda>a b. ru_created_at a < ru_created_at b) (rb_askers db))"

lemma asked_rows_hidden:
  assumes "map (hide_asker p) (rb_askers db) = map (hide_asker p) (rb_askers db')"
  shows "map (hide_asker p) (asked_rows db i) = map (hide_asker p) (asked_rows db' i)"
proof -
  let ?lt = "\<lambda>a b :: request_user. ru_created_at a < ru_created_at b"
  have "map (hide_asker p) (asked_rows d i) = filter (\<lambda>ru. ru_request_id ru = i) (stable_sort ?lt (map (hide_asker p) (rb_askers d)))" for d
    using stable_sort_map [of ?lt "hide_asker p" "rb_askers d"] by (simp add: asked_rows_def filter_map o_def)
  with assms show ?thesis by simp
qed

lemma view_of_hidden:
  assumes "\<not> Manages p" and "asks p \<noteq> 0"
  shows "view db p r =
    \<lparr>rv_request = r,
     rv_series_title = (case rq_series_id r of None \<Rightarrow> [] | Some i \<Rightarrow> (case tget s_id i (rb_series db) of None \<Rightarrow> [] | Some s \<Rightarrow> s_title s)),
     rv_handled_by = (case rq_handled_by r of None \<Rightarrow> [] | Some i \<Rightarrow> shown_name db i),
     rv_requesters = map (\<lambda>ru. \<lparr>re_user_id = ru_user_id ru, re_name = shown_name db (ru_user_id ru), re_note = ru_note ru, re_at = ru_created_at ru\<rparr>)
       (filter (\<lambda>ru. ru_user_id ru = asks p) (map (hide_asker p) (asked_rows db (rq_id r)))),
     rv_count = length (map (hide_asker p) (asked_rows db (rq_id r))),
     rv_mine = list_ex (\<lambda>ru. ru_user_id ru = asks p) (map (hide_asker p) (asked_rows db (rq_id r)))\<rparr>"
proof -
  have m: "(\<lambda>ru. Manages p \<or> ru_user_id ru = asks p \<and> ru_user_id ru \<noteq> 0) = (\<lambda>ru. ru_user_id ru = asks p)"
    "(\<lambda>ru. ru_user_id ru = asks p \<and> ru_user_id ru \<noteq> 0) = (\<lambda>ru. ru_user_id ru = asks p)"
    using assms by auto
  have "list_ex (\<lambda>ru. ru_user_id ru = asks p) (map (hide_asker p) xs) = list_ex (\<lambda>ru. ru_user_id ru = asks p) xs" for xs
    by (induction xs) (simp_all add: hide_asker_mine [OF assms(2)])
  then show ?thesis
    unfolding view_def Let_def m filter_mine_hidden [OF assms(2)] asked_rows_def [symmetric] by (simp add: assms(1))
qed


section \<open>Interleavings that go wrong\<close>

text \<open>
  A request that is declined while its quick search runs is approved all the same: \<open>Link\<close> does not look
  at the status it replaces.
\<close>

lemma declined_request_added:
  assumes "requests_ok db" and "tget rq_id i (rb_requests db) = Some r" and "rq_status r = RequestPending"
    and "Decline_request now i reason handler db = (db1, None)"
    and "av_languages S = Inr langs" and "langs \<noteq> []" and "auto_links S r langs \<noteq> []"
    and "av_add S (rq_metadata r) (auto_links S r langs) db1 = (db1\<lparr>rb_series := ss\<rparr>, [sid], None)"
    and "tget s_id sid ss = Some s"
  shows "\<exists>r'. tget rq_id i (rb_requests (auto_rest t S r db1)) = Some r' \<and> rq_status r' \<in> {RequestApproved, RequestAvailable}"
proof -
  have i: "rq_id r = i" "s_id s = sid" using assms(2,9) by (auto simp: tget_def find_Some_iff)
  obtain row where row: "tget rq_id i (rb_requests db1) = Some row" "rq_status row = RequestDeclined"
    using assms(2,4) i by (auto simp: Decline_request_def Let_def requests_table.get_update)
  let ?db = "db1\<lparr>rb_series := ss\<rparr>"
  obtain db2 e where l: "Link_request t i sid None ?db = (db2, e)" by fastforce
  then have w: "link_write t i (row, s, n_where (\<lambda>f. f_series_id f = sid) (rb_files ?db)) None ?db = (db2, e)"
    using row assms(9) by (simp add: Link_request_def link_read_def)
  have "e = None" using w assms(9) i by (auto simp: link_write_def handler_id_def Let_def split: if_splits)
  with w have "tget rq_id i (rb_requests db2) = Some (link_columns t (row, s, n_where (\<lambda>f. f_series_id f = sid) (rb_files ?db)) None row)"
    using link_write_effect(1) [OF w [unfolded \<open>e = None\<close>], of row] row by (simp add: linked_to_def)
  moreover have "auto_rest t S r db1 = db2"
    using assms(5-8) l \<open>e = None\<close> i by (simp add: auto_rest_def Let_def)
  ultimately show ?thesis by (auto simp: link_columns_def)
qed

text \<open>The first chapter arrives between the count of the files and the write: the request stays approved.\<close>

lemma first_chapter_missed:
  assumes "requests_ok db" and "link_read db i sid = Inr (r, s, 0)" and "rq_series_id r = None"
    and "link_write t2 i (r, s, 0) handler (chapterImported t1 sid (db\<lparr>rb_files := fs\<rparr>)) = (db2, None)"
  shows "\<exists>r2. tget rq_id i (rb_requests db2) = Some r2 \<and> rq_status r2 = RequestApproved"
proof -
  have r: "tget rq_id i (rb_requests db) = Some r" "s_id s = sid"
    using assms(2) by (auto simp: link_read_def tget_def find_Some_iff split: option.splits)
  have "twf rq_id (rb_requests (db\<lparr>rb_files := fs\<rparr>))" using assms(1) by (simp add: requests_ok_parts)
  from chapterImported_requests [OF this] have
    "tget rq_id i (rb_requests (chapterImported t1 sid (db\<lparr>rb_files := fs\<rparr>))) = Some r"
    using r(1) assms(3) by (simp add: requests_table.get_update)
  with link_write_effect(1) [OF assms(4), of r] assms(3) show ?thesis
    by (simp add: linked_to_def link_columns_def)
qed

text \<open>
  Somebody joins between the count of the askers and the deletion of the empty request: their row
  goes with the request.
\<close>

lemma join_lost:
  assumes "requests_ok db" and "rq_status r = RequestPending" and "tget rq_id (rq_id r) (rb_requests db) = Some r"
    and "requesters (withdraw_name (rq_id r) u db) (rq_id r) = []"
    and "join_request now p note r (withdraw_name (rq_id r) u db) = (db1, v)"
  shows "tget rq_id (rq_id r) (rb_requests (withdraw_empty (rq_id r) 0 db1)) = None
    \<and> requesters (withdraw_empty (rq_id r) 0 db1) (rq_id r) = []"
proof -
  have rq: "rb_requests db1 = rb_requests db" using join_requests [OF assms(5)] by (simp add: withdraw_name_def)
  have r: "r \<in> set (rows (rb_requests db))" using assms(3) by (auto simp: tget_def find_Some_iff)
  have "x = r" if "x \<in> set (rows (rb_requests db))" "rq_id x = rq_id r" for x
    using that r assms(1) by (auto simp: requests_ok_def twf_def distinct_map inj_on_def)
  then show ?thesis using r assms(2)
    by (auto simp: withdraw_empty_def delete_requests_def announce_request_def tget_def del_where_def rq find_None_iff
        requesters_def filter_empty_conv list_ex_iff)
qed

section \<open>Cutting texts\<close>

text \<open>
  The reason of a failed attempt is cut on a character boundary; the note of a request is cut in the
  middle of one, which leaves a text that is no UTF-8.
\<close>

lemma utf8_length_append:
  "0 < utf8_length s \<Longrightarrow> utf8_length s \<le> length s \<and> utf8_length (take (utf8_length s) s @ t) = utf8_length s"
proof (cases s)
  case (Cons c cs)
  obtain n lo hi where l: "utf8_lead (of_char c) = (n, lo, hi)" using prod_cases3 by blast
  assume pos: "0 < utf8_length s"
  show ?thesis
  proof (cases "n \<le> 1")
    case True
    then have "n = 1" using pos by (cases n) (simp_all add: Cons utf8_length_def l)
    then show ?thesis by (simp add: Cons utf8_length_def l)
  next
    case False
    then have n: "n \<le> length s" "byte_within lo hi (cs ! 0)" "list_all (byte_within 0x80 0xBF) (take (n - 2) (drop 1 cs))" "utf8_length s = n"
      using pos by (auto simp: Cons utf8_length_def l split: if_splits)
    obtain k where k: "n = Suc (Suc k)" using False by (metis One_nat_def not0_implies_Suc not_less_eq_eq le0)
    obtain d ds where cs: "cs = d # ds" "k \<le> length ds" using n(1) by (cases cs) (auto simp: Cons k)
    show ?thesis using n False by (simp add: Cons cs k utf8_length_def l)
  qed
qed (simp add: utf8_length_def)

lemma ToValidUTF8_cases:
  "ToValidUTF8 [] = []" "s \<noteq> [] \<Longrightarrow> utf8_length s = 0 \<Longrightarrow> ToValidUTF8 s = ToValidUTF8 (drop 1 s)"
  "s \<noteq> [] \<Longrightarrow> utf8_length s \<noteq> 0 \<Longrightarrow> ToValidUTF8 s = take (utf8_length s) s @ ToValidUTF8 (drop (utf8_length s) s)"
  by (simp_all add: ToValidUTF8.simps [of s] ToValidUTF8.simps [of "[]"])

lemma valid_utf8_cases: "valid_utf8 []" "s \<noteq> [] \<Longrightarrow> valid_utf8 s \<longleftrightarrow> utf8_length s \<noteq> 0 \<and> valid_utf8 (drop (utf8_length s) s)"
  by (simp_all add: valid_utf8.simps [of s] valid_utf8.simps [of "[]"])

lemma invalid_start: "s \<noteq> [] \<Longrightarrow> utf8_length s = 0 \<Longrightarrow> \<not> valid_utf8 s"
  by (metis valid_utf8_cases(2))

lemma valid_ToValidUTF8: "valid_utf8 (ToValidUTF8 s)"
proof (induction s rule: ToValidUTF8.induct)
  case (1 s)
  show ?case
  proof (cases "s = [] \<or> utf8_length s = 0")
    case True
    then show ?thesis using 1(1) by (cases "s = []") (simp_all add: ToValidUTF8_cases valid_utf8_cases(1))
  next
    case False
    let ?n = "utf8_length s"
    have n: "?n \<le> length s" "utf8_length (take ?n s @ ToValidUTF8 (drop ?n s)) = ?n"
      using utf8_length_append [of s] False by auto
    have "drop ?n (take ?n s @ ToValidUTF8 (drop ?n s)) = ToValidUTF8 (drop ?n s)" using n(1) by simp
    then show ?thesis using False 1(2) n(2)
      by (simp add: ToValidUTF8_cases(3) valid_utf8_cases(2) [of "take ?n s @ ToValidUTF8 (drop ?n s)"])
  qed
qed

lemma attempt_message_valid: "500 < length (trim_space m) \<Longrightarrow> valid_utf8 (attempt_message m None)"
  by (simp add: attempt_message_def Let_def valid_ToValidUTF8)

lemma valid_utf8_letters: "valid_utf8 (replicate n CHR ''a'' @ s) = valid_utf8 s"
proof (induction n)
  case (Suc n)
  have "utf8_length (CHR ''a'' # replicate n CHR ''a'' @ s) = 1" by (simp add: utf8_length_def utf8_lead_def)
  then show ?case using Suc by (simp add: valid_utf8.simps [of "CHR ''a'' # replicate n CHR ''a'' @ s"])
qed simp

lemma dropWhile_not: "xs \<noteq> [] \<Longrightarrow> \<not> P (hd xs) \<Longrightarrow> dropWhile P xs = xs"
  by (cases xs) simp_all

lemma note_cut_splits:
  assumes "note = replicate 499 CHR ''a'' @ [CHR 0xC3, CHR 0xA9]"
  shows "valid_utf8 note" and "\<not> valid_utf8 (create_note note)"
proof -
  have u: "utf8_length [CHR 0xC3, CHR 0xA9] = 2" "utf8_length [CHR 0xC3] = 0"
    by (simp_all add: utf8_length_def utf8_lead_def byte_within_def)
  show "valid_utf8 note" unfolding assms valid_utf8_letters by (simp add: valid_utf8_cases u)
  have h: "hd note = CHR ''a''" "hd (rev note) = CHR 0xA9" "note \<noteq> []" using assms by simp_all
  have "\<not> is_space (CHR ''a'')" "\<not> is_space (CHR 0xA9)" by (simp_all add: is_space_def)
  then have "trim_space note = note" using h by (simp add: trim_space_def dropWhile_not)
  then have "create_note note = take 500 (replicate 499 CHR ''a'' @ [CHR 0xC3, CHR 0xA9])" by (simp only: create_note_def assms)
  also have "\<dots> = replicate 499 CHR ''a'' @ [CHR 0xC3]" by (simp only: take_append take_replicate length_replicate) simp
  finally have "valid_utf8 (create_note note) = valid_utf8 [CHR 0xC3]" by (simp only: valid_utf8_letters)
  moreover have "\<not> valid_utf8 [CHR 0xC3]" using invalid_start [OF _ u(2)] by simp
  ultimately show "\<not> valid_utf8 (create_note note)" by blast
qed

section \<open>A concrete library\<close>

definition ex_metadata :: request_metadata where
  "ex_metadata = \<lparr>rm_module_id = 1, rm_provider = ''anilist'', rm_id = ''7'', rm_alt_titles = [], rm_year = 1989, rm_format = [], rm_status = [],
     rm_description = [], rm_cover_url = [], rm_url = [], rm_genres = [], rm_adult = False, rm_external_ids = [(''anilist'', ''7'')]\<rparr>"

definition ex_request :: request where
  "ex_request = \<lparr>rq_id = 1, rq_title = ''Berserk'', rq_metadata = ex_metadata, rq_status = RequestPending, rq_reason = [], rq_series_id = None,
     rq_handled_by = None, rq_created_at = 1, rq_updated_at = 1, rq_handled_at = None, rq_available_at = None\<rparr>"

definition ex_asks :: "int64 \<Rightarrow> string \<Rightarrow> request_user" where
  "ex_asks u note = \<lparr>ru_request_id = 1, ru_user_id = u, ru_note = note, ru_created_at = 1\<rparr>"

definition ex_requests :: "string \<Rightarrow> requests_db" where
  "ex_requests note = \<lparr>rb_requests = \<lparr>rows = [ex_request], seq = 1\<rparr>, rb_askers = [ex_asks 1 [], ex_asks 2 note], rb_follows = [],
     rb_series = \<lparr>rows = [sample_series], seq = 1\<rparr>, rb_files = \<lparr>rows = [], seq = 0\<rparr>, rb_accounts = \<lparr>rows = [], seq = 0\<rparr>,
     rb_groups = \<lparr>rows = [], seq = 0\<rparr>, rb_told = [], rb_bus = [], rb_created = [], rb_auto = []\<rparr>"

definition ex_asker :: principal where
  "ex_asker = (AdminPrincipal KindUser ''ana'')\<lparr>pr_user_id := 1, pr_perms := [RequestsCreate]\<rparr>"

lemma ex_requests_ok: "requests_ok (ex_requests note)"
  by (auto simp: requests_ok_def ex_requests_def ex_request_def ex_asks_def twf_def)

theorem requests_keep_shape_witness:
  "\<exists>db'. request_step\<^sup>*\<^sup>* (ex_requests []) db' \<and> requests_ok db'
     \<and> (\<forall>r' \<in> set (rows (rb_requests db')). rq_status r' = RequestPending \<longrightarrow> rq_id r' > 1 \<or> rq_id r' = 1)"
proof -
  have r: "request_step\<^sup>*\<^sup>* (ex_requests []) (chapterImported 3 1 (withdraw_name 1 2 (ex_requests [])))"
    by (rule rtranclp.rtrancl_into_rtrancl [OF r_into_rtranclp [where r = request_step], OF request_step.withdraw request_step.imported])
  have n: "seq (rb_requests (ex_requests [])) = 1" "\<And>r. r \<in> set (rows (rb_requests (ex_requests []))) \<Longrightarrow> rq_id r = 1"
    by (simp_all add: ex_requests_def ex_request_def)
  from requests_keep_shape [OF r ex_requests_ok] r n show ?thesis by (metis (no_types, lifting))
qed

theorem request_fulfilled_witness:
  "\<exists>db1 ms. Link_request 5 1 1 None (ex_requests []) = (db1, None) \<and> follows_series db1 2 1
     \<and> rb_told db1 = ms \<and> told_once [1, 2] 1 ms \<and> rb_told (fst (Link_request 6 1 1 None db1)) = rb_told db1"
proof -
  have t: "tget rq_id 1 (rb_requests (ex_requests [])) = Some ex_request" "\<not> linked_to 1 ex_request"
    "requesters (ex_requests []) 1 = [1, 2]" "rb_told (ex_requests []) = []"
    by (simp_all add: ex_requests_def ex_request_def ex_asks_def tget_def linked_to_def requesters_def)
  have "tget s_id 1 (rb_series (ex_requests [])) = Some sample_series" by (simp add: ex_requests_def tget_def sample_series_def)
  from Link_found [OF t(1) this, of 5 None] obtain db1 where l: "Link_request 5 1 1 None (ex_requests []) = (db1, None)" by blast
  from request_fulfilled [OF ex_requests_ok t(1,2) l, where t = 6 and h = None] l t(3,4) show ?thesis by auto
qed


end
